(* ===== verification/Prelude.thy ===== *)
theory Prelude
  imports Complex_Main
begin

text \<open>
  Shared vocabulary of the development: the Python values that reach the code untyped
  (decoded JSON, request bodies, configuration values), the conversions the code applies
  to them (\<open>bool\<close>, \<open>int\<close>, \<open>str\<close>, \<open>strip\<close>, \<open>lower\<close>), dictionaries that keep insertion
  order, and the results that carry an exception.

  A Python string is a list of characters; the model's characters are the code points
  0 to 255, and the character functions below are exact on that range.
\<close>

named_theorems py_simps \<open>conversions of Python values, for evaluation\<close>
named_theorems wf_intros \<open>preservation of well-formedness invariants\<close>

section \<open>Results\<close>

text \<open>\<open>Inl e\<close> is a raised exception, \<open>Inr v\<close> a returned value.\<close>

definition ebind :: "('e + 'a) \<Rightarrow> ('a \<Rightarrow> 'e + 'b) \<Rightarrow> 'e + 'b" where
  "ebind m f = (case m of Inl e \<Rightarrow> Inl e | Inr v \<Rightarrow> f v)"

lemma ebind_simps [simp]: "ebind (Inl e) f = Inl e" "ebind (Inr v) f = f v"
  by (simp_all add: ebind_def)

lemma ebind_Inr: "ebind m f = Inr v \<longleftrightarrow> (\<exists>u. m = Inr u \<and> f u = Inr v)"
  by (cases m) auto

lemma ebind_Inl: "ebind m f = Inl e \<longleftrightarrow> m = Inl e \<or> (\<exists>u. m = Inr u \<and> f u = Inl e)"
  by (cases m) auto

definition is_ok :: "'e + 'a \<Rightarrow> bool" where
  "is_ok m = (case m of Inl _ \<Rightarrow> False | Inr _ \<Rightarrow> True)"

lemma is_ok_simps [simp]: "\<not> is_ok (Inl e)" "is_ok (Inr v)"
  by (simp_all add: is_ok_def)

lemma is_ok_iff: "is_ok m \<longleftrightarrow> (\<exists>v. m = Inr v)"
  by (cases m) auto

text \<open>A loop that stops at the first exception.\<close>

fun emap :: "('a \<Rightarrow> 'e + 'b) \<Rightarrow> 'a list \<Rightarrow> 'e + 'b list" where
  "emap f [] = Inr []"
| "emap f (x # xs) = ebind (f x) (\<lambda>y. ebind (emap f xs) (\<lambda>ys. Inr (y # ys)))"

lemma emap_Inr_length: "emap f xs = Inr ys \<Longrightarrow> length ys = length xs"
  by (induction xs arbitrary: ys) (auto simp: ebind_Inr)

lemma emap_Inr_nth: "emap f xs = Inr ys \<Longrightarrow> i < length xs \<Longrightarrow> f (xs ! i) = Inr (ys ! i)"
proof (induction xs arbitrary: ys i)
  case Nil
  then show ?case by simp
next
  case (Cons x xs)
  then show ?case by (cases i) (auto simp: ebind_Inr)
qed

section \<open>Operations on a store\<close>

text \<open>An operation reads and writes a store and may raise; what it wrote before it raised stays
  written, unless it runs in a transaction.\<close>

type_synonym ('s, 'e, 'a) act = "'s \<Rightarrow> ('e + 'a) \<times> 's"

definition areturn :: "'a \<Rightarrow> ('s, 'e, 'a) act" where
  "areturn v s = (Inr v, s)"

definition araise :: "'e \<Rightarrow> ('s, 'e, 'a) act" where
  "araise e s = (Inl e, s)"

definition abind :: "('s, 'e, 'a) act \<Rightarrow> ('a \<Rightarrow> ('s, 'e, 'b) act) \<Rightarrow> ('s, 'e, 'b) act" where
  "abind m f s = (case m s of (Inl e, s') \<Rightarrow> (Inl e, s') | (Inr v, s') \<Rightarrow> f v s')"

definition aread :: "('s \<Rightarrow> 'a) \<Rightarrow> ('s, 'e, 'a) act" where
  "aread f s = (Inr (f s), s)"

definition awrite :: "('s \<Rightarrow> 's) \<Rightarrow> ('s, 'e, unit) act" where
  "awrite f s = (Inr (), f s)"

definition alift :: "('e + 'a) \<Rightarrow> ('s, 'e, 'a) act" where
  "alift r s = (r, s)"

definition acheck :: "bool \<Rightarrow> 'e \<Rightarrow> ('s, 'e, unit) act" where
  "acheck ok e s = (if ok then Inr () else Inl e, s)"

definition atomically :: "('s, 'e, 'a) act \<Rightarrow> ('s, 'e, 'a) act" where
  "atomically m s = (case m s of (Inl e, _) \<Rightarrow> (Inl e, s) | r \<Rightarrow> r)"

lemmas act_defs = areturn_def araise_def abind_def aread_def awrite_def alift_def acheck_def

lemma abind_Inr: "abind m f s = (Inr v, s') \<longleftrightarrow> (\<exists>u s1. m s = (Inr u, s1) \<and> f u s1 = (Inr v, s'))"
  by (auto simp: abind_def split: prod.splits sum.splits)

lemma abind_Inl: "abind m f s = (Inl x, s') \<longleftrightarrow>
    m s = (Inl x, s') \<or> (\<exists>u s1. m s = (Inr u, s1) \<and> f u s1 = (Inl x, s'))"
  by (auto simp: abind_def split: prod.splits sum.splits)

lemma act_simps [simp]:
  "areturn v s = (Inr v, s)" "araise e s = (Inl e, s)" "aread f s = (Inr (f s), s)"
  "awrite g s = (Inr (), g s)" "alift r s = (r, s)"
  by (simp_all add: areturn_def araise_def aread_def awrite_def alift_def)

lemma acheck_simps [simp]:
  "acheck b e s = (Inr u, s') \<longleftrightarrow> b \<and> s' = s" "acheck b e s = (Inl x, s') \<longleftrightarrow> \<not> b \<and> x = e \<and> s' = s"
  by (auto simp: acheck_def)

text \<open>An operation keeps a property of the store, whether it returns or raises.\<close>

definition keeps :: "('s \<Rightarrow> bool) \<Rightarrow> ('s, 'e, 'a) act \<Rightarrow> bool" where
  "keeps I m \<longleftrightarrow> (\<forall>s. I s \<longrightarrow> I (snd (m s)))"

lemma keepsI: "(\<And>s. I s \<Longrightarrow> I (snd (m s))) \<Longrightarrow> keeps I m"
  by (simp add: keeps_def)

lemma keepsD: "keeps I m \<Longrightarrow> I s \<Longrightarrow> I (snd (m s))"
  by (simp add: keeps_def)

lemma keeps_pure [wf_intros]:
  "keeps I (areturn v)" "keeps I (araise e)" "keeps I (aread f)" "keeps I (alift r)" "keeps I (acheck b e)"
  by (simp_all add: keeps_def act_defs)

lemma keeps_bind [wf_intros]:
  "keeps I m \<Longrightarrow> (\<And>v. keeps I (f v)) \<Longrightarrow> keeps I (abind m f)"
  by (fastforce simp: keeps_def abind_def split: prod.splits sum.splits)

lemma keeps_atomically [wf_intros]: "keeps I m \<Longrightarrow> keeps I (atomically m)"
  by (fastforce simp: keeps_def atomically_def split: prod.splits sum.splits)

section \<open>Characters and strings\<close>

text \<open>\<open>str.isspace\<close> of a single character, on code points up to 255.\<close>

definition is_space :: "char \<Rightarrow> bool" where
  "is_space c = (let n = (of_char c :: nat) in
     9 \<le> n \<and> n \<le> 13 \<or> 28 \<le> n \<and> n \<le> 32 \<or> n = 133 \<or> n = 160)"

definition lstrip :: "string \<Rightarrow> string" where
  "lstrip s = dropWhile is_space s"

definition strip :: "string \<Rightarrow> string" where
  "strip s = rev (dropWhile is_space (rev (dropWhile is_space s)))"

text \<open>\<open>str.lower\<close>: ASCII and the Latin-1 capitals (192 to 222 without the times sign).\<close>

definition lower_char :: "char \<Rightarrow> char" where
  "lower_char c = (let n = (of_char c :: nat) in
     if 65 \<le> n \<and> n \<le> 90 \<or> 192 \<le> n \<and> n \<le> 222 \<and> n \<noteq> 215 then char_of (n + 32) else c)"

definition lower :: "string \<Rightarrow> string" where
  "lower s = map lower_char s"

definition is_digit :: "char \<Rightarrow> bool" where
  "is_digit c = (let n = (of_char c :: nat) in 48 \<le> n \<and> n \<le> 57)"

definition digit_val :: "char \<Rightarrow> nat" where
  "digit_val c = (of_char c :: nat) - 48"

text \<open>\<open>str.isdigit\<close> also takes the superscripts two, three and one, which \<open>int\<close> refuses.\<close>

definition isdigit_char :: "char \<Rightarrow> bool" where
  "isdigit_char c = (is_digit c \<or> (of_char c :: nat) \<in> {178, 179, 185})"

lemma strip_Nil [simp]: "strip [] = []"
  by (simp add: strip_def)

lemma set_strip: "set (strip s) \<subseteq> set s"
  by (auto simp: strip_def dest!: set_dropWhileD)

lemma dropWhile_snoc: "\<not> P y \<Longrightarrow> dropWhile P (xs @ [y]) = dropWhile P xs @ [y]"
  by (induction xs) auto

text \<open>Trimming the end of a list that starts with a kept element keeps that start.\<close>

lemma dropWhile_rtrim:
  "dropWhile P (rev (dropWhile P (rev (dropWhile P xs)))) = rev (dropWhile P (rev (dropWhile P xs)))"
proof (cases "dropWhile P xs")
  case (Cons y ys)
  then have "\<not> P y" by (simp add: dropWhile_eq_Cons_conv)
  then show ?thesis using Cons by (simp add: dropWhile_snoc)
next
  case Nil
  show ?thesis unfolding Nil by simp
qed

lemma strip_idem [simp]: "strip (strip s) = strip s"
  by (simp add: strip_def dropWhile_rtrim)

lemma strip_no_space: "list_all (\<lambda>c. \<not> is_space c) s \<Longrightarrow> strip s = s"
proof -
  have "dropWhile is_space t = t" if "list_all (\<lambda>c. \<not> is_space c) t" for t
    using that by (cases t) auto
  then show "list_all (\<lambda>c. \<not> is_space c) s \<Longrightarrow> strip s = s" by (simp add: strip_def)
qed

section \<open>Python values\<close>

text \<open>
  A float is carried with the text Python prints for it, so that \<open>str\<close> is a function of
  the value. Dictionary keys are strings, as in decoded JSON.
\<close>

datatype pyfloat = Finite rat | PosInf | NegInf | NaN

datatype pyval =
    PNone
  | PBool bool
  | PInt int
  | PFloat pyfloat string
  | PStr string
  | PList "pyval list"
  | PDict "(string \<times> pyval) list"

type_synonym pydict = "(string \<times> pyval) list"

datatype py_exc = TypeError | ValueError | OverflowError | AttributeError

fun truthy :: "pyval \<Rightarrow> bool" where
  "truthy PNone = False"
| "truthy (PBool b) = b"
| "truthy (PInt i) = (i \<noteq> 0)"
| "truthy (PFloat f _) = (f \<noteq> Finite 0)"
| "truthy (PStr s) = (s \<noteq> [])"
| "truthy (PList xs) = (xs \<noteq> [])"
| "truthy (PDict d) = (d \<noteq> [])"

text \<open>\<open>d.get(k)\<close> on a dictionary, with \<open>None\<close> for a missing key.\<close>

definition dget :: "(string \<times> pyval) list \<Rightarrow> string \<Rightarrow> pyval" where
  "dget d k = (case map_of d k of None \<Rightarrow> PNone | Some v \<Rightarrow> v)"

text \<open>\<open>int(s)\<close>: surrounding space, a sign, digits with single underscores between them,
  at most 4300 digits.\<close>

fun parse_digits :: "bool \<Rightarrow> nat \<Rightarrow> nat \<Rightarrow> string \<Rightarrow> (nat \<times> nat) option" where
  "parse_digits prev acc n [] = (if prev then Some (acc, n) else None)"
| "parse_digits prev acc n (c # cs) =
     (if is_digit c then parse_digits True (10 * acc + digit_val c) (Suc n) cs
      else if c = CHR ''_'' \<and> prev then parse_digits False acc n cs
      else None)"

definition parse_int :: "string \<Rightarrow> int option" where
  "parse_int s =
     (let t = strip s;
          neg = (case t of c # _ \<Rightarrow> c = CHR ''-'' | [] \<Rightarrow> False);
          body = (case t of c # cs \<Rightarrow> if c = CHR ''-'' \<or> c = CHR ''+'' then cs else t | [] \<Rightarrow> [])
      in case parse_digits False 0 0 body of
           None \<Rightarrow> None
         | Some (v, n) \<Rightarrow> if 4300 < n then None else Some (if neg then - int v else int v))"

definition trunc :: "rat \<Rightarrow> int" where
  "trunc q = (if 0 \<le> q then \<lfloor>q\<rfloor> else \<lceil>q\<rceil>)"

fun py_int :: "pyval \<Rightarrow> py_exc + int" where
  "py_int PNone = Inl TypeError"
| "py_int (PBool b) = Inr (if b then 1 else 0)"
| "py_int (PInt i) = Inr i"
| "py_int (PFloat (Finite q) _) = Inr (trunc q)"
| "py_int (PFloat NaN _) = Inl ValueError"
| "py_int (PFloat _ _) = Inl OverflowError"
| "py_int (PStr s) = (case parse_int s of None \<Rightarrow> Inl ValueError | Some i \<Rightarrow> Inr i)"
| "py_int (PList _) = Inl TypeError"
| "py_int (PDict _) = Inl TypeError"

text \<open>Decimal text of an integer.\<close>

fun nat_digits :: "nat \<Rightarrow> string" where
  "nat_digits n = (if n < 10 then [char_of (48 + n)]
     else nat_digits (n div 10) @ [char_of (48 + n mod 10)])"

declare nat_digits.simps [simp del]

definition int_str :: "int \<Rightarrow> string" where
  "int_str i = (if i < 0 then CHR ''-'' # nat_digits (nat (- i)) else nat_digits (nat i))"

lemma nat_digits_nonempty [simp]: "nat_digits n \<noteq> []"
  by (subst nat_digits.simps) simp

lemma int_str_nonempty [simp]: "int_str i \<noteq> []"
  by (simp add: int_str_def)

lemma nat_digits_induct [case_names small big]:
  assumes "\<And>m. m < 10 \<Longrightarrow> P m" and "\<And>m. 10 \<le> m \<Longrightarrow> P (m div 10) \<Longrightarrow> P m"
  shows "P (m :: nat)"
proof (induction m rule: less_induct)
  case (less m)
  then show ?case using assms by (cases "m < 10") auto
qed

lemma nat_digits_big: "10 \<le> m \<Longrightarrow> nat_digits m = nat_digits (m div 10) @ [char_of (48 + m mod 10)]"
  by (subst nat_digits.simps) simp

lemma nat_digits_small: "m < 10 \<Longrightarrow> nat_digits m = [char_of (48 + m)]"
  by (subst nat_digits.simps) simp

lemma digit_char [simp]:
  "d < 10 \<Longrightarrow> is_digit (char_of (48 + d))" "d < 10 \<Longrightarrow> digit_val (char_of (48 + d)) = d"
  by (simp_all add: is_digit_def digit_val_def)

lemma nat_digits_digits: "list_all is_digit (nat_digits m)"
  by (induction m rule: nat_digits_induct) (simp_all add: nat_digits_small nat_digits_big)

lemma digit_no_space: "is_digit c \<Longrightarrow> \<not> is_space c"
  by (auto simp: is_digit_def is_space_def Let_def)

lemma strip_nat_digits [simp]: "strip (nat_digits m) = nat_digits m"
  using nat_digits_digits [of m] by (intro strip_no_space) (auto simp: list_all_iff digit_no_space)

lemma parse_nat_digits:
  "parse_digits prev acc n (nat_digits m @ cs) =
     parse_digits True (acc * 10 ^ length (nat_digits m) + m) (n + length (nat_digits m)) cs"
proof (induction m arbitrary: prev acc n cs rule: nat_digits_induct)
  case (small m)
  then show ?case by (simp add: nat_digits_small mult.commute)
next
  case (big m)
  have "10 * (acc * 10 ^ length (nat_digits (m div 10)) + m div 10) + m mod 10 =
      acc * (10 * 10 ^ length (nat_digits (m div 10))) + m"
    using mult_div_mod_eq [of 10 m] by (simp add: algebra_simps)
  then show ?case using big by (simp add: nat_digits_big algebra_simps)
qed

lemma length_nat_digits: "m < 10 ^ k \<Longrightarrow> 0 < k \<Longrightarrow> length (nat_digits m) \<le> k"
proof (induction m arbitrary: k rule: nat_digits_induct)
  case (small m)
  then show ?case by (simp add: nat_digits_small)
next
  case (big m)
  obtain j where k: "k = Suc j" using big.prems by (cases k) auto
  have "m div 10 < 10 ^ j" using big.prems k by (simp add: div_less_iff_less_mult mult.commute)
  moreover have "0 < j" using big k by (cases j) auto
  ultimately show ?case using big k by (simp add: nat_digits_big)
qed

lemma parse_digits_bound:
  "parse_digits prev acc n s = Some (v, n') \<Longrightarrow> acc < 10 ^ n \<Longrightarrow> v < 10 ^ n' \<and> n \<le> n'"
proof (induction prev acc n s rule: parse_digits.induct)
  case (2 prev acc n c cs)
  have "digit_val c < 10" if "is_digit c" using that by (auto simp: is_digit_def digit_val_def Let_def)
  then have "10 * acc + digit_val c < 10 ^ Suc n" if "is_digit c" using 2(4) that by simp
  with 2 show ?case by (auto split: if_splits)
qed (auto split: if_splits)

lemma parse_digits_pos: "parse_digits prev acc n s = Some (v, n') \<Longrightarrow> prev \<longrightarrow> 0 < n \<Longrightarrow> 0 < n'"
  by (induction prev acc n s rule: parse_digits.induct) (auto split: if_splits)

lemma parse_int_str: "0 < k \<Longrightarrow> k \<le> 4300 \<Longrightarrow> m < 10 ^ k \<Longrightarrow> parse_int (nat_digits m) = Some (int m)"
proof -
  assume k: "0 < k" "k \<le> 4300" "m < 10 ^ k"
  obtain c cs where c: "nat_digits m = c # cs" by (cases "nat_digits m") auto
  then have "is_digit c" using nat_digits_digits [of m] by simp
  then have "c \<noteq> CHR ''-''" "c \<noteq> CHR ''+''" by (auto simp: is_digit_def)
  moreover have "strip (c # cs) = c # cs" using strip_nat_digits [of m] c by simp
  moreover have "parse_digits False 0 0 (c # cs) = Some (m, length (c # cs))"
    using parse_nat_digits [of False 0 0 m "[]"] c by simp
  ultimately show ?thesis using length_nat_digits [OF k(3,1)] k(2) c
    by (simp add: parse_int_def Let_def del: parse_digits.simps)
qed

lemma parse_int_digits:
  assumes "parse_int s = Some v" and "0 \<le> v"
  shows "parse_int (int_str v) = Some v"
proof -
  obtain body w n where b: "parse_digits False 0 0 body = Some (w, n)" "n \<le> 4300" "nat v = w"
    using assms by (auto simp: parse_int_def Let_def split: option.splits if_splits prod.splits)
  have "w < 10 ^ n" using parse_digits_bound [OF b(1)] by simp
  moreover have "0 < n" using parse_digits_pos [OF b(1)] by simp
  ultimately show ?thesis using parse_int_str [of n w] b assms(2) by (simp add: int_str_def)
qed

lemma strip_int_str [simp]: "strip (int_str i) = int_str i"
proof (rule strip_no_space)
  have "list_all (\<lambda>c. \<not> is_space c) (nat_digits m)" for m
    using nat_digits_digits [of m] by (auto simp: list_all_iff digit_no_space)
  then show "list_all (\<lambda>c. \<not> is_space c) (int_str i)" by (simp add: int_str_def is_space_def)
qed

text \<open>\<open>repr\<close> of a string and \<open>str\<close> of a value.\<close>

definition hex_digit :: "nat \<Rightarrow> char" where
  "hex_digit n = (if n < 10 then char_of (48 + n) else char_of (87 + n))"

definition repr_char :: "char \<Rightarrow> char \<Rightarrow> string" where
  "repr_char q c = (let n = (of_char c :: nat) in
     if c = q \<or> c = CHR 0x5C then [CHR 0x5C, c]
     else if n = 9 then [CHR 0x5C, CHR ''t'']
     else if n = 10 then [CHR 0x5C, CHR ''n'']
     else if n = 13 then [CHR 0x5C, CHR ''r'']
     else if n < 32 \<or> 127 \<le> n \<and> n \<le> 160 \<or> n = 173
       then [CHR 0x5C, CHR ''x'', hex_digit (n div 16), hex_digit (n mod 16)]
     else [c])"

definition repr_str :: "string \<Rightarrow> string" where
  "repr_str s = (let q = (if CHR 0x27 \<in> set s \<and> CHR 0x22 \<notin> set s then CHR 0x22 else CHR 0x27)
     in q # concat (map (repr_char q) s) @ [q])"

fun join :: "string \<Rightarrow> string list \<Rightarrow> string" where
  "join sep [] = []"
| "join sep [x] = x"
| "join sep (x # y # ys) = x @ sep @ join sep (y # ys)"

fun py_repr :: "pyval \<Rightarrow> string" where
  "py_repr PNone = ''None''"
| "py_repr (PBool b) = (if b then ''True'' else ''False'')"
| "py_repr (PInt i) = int_str i"
| "py_repr (PFloat _ t) = t"
| "py_repr (PStr s) = repr_str s"
| "py_repr (PList xs) = ''['' @ join '', '' (map py_repr xs) @ '']''"
| "py_repr (PDict d) = ''{'' @ join '', ''
     (map (\<lambda>(k, v). repr_str k @ '': '' @ py_repr v) d) @ ''}''"

definition py_str :: "pyval \<Rightarrow> string" where
  "py_str v = (case v of PStr s \<Rightarrow> s | _ \<Rightarrow> py_repr v)"

text \<open>\<open>str(v or "")\<close>.\<close>

definition str_or_empty :: "pyval \<Rightarrow> string" where
  "str_or_empty v = (if truthy v then py_str v else [])"

lemma str_or_empty_simps [simp]:
  "str_or_empty PNone = []" "str_or_empty (PStr s) = s"
  by (simp_all add: str_or_empty_def py_str_def)

section \<open>Dictionaries that keep insertion order\<close>

text \<open>\<open>d[k] = v\<close>: an existing key keeps its place, a new one goes to the end.\<close>

fun dset :: "'k \<Rightarrow> 'v \<Rightarrow> ('k \<times> 'v) list \<Rightarrow> ('k \<times> 'v) list" where
  "dset k v [] = [(k, v)]"
| "dset k v ((k', v') # d) = (if k' = k then (k, v) # d else (k', v') # dset k v d)"

lemma map_of_dset [simp]: "map_of (dset k v d) = (map_of d)(k \<mapsto> v)"
  by (induction d) auto

lemma dset_not_Nil [simp]: "dset k v d \<noteq> []"
  by (cases d) (auto split: if_splits)

lemma keys_dset: "fst ` set (dset k v d) = insert k (fst ` set d)"
  by (simp flip: dom_map_of_conv_image_fst)

lemma distinct_dset: "distinct (map fst d) \<Longrightarrow> distinct (map fst (dset k v d))"
proof (induction d)
  case Nil
  then show ?case by simp
next
  case (Cons kv d)
  obtain k' v' where kv: "kv = (k', v')" by (cases kv)
  have "k' \<notin> fst ` set (dset k v d)" if "k' \<noteq> k"
    using Cons.prems kv that by (simp add: keys_dset)
  then show ?case using Cons kv by auto
qed

lemma map_of_None: "k \<notin> fst ` set d \<Longrightarrow> map_of d k = None"
  by (simp add: map_of_eq_None_iff)

text \<open>Building a dictionary from pairs (a comprehension, or a loop of assignments).\<close>

definition dict_of :: "('k \<times> 'v) list \<Rightarrow> ('k \<times> 'v) list" where
  "dict_of kvs = fold (\<lambda>(k, v) d. dset k v d) kvs []"

lemma map_of_fold_dset:
  "map_of (fold (\<lambda>(k, v) d. dset k v d) kvs d) = map_of d ++ map_of (rev kvs)"
proof (induction kvs arbitrary: d)
  case Nil
  then show ?case by simp
next
  case (Cons kv kvs)
  obtain k v where kv: "kv = (k, v)" by (cases kv)
  show ?case by (simp add: Cons.IH kv map_add_def fun_eq_iff split: option.splits)
qed

lemma map_of_dict_of: "map_of (dict_of kvs) = map_of (rev kvs)"
  by (simp add: dict_of_def map_of_fold_dset)

lemma distinct_fold_dset:
  "distinct (map fst d) \<Longrightarrow> distinct (map fst (fold (\<lambda>(k, v) d. dset k v d) kvs d))"
  by (induction kvs arbitrary: d) (auto simp: distinct_dset)

lemma distinct_dict_of [simp]: "distinct (map fst (dict_of kvs))"
  by (simp add: dict_of_def distinct_fold_dset)

lemma keys_dict_of: "fst ` set (dict_of kvs) = fst ` set kvs"
proof -
  have "fst ` set (dict_of kvs) = dom (map_of (dict_of kvs))"
    by (simp only: dom_map_of_conv_image_fst)
  also have "\<dots> = dom (map_of (rev kvs))" by (simp only: map_of_dict_of)
  also have "\<dots> = fst ` set kvs" by (simp only: dom_map_of_conv_image_fst set_rev)
  finally show ?thesis .
qed

section \<open>Lists\<close>

lemma filter_length_le1:
  "distinct xs \<Longrightarrow> \<forall>x\<in>set xs. \<forall>y\<in>set xs. P x \<longrightarrow> P y \<longrightarrow> x = y \<Longrightarrow> length (filter P xs) \<le> 1"
  by (induction xs) (auto simp: filter_empty_conv)

lemma sorted_hd_Min: "sorted xs \<Longrightarrow> xs \<noteq> [] \<Longrightarrow> x \<in> set xs \<Longrightarrow> hd xs \<le> x"
  by (cases xs) auto

lemma sorted_le_last: "sorted xs \<Longrightarrow> x \<in> set xs \<Longrightarrow> x \<le> last xs"
  by (induction xs) (auto split: if_splits)

fun first_index :: "('a \<Rightarrow> bool) \<Rightarrow> 'a list \<Rightarrow> nat option" where
  "first_index P [] = None"
| "first_index P (x # xs) =
     (if P x then Some 0 else case first_index P xs of None \<Rightarrow> None | Some i \<Rightarrow> Some (Suc i))"

lemma first_index_Some:
  "first_index P xs = Some i \<Longrightarrow> i < length xs \<and> P (xs ! i) \<and> (\<forall>j<i. \<not> P (xs ! j))"
proof (induction xs arbitrary: i)
  case (Cons x xs)
  show ?case
  proof (cases "P x")
    case False
    with Cons.prems obtain k where "first_index P xs = Some k" "i = Suc k"
      by (auto split: option.splits)
    with Cons.IH False show ?thesis by (auto simp: nth_Cons split: nat.splits)
  qed (use Cons.prems in auto)
qed simp

lemma first_index_None [simp]: "first_index P xs = None \<longleftrightarrow> list_all (\<lambda>x. \<not> P x) xs"
  by (induction xs) (auto split: option.splits)

lemma first_index_unique:
  assumes "i < length xs" "P (xs ! i)" "\<forall>j<length xs. P (xs ! j) \<longrightarrow> j = i"
  shows "first_index P xs = Some i"
proof (cases "first_index P xs")
  case None
  with assms(1,2) show ?thesis by (auto simp: list_all_length)
next
  case (Some k)
  with first_index_Some [OF Some] assms(3) show ?thesis by auto
qed

end
