(* ===== verification/Bytes.thy ===== *)
theory Bytes
  imports Prelude "HOL-Library.Word"
begin

text \<open>
  Bytes and text as the code handles them: bytes are words of eight bits, a Python string is a list
  of code points where \<open>string\<close> is not enough. The integers of \<open>struct\<close>, least significant byte
  first, writing into a \<open>bytearray\<close>, and UTF-16.
\<close>

type_synonym bytes = "8 word list"
type_synonym ustr = "nat list"

section \<open>Windows\<close>

definition window :: "nat \<Rightarrow> nat \<Rightarrow> 'a list \<Rightarrow> 'a list" where
  "window k n xs = take n (drop k xs)"

text \<open>\<open>arr[off:off + len(b)] = b\<close>, as \<open>struct.pack_into\<close> does it.\<close>

definition put :: "nat \<Rightarrow> 'a list \<Rightarrow> 'a list \<Rightarrow> 'a list" where
  "put off b arr = take off arr @ b @ drop (off + length b) arr"

definition chunks :: "nat \<Rightarrow> 'a list \<Rightarrow> 'a list list" where
  "chunks n xs = map (\<lambda>i. window (n * i) n xs) [0..<length xs div n]"

text \<open>\<open>b.ljust(n, fill)\<close> of \<open>b[:n]\<close>, and \<open>b + fill * k\<close> up to a multiple.\<close>

definition fit :: "nat \<Rightarrow> 'a \<Rightarrow> 'a list \<Rightarrow> 'a list" where
  "fit n z b = take n b @ replicate (n - length b) z"

lemma length_window: "k + n \<le> length xs \<Longrightarrow> length (window k n xs) = n"
  by (simp add: window_def)

lemma window_all [simp]: "window 0 (length xs) xs = xs"
  by (simp add: window_def)

lemma length_fit [simp]: "length (fit n z b) = n"
  by (simp add: fit_def)

lemma fit_exact: "length b = n \<Longrightarrow> fit n z b = b"
  by (simp add: fit_def)

lemma window_append_left: "k + n \<le> length xs \<Longrightarrow> window k n (xs @ ys) = window k n xs"
  by (simp add: window_def)

lemma window_append_right: "length xs \<le> k \<Longrightarrow> window k n (xs @ ys) = window (k - length xs) n ys"
  by (simp add: window_def)

lemma length_put: "off + length b \<le> length arr \<Longrightarrow> length (put off b arr) = length arr"
  by (simp add: put_def)

lemma window_put_same: "off \<le> length arr \<Longrightarrow> n = length b \<Longrightarrow> window off n (put off b arr) = b"
  by (simp add: window_def put_def)

lemma window_put_below: "k + n \<le> off \<Longrightarrow> off \<le> length arr \<Longrightarrow> window k n (put off b arr) = window k n arr"
  by (simp add: put_def window_append_left) (simp add: window_def drop_take min_def)

lemma window_put_above:
  assumes "off + length b \<le> k" "off + length b \<le> length arr"
  shows "window k n (put off b arr) = window k n arr"
  using assms by (simp add: put_def window_append_right) (simp add: window_def)

lemma window_put_inside:
  assumes "off \<le> k" "k + n \<le> off + length b" "off \<le> length arr"
  shows "window k n (put off b arr) = window (k - off) n b"
  using assms by (simp add: put_def window_append_right window_append_left)

lemma window_window: "i + m \<le> n \<Longrightarrow> window i m (window k n xs) = window (k + i) m xs"
  by (simp add: window_def drop_take add.commute min_def)

lemma length_chunks [simp]: "length (chunks n xs) = length xs div n"
  by (simp add: chunks_def)

lemma nth_chunks: "i < length xs div n \<Longrightarrow> chunks n xs ! i = window (n * i) n xs"
  by (simp add: chunks_def)

lemma window_append_skip: "window (length xs + k) n (xs @ ys) = window k n ys"
  by (simp add: window_def)

lemma window_concat:
  "\<forall>x\<in>set xss. length x = n \<Longrightarrow> i < length xss \<Longrightarrow> window (n * i) n (concat xss) = xss ! i"
proof (induction xss arbitrary: i)
  case (Cons x xss)
  show ?case
  proof (cases i)
    case 0
    then show ?thesis using Cons.prems by (simp add: window_def)
  next
    case (Suc j)
    then show ?thesis using Cons window_append_skip[of x "n * j" n "concat xss"] by simp
  qed
qed simp

lemma length_concat_same: "\<forall>x\<in>set xss. length x = n \<Longrightarrow> length (concat xss) = n * length xss"
  by (induction xss) auto

lemma chunks_concat:
  assumes "\<forall>x\<in>set xss. length x = n" "0 < n"
  shows "chunks n (concat xss) = xss"
proof (rule nth_equalityI)
  have len: "length (concat xss) div n = length xss"
    unfolding length_concat_same[OF assms(1)] using assms(2) by simp
  then show "length (chunks n (concat xss)) = length xss" by simp
  fix i assume "i < length (chunks n (concat xss))"
  then show "chunks n (concat xss) ! i = xss ! i"
    using window_concat[OF assms(1)] len by (simp add: nth_chunks)
qed

lemma concat_windows:
  "length xs = n * m \<Longrightarrow> concat (map (\<lambda>i. window (n * i) n xs) [0..<m]) = xs"
proof (induction m arbitrary: xs)
  case (Suc m)
  have "concat (map (\<lambda>i. window (n * i) n xs) [0..<m])
      = concat (map (\<lambda>i. window (n * i) n (take (n * m) xs)) [0..<m])"
  proof (rule arg_cong[where f = concat], rule map_cong[OF refl])
    fix i assume "i \<in> set [0..<m]"
    then have "n * Suc i \<le> n * m" by (intro mult_le_mono2) simp
    then have "n * i + n \<le> n * m" by simp
    then show "window (n * i) n xs = window (n * i) n (take (n * m) xs)"
      by (simp add: window_def drop_take min_def)
  qed
  also have "\<dots> = take (n * m) xs" using Suc by simp
  finally have 1: "concat (map (\<lambda>i. window (n * i) n xs) [0..<m]) = take (n * m) xs" .
  have "window (n * m) n xs = drop (n * m) xs" using Suc.prems by (simp add: window_def)
  then show ?case using 1 by simp
qed simp

section \<open>Integers\<close>

primrec le_bytes :: "nat \<Rightarrow> nat \<Rightarrow> bytes" where
  "le_bytes 0 n = []"
| "le_bytes (Suc k) n = of_nat n # le_bytes k (n div 256)"

primrec le_val :: "bytes \<Rightarrow> nat" where
  "le_val [] = 0"
| "le_val (b # bs) = unat b + 256 * le_val bs"

definition u16 :: "bytes \<Rightarrow> nat \<Rightarrow> nat" where "u16 b k = le_val (window k 2 b)"

definition u32 :: "bytes \<Rightarrow> nat \<Rightarrow> nat" where "u32 b k = le_val (window k 4 b)"

fun u32s :: "bytes \<Rightarrow> nat list" where
  "u32s (a # b # c # d # r) = le_val [a, b, c, d] # u32s r"
| "u32s _ = []"

lemma length_le_bytes [simp]: "length (le_bytes k n) = k"
  by (induction k arbitrary: n) simp_all

lemma le_val_bytes: "le_val (le_bytes k n) = n mod 256 ^ k"
proof (induction k arbitrary: n)
  case (Suc k)
  have "le_val (le_bytes (Suc k) n) = n mod 256 + 256 * (n div 256 mod 256 ^ k)"
    using Suc by (simp add: unat_of_nat)
  also have "\<dots> = n mod 256 ^ Suc k"
    using mod_mult2_eq[of n 256 "256 ^ k"] by simp
  finally show ?case .
qed simp

lemma le_val_le_bytes [simp]: "n < 256 ^ k \<Longrightarrow> le_val (le_bytes k n) = n"
  by (simp add: le_val_bytes)

lemma u32s_append_mod: "length xs mod 4 = 0 \<Longrightarrow> u32s (xs @ ys) = u32s xs @ u32s ys"
proof (induction xs rule: u32s.induct)
  case (1 a b c d r)
  then have "length r mod 4 = 0" by (simp add: mod_Suc split: if_splits)
  then show ?case using 1 by simp
qed simp_all

lemma u32s_append: "length xs = 4 * k \<Longrightarrow> u32s (xs @ ys) = u32s xs @ u32s ys"
  by (simp add: u32s_append_mod)

lemma length_u32s: "length (u32s b) = length b div 4"
  by (induction b rule: u32s.induct) auto

lemma u32s_four: "length b = 4 \<Longrightarrow> u32s b = [le_val b]"
  by (cases b rule: u32s.cases) auto

lemma u32s_le_bytes: "u32s (le_bytes 4 n @ ys) = n mod 256 ^ 4 # u32s ys"
  using u32s_append[of "le_bytes 4 n" 1 ys] by (simp add: u32s_four le_val_bytes)

lemma u32s_concat: "list_all (\<lambda>n. n < 256 ^ 4) ns \<Longrightarrow> u32s (concat (map (le_bytes 4) ns)) = ns"
  by (induction ns) (simp_all add: u32s_le_bytes del: power_numeral)

lemma length_concat_le [simp]: "length (concat (map (le_bytes k) ns)) = k * length ns"
  by (induction ns) simp_all

section \<open>UTF-16\<close>

definition surrogate :: "nat \<Rightarrow> bool" where
  "surrogate n = (55296 \<le> n \<and> n \<le> 57343)"

definition code_point :: "nat \<Rightarrow> bool" where
  "code_point n = (n \<le> 1114111 \<and> \<not> surrogate n)"

text \<open>\<open>encode("utf-16-le")\<close> refuses lone surrogates. \<open>decode("utf-16-le", errors="replace")\<close> puts
  U+FFFD for each part it cannot read: a unit that is half a pair, or the rest when it ends within
  a unit or a pair.\<close>

definition utf16_units :: "nat \<Rightarrow> bytes" where
  "utf16_units n = (if n < 65536 then le_bytes 2 n
     else le_bytes 2 (55296 + (n - 65536) div 1024) @ le_bytes 2 (56320 + (n - 65536) mod 1024))"

definition utf16_encode :: "ustr \<Rightarrow> bytes option" where
  "utf16_encode s = (if list_all code_point s then Some (concat (map utf16_units s)) else None)"

fun utf16_decode :: "bytes \<Rightarrow> ustr" where
  "utf16_decode [] = []"
| "utf16_decode [a] = [65533]"
| "utf16_decode (a # b # bs) =
     (let u = le_val [a, b] in
      if \<not> surrogate u then u # utf16_decode bs
      else if 56320 \<le> u then 65533 # utf16_decode bs
      else case bs of
        c # d # bs' \<Rightarrow>
          (let v = le_val [c, d] in
           if 56320 \<le> v \<and> v \<le> 57343 then (65536 + (u - 55296) * 1024 + (v - 56320)) # utf16_decode bs'
           else 65533 # utf16_decode bs)
      | _ \<Rightarrow> [65533])"

lemma utf16_decode_unit:
  "length b = 2 \<Longrightarrow> \<not> surrogate (le_val b) \<Longrightarrow> utf16_decode (b @ bs) = le_val b # utf16_decode bs"
  by (cases b rule: utf16_decode.cases) (auto simp: Let_def)

lemma utf16_decode_pair:
  assumes "length b = 2" "length c = 2" "55296 \<le> le_val b" "le_val b < 56320" "56320 \<le> le_val c" "le_val c \<le> 57343"
  shows "utf16_decode (b @ c @ bs) = (65536 + (le_val b - 55296) * 1024 + (le_val c - 56320)) # utf16_decode bs"
proof -
  obtain b0 b1 where b: "b = [b0, b1]" using assms(1) by (cases b rule: utf16_decode.cases) auto
  obtain c0 c1 where c: "c = [c0, c1]" using assms(2) by (cases c rule: utf16_decode.cases) auto
  show ?thesis using assms unfolding b c by (simp add: Let_def surrogate_def)
qed

lemma utf16_decode_units:
  assumes "code_point n"
  shows "utf16_decode (utf16_units n @ bs) = n # utf16_decode bs"
proof (cases "n < 65536")
  case True
  then show ?thesis using assms utf16_decode_unit[of "le_bytes 2 n" bs]
    by (simp add: utf16_units_def code_point_def)
next
  case False
  define m where "m = n - 65536"
  have m: "m < 1048576" "n = 65536 + m" using False assms by (auto simp: m_def code_point_def)
  have 1: "m div 1024 < 1024" using m by simp
  have "utf16_decode (le_bytes 2 (55296 + m div 1024) @ le_bytes 2 (56320 + m mod 1024) @ bs)
      = (65536 + m div 1024 * 1024 + m mod 1024) # utf16_decode bs"
    using utf16_decode_pair[of "le_bytes 2 (55296 + m div 1024)" "le_bytes 2 (56320 + m mod 1024)" bs] 1 by simp
  then show ?thesis using False m by (simp add: utf16_units_def)
qed

lemma utf16_roundtrip: "utf16_encode s = Some b \<Longrightarrow> utf16_decode b = s"
proof -
  have "list_all code_point s \<Longrightarrow> utf16_decode (concat (map utf16_units s)) = s" for s
    by (induction s) (simp_all add: utf16_decode_units)
  then show "utf16_encode s = Some b \<Longrightarrow> utf16_decode b = s"
    by (auto simp: utf16_encode_def split: if_splits)
qed

end
