(* ===== verification/Permissions.thy ===== *)
theory Permissions
  imports Bytes
begin

text \<open>
  \<open>src/xgen_sdk/auth/permission_resolver.py\<close>: the permissions of a user, read from the tables of roles
  and direct grants and denials in one statement, and whether a set of permissions covers a required
  one. The registry of \<open>permission_registry.py\<close>.

  A permission is a list of code points, because the headers that carry permissions are decoded to
  any letters. A set is a list whose order does not matter. The client of the database answers or
  raises; what it answers is a decoded value.
\<close>

section \<open>Matching\<close>

definition ustr_of :: "string \<Rightarrow> ustr" where
  "ustr_of s = map of_char s"

fun split_on :: "'a \<Rightarrow> 'a list \<Rightarrow> 'a list list" where
  "split_on x [] = [[]]"
| "split_on x (y # ys) = (if y = x then [] # split_on x ys
     else case split_on x ys of [] \<Rightarrow> [[y]] | p # ps \<Rightarrow> (y # p) # ps)"

fun join_on :: "'a \<Rightarrow> 'a list list \<Rightarrow> 'a list" where
  "join_on x [] = []"
| "join_on x [p] = p"
| "join_on x (p # q # ps) = p @ x # join_on x (q # ps)"

definition COLON :: nat where "COLON = 58"
definition DOT :: nat where "DOT = 46"

definition has_permission :: "ustr list \<Rightarrow> ustr \<Rightarrow> bool" where
  "has_permission user_permissions required =
     (if ustr_of ''*:*'' \<in> set user_permissions then True
      else if required \<in> set user_permissions then True
      else case split_on COLON required of
        [resource, _] \<Rightarrow>
          (if resource @ ustr_of '':*'' \<in> set user_permissions then True
           else let parts = split_on DOT resource
             in list_ex (\<lambda>i. join_on DOT (take i parts) @ ustr_of ''.*:*'' \<in> set user_permissions)
                  [1..<length parts])
      | _ \<Rightarrow> False)"

section \<open>Reading the authority\<close>

datatype permission_error =
    StoreUnavailable
  | StoreInvalid
  | UnhashableSource

text \<open>The client is missing or cannot run queries, raises, or returns a value.\<close>

datatype answer = NoClient | ClientRaises | Answer pyval

definition is_dict :: "pyval \<Rightarrow> bool" where
  "is_dict v = (case v of PDict _ \<Rightarrow> True | _ \<Rightarrow> False)"

definition succeeded :: "answer \<Rightarrow> permission_error + pydict" where
  "succeeded a = (case a of
       NoClient \<Rightarrow> Inl StoreUnavailable
     | ClientRaises \<Rightarrow> Inl StoreUnavailable
     | Answer (PDict d) \<Rightarrow> if dget d ''success'' = PBool True then Inr d else Inl StoreUnavailable
     | Answer _ \<Rightarrow> Inl StoreUnavailable)"

definition read_query_rows :: "answer \<Rightarrow> permission_error + pydict list" where
  "read_query_rows a = ebind (succeeded a) (\<lambda>d. case dget d ''data'' of
       PList rows \<Rightarrow> if list_ex (\<lambda>r. \<not> is_dict r) rows then Inl StoreInvalid
         else Inr (map (\<lambda>r. case r of PDict e \<Rightarrow> e | _ \<Rightarrow> []) rows)
     | _ \<Rightarrow> Inl StoreInvalid)"

definition permission_of :: "pyval \<Rightarrow> string option" where
  "permission_of v = (case v of PStr p \<Rightarrow> if p = [] \<or> CHR '':'' \<notin> set p then None else Some p | _ \<Rightarrow> None)"

fun role_names :: "pydict list \<Rightarrow> permission_error + string list" where
  "role_names [] = Inr []"
| "role_names (row # rows) = (case dget row ''name'' of
       PStr name \<Rightarrow> if name = [] then Inl StoreInvalid
         else ebind (role_names rows) (\<lambda>names. Inr (name # names))
     | _ \<Rightarrow> Inl StoreInvalid)"

definition get_user_roles_strict :: "answer \<Rightarrow> permission_error + string list" where
  "get_user_roles_strict a = ebind (read_query_rows a) role_names"

definition get_user_roles :: "answer \<Rightarrow> string list" where
  "get_user_roles a = (case get_user_roles_strict a of Inl _ \<Rightarrow> [] | Inr names \<Rightarrow> names)"

text \<open>The three sets of the snapshot, filled row by row.\<close>

record authority =
  au_role :: "ustr list"
  au_grant :: "ustr list"
  au_deny :: "ustr list"

definition add_source :: "string \<Rightarrow> ustr \<Rightarrow> authority \<Rightarrow> authority option" where
  "add_source source p a =
     (if source = ''role'' then Some (a\<lparr>au_role := p # au_role a\<rparr>)
      else if source = ''grant'' then Some (a\<lparr>au_grant := p # au_grant a\<rparr>)
      else if source = ''deny'' then Some (a\<lparr>au_deny := p # au_deny a\<rparr>)
      else None)"

fun by_source :: "authority \<Rightarrow> pyval list \<Rightarrow> permission_error + authority" where
  "by_source a [] = Inr a"
| "by_source a (PDict row # rows) = (case permission_of (dget row ''perm'') of
       None \<Rightarrow> Inl StoreInvalid
     | Some p \<Rightarrow> (case dget row ''source'' of
         PStr source \<Rightarrow> (case add_source source (ustr_of p) a of
             None \<Rightarrow> Inl StoreInvalid
           | Some a' \<Rightarrow> by_source a' rows)
       | PList _ \<Rightarrow> Inl UnhashableSource
       | PDict _ \<Rightarrow> Inl UnhashableSource
       | _ \<Rightarrow> Inl StoreInvalid))"
| "by_source a (_ # rows) = Inl StoreInvalid"

definition authority_snapshot :: "answer \<Rightarrow> permission_error + authority" where
  "authority_snapshot a = ebind (succeeded a) (\<lambda>d. case dget d ''data'' of
       PList rows \<Rightarrow> by_source \<lparr>au_role = [], au_grant = [], au_deny = []\<rparr> rows
     | _ \<Rightarrow> Inl StoreInvalid)"

definition resolve_user_permissions :: "answer \<Rightarrow> bool \<Rightarrow> permission_error + ustr list" where
  "resolve_user_permissions a is_superuser =
     (if is_superuser then Inr [ustr_of ''*:*'']
      else ebind (authority_snapshot a) (\<lambda>au.
        Inr (filter (\<lambda>p. p \<notin> set (au_deny au)) (au_role au @ au_grant au))))"

text \<open>The tables, and what the statement of the snapshot selects for a user. \<open>granted\<close> may be null.\<close>

record permission_row =
  pm_resource :: string
  pm_action :: string

record auth_db =
  db_permissions :: "(int \<times> permission_row) list"
  db_role_permissions :: "(int \<times> int) list"
  db_user_roles :: "(int \<times> int) list"
  db_user_permissions :: "(int \<times> int \<times> bool option) list"

definition perm_text :: "permission_row \<Rightarrow> string" where
  "perm_text p = pm_resource p @ '':'' @ pm_action p"

definition role_selects :: "auth_db \<Rightarrow> int \<Rightarrow> string list" where
  "role_selects db user = [perm_text p. (k, p) \<leftarrow> db_permissions db, (r, k') \<leftarrow> db_role_permissions db, k' = k,
     (u, r') \<leftarrow> db_user_roles db, r' = r \<and> u = user]"

definition direct_selects :: "auth_db \<Rightarrow> int \<Rightarrow> (string \<times> string) list" where
  "direct_selects db user = [(perm_text p, if granted = Some True then ''grant'' else ''deny'').
     (k, p) \<leftarrow> db_permissions db, (u, k', granted) \<leftarrow> db_user_permissions db, k' = k \<and> u = user]"

definition select_authority :: "auth_db \<Rightarrow> int \<Rightarrow> pyval" where
  "select_authority db user =
     PDict [(''success'', PBool True), (''data'', PList (map (\<lambda>(p, s). PDict [(''perm'', PStr p), (''source'', PStr s)])
       (remdups (map (\<lambda>p. (p, ''role'')) (role_selects db user)) @ remdups (direct_selects db user))))]"

section \<open>The registry of permissions\<close>

record registered =
  rg_resource :: string
  rg_action :: string
  rg_description :: string

type_synonym permission_registry = "(string \<times> registered) list"

definition register_permission :: "string \<Rightarrow> string \<Rightarrow> permission_registry \<Rightarrow> permission_registry" where
  "register_permission perm_key description reg = (case split_on CHR '':'' perm_key of
       [resource, action] \<Rightarrow>
         (case map_of reg perm_key of
            None \<Rightarrow> dset perm_key \<lparr>rg_resource = resource, rg_action = action, rg_description = description\<rparr> reg
          | Some r \<Rightarrow> if description \<noteq> [] \<and> rg_description r = []
              then dset perm_key (r\<lparr>rg_description := description\<rparr>) reg else reg)
     | _ \<Rightarrow> reg)"

definition all_permission_keys :: "permission_registry \<Rightarrow> string list" where
  "all_permission_keys reg = map fst reg"

section \<open>Lemmas\<close>

lemma split_on_nonempty [simp]: "split_on x ys \<noteq> []"
  by (induction ys) (auto split: list.split)

lemma join_split: "join_on x (split_on x ys) = ys"
proof (induction ys)
  case (Cons y ys)
  obtain p ps where s: "split_on x ys = p # ps" by (cases "split_on x ys") auto
  with Cons show ?case by (cases ps) auto
qed simp

lemma split_on_append: "x \<notin> set p \<Longrightarrow> split_on x (p @ x # ys) = p # split_on x ys"
  by (induction p) auto

lemma split_on_free: "x \<notin> set p \<Longrightarrow> split_on x p = [p]"
  by (induction p) auto

lemma split_on_parts: "p \<in> set (split_on x ys) \<Longrightarrow> x \<notin> set p"
proof (induction ys arbitrary: p)
  case (Cons y ys)
  obtain q qs where "split_on x ys = q # qs" by (cases "split_on x ys") auto
  with Cons show ?case by (auto split: if_splits)
qed simp

lemma split_on_two: "split_on x ys = [a, b] \<longleftrightarrow> ys = a @ x # b \<and> x \<notin> set a \<and> x \<notin> set b"
proof
  assume s: "split_on x ys = [a, b]"
  have "ys = a @ x # b" using join_split [of x ys] by (simp add: s)
  moreover have "x \<notin> set a \<and> x \<notin> set b" using split_on_parts [of _ x ys] by (simp add: s)
  ultimately show "ys = a @ x # b \<and> x \<notin> set a \<and> x \<notin> set b" by simp
qed (auto simp: split_on_append split_on_free)

text \<open>The joined first parts are the prefixes that end at a separator.\<close>

lemma join_append: "ps \<noteq> [] \<Longrightarrow> qs \<noteq> [] \<Longrightarrow> join_on x (ps @ qs) = join_on x ps @ x # join_on x qs"
proof (induction ps)
  case (Cons p ps)
  then show ?case by (cases ps; cases qs) auto
qed simp

lemma split_on_join: "ps \<noteq> [] \<Longrightarrow> \<forall>p\<in>set ps. x \<notin> set p \<Longrightarrow> split_on x (join_on x ps) = ps"
proof (induction ps)
  case (Cons p ps)
  then show ?case by (cases ps) (simp_all add: split_on_append split_on_free)
qed simp

lemma split_at_separator: "split_on x (p @ x # q) = split_on x p @ split_on x q"
proof -
  have "p @ x # q = join_on x (split_on x p @ split_on x q)" by (simp add: join_append join_split)
  moreover have "\<forall>r\<in>set (split_on x p @ split_on x q). x \<notin> set r" using split_on_parts by fastforce
  ultimately show ?thesis using split_on_join [of "split_on x p @ split_on x q" x] by simp
qed

lemma prefixes_of_split:
  "(\<exists>i\<in>{1..<length (split_on x ys)}. P (join_on x (take i (split_on x ys)))) \<longleftrightarrow>
    (\<exists>p q. ys = p @ x # q \<and> P p)"
proof
  assume "\<exists>i\<in>{1..<length (split_on x ys)}. P (join_on x (take i (split_on x ys)))"
  then obtain i where i: "1 \<le> i" "i < length (split_on x ys)" "P (join_on x (take i (split_on x ys)))" by auto
  let ?p = "take i (split_on x ys)" and ?q = "drop i (split_on x ys)"
  have "ys = join_on x (?p @ ?q)" by (simp add: join_split)
  also have "\<dots> = join_on x ?p @ x # join_on x ?q" using i(1,2) by (intro join_append) auto
  finally show "\<exists>p q. ys = p @ x # q \<and> P p" using i(3) by blast
next
  assume "\<exists>p q. ys = p @ x # q \<and> P p"
  then obtain p q where p: "ys = p @ x # q" "P p" by blast
  have s: "split_on x ys = split_on x p @ split_on x q" unfolding p(1) by (rule split_at_separator)
  show "\<exists>i\<in>{1..<length (split_on x ys)}. P (join_on x (take i (split_on x ys)))"
  proof
    show "length (split_on x p) \<in> {1..<length (split_on x ys)}" by (simp add: s Suc_le_eq)
    show "P (join_on x (take (length (split_on x p)) (split_on x ys)))" using p(2) by (simp add: s join_split)
  qed
qed

text \<open>What a permission stands for.\<close>

definition covers :: "ustr \<Rightarrow> ustr \<Rightarrow> bool" where
  "covers p required \<longleftrightarrow> p = ustr_of ''*:*'' \<or> p = required \<or>
     (\<exists>resource action. required = resource @ COLON # action \<and> COLON \<notin> set resource \<and> COLON \<notin> set action \<and>
       (p = resource @ ustr_of '':*'' \<or>
        (\<exists>parent rest. resource = parent @ DOT # rest \<and> p = parent @ ustr_of ''.*:*'')))"

lemma covers_split: "covers p required \<longleftrightarrow> p = ustr_of ''*:*'' \<or> p = required \<or>
    (\<exists>resource action. split_on COLON required = [resource, action] \<and>
       (p = resource @ ustr_of '':*'' \<or>
        (\<exists>parent rest. resource = parent @ DOT # rest \<and> p = parent @ ustr_of ''.*:*'')))"
  unfolding covers_def split_on_two by simp

lemma has_permission_covers: "has_permission perms required \<longleftrightarrow> (\<exists>p\<in>set perms. covers p required)"
proof -
  have up: "list_ex (\<lambda>i. join_on DOT (take i (split_on DOT resource)) @ ustr_of ''.*:*'' \<in> set perms)
      [1..<length (split_on DOT resource)] \<longleftrightarrow>
    (\<exists>parent rest. resource = parent @ DOT # rest \<and> parent @ ustr_of ''.*:*'' \<in> set perms)" for resource
    using prefixes_of_split [of DOT resource "\<lambda>q. q @ ustr_of ''.*:*'' \<in> set perms"] by (simp add: list_ex_iff)
  show ?thesis
  proof (cases "\<exists>a b. split_on COLON required = [a, b]")
    case True
    then obtain a b where ab: "split_on COLON required = [a, b]" by blast
    show ?thesis unfolding has_permission_def covers_split ab Let_def list.case up by auto
  next
    case False
    then have none: "(case split_on COLON required of [a, b] \<Rightarrow> Q a b | _ \<Rightarrow> False) = False" for Q
      by (auto split: list.splits)
    show ?thesis unfolding has_permission_def covers_split none using False by auto
  qed
qed

text \<open>What the rows of the statement become.\<close>

lemma perm_text_valid [simp]: "permission_of (PStr (perm_text p)) = Some (perm_text p)"
  by (simp add: permission_of_def perm_text_def)

definition source_rows :: "(string \<times> string) list \<Rightarrow> pyval list" where
  "source_rows rows = map (\<lambda>(p, s). PDict [(''perm'', PStr p), (''source'', PStr s)]) rows"

lemma by_source_rows:
  assumes "\<forall>(p, s)\<in>set rows. permission_of (PStr p) = Some p \<and> s \<in> {''role'', ''grant'', ''deny''}"
  shows "\<exists>a'. by_source a (source_rows rows) = Inr a' \<and>
    set (au_role a') = set (au_role a) \<union> ustr_of ` {p. (p, ''role'') \<in> set rows} \<and>
    set (au_grant a') = set (au_grant a) \<union> ustr_of ` {p. (p, ''grant'') \<in> set rows} \<and>
    set (au_deny a') = set (au_deny a) \<union> ustr_of ` {p. (p, ''deny'') \<in> set rows}"
  using assms
proof (induction rows arbitrary: a)
  case (Cons r rows)
  obtain p s where r: "r = (p, s)" by (cases r)
  have valid: "permission_of (PStr p) = Some p" "s \<in> {''role'', ''grant'', ''deny''}" using Cons.prems r by auto
  obtain b where b: "add_source s (ustr_of p) a = Some b" using valid(2) by (auto simp: add_source_def)
  have sets: "set (au_role b) = set (au_role a) \<union> (if s = ''role'' then {ustr_of p} else {})"
    "set (au_grant b) = set (au_grant a) \<union> (if s = ''grant'' then {ustr_of p} else {})"
    "set (au_deny b) = set (au_deny a) \<union> (if s = ''deny'' then {ustr_of p} else {})"
    using b by (auto simp: add_source_def split: if_splits)
  obtain a' where a': "by_source b (source_rows rows) = Inr a'"
    "set (au_role a') = set (au_role b) \<union> ustr_of ` {p. (p, ''role'') \<in> set rows}"
    "set (au_grant a') = set (au_grant b) \<union> ustr_of ` {p. (p, ''grant'') \<in> set rows}"
    "set (au_deny a') = set (au_deny b) \<union> ustr_of ` {p. (p, ''deny'') \<in> set rows}"
    using Cons.IH [of b] Cons.prems by auto
  have "{q. (q, t) \<in> set (r # rows)} = (if s = t then {p} else {}) \<union> {q. (q, t) \<in> set rows}" for t
    by (auto simp: r)
  then show ?case using a' valid b sets
    by (intro exI [of _ a']) (simp add: source_rows_def r dget_def image_Un)
qed (simp add: source_rows_def)

lemma ustr_of_inj [simp]: "ustr_of a = ustr_of b \<longleftrightarrow> a = b"
  by (simp add: ustr_of_def inj_map_eq_map [OF inj_of_char])

lemma role_selects_set: "set (role_selects db user) =
    {perm_text p | k p r. (k, p) \<in> set (db_permissions db) \<and> (r, k) \<in> set (db_role_permissions db) \<and>
      (user, r) \<in> set (db_user_roles db)}"
  by (force simp: role_selects_def)

lemma joined_rows: "set [f p x. (k, p) \<leftarrow> ps, (u, k', x) \<leftarrow> us, k' = k \<and> u = user] =
    {f p x | k p x. (k, p) \<in> set ps \<and> (user, k, x) \<in> set us}"
  by (rule set_eqI) (simp, blast)

lemma direct_selects_set: "set (direct_selects db user) =
    {(perm_text p, if granted = Some True then ''grant'' else ''deny'') | k p granted.
      (k, p) \<in> set (db_permissions db) \<and> (user, k, granted) \<in> set (db_user_permissions db)}"
  unfolding direct_selects_def by (rule joined_rows)

text \<open>What the tables say of a user.\<close>

definition granted_by_role :: "auth_db \<Rightarrow> int \<Rightarrow> string \<Rightarrow> bool" where
  "granted_by_role db user t \<longleftrightarrow> (\<exists>k p r. (k, p) \<in> set (db_permissions db) \<and>
     (r, k) \<in> set (db_role_permissions db) \<and> (user, r) \<in> set (db_user_roles db) \<and>
     t = pm_resource p @ '':'' @ pm_action p)"

definition granted_directly :: "auth_db \<Rightarrow> int \<Rightarrow> string \<Rightarrow> bool" where
  "granted_directly db user t \<longleftrightarrow> (\<exists>k p. (k, p) \<in> set (db_permissions db) \<and>
     (user, k, Some True) \<in> set (db_user_permissions db) \<and> t = pm_resource p @ '':'' @ pm_action p)"

text \<open>A row of the user that does not grant denies, also where \<open>granted\<close> is null.\<close>

definition denied_directly :: "auth_db \<Rightarrow> int \<Rightarrow> string \<Rightarrow> bool" where
  "denied_directly db user t \<longleftrightarrow> (\<exists>k p granted. (k, p) \<in> set (db_permissions db) \<and>
     (user, k, granted) \<in> set (db_user_permissions db) \<and> granted \<noteq> Some True \<and>
     t = pm_resource p @ '':'' @ pm_action p)"

lemma selected_from_tables:
  "t \<in> set (role_selects db user) \<longleftrightarrow> granted_by_role db user t"
  "(t, ''grant'') \<in> set (direct_selects db user) \<longleftrightarrow> granted_directly db user t"
  "(t, ''deny'') \<in> set (direct_selects db user) \<longleftrightarrow> denied_directly db user t"
proof -
  show "t \<in> set (role_selects db user) \<longleftrightarrow> granted_by_role db user t"
    unfolding role_selects_set granted_by_role_def perm_text_def by auto
  show "(t, ''grant'') \<in> set (direct_selects db user) \<longleftrightarrow> granted_directly db user t"
    unfolding direct_selects_set granted_directly_def perm_text_def by (auto split: if_splits)
  show "(t, ''deny'') \<in> set (direct_selects db user) \<longleftrightarrow> denied_directly db user t"
    unfolding direct_selects_set denied_directly_def perm_text_def by (auto split: if_splits)
qed

lemma resolve_from_tables:
  "\<exists>perms. resolve_user_permissions (Answer (select_authority db user)) False = Inr perms \<and>
    (\<forall>q. q \<in> set perms \<longleftrightarrow> (\<exists>t. q = ustr_of t \<and> (granted_by_role db user t \<or> granted_directly db user t) \<and>
      \<not> denied_directly db user t))"
proof -
  let ?rows = "remdups (map (\<lambda>p. (p, ''role'')) (role_selects db user)) @ remdups (direct_selects db user)"
  have valid: "\<forall>(p, s)\<in>set ?rows. permission_of (PStr p) = Some p \<and> s \<in> {''role'', ''grant'', ''deny''}"
    by (auto simp: role_selects_set direct_selects_set)
  have sel: "(p, ''role'') \<in> set ?rows \<longleftrightarrow> granted_by_role db user p"
    "(p, ''grant'') \<in> set ?rows \<longleftrightarrow> granted_directly db user p"
    "(p, ''deny'') \<in> set ?rows \<longleftrightarrow> denied_directly db user p" for p
    using selected_from_tables [of p db user] direct_selects_set [of db user] by auto
  obtain a where a: "by_source \<lparr>au_role = [], au_grant = [], au_deny = []\<rparr> (source_rows ?rows) = Inr a"
    "set (au_role a) = ustr_of ` {p. granted_by_role db user p}"
    "set (au_grant a) = ustr_of ` {p. granted_directly db user p}"
    "set (au_deny a) = ustr_of ` {p. denied_directly db user p}"
    using by_source_rows [OF valid, of "\<lparr>au_role = [], au_grant = [], au_deny = []\<rparr>"] unfolding sel by auto
  have "authority_snapshot (Answer (select_authority db user)) = Inr a"
    using a(1) by (simp add: authority_snapshot_def succeeded_def select_authority_def dget_def source_rows_def)
  then show ?thesis by (auto simp: resolve_user_permissions_def a)
qed

lemma permissions_from_tables:
  "\<exists>perms. resolve_user_permissions (Answer (select_authority db user)) False = Inr perms \<and>
    (\<forall>required. has_permission perms required \<longleftrightarrow>
      (\<exists>t. (granted_by_role db user t \<or> granted_directly db user t) \<and> \<not> denied_directly db user t \<and>
        covers (ustr_of t) required))"
  using resolve_from_tables [of db user] unfolding has_permission_covers by (auto 4 4)

section \<open>Properties\<close>

text \<open>C10. What a user may do is what the tables say: for a user who is not a superuser the statement
  of the snapshot is read without error, and a required permission is had exactly when some
  permission covers it (the same one, its resource with any action, or a resource above it) that
  the tables give to a role of the user, or to the user by a direct row that grants, and that no
  direct row of the user denies by name. A superuser has every permission, whatever the tables
  and whatever the database answers.\<close>

theorem permission_follows_the_tables:
  "\<exists>perms all. resolve_user_permissions (Answer (select_authority db user)) False = Inr perms \<and>
    (\<forall>required. has_permission perms required \<longleftrightarrow>
      (\<exists>t. (granted_by_role db user t \<or> granted_directly db user t) \<and> \<not> denied_directly db user t \<and>
        covers (ustr_of t) required)) \<and>
    resolve_user_permissions anything True = Inr all \<and> (\<forall>required. has_permission all required)"
  using permissions_from_tables [of db user]
  by (auto simp: resolve_user_permissions_def [of anything True] has_permission_def)

text \<open>A direct denial takes away one name, not what it stands for: a user whose role gives a
  resource with any action still has an action of it that is denied to this user, whatever else the
  tables hold, unless the wildcard itself is denied.\<close>

lemma denial_does_not_beat_a_wildcard:
  assumes "granted_by_role db user (resource @ '':*'')" and "\<not> denied_directly db user (resource @ '':*'')"
    and "CHR '':'' \<notin> set resource" and "CHR '':'' \<notin> set action"
    and "denied_directly db user (resource @ '':'' @ action)"
  shows "\<exists>perms. resolve_user_permissions (Answer (select_authority db user)) False = Inr perms \<and>
    has_permission perms (ustr_of (resource @ '':'' @ action))"
proof -
  have colon: "COLON \<notin> set (ustr_of s)" if "CHR '':'' \<notin> set s" for s
  proof
    assume "COLON \<in> set (ustr_of s)"
    then obtain c where "c \<in> set s" "of_char c = (of_char CHR '':'' :: nat)"
      by (auto simp: ustr_of_def COLON_def)
    then show False using that by (metis of_char_eq_iff)
  qed
  have "covers (ustr_of (resource @ '':*'')) (ustr_of (resource @ '':'' @ action))"
    unfolding covers_def using colon [OF assms(3)] colon [OF assms(4)]
    by (intro disjI2 exI [of _ "ustr_of resource"] exI [of _ "ustr_of action"])
      (simp add: ustr_of_def COLON_def)
  then show ?thesis using permissions_from_tables [of db user] assms(1,2) by blast
qed

definition w_auth_db :: auth_db where
  "w_auth_db = \<lparr>db_permissions = [(1, \<lparr>pm_resource = ''workflow'', pm_action = ''*''\<rparr>),
       (2, \<lparr>pm_resource = ''workflow'', pm_action = ''create''\<rparr>)],
     db_role_permissions = [(10, 1)], db_user_roles = [(7, 10)],
     db_user_permissions = [(7, 2, Some False)]\<rparr>"

lemma denial_does_not_beat_a_wildcard_witness:
  "\<exists>perms. resolve_user_permissions (Answer (select_authority w_auth_db 7)) False = Inr perms \<and>
    has_permission perms (ustr_of ''workflow:create'')"
  using denial_does_not_beat_a_wildcard [of w_auth_db 7 "''workflow''" "''create''"]
  by (simp add: w_auth_db_def granted_by_role_def denied_directly_def)

end
