(* ===== verification/AuthTokens.thy ===== *)
theory AuthTokens
  imports Permissions
begin

text \<open>
  The parts that \<open>src/xgen_sdk/auth/principal.py\<close> and \<open>document_capability.py\<close> share: base64url without
  padding, segments of JSON, the forms of key ids, keys and dates of retirement, and percent-decoding
  of header values.

  What the text of a segment decodes to (UTF-8 and \<open>json.loads\<close>, duplicate members and numbers that
  are not finite refused) and what \<open>json.dumps\<close> writes are parameters, and so are HMAC-SHA256 and RSA.
  Bytes of headers are the characters with their codes.
\<close>

text \<open>\<open>PrincipalValidationError\<close> and its subclass for this process's own settings; what else escapes.\<close>

datatype auth_error = Invalid | Misconfigured | Escaped py_exc

text \<open>Text that is no JSON, or JSON the hooks refuse; and what \<open>json.loads\<close> raises besides, as for a number
  of more than 4300 digits.\<close>

datatype decode_error = NotJson | OtherError py_exc

record rsa_key =
  rk_private :: bool
  rk_bits :: nat
  rk_verify :: "bytes \<Rightarrow> bytes \<Rightarrow> bool"

record codecs =
  cd_loads :: "bytes \<Rightarrow> decode_error + pyval"
  cd_dumps :: "pyval \<Rightarrow> bytes"
  cd_parse :: "string \<Rightarrow> decode_error + pyval"
  cd_hmac :: "bytes \<Rightarrow> bytes \<Rightarrow> bytes"
  cd_import_key :: "string \<Rightarrow> rsa_key option"

section \<open>Base64\<close>

definition b64url_alphabet :: string where
  "b64url_alphabet = ''ABCDEFGHIJKLMNOPQRSTUVWXYZabcdefghijklmnopqrstuvwxyz0123456789-_''"

definition b64url_char :: "nat \<Rightarrow> char" where
  "b64url_char n = b64url_alphabet ! n"

definition b64url_value :: "char \<Rightarrow> nat option" where
  "b64url_value c = first_index (\<lambda>d. d = c) b64url_alphabet"

text \<open>\<open>urlsafe_b64encode(value).rstrip(b"=")\<close>, by groups of three bytes.\<close>

fun b64url :: "bytes \<Rightarrow> string" where
  "b64url [] = []"
| "b64url [a] = (let n = unat a * 16 in map b64url_char [n div 64, n mod 64])"
| "b64url [a, b] = (let n = (unat a * 256 + unat b) * 4 in map b64url_char [n div 4096, n div 64 mod 64, n mod 64])"
| "b64url (a # b # c # bs) =
     (let n = (unat a * 256 + unat b) * 256 + unat c
      in map b64url_char [n div 262144, n div 4096 mod 64, n div 64 mod 64, n mod 64] @ b64url bs)"

text \<open>Decoding with the padding put back: bits that are left over are dropped, a single last
  character is an error.\<close>

fun b64url_groups :: "nat list \<Rightarrow> bytes option" where
  "b64url_groups [] = Some []"
| "b64url_groups [x] = None"
| "b64url_groups [x, y] = Some [word_of_nat ((x * 64 + y) div 16)]"
| "b64url_groups [x, y, z] = (let n = ((x * 64 + y) * 64 + z) div 4 in Some [word_of_nat (n div 256), word_of_nat (n mod 256)])"
| "b64url_groups (x # y # z # u # xs) =
     (let n = ((x * 64 + y) * 64 + z) * 64 + u
      in map_option (\<lambda>bs. word_of_nat (n div 65536) # word_of_nat (n div 256 mod 256) # word_of_nat (n mod 256) # bs)
           (b64url_groups xs))"

definition is_b64 :: "string \<Rightarrow> bool" where
  "is_b64 s \<longleftrightarrow> s \<noteq> [] \<and> list_all (\<lambda>c. c \<in> set b64url_alphabet) s"

text \<open>The one encoding of its bytes, or an error.\<close>

definition decode_canonical :: "string \<Rightarrow> auth_error + bytes" where
  "decode_canonical segment =
     (if \<not> is_b64 segment then Inl Invalid
      else case b64url_groups (map (\<lambda>c. the (b64url_value c)) segment) of
        None \<Rightarrow> Inl Invalid
      | Some raw \<Rightarrow> if b64url raw \<noteq> segment then Inl Invalid else Inr raw)"

definition decode_json_segment :: "codecs \<Rightarrow> string \<Rightarrow> auth_error + pydict" where
  "decode_json_segment cd segment = ebind (decode_canonical segment) (\<lambda>raw. case cd_loads cd raw of
       Inr (PDict d) \<Rightarrow> Inr d
     | Inl (OtherError x) \<Rightarrow> Inl (Escaped x)
     | _ \<Rightarrow> Inl Invalid)"

definition json_segment :: "codecs \<Rightarrow> pydict \<Rightarrow> string" where
  "json_segment cd d = b64url (cd_dumps cd (PDict d))"

section \<open>Keys and names\<close>

definition utf8_bytes :: "string \<Rightarrow> bytes" where
  "utf8_bytes s = concat (map (\<lambda>c. let n = of_char c :: nat in
     if n < 128 then [word_of_nat n] else [word_of_nat (192 + n div 64), word_of_nat (128 + n mod 64)]) s)"

definition key_bytes :: "pyval \<Rightarrow> auth_error + bytes" where
  "key_bytes v = (case v of
       PStr s \<Rightarrow> if length (utf8_bytes s) < 32 then Inl Misconfigured else Inr (utf8_bytes s)
     | _ \<Rightarrow> Inl Misconfigured)"

definition is_alnum :: "char \<Rightarrow> bool" where
  "is_alnum c = (let n = of_char c :: nat in 48 \<le> n \<and> n \<le> 57 \<or> 65 \<le> n \<and> n \<le> 90 \<or> 97 \<le> n \<and> n \<le> 122)"

text \<open>The pattern of key ids and names of services.\<close>

definition is_name :: "string \<Rightarrow> bool" where
  "is_name s = (case s of
       [] \<Rightarrow> False
     | c # cs \<Rightarrow> is_alnum c \<and> list_all (\<lambda>d. is_alnum d \<or> d \<in> {CHR ''.'', CHR ''_'', CHR ''-''}) cs \<and> length cs \<le> 127)"

definition key_id :: "pyval \<Rightarrow> auth_error \<Rightarrow> auth_error + string" where
  "key_id v err = (case v of PStr s \<Rightarrow> if is_name s then Inr s else Inl err | _ \<Rightarrow> Inl err)"

definition not_after :: "pyval \<Rightarrow> auth_error + int" where
  "not_after v = (case v of PInt n \<Rightarrow> if n \<le> 0 then Inl Misconfigured else Inr n | _ \<Rightarrow> Inl Misconfigured)"

definition opt_str :: "string option \<Rightarrow> pyval" where
  "opt_str s = (case s of None \<Rightarrow> PNone | Some t \<Rightarrow> PStr t)"

definition keys_of :: "('k \<times> 'v) list \<Rightarrow> 'k set" where
  "keys_of d = set (map fst d)"

definition json_config :: "codecs \<Rightarrow> string option \<Rightarrow> auth_error + pydict" where
  "json_config cd raw = (case raw of
       None \<Rightarrow> Inl Misconfigured
     | Some s \<Rightarrow> if s = [] then Inl Misconfigured else (case cd_parse cd s of
         Inr (PDict d) \<Rightarrow> if d = [] then Inl Misconfigured else Inr d
       | Inl (OtherError x) \<Rightarrow> Inl (Escaped x)
       | _ \<Rightarrow> Inl Misconfigured))"

text \<open>A keyring \<open>{kid: {key, not_after?}}\<close> with exactly one key that does not retire.\<close>

type_synonym keyring = "(string \<times> (bytes \<times> int option)) list"

definition ring_entry :: "string \<times> pyval \<Rightarrow> auth_error + string \<times> (bytes \<times> int option)" where
  "ring_entry kv = ebind (key_id (PStr (fst kv)) Misconfigured) (\<lambda>kid. case snd kv of
       PDict config \<Rightarrow>
         if keys_of config \<noteq> {''key''} \<and> keys_of config \<noteq> {''key'', ''not_after''} then Inl Misconfigured
         else ebind (if ''not_after'' \<in> keys_of config
             then ebind (not_after (dget config ''not_after'')) (\<lambda>n. Inr (Some n)) else Inr None) (\<lambda>cutoff.
           ebind (key_bytes (dget config ''key'')) (\<lambda>key. Inr (kid, (key, cutoff))))
     | _ \<Rightarrow> Inl Misconfigured)"

definition parse_keyring :: "pydict \<Rightarrow> auth_error + keyring" where
  "parse_keyring d =
     (if d = [] then Inl Misconfigured
      else ebind (emap ring_entry d) (\<lambda>ring.
        if length (filter (\<lambda>(_, (_, cutoff)). cutoff = None) ring) \<noteq> 1 then Inl Misconfigured else Inr ring))"

section \<open>Percent-decoding\<close>

definition is_hex :: "char \<Rightarrow> bool" where
  "is_hex c = (let n = of_char c :: nat in 48 \<le> n \<and> n \<le> 57 \<or> 65 \<le> n \<and> n \<le> 70 \<or> 97 \<le> n \<and> n \<le> 102)"

definition hex_value :: "char \<Rightarrow> nat" where
  "hex_value c = (let n = of_char c :: nat in if n \<le> 57 then n - 48 else if n \<le> 70 then n - 55 else n - 87)"

fun unquote_bytes :: "string \<Rightarrow> nat list" where
  "unquote_bytes (p # a # b # s) =
     (if p = CHR ''%'' \<and> is_hex a \<and> is_hex b then (16 * hex_value a + hex_value b) # unquote_bytes s
      else of_char p # unquote_bytes (a # b # s))"
| "unquote_bytes s = map of_char s"

text \<open>\<open>decode('utf-8', 'replace')\<close>: a lead byte allows a range for the next byte; the longest allowed
  beginning that is not a whole letter becomes one replacement. The result is the letter and how many
  of the bytes after the first it takes.\<close>

definition REPLACEMENT :: nat where "REPLACEMENT = 65533"

definition continuations :: "nat \<Rightarrow> (nat \<times> nat \<times> nat) option" where
  "continuations b =
     (if 194 \<le> b \<and> b \<le> 223 then Some (1, 128, 191)
      else if b = 224 then Some (2, 160, 191)
      else if b = 237 then Some (2, 128, 159)
      else if 225 \<le> b \<and> b \<le> 239 then Some (2, 128, 191)
      else if b = 240 then Some (3, 144, 191)
      else if 241 \<le> b \<and> b \<le> 243 then Some (3, 128, 191)
      else if b = 244 then Some (3, 128, 143)
      else None)"

fun take_continuations :: "nat \<Rightarrow> nat \<Rightarrow> nat \<Rightarrow> nat \<Rightarrow> nat list \<Rightarrow> nat \<times> nat" where
  "take_continuations acc 0 lo hi bs = (acc, 0)"
| "take_continuations acc (Suc n) lo hi bs = (case bs of
       [] \<Rightarrow> (REPLACEMENT, 0)
     | b # bs' \<Rightarrow> if lo \<le> b \<and> b \<le> hi
         then (case take_continuations (acc * 64 + (b - 128)) n 128 191 bs' of (cp, k) \<Rightarrow> (cp, Suc k))
         else (REPLACEMENT, 0))"

definition utf8_letter :: "nat \<Rightarrow> nat list \<Rightarrow> nat \<times> nat" where
  "utf8_letter b bs =
     (if b < 128 then (b, 0)
      else case continuations b of
        None \<Rightarrow> (REPLACEMENT, 0)
      | Some (n, lo, hi) \<Rightarrow> take_continuations (b mod (if n = 1 then 32 else if n = 2 then 16 else 8)) n lo hi bs)"

function utf8_replace :: "nat list \<Rightarrow> ustr" where
  "utf8_replace [] = []"
| "utf8_replace (b # bs) = (case utf8_letter b bs of (cp, k) \<Rightarrow> cp # utf8_replace (drop k bs))"
  by pat_completeness auto
termination by (relation "measure length") auto

definition is_ascii :: "char \<Rightarrow> bool" where
  "is_ascii c \<longleftrightarrow> (of_char c :: nat) < 128"

text \<open>Runs of ASCII are decoded, other letters stay.\<close>

function unquote_runs :: "string \<Rightarrow> ustr" where
  "unquote_runs [] = []"
| "unquote_runs (c # s) =
     (if is_ascii c
      then utf8_replace (unquote_bytes (takeWhile is_ascii (c # s))) @ unquote_runs (dropWhile is_ascii (c # s))
      else of_char c # unquote_runs s)"
  by pat_completeness auto
termination
  by (relation "measure length") (auto simp: less_Suc_eq_le length_dropWhile_le)

definition unquote :: "string \<Rightarrow> ustr" where
  "unquote s = (if CHR ''%'' \<notin> set s then ustr_of s else unquote_runs s)"

text \<open>The items of a comma-separated header.\<close>

definition comma_items :: "string \<Rightarrow> ustr list" where
  "comma_items value = map (\<lambda>item. unquote (strip item))
     (filter (\<lambda>item. strip item \<noteq> []) (split_on CHR '','' value))"

section \<open>Tokens\<close>

definition with_kid :: "pydict \<Rightarrow> string \<Rightarrow> bool" where
  "with_kid header alg \<longleftrightarrow> keys_of header = {''alg'', ''typ'', ''kid''} \<and>
     dget header ''alg'' = PStr alg \<and> dget header ''typ'' = PStr ''JWT''"

definition ascii_bytes :: "string \<Rightarrow> bytes" where
  "ascii_bytes s = map (\<lambda>c. word_of_nat (of_char c)) s"

definition lifetime_ok :: "pyval \<Rightarrow> pyval \<Rightarrow> int \<Rightarrow> int option \<Rightarrow> bool" where
  "lifetime_ok iat expiry now cutoff = (case (iat, expiry) of
       (PInt i, PInt e) \<Rightarrow> i \<le> now \<and> now < e \<and> i < e \<and> e \<le> i + 60 \<and> (case cutoff of None \<Rightarrow> True | Some c \<Rightarrow> e \<le> c)
     | _ \<Rightarrow> False)"

definition seal :: "codecs \<Rightarrow> bytes \<Rightarrow> pydict \<Rightarrow> pydict \<Rightarrow> string" where
  "seal cd key hdr payload =
     (let protected = json_segment cd hdr; body = json_segment cd payload
      in protected @ ''.'' @ body @ ''.'' @ b64url (cd_hmac cd key (ascii_bytes (protected @ ''.'' @ body))))"

text \<open>Arguments left out are taken from the environment.\<close>

definition or_env :: "string option \<Rightarrow> string option \<Rightarrow> string option" where
  "or_env arg env = (case arg of None \<Rightarrow> env | Some s \<Rightarrow> Some s)"

section \<open>Lemmas\<close>

lemma b64url_value_char: "n < 64 \<Longrightarrow> b64url_value (b64url_char n) = Some n"
proof -
  have "\<forall>n\<in>set [0..<64]. b64url_value (b64url_char n) = Some n" by code_simp
  then show "n < 64 \<Longrightarrow> b64url_value (b64url_char n) = Some n" by simp
qed

lemma b64_char_mem: "n < 64 \<Longrightarrow> b64url_char n \<in> set b64url_alphabet"
proof -
  assume "n < 64"
  then have "n < length b64url_alphabet" by (simp add: b64url_alphabet_def)
  then show ?thesis unfolding b64url_char_def by (rule nth_mem)
qed

lemma word_of_nat_unat: "word_of_nat (unat (a :: 8 word)) = a"
  by simp

lemma byte_lt: "unat (a :: 8 word) < 256"
  using unsigned_less [of a, where 'a = nat] by simp

lemma last_byte: "c < 256 \<Longrightarrow> (x * 256 + c) div 256 = x \<and> (x * 256 + c) mod 256 = (c::nat)"
  by simp

lemma b64_values:
  "map (\<lambda>c. the (b64url_value c)) (map b64url_char ns) = ns" "list_all (\<lambda>c. c \<in> set b64url_alphabet) (map b64url_char ns)"
  if "\<forall>n\<in>set ns. n < 64"
  using that by (auto simp: list_all_iff b64url_value_char b64_char_mem intro!: map_idI)

text \<open>Encoding and decoding.\<close>

lemma b64url_roundtrip:
  "list_all (\<lambda>c. c \<in> set b64url_alphabet) (b64url bs) \<and>
    b64url_groups (map (\<lambda>c. the (b64url_value c)) (b64url bs)) = Some bs"
proof (induction bs rule: b64url.induct)
  case (2 a)
  let ?n = "unat a * 16"
  have n: "?n div 64 < 64" "?n mod 64 < 64" using byte_lt [of a] by (simp_all add: less_mult_imp_div_less)
  have "(?n div 64 * 64 + ?n mod 64) div 16 = unat a"
    by (simp only: div_mult_mod_eq)
  then show ?case using b64_values [of "[?n div 64, ?n mod 64]"] n by (simp add: Let_def)
next
  case (3 a b)
  let ?n = "(unat a * 256 + unat b) * 4"
  have n: "?n div 4096 < 64" by (rule less_mult_imp_div_less) (use byte_lt [of a] byte_lt [of b] in simp)
  have "((?n div 4096 * 64 + ?n div 64 mod 64) * 64 + ?n mod 64) = ?n"
    by (simp add: div_mult2_eq [of ?n 64 64, simplified])
  then have "((?n div 4096 * 64 + ?n div 64 mod 64) * 64 + ?n mod 64) div 4 = unat a * 256 + unat b" by simp
  moreover have "(unat a * 256 + unat b) div 256 = unat a" "(unat a * 256 + unat b) mod 256 = unat b"
    using byte_lt [of b] by simp_all
  moreover have "map (\<lambda>c. the (b64url_value c)) (b64url [a, b]) = [?n div 4096, ?n div 64 mod 64, ?n mod 64]"
    unfolding b64url.simps Let_def by (rule b64_values(1)) (use n in simp)
  moreover have "list_all (\<lambda>c. c \<in> set b64url_alphabet) (b64url [a, b])"
    unfolding b64url.simps Let_def by (rule b64_values(2)) (use n in simp)
  ultimately show ?case by (simp only: b64url_groups.simps Let_def word_of_nat_unat)
next
  case (4 a b c bs)
  let ?n = "(unat a * 256 + unat b) * 256 + unat c"
  have n: "?n div 262144 < 64" by (rule less_mult_imp_div_less)
    (use byte_lt [of a] byte_lt [of b] byte_lt [of c] in simp)
  have whole: "(((?n div 262144 * 64 + ?n div 4096 mod 64) * 64 + ?n div 64 mod 64) * 64 + ?n mod 64) = ?n"
    using div_mult2_eq [of ?n 4096 64] div_mult2_eq [of ?n 64 64] by simp
  have parts: "?n div 65536 = unat a" "?n div 256 mod 256 = unat b" "?n mod 256 = unat c"
    using div_mult2_eq [of ?n 256 256] last_byte [OF byte_lt [of b], of "unat a"]
      last_byte [OF byte_lt [of c], of "unat a * 256 + unat b"] by simp_all
  let ?ns = "[?n div 262144, ?n div 4096 mod 64, ?n div 64 mod 64, ?n mod 64]"
  have v: "map (\<lambda>c. the (b64url_value c)) (b64url (a # b # c # bs)) = ?ns @ map (\<lambda>c. the (b64url_value c)) (b64url bs)"
    unfolding b64url.simps Let_def map_append by (subst b64_values(1)) (use n in simp_all)
  have "list_all (\<lambda>c. c \<in> set b64url_alphabet) (map b64url_char ?ns)" by (rule b64_values(2)) (use n in simp)
  then have al: "list_all (\<lambda>c. c \<in> set b64url_alphabet) (b64url (a # b # c # bs))"
    unfolding b64url.simps Let_def list_all_append using 4 by blast
  have "b64url_groups (?ns @ map (\<lambda>c. the (b64url_value c)) (b64url bs)) = Some (a # b # c # bs)"
    unfolding append.simps b64url_groups.simps Let_def whole parts word_of_nat_unat using 4 by simp
  then show ?case unfolding v using al by blast
qed simp_all

lemma decode_encode: "bs \<noteq> [] \<Longrightarrow> decode_canonical (b64url bs) = Inr bs"
proof -
  assume "bs \<noteq> []"
  then have "b64url bs \<noteq> []" by (cases bs rule: b64url.cases) (simp_all add: Let_def)
  then show ?thesis using b64url_roundtrip [of bs] by (simp add: decode_canonical_def is_b64_def)
qed

lemma decode_canonical_Inr: "decode_canonical s = Inr bs \<Longrightarrow> b64url bs = s"
  by (auto simp: decode_canonical_def split: if_splits option.splits)

text \<open>Members in another order.\<close>

definition reordered :: "pyval \<Rightarrow> pyval \<Rightarrow> bool" where
  "reordered a b = (case (a, b) of
       (PDict x, PDict y) \<Rightarrow> distinct (map fst x) \<and> set x = set y
     | _ \<Rightarrow> a = b)"

definition reads_back :: "codecs \<Rightarrow> pydict \<Rightarrow> bool" where
  "reads_back cd d \<longleftrightarrow> cd_dumps cd (PDict d) \<noteq> [] \<and> (\<exists>d'. cd_loads cd (cd_dumps cd (PDict d)) = Inr (PDict d') \<and>
     keys_of d' = keys_of d \<and> (\<forall>k\<in>keys_of d. reordered (dget d' k) (dget d k)))"

lemma reordered_simps [simp]:
  "reordered a (PStr s) \<longleftrightarrow> a = PStr s" "reordered a (PInt i) \<longleftrightarrow> a = PInt i"
  "reordered a (PDict y) \<longleftrightarrow> (\<exists>x. a = PDict x \<and> distinct (map fst x) \<and> set x = set y)"
  by (cases a; auto simp: reordered_def)+

lemma b64_letters: "c \<in> set (b64url bs) \<Longrightarrow> c \<in> set b64url_alphabet"
  using b64url_roundtrip [of bs] by (auto simp: list_all_iff)

lemma b64_plain: "CHR ''.'' \<notin> set (b64url bs)" "list_all is_ascii (b64url bs)"
proof -
  have "\<forall>c\<in>set b64url_alphabet. c \<noteq> CHR ''.'' \<and> is_ascii c" by code_simp
  then show "CHR ''.'' \<notin> set (b64url bs)" "list_all is_ascii (b64url bs)"
    using b64_letters by (auto simp: list_all_iff)
qed

lemma b64url_Nil: "b64url bs = [] \<longleftrightarrow> bs = []"
  by (cases bs rule: b64url.cases) (simp_all add: Let_def)

lemma split_sealed: "split_on CHR ''.'' (b64url a @ ''.'' @ b64url b @ ''.'' @ b64url c) =
    [b64url a, b64url b, b64url c]"
  using b64_plain(1) by (simp add: split_on_append split_on_free)

lemma read_segment:
  assumes "reads_back cd d"
  shows "\<exists>d'. decode_json_segment cd (json_segment cd d) = Inr d' \<and> keys_of d' = keys_of d \<and>
    (\<forall>k\<in>keys_of d. reordered (dget d' k) (dget d k))"
  using assms by (auto simp: reads_back_def decode_json_segment_def json_segment_def decode_encode)

lemma key_bytes_long: "key_bytes v = Inr k \<Longrightarrow> 32 \<le> length k"
  by (auto simp: key_bytes_def split: pyval.splits if_splits)

lemma emap_map_of:
  "emap f xs = Inr ys \<Longrightarrow> map_of ys k = Some y \<Longrightarrow> \<exists>x\<in>set xs. f x = Inr (k, y)"
  by (induction xs arbitrary: ys) (auto simp: ebind_Inr split: if_splits)

lemma ring_entry_long: "ring_entry kv = Inr (kid, (k, cutoff)) \<Longrightarrow> 32 \<le> length k"
  by (cases "snd kv") (auto simp: ring_entry_def ebind_Inr dest: key_bytes_long split: if_splits)

lemma parse_keyring_long:
  assumes "parse_keyring d = Inr ring" and "map_of ring kid = Some (k, cutoff)"
  shows "32 \<le> length k"
proof -
  have "emap ring_entry d = Inr ring" using assms(1) by (auto simp: parse_keyring_def ebind_Inr split: if_splits)
  then obtain x where "ring_entry x = Inr (kid, (k, cutoff))" using emap_map_of assms(2) by metis
  then show ?thesis by (rule ring_entry_long)
qed

lemma utf8_replicate: "utf8_bytes (replicate n CHR ''k'') = replicate n 107"
  by (induction n) (simp_all add: utf8_bytes_def)

end
