(* ===== verification/Principal.thy ===== *)
theory Principal
  imports AuthTokens
begin

text \<open>
  \<open>src/xgen_sdk/auth/principal.py\<close>: identity headers are believed only with a signed assertion that
  binds them, by the gateway (RSA) or by a trusted service (HMAC). The settings come from the
  environment; the time is an argument. Headers of a request are pairs of bytes, here characters.
\<close>

record settings =
  st_public_key :: "string option"
  st_public_keys :: "string option"
  st_gateway_kid :: "string option"
  st_service_name :: "string option"
  st_signing_key :: "string option"
  st_signing_kid :: "string option"
  st_trusted :: "string option"

definition IDENTITY_HEADERS :: "string list" where
  "IDENTITY_HEADERS = [''x-user-id'', ''x-user-name'', ''x-user-superuser'', ''x-user-roles'',
     ''x-user-permissions'', ''x-user-supervision-full'']"

definition PROOF_HEADER :: string where
  "PROOF_HEADER = ''x-xgen-principal''"

definition CLAIM_KEYS :: "string list" where
  "CLAIM_KEYS = [''iss'', ''aud'', ''type'', ''iat'', ''exp'', ''headers'']"

definition MAX_ASSERTION :: nat where
  "MAX_ASSERTION = 16384"

section \<open>Keys\<close>

definition gateway_public_key :: "codecs \<Rightarrow> pyval \<Rightarrow> auth_error + rsa_key" where
  "gateway_public_key cd v = (case v of
       PStr s \<Rightarrow> if s = [] then Inl Misconfigured else (case cd_import_key cd s of
           None \<Rightarrow> Inl Misconfigured
         | Some k \<Rightarrow> if rk_private k \<or> rk_bits k < 2048 then Inl Misconfigured else Inr k)
     | _ \<Rightarrow> Inl Misconfigured)"

definition gateway_entry ::
  "codecs \<Rightarrow> string \<Rightarrow> string \<times> pyval \<Rightarrow> auth_error + string \<times> (rsa_key \<times> int option)" where
  "gateway_entry cd active kv = ebind (key_id (PStr (fst kv)) Misconfigured) (\<lambda>kid. case snd kv of
       PDict config \<Rightarrow>
         if keys_of config \<noteq> (if kid = active then {''key''} else {''key'', ''not_after''}) then Inl Misconfigured
         else ebind (if kid = active then Inr None
             else ebind (not_after (dget config ''not_after'')) (\<lambda>n. Inr (Some n))) (\<lambda>cutoff.
           ebind (gateway_public_key cd (dget config ''key'')) (\<lambda>key. Inr (kid, (key, cutoff))))
     | _ \<Rightarrow> Inl Misconfigured)"

text \<open>Equality of a decoded dictionary with one of strings.\<close>

definition is_dict_of :: "pydict \<Rightarrow> (string \<times> string) list \<Rightarrow> bool" where
  "is_dict_of d kvs \<longleftrightarrow> keys_of d = keys_of kvs \<and> list_all (\<lambda>(k, v). dget d k = PStr v) kvs"

definition gateway_verification_key :: "codecs \<Rightarrow> settings \<Rightarrow> pydict \<Rightarrow> auth_error + rsa_key \<times> int option" where
  "gateway_verification_key cd st header = (case st_public_keys st of
       None \<Rightarrow> if \<not> is_dict_of header [(''alg'', ''RS256''), (''typ'', ''JWT'')] then Inl Invalid
         else ebind (gateway_public_key cd (opt_str (st_public_key st))) (\<lambda>k. Inr (k, None))
     | Some raw \<Rightarrow> ebind (json_config cd (Some raw)) (\<lambda>ring.
         ebind (key_id (opt_str (st_gateway_kid st)) Misconfigured) (\<lambda>active.
         if active \<notin> keys_of ring then Inl Misconfigured
         else ebind (emap (gateway_entry cd active) ring) (\<lambda>parsed.
           if \<not> with_kid header ''RS256'' then Inl Invalid
           else ebind (key_id (dget header ''kid'') Invalid) (\<lambda>kid. case map_of parsed kid of
               None \<Rightarrow> Inl Invalid
             | Some selected \<Rightarrow> Inr selected)))))"

definition service_name :: "pyval \<Rightarrow> auth_error + string" where
  "service_name v = (case v of
       PStr s \<Rightarrow> if is_name s \<and> s \<noteq> ''xgen-gateway'' then Inr s else Inl Misconfigured
     | _ \<Rightarrow> Inl Misconfigured)"

section \<open>Identity headers\<close>

definition safe_header_value :: "pyval \<Rightarrow> auth_error + string" where
  "safe_header_value v = (case v of
       PStr s \<Rightarrow> if list_ex (\<lambda>c. (of_char c :: nat) < 32 \<or> (of_char c :: nat) = 127) s then Inl Invalid else Inr s
     | _ \<Rightarrow> Inl Invalid)"

definition is_alias :: "string \<Rightarrow> bool" where
  "is_alias name \<longleftrightarrow> take 7 name = ''x-user_'' \<or> name = ''x-userid''"

fun gather_headers :: "(string \<times> string) list \<Rightarrow> (string \<times> pyval) list \<Rightarrow> auth_error + (string \<times> string) list" where
  "gather_headers acc [] = Inr acc"
| "gather_headers acc ((raw, v) # hs) =
     (let name = lower raw in
      if is_alias name then Inl Invalid
      else if name \<notin> set IDENTITY_HEADERS then Inl Invalid
      else if name \<in> keys_of acc then Inl Invalid
      else ebind (safe_header_value v) (\<lambda>t. gather_headers (acc @ [(name, t)]) hs))"

definition setdefault :: "string \<Rightarrow> string \<Rightarrow> (string \<times> string) list \<Rightarrow> (string \<times> string) list" where
  "setdefault k v d = (if k \<in> keys_of d then d else d @ [(k, v)])"

definition header :: "(string \<times> string) list \<Rightarrow> string \<Rightarrow> string" where
  "header d k = (case map_of d k of None \<Rightarrow> [] | Some v \<Rightarrow> v)"

definition canonical_identity_headers ::
  "(string \<times> pyval) list \<Rightarrow> bool \<Rightarrow> auth_error + (string \<times> string) list" where
  "canonical_identity_headers headers defaults =
     ebind (gather_headers [] headers) (\<lambda>given.
       let canonical = (if defaults then setdefault ''x-user-supervision-full'' [] (setdefault ''x-user-permissions'' []
              (setdefault ''x-user-roles'' [] (setdefault ''x-user-superuser'' ''false'' given))) else given)
       in if keys_of canonical \<noteq> set IDENTITY_HEADERS then Inl Invalid
          else if header canonical ''x-user-id'' = [] \<or> header canonical ''x-user-name'' = [] then Inl Invalid
          else if lower (header canonical ''x-user-superuser'') \<notin> {''true'', ''false''} then Inl Invalid
          else Inr (map (\<lambda>n. (n, header canonical n)) IDENTITY_HEADERS))"

definition as_values :: "(string \<times> string) list \<Rightarrow> (string \<times> pyval) list" where
  "as_values d = map (\<lambda>(k, v). (k, PStr v)) d"

text \<open>The identity headers and the proof of a request, or nothing of either.\<close>

fun scan_headers ::
  "(string \<times> string) list \<Rightarrow> string option \<Rightarrow> (string \<times> string) list \<Rightarrow>
    auth_error + (string \<times> string) list \<times> string option" where
  "scan_headers identity proof_text [] = Inr (identity, proof_text)"
| "scan_headers identity proof_text ((raw, v) # hs) =
     (if \<not> list_all is_ascii raw then Inl Invalid
      else let name = lower raw in
        if is_alias name then Inl Invalid
        else if name \<in> set IDENTITY_HEADERS then
          (if name \<in> keys_of identity then Inl Invalid
           else ebind (safe_header_value (PStr v)) (\<lambda>t. scan_headers (identity @ [(name, t)]) proof_text hs))
        else if name = PROOF_HEADER then
          (if proof_text \<noteq> None \<or> \<not> list_all is_ascii v then Inl Invalid
           else scan_headers identity (Some v) hs)
        else scan_headers identity proof_text hs)"

definition raw_principal_headers ::
  "(string \<times> string) list \<Rightarrow> auth_error + ((string \<times> string) list \<times> string option) option" where
  "raw_principal_headers scope = ebind (scan_headers [] None scope) (\<lambda>(identity, proof_text).
     Inr (if identity = [] \<and> proof_text = None then None else Some (identity, proof_text)))"

section \<open>Trusted services\<close>

type_synonym service_keys = "(string option \<times> (bytes \<times> int option)) list"

definition grant_list :: "pyval \<Rightarrow> auth_error + string list" where
  "grant_list v = (case v of
       PList ps \<Rightarrow>
         (case emap (\<lambda>p. case p of PStr s \<Rightarrow> if s = [] \<or> of_char CHR ''*'' \<in> set (unquote s) then Inl () else Inr s
              | _ \<Rightarrow> Inl ()) ps of
            Inr ss \<Rightarrow> if distinct ss then Inr ss else Inl Misconfigured
          | Inl _ \<Rightarrow> Inl Misconfigured)
     | _ \<Rightarrow> Inl Misconfigured)"

definition trusted_entry :: "string \<times> pyval \<Rightarrow> auth_error + string \<times> (service_keys \<times> string list)" where
  "trusted_entry kv =
     (if \<not> is_name (fst kv) then Inl Misconfigured
      else case snd kv of
        PDict config \<Rightarrow>
          if keys_of config \<noteq> {''key'', ''permissions''} \<and> keys_of config \<noteq> {''keys'', ''permissions''}
          then Inl Misconfigured
          else ebind (grant_list (dget config ''permissions'')) (\<lambda>permissions.
            ebind (if ''key'' \<in> keys_of config
              then ebind (key_bytes (dget config ''key'')) (\<lambda>key. Inr [(None, (key, None))])
              else case dget config ''keys'' of
                PDict ring \<Rightarrow> ebind (parse_keyring ring) (\<lambda>keys. Inr (map (\<lambda>(kid, k). (Some kid, k)) keys))
              | _ \<Rightarrow> Inl Misconfigured) (\<lambda>keys. Inr (fst kv, (keys, permissions))))
      | _ \<Rightarrow> Inl Misconfigured)"

definition trusted_services ::
  "codecs \<Rightarrow> string option \<Rightarrow> auth_error + (string \<times> (service_keys \<times> string list)) list" where
  "trusted_services cd raw = ebind (json_config cd raw) (emap trusted_entry)"

definition service_key :: "pydict \<Rightarrow> service_keys \<Rightarrow> auth_error + bytes \<times> int option" where
  "service_key hdr keys =
     (case map_of keys None of
        Some selected \<Rightarrow>
          if is_dict_of hdr [(''alg'', ''HS256''), (''typ'', ''JWT'')] then Inr selected else Inl Invalid
      | None \<Rightarrow>
          if \<not> with_kid hdr ''HS256'' then Inl Invalid
          else ebind (key_id (dget hdr ''kid'') Invalid) (\<lambda>kid. case map_of keys (Some kid) of
              None \<Rightarrow> Inl Invalid
            | Some selected \<Rightarrow> Inr selected))"

section \<open>Verifying\<close>

text \<open>The key an assertion is to be checked with; of a service also what it may grant.\<close>

datatype verifier = Gateway rsa_key | Service bytes "string list"

definition select_verifier ::
  "codecs \<Rightarrow> settings \<Rightarrow> pydict \<Rightarrow> pydict \<Rightarrow> auth_error + verifier \<times> int option" where
  "select_verifier cd st hdr payload =
     (let kind = dget payload ''type''; issuer = dget payload ''iss'' in
      if kind = PStr ''principal'' \<and> issuer = PStr ''xgen-gateway''
      then ebind (gateway_verification_key cd st hdr) (\<lambda>(k, cutoff). Inr (Gateway k, cutoff))
      else case issuer of
        PStr name \<Rightarrow>
          if kind \<noteq> PStr ''service'' then Inl Invalid
          else ebind (trusted_services cd (st_trusted st)) (\<lambda>services. case map_of services name of
              None \<Rightarrow> Inl Invalid
            | Some (keys, permissions) \<Rightarrow>
                ebind (service_key hdr keys) (\<lambda>(key, cutoff). Inr (Service key permissions, cutoff)))
      | _ \<Rightarrow> Inl Invalid)"

definition signature_ok :: "codecs \<Rightarrow> verifier \<Rightarrow> bytes \<Rightarrow> bytes \<Rightarrow> bool" where
  "signature_ok cd v msg sig = (case v of
       Gateway k \<Rightarrow> rk_verify k msg sig
     | Service key _ \<Rightarrow> sig = cd_hmac cd key msg)"

text \<open>What a service may state in the headers it binds.\<close>

definition within_grants :: "verifier \<Rightarrow> (string \<times> string) list \<Rightarrow> bool" where
  "within_grants v ids = (case v of
       Gateway _ \<Rightarrow> True
     | Service _ permissions \<Rightarrow>
         lower (header ids ''x-user-superuser'') = ''false'' \<and>
         list_all (\<lambda>p. of_char CHR ''*'' \<notin> set p \<and> p \<in> set (map ustr_of permissions))
           (comma_items (header ids ''x-user-permissions'')))"

definition verify_assertion ::
  "codecs \<Rightarrow> settings \<Rightarrow> string \<Rightarrow> (string \<times> string) list \<Rightarrow> int \<Rightarrow> auth_error + pydict" where
  "verify_assertion cd st assertion actual now =
     (if MAX_ASSERTION < length assertion then Inl Invalid
      else case split_on CHR ''.'' assertion of
        [protected, body, signature] \<Rightarrow>
          if protected = [] \<or> body = [] \<or> signature = [] then Inl Invalid
          else
            ebind (decode_json_segment cd protected) (\<lambda>hdr.
            ebind (decode_json_segment cd body) (\<lambda>payload.
            if keys_of payload \<noteq> set CLAIM_KEYS then Inl Invalid
            else ebind (select_verifier cd st hdr payload) (\<lambda>(v, cutoff).
              ebind (decode_canonical signature) (\<lambda>sig.
              if \<not> signature_ok cd v (ascii_bytes (protected @ ''.'' @ body)) sig then Inl Invalid
              else ebind (service_name (opt_str (st_service_name st))) (\<lambda>audience.
                if dget payload ''aud'' \<noteq> PStr audience then Inl Invalid
                else if \<not> lifetime_ok (dget payload ''iat'') (dget payload ''exp'') now cutoff then Inl Invalid
                else case dget payload ''headers'' of
                  PDict claimed \<Rightarrow>
                    ebind (canonical_identity_headers claimed False) (\<lambda>claims.
                    ebind (canonical_identity_headers (as_values actual) False) (\<lambda>ids.
                    if claims \<noteq> ids then Inl Invalid
                    else if \<not> within_grants v claims then Inl Invalid
                    else Inr payload))
                | _ \<Rightarrow> Inl Invalid)))))
      | _ \<Rightarrow> Inl Invalid)"

definition verified_identity_headers ::
  "codecs \<Rightarrow> settings \<Rightarrow> (string \<times> string) list \<Rightarrow> int \<Rightarrow> auth_error + (string \<times> string) list option" where
  "verified_identity_headers cd st scope now =
     ebind (raw_principal_headers scope) (\<lambda>found. case found of
         None \<Rightarrow> Inr None
       | Some (identity, None) \<Rightarrow> Inl Invalid
       | Some (identity, Some assertion) \<Rightarrow>
           ebind (verify_assertion cd st assertion identity now) (\<lambda>_.
           ebind (canonical_identity_headers (as_values identity) False) (\<lambda>ids. Inr (Some ids))))"

section \<open>Signing\<close>

definition service_header :: "string option \<Rightarrow> pydict" where
  "service_header kid = [(''alg'', PStr ''HS256''), (''typ'', PStr ''JWT'')] @
     (case kid of None \<Rightarrow> [] | Some k \<Rightarrow> [(''kid'', PStr k)])"

definition service_payload :: "string \<Rightarrow> string \<Rightarrow> int \<Rightarrow> int \<Rightarrow> (string \<times> string) list \<Rightarrow> pydict" where
  "service_payload issuer target issued ttl ids =
     [(''iss'', PStr issuer), (''aud'', PStr target), (''type'', PStr ''service''), (''iat'', PInt issued),
      (''exp'', PInt (issued + ttl)), (''headers'', PDict (as_values ids))]"

definition sign_principal_for_service ::
  "codecs \<Rightarrow> settings \<Rightarrow> (string \<times> pyval) list \<Rightarrow> string \<Rightarrow> string option \<Rightarrow> string option \<Rightarrow> string option \<Rightarrow>
    int \<Rightarrow> int \<Rightarrow> auth_error + string" where
  "sign_principal_for_service cd st delegated audience name signing_key kid ttl now =
     ebind (service_name (opt_str (or_env name (st_service_name st)))) (\<lambda>issuer.
     ebind (service_name (PStr audience)) (\<lambda>target.
     ebind (key_bytes (opt_str (or_env signing_key (st_signing_key st)))) (\<lambda>key.
     ebind (case or_env kid (st_signing_kid st) of
         None \<Rightarrow> Inr None
       | Some k \<Rightarrow> ebind (key_id (PStr k) Misconfigured) (\<lambda>k. Inr (Some k))) (\<lambda>selected.
     if ttl < 1 \<or> 60 < ttl then Inl Invalid
     else ebind (canonical_identity_headers delegated True) (\<lambda>ids.
       if lower (header ids ''x-user-superuser'') \<noteq> ''false'' then Inl Invalid
       else if list_ex (\<lambda>p. of_char CHR ''*'' \<in> set p) (comma_items (header ids ''x-user-permissions'')) then Inl Invalid
       else Inr (seal cd key (service_header selected) (service_payload issuer target now ttl ids)))))))"

text \<open>The names on the wire are the canonical ones in another case.\<close>

definition wire_name :: "string \<Rightarrow> string" where
  "wire_name n = (case map_of [(''x-user-id'', ''X-User-ID''), (''x-user-name'', ''X-User-Name''),
     (''x-user-superuser'', ''X-User-Superuser''), (''x-user-roles'', ''X-User-Roles''),
     (''x-user-permissions'', ''X-User-Permissions''), (''x-user-supervision-full'', ''X-User-Supervision-Full''),
     (PROOF_HEADER, ''X-Xgen-Principal'')] n of None \<Rightarrow> [] | Some w \<Rightarrow> w)"

definition service_principal_headers ::
  "codecs \<Rightarrow> settings \<Rightarrow> (string \<times> pyval) list \<Rightarrow> string \<Rightarrow> string option \<Rightarrow> string option \<Rightarrow> string option \<Rightarrow>
    int \<Rightarrow> int \<Rightarrow> auth_error + (string \<times> string) list" where
  "service_principal_headers cd st delegated audience name signing_key kid ttl now =
     ebind (canonical_identity_headers delegated True) (\<lambda>ids.
     ebind (sign_principal_for_service cd st (as_values ids) audience name signing_key kid ttl now) (\<lambda>assertion.
     Inr (map (\<lambda>(n, v). (wire_name n, v)) ids @ [(wire_name PROOF_HEADER, assertion)])))"

section \<open>The middleware\<close>

datatype kind = HTTP | WEBSOCKET | OTHER_SCOPE

datatype verdict = Forward "(string \<times> string) list option" | Refuse int | Raise auth_error

definition middleware :: "codecs \<Rightarrow> settings \<Rightarrow> kind \<Rightarrow> (string \<times> string) list \<Rightarrow> int \<Rightarrow> verdict" where
  "middleware cd st k scope now =
     (if k = OTHER_SCOPE then Forward None
      else case verified_identity_headers cd st scope now of
        Inr ids \<Rightarrow> Forward ids
      | Inl Misconfigured \<Rightarrow> Refuse (if k = WEBSOCKET then 1013 else 503)
      | Inl Invalid \<Rightarrow> Refuse (if k = WEBSOCKET then 4401 else 401)
      | Inl (Escaped x) \<Rightarrow> Raise (Escaped x))"

end
