(* ===== verification/AuthSession.thy ===== *)
theory AuthSession
  imports Principal
begin

text \<open>
  \<open>src/xgen_sdk/auth/gateway.py\<close> and the dependencies of \<open>permission_registry.py\<close>: the session of a
  request, read from headers whose proof is verified, and the checks of endpoints on it. What a
  request that got through rests on.
\<close>

section \<open>The session of a request\<close>

record session =
  ss_user_id :: int
  ss_user_name :: ustr
  ss_superuser :: bool
  ss_roles :: "ustr list"
  ss_permissions :: "ustr list"
  ss_supervision :: "ustr list"

text \<open>Why an endpoint is not entered, and with which status; an exception of another kind ends in 500.\<close>

datatype refusal = Unavailable | Unauthorized | Denied "string list" | NotAdmin | Crash py_exc

fun status_of :: "refusal \<Rightarrow> int" where
  "status_of Unavailable = 503"
| "status_of Unauthorized = 401"
| "status_of (Denied _) = 403"
| "status_of NotAdmin = 403"
| "status_of (Crash _) = 500"

definition normalize_user_id :: "pyval \<Rightarrow> py_exc + int option" where
  "normalize_user_id v = (case v of
       PInt i \<Rightarrow> Inr (Some i)
     | PBool b \<Rightarrow> Inr (Some (if b then 1 else 0))
     | PStr s \<Rightarrow>
         (let t = strip s in
          if t = [] \<or> \<not> list_all isdigit_char t then Inr None
          else case parse_int t of None \<Rightarrow> Inl ValueError | Some i \<Rightarrow> Inr (Some i))
     | _ \<Rightarrow> Inr None)"

definition parse_comma_list :: "string \<Rightarrow> ustr list" where
  "parse_comma_list value = (if strip value = [] then [] else comma_items value)"

definition is_true :: "string \<Rightarrow> bool" where
  "is_true s \<longleftrightarrow> lower s = ''true''"

definition session_of :: "(string \<times> string) list \<Rightarrow> refusal + session" where
  "session_of trusted =
     (let user_id = header trusted ''x-user-id'';
          user_name = unquote (header trusted ''x-user-name'');
          is_superuser = is_true (header trusted ''x-user-superuser'')
      in if user_id = [] \<or> user_name = [] then Inl Unauthorized
         else case normalize_user_id (PStr user_id) of
           Inl x \<Rightarrow> Inl (Crash x)
         | Inr None \<Rightarrow> Inl Unauthorized
         | Inr (Some i) \<Rightarrow> Inr \<lparr>ss_user_id = i, ss_user_name = user_name, ss_superuser = is_superuser,
             ss_roles = parse_comma_list (header trusted ''x-user-roles''),
             ss_permissions = (if is_superuser then [ustr_of ''*:*'']
               else remdups (parse_comma_list (header trusted ''x-user-permissions''))),
             ss_supervision = parse_comma_list (header trusted ''x-user-supervision-full'')\<rparr>)"

definition get_user_info_by_gateway ::
  "codecs \<Rightarrow> settings \<Rightarrow> (string \<times> string) list \<Rightarrow> int \<Rightarrow> refusal + session" where
  "get_user_info_by_gateway cd st scope now = (case verified_identity_headers cd st scope now of
       Inl Misconfigured \<Rightarrow> Inl Unavailable
     | Inl Invalid \<Rightarrow> Inl Unauthorized
     | Inl (Escaped x) \<Rightarrow> Inl (Crash x)
     | Inr None \<Rightarrow> Inl Unauthorized
     | Inr (Some trusted) \<Rightarrow> session_of trusted)"

section \<open>Checks of endpoints\<close>

definition has_perm :: "session \<Rightarrow> string \<Rightarrow> bool" where
  "has_perm s required = has_permission (ss_permissions s) (ustr_of required)"

definition require_permission ::
  "codecs \<Rightarrow> settings \<Rightarrow> (string \<times> string) list \<Rightarrow> string \<Rightarrow> int \<Rightarrow> refusal + session" where
  "require_permission cd st scope required now =
     ebind (get_user_info_by_gateway cd st scope now) (\<lambda>s.
       if has_perm s required then Inr s else Inl (Denied [required]))"

definition require_any_permission ::
  "codecs \<Rightarrow> settings \<Rightarrow> (string \<times> string) list \<Rightarrow> string list \<Rightarrow> int \<Rightarrow> refusal + session" where
  "require_any_permission cd st scope required_list now =
     ebind (get_user_info_by_gateway cd st scope now) (\<lambda>s.
       if list_ex (has_perm s) required_list then Inr s else Inl (Denied required_list))"

definition require_superuser :: "codecs \<Rightarrow> settings \<Rightarrow> (string \<times> string) list \<Rightarrow> int \<Rightarrow> refusal + session" where
  "require_superuser cd st scope now =
     ebind (get_user_info_by_gateway cd st scope now) (\<lambda>s.
       if ss_superuser s then Inr s else Inl NotAdmin)"

definition extract_user_id :: "codecs \<Rightarrow> settings \<Rightarrow> (string \<times> string) list \<Rightarrow> int \<Rightarrow> refusal + int" where
  "extract_user_id cd st scope now =
     ebind (get_user_info_by_gateway cd st scope now) (\<lambda>s. Inr (ss_user_id s))"

text \<open>The factories of dependencies: what importing the endpoint registers, and what a request runs.\<close>

fun register_all :: "string list \<Rightarrow> string \<Rightarrow> permission_registry \<Rightarrow> permission_registry" where
  "register_all [] description reg = reg"
| "register_all (p # ps) description reg = register_all ps description (register_permission p description reg)"

fun first_missing :: "session \<Rightarrow> string list \<Rightarrow> string option" where
  "first_missing s [] = None"
| "first_missing s (p # ps) = (if has_perm s p then first_missing s ps else Some p)"

definition require_perm ::
  "codecs \<Rightarrow> settings \<Rightarrow> string list \<Rightarrow> (string \<times> string) list \<Rightarrow> int \<Rightarrow> refusal + session" where
  "require_perm cd st permissions scope now =
     ebind (get_user_info_by_gateway cd st scope now) (\<lambda>s.
       if ss_superuser s then Inr s
       else case first_missing s permissions of None \<Rightarrow> Inr s | Some p \<Rightarrow> Inl (Denied [p]))"

definition require_any_perm ::
  "codecs \<Rightarrow> settings \<Rightarrow> string list \<Rightarrow> (string \<times> string) list \<Rightarrow> int \<Rightarrow> refusal + session" where
  "require_any_perm cd st permissions scope now =
     ebind (get_user_info_by_gateway cd st scope now) (\<lambda>s.
       if ss_superuser s then Inr s
       else if list_ex (has_perm s) permissions then Inr s else Inl (Denied permissions))"

definition require_login :: "codecs \<Rightarrow> settings \<Rightarrow> (string \<times> string) list \<Rightarrow> int \<Rightarrow> refusal + session" where
  "require_login cd st scope now = get_user_info_by_gateway cd st scope now"

section \<open>What an accepted assertion rests on\<close>

text \<open>The object a setting holds as JSON, the header of an assertion, and the keys the settings name
  for it, each with the time it retires: for the gateway the one public key without key ids, or the
  key of a ring under the key id of the header, where all but the active one retire; for a service
  the secret of its entry, or the one of its ring under that key id. These are said of the settings
  themselves, not of what the code reads from them.\<close>

definition holds_object :: "codecs \<Rightarrow> string option \<Rightarrow> pydict \<Rightarrow> bool" where
  "holds_object cd raw d \<longleftrightarrow> (\<exists>t. raw = Some t \<and> cd_parse cd t = Inr (PDict d))"

definition header_says :: "pydict \<Rightarrow> string \<Rightarrow> string option \<Rightarrow> bool" where
  "header_says hdr alg kid \<longleftrightarrow> dget hdr ''alg'' = PStr alg \<and> dget hdr ''typ'' = PStr ''JWT'' \<and> (case kid of
       None \<Rightarrow> keys_of hdr = {''alg'', ''typ''}
     | Some k \<Rightarrow> keys_of hdr = {''alg'', ''typ'', ''kid''} \<and> dget hdr ''kid'' = PStr k)"

definition public_key_of :: "codecs \<Rightarrow> pyval \<Rightarrow> rsa_key \<Rightarrow> bool" where
  "public_key_of cd v k \<longleftrightarrow> (\<exists>pem. v = PStr pem \<and> cd_import_key cd pem = Some k) \<and> \<not> rk_private k \<and> 2048 \<le> rk_bits k"

definition secret_of :: "pyval \<Rightarrow> bytes \<Rightarrow> bool" where
  "secret_of v key \<longleftrightarrow> (\<exists>t. v = PStr t \<and> key = utf8_bytes t) \<and> 32 \<le> length key"

definition gateway_key_named :: "codecs \<Rightarrow> settings \<Rightarrow> pydict \<Rightarrow> rsa_key \<Rightarrow> int option \<Rightarrow> bool" where
  "gateway_key_named cd st hdr k cutoff \<longleftrightarrow> (if st_public_keys st = None
     then header_says hdr ''RS256'' None \<and> cutoff = None \<and> public_key_of cd (opt_str (st_public_key st)) k
     else \<exists>ring kid config. holds_object cd (st_public_keys st) ring \<and> (kid, PDict config) \<in> set ring \<and>
       header_says hdr ''RS256'' (Some kid) \<and> public_key_of cd (dget config ''key'') k \<and>
       (if st_gateway_kid st = Some kid then cutoff = None
        else \<exists>n. cutoff = Some n \<and> dget config ''not_after'' = PInt n))"

definition service_key_named ::
  "codecs \<Rightarrow> settings \<Rightarrow> string \<Rightarrow> pydict \<Rightarrow> bytes \<Rightarrow> string list \<Rightarrow> int option \<Rightarrow> bool" where
  "service_key_named cd st name hdr key grants cutoff \<longleftrightarrow> (\<exists>services config.
     holds_object cd (st_trusted st) services \<and> (name, PDict config) \<in> set services \<and>
     dget config ''permissions'' = PList (map PStr grants) \<and>
     (header_says hdr ''HS256'' None \<and> cutoff = None \<and> secret_of (dget config ''key'') key \<or>
      (\<exists>ring kid entry. dget config ''keys'' = PDict ring \<and> (kid, PDict entry) \<in> set ring \<and>
         header_says hdr ''HS256'' (Some kid) \<and> secret_of (dget entry ''key'') key \<and>
         (if ''not_after'' \<in> keys_of entry then \<exists>n. cutoff = Some n \<and> dget entry ''not_after'' = PInt n
          else cutoff = None))))"

definition key_named ::
  "codecs \<Rightarrow> settings \<Rightarrow> pydict \<Rightarrow> pydict \<Rightarrow> verifier \<Rightarrow> int option \<Rightarrow> bool" where
  "key_named cd st hdr payload v cutoff \<longleftrightarrow> (case v of
       Gateway k \<Rightarrow> dget payload ''iss'' = PStr ''xgen-gateway'' \<and> dget payload ''type'' = PStr ''principal'' \<and>
         gateway_key_named cd st hdr k cutoff
     | Service key grants \<Rightarrow> dget payload ''type'' = PStr ''service'' \<and>
         (\<exists>name. dget payload ''iss'' = PStr name \<and> service_key_named cd st name hdr key grants cutoff))"

text \<open>An assertion in three parts of base64: a header, claims that name this service and the time now,
  and a signature over both under the key the settings name for the header.\<close>

definition vouches ::
  "codecs \<Rightarrow> settings \<Rightarrow> int \<Rightarrow> verifier \<Rightarrow> string \<Rightarrow> (string \<times> string) list \<Rightarrow> bool" where
  "vouches cd st now v assertion ids \<longleftrightarrow> (\<exists>protected body sig hdr payload claimed i e me cutoff.
     assertion = b64url protected @ ''.'' @ b64url body @ ''.'' @ b64url sig \<and>
     cd_loads cd protected = Inr (PDict hdr) \<and> cd_loads cd body = Inr (PDict payload) \<and>
     key_named cd st hdr payload v cutoff \<and>
     (let signed_text = ascii_bytes (b64url protected @ ''.'' @ b64url body) in case v of
        Gateway k \<Rightarrow> rk_verify k signed_text sig | Service key _ \<Rightarrow> sig = cd_hmac cd key signed_text) \<and>
     st_service_name st = Some me \<and> dget payload ''aud'' = PStr me \<and>
     dget payload ''iat'' = PInt i \<and> dget payload ''exp'' = PInt e \<and> i \<le> now \<and> now < e \<and> e \<le> i + 60 \<and>
     (\<forall>c. cutoff = Some c \<longrightarrow> e \<le> c) \<and>
     dget payload ''headers'' = PDict claimed \<and> canonical_identity_headers claimed False = Inr ids)"

lemma holds_json: "json_config cd raw = Inr d \<Longrightarrow> holds_object cd raw d"
  by (auto simp: json_config_def holds_object_def split: option.splits if_splits sum.splits decode_error.splits pyval.splits)

lemma key_id_Inr: "key_id v x = Inr kid \<longleftrightarrow> v = PStr kid \<and> is_name kid"
  by (cases v) (auto simp: key_id_def)

lemma header_says_plain: "is_dict_of hdr [(''alg'', alg), (''typ'', ''JWT'')] \<Longrightarrow> header_says hdr alg None"
  by (simp add: is_dict_of_def header_says_def keys_of_def)

lemma header_says_kid: "with_kid hdr alg \<Longrightarrow> dget hdr ''kid'' = PStr kid \<Longrightarrow> header_says hdr alg (Some kid)"
  by (simp add: with_kid_def header_says_def)

lemma gateway_public_key_named: "gateway_public_key cd v = Inr k \<Longrightarrow> public_key_of cd v k"
  by (auto simp: gateway_public_key_def public_key_of_def split: pyval.splits if_splits option.splits)

lemma key_bytes_secret: "key_bytes v = Inr key \<Longrightarrow> secret_of v key"
  by (auto simp: key_bytes_def secret_of_def split: pyval.splits if_splits)

lemma not_after_Inr: "not_after v = Inr n \<Longrightarrow> v = PInt n"
  by (auto simp: not_after_def split: pyval.splits if_splits)

lemma gateway_entry_named:
  assumes "gateway_entry cd active kv = Inr (kid, (k, cutoff))"
  shows "\<exists>config. kv = (kid, PDict config) \<and> public_key_of cd (dget config ''key'') k \<and>
    (if kid = active then cutoff = None else \<exists>n. cutoff = Some n \<and> dget config ''not_after'' = PInt n)"
  using assms by (cases kv; cases "snd kv")
    (auto simp: gateway_entry_def ebind_Inr key_id_Inr dest: gateway_public_key_named not_after_Inr split: if_splits)

lemma gateway_verification_named:
  assumes "gateway_verification_key cd st hdr = Inr (k, cutoff)"
  shows "gateway_key_named cd st hdr k cutoff"
proof (cases "st_public_keys st")
  case None
  then show ?thesis using assms
    by (auto simp: gateway_verification_key_def gateway_key_named_def ebind_Inr split: if_splits
      dest: gateway_public_key_named header_says_plain)
next
  case (Some raw)
  then obtain active ring parsed kid where r: "json_config cd (Some raw) = Inr ring"
    "opt_str (st_gateway_kid st) = PStr active" "emap (gateway_entry cd active) ring = Inr parsed"
    "with_kid hdr ''RS256''" "dget hdr ''kid'' = PStr kid" "map_of parsed kid = Some (k, cutoff)"
    using assms by (auto simp: gateway_verification_key_def ebind_Inr key_id_Inr split: if_splits option.splits)
  obtain x where x: "x \<in> set ring" "gateway_entry cd active x = Inr (kid, (k, cutoff))"
    using emap_map_of [OF r(3,6)] by blast
  have active: "st_gateway_kid st = Some active" using r(2) by (auto simp: opt_str_def split: option.splits)
  obtain config where c: "x = (kid, PDict config)" "public_key_of cd (dget config ''key'') k"
    "if kid = active then cutoff = None else \<exists>n. cutoff = Some n \<and> dget config ''not_after'' = PInt n"
    using gateway_entry_named [OF x(2)] by blast
  have cut: "if st_gateway_kid st = Some kid then cutoff = None
      else \<exists>n. cutoff = Some n \<and> dget config ''not_after'' = PInt n"
    using c(3) active by (auto split: if_splits)
  have ring: "holds_object cd (st_public_keys st) ring" unfolding Some by (rule holds_json [OF r(1)])
  have mem: "(kid, PDict config) \<in> set ring" using x(1) c(1) by simp
  have says: "header_says hdr ''RS256'' (Some kid)" by (rule header_says_kid [OF r(4,5)])
  have some: "st_public_keys st \<noteq> None" using Some by simp
  show ?thesis unfolding gateway_key_named_def if_not_P [OF some]
    using ring mem says c(2) cut by blast
qed

lemma map_of_Some_keys: "map_of (map (\<lambda>(kid, k). (Some kid, k)) ring) q = Some y \<Longrightarrow> \<exists>kid. q = Some kid \<and> map_of ring kid = Some y"
  by (induction ring) (auto split: if_splits)

lemma emap_strings:
  "emap (\<lambda>p. case p of PStr s \<Rightarrow> if bad s then Inl () else Inr s | _ \<Rightarrow> Inl ()) ps = Inr ss \<Longrightarrow> ps = map PStr ss"
  by (induction ps arbitrary: ss) (auto simp: ebind_Inr split: pyval.splits if_splits)

lemma grant_list_Inr: "grant_list v = Inr grants \<Longrightarrow> v = PList (map PStr grants)"
  by (auto simp: grant_list_def dest: emap_strings split: pyval.splits sum.splits if_splits)

lemma ring_entry_named:
  assumes "ring_entry kv = Inr (kid, (key, cutoff))"
  shows "\<exists>entry. kv = (kid, PDict entry) \<and> secret_of (dget entry ''key'') key \<and>
    (if ''not_after'' \<in> keys_of entry then \<exists>n. cutoff = Some n \<and> dget entry ''not_after'' = PInt n else cutoff = None)"
  using assms by (cases kv; cases "snd kv")
    (auto simp: ring_entry_def ebind_Inr key_id_Inr dest: key_bytes_secret not_after_Inr split: if_splits)

lemma trusted_entry_named:
  assumes e: "trusted_entry kv = Inr (name, (keys, grants))" and k: "service_key hdr keys = Inr (key, cutoff)"
  shows "\<exists>config. kv = (name, PDict config) \<and> dget config ''permissions'' = PList (map PStr grants) \<and>
     (header_says hdr ''HS256'' None \<and> cutoff = None \<and> secret_of (dget config ''key'') key \<or>
      (\<exists>ring kid entry. dget config ''keys'' = PDict ring \<and> (kid, PDict entry) \<in> set ring \<and>
         header_says hdr ''HS256'' (Some kid) \<and> secret_of (dget entry ''key'') key \<and>
         (if ''not_after'' \<in> keys_of entry then \<exists>n. cutoff = Some n \<and> dget entry ''not_after'' = PInt n
          else cutoff = None)))"
proof -
  obtain config where c: "kv = (name, PDict config)" "grant_list (dget config ''permissions'') = Inr grants"
    using e by (cases kv; cases "snd kv") (auto simp: trusted_entry_def ebind_Inr split: if_splits)
  note g = grant_list_Inr [OF c(2)]
  show ?thesis
  proof (cases "''key'' \<in> keys_of config")
    case True
    then obtain s where s: "key_bytes (dget config ''key'') = Inr s" "keys = [(None, (s, None))]"
      using e c by (auto simp: trusted_entry_def ebind_Inr split: if_splits)
    then have "header_says hdr ''HS256'' None" "s = key" "cutoff = None"
      using k by (auto simp: service_key_def split: if_splits dest: header_says_plain)
    then show ?thesis using c(1) g key_bytes_secret [OF s(1)] by blast
  next
    case False
    then obtain d ring where d: "dget config ''keys'' = PDict d" "parse_keyring d = Inr ring"
      "keys = map (\<lambda>(kid, k). (Some kid, k)) ring"
      using e c by (auto simp: trusted_entry_def ebind_Inr split: if_splits pyval.splits)
    have "map_of keys None = None" by (auto simp: d(3) map_of_eq_None_iff)
    then obtain kid where kid: "with_kid hdr ''HS256''" "dget hdr ''kid'' = PStr kid" "map_of keys (Some kid) = Some (key, cutoff)"
      using k by (auto simp: service_key_def ebind_Inr key_id_Inr split: if_splits option.splits)
    have m: "map_of ring kid = Some (key, cutoff)" using map_of_Some_keys kid(3) d(3) by fastforce
    have "emap ring_entry d = Inr ring" using d(2) by (auto simp: parse_keyring_def ebind_Inr split: if_splits)
    then obtain x where x: "x \<in> set d" "ring_entry x = Inr (kid, (key, cutoff))" using emap_map_of m by metis
    obtain entry where entry: "x = (kid, PDict entry)" "secret_of (dget entry ''key'') key"
      "if ''not_after'' \<in> keys_of entry then \<exists>n. cutoff = Some n \<and> dget entry ''not_after'' = PInt n else cutoff = None"
      using ring_entry_named [OF x(2)] by blast
    show ?thesis using c(1) g d(1) x(1) entry header_says_kid [OF kid(1,2)] by blast
  qed
qed

lemma select_verifier_named:
  assumes "select_verifier cd st hdr payload = Inr (v, cutoff)"
  shows "key_named cd st hdr payload v cutoff"
proof (cases "dget payload ''type'' = PStr ''principal'' \<and> dget payload ''iss'' = PStr ''xgen-gateway''")
  case True
  then show ?thesis using assms
    by (auto simp: select_verifier_def ebind_Inr key_named_def dest: gateway_verification_named)
next
  case False
  then obtain name services keys grants key where s: "dget payload ''iss'' = PStr name" "dget payload ''type'' = PStr ''service''"
    "v = Service key grants" "trusted_services cd (st_trusted st) = Inr services" "map_of services name = Some (keys, grants)"
    "service_key hdr keys = Inr (key, cutoff)"
    using assms by (auto simp: select_verifier_def ebind_Inr Let_def split: pyval.splits if_splits option.splits)
  obtain d where d: "json_config cd (st_trusted st) = Inr d" "emap trusted_entry d = Inr services"
    using s(4) by (auto simp: trusted_services_def ebind_Inr)
  obtain x where x: "x \<in> set d" "trusted_entry x = Inr (name, (keys, grants))" using emap_map_of [OF d(2) s(5)] by blast
  obtain config where config: "x = (name, PDict config)" "dget config ''permissions'' = PList (map PStr grants)"
    "header_says hdr ''HS256'' None \<and> cutoff = None \<and> secret_of (dget config ''key'') key \<or>
      (\<exists>ring kid entry. dget config ''keys'' = PDict ring \<and> (kid, PDict entry) \<in> set ring \<and>
         header_says hdr ''HS256'' (Some kid) \<and> secret_of (dget entry ''key'') key \<and>
         (if ''not_after'' \<in> keys_of entry then \<exists>n. cutoff = Some n \<and> dget entry ''not_after'' = PInt n
          else cutoff = None))"
    using trusted_entry_named [OF x(2) s(6)] by blast
  have "service_key_named cd st name hdr key grants cutoff"
    unfolding service_key_named_def
    by (rule exI [of _ d], rule exI [of _ config]) (use holds_json [OF d(1)] x(1) config in simp)
  then show ?thesis using s by (simp add: key_named_def)
qed

section \<open>Headers of a request\<close>

text \<open>What the scan keeps: every identity header once, and the one proof.\<close>

lemma scan_headers_sound:
  "scan_headers identity proof_text hs = Inr (identity', proof_text') \<Longrightarrow>
    identity' = identity @ map (\<lambda>(raw, v). (lower raw, v)) (filter (\<lambda>(raw, v). lower raw \<in> set IDENTITY_HEADERS) hs) \<and>
    (proof_text' = proof_text \<or> proof_text = None \<and> (\<exists>raw a. (raw, a) \<in> set hs \<and> lower raw = PROOF_HEADER \<and> proof_text' = Some a))"
proof (induction identity proof_text hs rule: scan_headers.induct)
  case (2 identity proof_text raw v hs)
  have nomix: "PROOF_HEADER \<notin> set IDENTITY_HEADERS" by (simp add: PROOF_HEADER_def IDENTITY_HEADERS_def)
  consider (id) "lower raw \<in> set IDENTITY_HEADERS" | (token) "lower raw = PROOF_HEADER" "lower raw \<notin> set IDENTITY_HEADERS"
    | (other) "lower raw \<notin> set IDENTITY_HEADERS" "lower raw \<noteq> PROOF_HEADER" by blast
  then show ?case
  proof cases
    case id
    then have s: "scan_headers (identity @ [(lower raw, v)]) proof_text hs = Inr (identity', proof_text')"
      "lower raw \<notin> keys_of identity" "list_all is_ascii raw" "\<not> is_alias (lower raw)" "safe_header_value (PStr v) = Inr v"
      using "2.prems" by (auto simp: Let_def ebind_Inr safe_header_value_def split: if_splits)
    have "\<not> \<not> list_all is_ascii raw" using s(3) by simp
    from "2.IH"(1) [OF this refl s(4) id s(2) s(1)] show ?thesis using id by auto
  next
    case token
    then have s: "scan_headers identity (Some v) hs = Inr (identity', proof_text')" "proof_text = None"
      "list_all is_ascii v" "list_all is_ascii raw" "\<not> is_alias (lower raw)"
      using "2.prems" by (auto simp: Let_def split: if_splits)
    show ?thesis using "2.IH"(2) [OF _ refl] s token by auto
  next
    case other
    then have s: "scan_headers identity proof_text hs = Inr (identity', proof_text')"
      "list_all is_ascii raw" "\<not> is_alias (lower raw)"
      using "2.prems" by (auto simp: Let_def split: if_splits)
    show ?thesis using "2.IH"(3) [OF _ refl] s other by auto
  qed
qed simp

lemma scan_headers_distinct:
  "scan_headers identity proof_text hs = Inr (identity', proof_text') \<Longrightarrow> distinct (map fst identity) \<Longrightarrow>
    distinct (map fst identity')"
  by (induction identity proof_text hs rule: scan_headers.induct)
    (auto simp: Let_def ebind_Inr keys_of_def split: if_splits)

text \<open>A name that could be taken for identity or proof.\<close>

definition is_identity_name :: "string \<Rightarrow> bool" where
  "is_identity_name raw \<longleftrightarrow> lower raw \<in> set IDENTITY_HEADERS \<or> lower raw = PROOF_HEADER \<or> is_alias (lower raw)"

lemma scan_headers_anonymous:
  "scan_headers identity proof_text hs = Inr ([], None) \<Longrightarrow>
    identity = [] \<and> proof_text = None \<and> (\<forall>(raw, v)\<in>set hs. \<not> is_identity_name raw)"
proof (induction identity proof_text hs rule: scan_headers.induct)
  case (2 identity proof_text raw v hs)
  then show ?case by (auto simp: Let_def ebind_Inr is_identity_name_def split: if_splits)
qed simp

lemma gather_headers_given:
  "gather_headers acc (as_values hs) = Inr given \<Longrightarrow> \<forall>(n, v)\<in>set hs. lower n = n \<Longrightarrow> given = acc @ hs"
proof (induction hs arbitrary: acc)
  case (Cons h hs)
  obtain n v where h: "h = (n, v)" by (cases h)
  have "gather_headers (acc @ [(n, v)]) (as_values hs) = Inr given"
    using Cons.prems h by (auto simp: as_values_def Let_def ebind_Inr safe_header_value_def split: if_splits)
  then have "given = (acc @ [(n, v)]) @ hs" by (rule Cons.IH) (use Cons.prems(2) in simp)
  then show ?case using h by simp
qed (simp add: as_values_def)

lemma canonical_header:
  assumes "canonical_identity_headers (as_values actual) False = Inr ids" and "(n, v) \<in> set actual"
    and "distinct (map fst actual)" and "\<forall>(n, v)\<in>set actual. lower n = n"
  shows "header ids n = v"
proof -
  obtain given where g: "gather_headers [] (as_values actual) = Inr given"
    "keys_of given = set IDENTITY_HEADERS" "ids = map (\<lambda>n. (n, header given n)) IDENTITY_HEADERS"
    using assms(1) by (auto simp: canonical_identity_headers_def ebind_Inr Let_def split: if_splits)
  have given: "given = actual" using gather_headers_given [OF g(1) assms(4)] by simp
  have "n \<in> set IDENTITY_HEADERS" using g(2) assms(2) unfolding given by (force simp: keys_of_def)
  moreover have "map_of actual n = Some v" using assms(2,3) by simp
  ultimately show ?thesis by (simp add: g(3) given header_def map_of_map_restrict)
qed

section \<open>What is accepted is vouched for\<close>

lemma segment_decoded:
  "decode_json_segment cd seg = Inr d \<longleftrightarrow> (\<exists>bs. decode_canonical seg = Inr bs \<and> cd_loads cd bs = Inr (PDict d))"
proof -
  have "(case r of Inr (PDict d) \<Rightarrow> Inr d | Inl (OtherError x) \<Rightarrow> Inl (Escaped x) | _ \<Rightarrow> Inl Invalid) = Inr d \<longleftrightarrow>
      r = Inr (PDict d)" for r :: "decode_error + pyval"
    by (auto split: sum.split decode_error.split pyval.split)
  then show ?thesis by (simp add: decode_json_segment_def ebind_Inr)
qed

lemma verify_assertion_vouches:
  assumes "verify_assertion cd st assertion actual now = Inr payload"
  shows "\<exists>v ids. vouches cd st now v assertion ids \<and> within_grants v ids \<and>
    canonical_identity_headers (as_values actual) False = Inr ids"
proof -
  obtain protected body signature where parts: "split_on CHR ''.'' assertion = [protected, body, signature]"
    using assms by (auto simp: verify_assertion_def split: if_splits list.splits)
  have join: "assertion = protected @ ''.'' @ body @ ''.'' @ signature"
    using join_split [of "CHR ''.''" assertion] by (simp add: parts)
  obtain hdr v cutoff sig me claimed ids where d: "decode_json_segment cd body = Inr payload"
    "select_verifier cd st hdr payload = Inr (v, cutoff)" "decode_canonical signature = Inr sig"
    "signature_ok cd v (ascii_bytes (protected @ ''.'' @ body)) sig"
    "service_name (opt_str (st_service_name st)) = Inr me" "dget payload ''aud'' = PStr me"
    "lifetime_ok (dget payload ''iat'') (dget payload ''exp'') now cutoff"
    "dget payload ''headers'' = PDict claimed" "canonical_identity_headers claimed False = Inr ids"
    "canonical_identity_headers (as_values actual) False = Inr ids" "within_grants v ids"
    "decode_json_segment cd protected = Inr hdr"
    using assms by (auto simp: verify_assertion_def parts ebind_Inr split: if_splits pyval.splits)
  obtain i e where t: "dget payload ''iat'' = PInt i" "dget payload ''exp'' = PInt e" "i \<le> now" "now < e" "e \<le> i + 60"
    "\<forall>c. cutoff = Some c \<longrightarrow> e \<le> c"
    using d(7) by (auto simp: lifetime_ok_def split: pyval.splits option.splits)
  have me: "st_service_name st = Some me"
    using d(5) by (auto simp: service_name_def opt_str_def split: option.splits if_splits)
  obtain ph where ph: "protected = b64url ph" "cd_loads cd ph = Inr (PDict hdr)"
    using d(12) decode_canonical_Inr unfolding segment_decoded by metis
  obtain pb where pb: "body = b64url pb" "cd_loads cd pb = Inr (PDict payload)"
    using d(1) decode_canonical_Inr unfolding segment_decoded by metis
  have sg: "signature = b64url sig" using decode_canonical_Inr [OF d(3)] by simp
  have "let signed_text = ascii_bytes (b64url ph @ ''.'' @ b64url pb) in case v of
      Gateway k \<Rightarrow> rk_verify k signed_text sig | Service key _ \<Rightarrow> sig = cd_hmac cd key signed_text"
    using d(4) unfolding signature_ok_def ph(1) pb(1) Let_def .
  then have "vouches cd st now v assertion ids"
    unfolding vouches_def using join ph pb sg d(6,8,9) t me select_verifier_named [OF d(2)] by blast
  then show ?thesis using d by blast
qed

lemma verified_headers_vouched:
  assumes "verified_identity_headers cd st scope now = Inr (Some ids)"
  shows "\<exists>v raw assertion. vouches cd st now v assertion ids \<and> within_grants v ids \<and>
    (raw, assertion) \<in> set scope \<and> lower raw = PROOF_HEADER \<and>
    (\<forall>(raw, w)\<in>set scope. lower raw \<in> set IDENTITY_HEADERS \<longrightarrow> w = header ids (lower raw))"
proof -
  obtain identity assertion payload where a: "scan_headers [] None scope = Inr (identity, Some assertion)"
    "verify_assertion cd st assertion identity now = Inr payload"
    "canonical_identity_headers (as_values identity) False = Inr ids"
  proof -
    obtain found where f: "raw_principal_headers scope = Inr found"
      using assms by (auto simp: verified_identity_headers_def ebind_Inr)
    then obtain identity assertion where i: "found = Some (identity, Some assertion)"
      using assms by (auto simp: verified_identity_headers_def split: option.splits)
    have "scan_headers [] None scope = Inr (identity, Some assertion)"
      using f i by (auto simp: raw_principal_headers_def ebind_Inr split: if_splits)
    then show thesis using that assms f i by (auto simp: verified_identity_headers_def ebind_Inr)
  qed
  have s: "identity = map (\<lambda>(raw, v). (lower raw, v)) (filter (\<lambda>(raw, v). lower raw \<in> set IDENTITY_HEADERS) scope)"
    "\<exists>raw. (raw, assertion) \<in> set scope \<and> lower raw = PROOF_HEADER" "distinct (map fst identity)"
    using scan_headers_sound [OF a(1)] scan_headers_distinct [OF a(1)] by auto
  have low: "\<forall>(n, v)\<in>set identity. lower n = n"
  proof -
    have "\<forall>n\<in>set IDENTITY_HEADERS. lower n = n" by code_simp
    then show ?thesis using s(1) by auto
  qed
  have "w = header ids (lower raw)" if "(raw, w) \<in> set scope" "lower raw \<in> set IDENTITY_HEADERS" for raw w
    using canonical_header [OF a(3) _ s(3) low, of "lower raw" w] that s(1) by force
  then show ?thesis using verify_assertion_vouches [OF a(2)] s(2) a(3) by fastforce
qed

lemma session_of_service:
  assumes "session_of ids = Inr s" and "within_grants (Service key grants) ids"
  shows "\<not> ss_superuser s" "\<forall>p\<in>set (ss_permissions s). of_char CHR ''*'' \<notin> set p \<and> p \<in> set (map ustr_of grants)"
proof -
  have low: "lower (header ids ''x-user-superuser'') = ''false''"
    and declared: "\<forall>p\<in>set (comma_items (header ids ''x-user-permissions'')).
      of_char CHR ''*'' \<notin> set p \<and> p \<in> set (map ustr_of grants)"
    using assms(2) by (auto simp: within_grants_def list_all_iff)
  have s: "ss_superuser s = is_true (header ids ''x-user-superuser'')"
    "ss_permissions s = (if is_true (header ids ''x-user-superuser'') then [ustr_of ''*:*'']
      else remdups (parse_comma_list (header ids ''x-user-permissions'')))"
    using assms(1) by (auto simp: session_of_def Let_def split: if_splits sum.splits option.splits)
  have no: "\<not> is_true (header ids ''x-user-superuser'')" using low by (simp add: is_true_def)
  then show "\<not> ss_superuser s" by (simp add: s)
  show "\<forall>p\<in>set (ss_permissions s). of_char CHR ''*'' \<notin> set p \<and> p \<in> set (map ustr_of grants)"
    using declared no by (simp add: s parse_comma_list_def)
qed

text \<open>Without a star a permission covers only itself.\<close>

lemma covers_finite: "of_char CHR ''*'' \<notin> set p \<Longrightarrow> covers p required \<Longrightarrow> p = required"
  by (auto simp: covers_def ustr_of_def)

lemma has_perm_granted:
  assumes "session_of ids = Inr s" and "within_grants (Service key grants) ids" and "has_perm s required"
  shows "required \<in> set grants"
proof -
  obtain p where p: "p \<in> set (ss_permissions s)" "covers p (ustr_of required)"
    using assms(3) by (auto simp: has_perm_def has_permission_covers)
  then have "p = ustr_of required" "p \<in> set (map ustr_of grants)"
    using session_of_service(2) [OF assms(1,2)] covers_finite by blast+
  then show ?thesis by auto
qed

lemma first_missing_None: "first_missing s ps = None \<longleftrightarrow> (\<forall>p\<in>set ps. has_perm s p)"
  by (induction ps) auto

lemma session_vouched:
  assumes "get_user_info_by_gateway cd st scope now = Inr s"
  shows "\<exists>v raw assertion ids. vouches cd st now v assertion ids \<and> within_grants v ids \<and>
    (raw, assertion) \<in> set scope \<and> lower raw = PROOF_HEADER \<and> session_of ids = Inr s \<and>
    (\<forall>(raw, w)\<in>set scope. lower raw \<in> set IDENTITY_HEADERS \<longrightarrow> w = header ids (lower raw))"
proof -
  obtain ids where i: "verified_identity_headers cd st scope now = Inr (Some ids)" "session_of ids = Inr s"
    using assms by (auto simp: get_user_info_by_gateway_def split: sum.splits auth_error.splits option.splits)
  show ?thesis using verified_headers_vouched [OF i(1)] i(2) by blast
qed

section \<open>Properties\<close>

text \<open>C7. Every session is vouched for: a request has one only if it carries an assertion that is not
  expired, names this service as its audience, and is signed with a key the settings name for the
  issuer and the header of the assertion: the gateway's public key of at least 2048 bits, alone or
  in the ring under the key id, or the secret of at least 32 bytes of a trusted service; a key that
  retires only before it does. The assertion binds exactly the identity headers of the request. A
  session vouched for by a service is never that of a superuser, and every check of an endpoint that
  it passes asks for a permission that the settings grant to this service.\<close>

theorem every_session_is_vouched_for:
  assumes "get_user_info_by_gateway cd st scope now = Inr s"
  shows "\<exists>v raw assertion ids. vouches cd st now v assertion ids \<and>
    (raw, assertion) \<in> set scope \<and> lower raw = PROOF_HEADER \<and> session_of ids = Inr s \<and>
    (\<forall>(raw, w)\<in>set scope. lower raw \<in> set IDENTITY_HEADERS \<longrightarrow> w = header ids (lower raw)) \<and>
    (\<forall>key grants. v = Service key grants \<longrightarrow>
      \<not> is_ok (require_superuser cd st scope now) \<and>
      (\<forall>p. is_ok (require_permission cd st scope p now) \<longrightarrow> p \<in> set grants) \<and>
      (\<forall>ps. is_ok (require_any_permission cd st scope ps now) \<longrightarrow> set ps \<inter> set grants \<noteq> {}) \<and>
      (\<forall>ps. is_ok (require_perm cd st ps scope now) \<longrightarrow> set ps \<subseteq> set grants) \<and>
      (\<forall>ps. is_ok (require_any_perm cd st ps scope now) \<longrightarrow> set ps \<inter> set grants \<noteq> {}))"
proof -
  obtain v raw assertion ids where v: "vouches cd st now v assertion ids" "within_grants v ids"
    "(raw, assertion) \<in> set scope" "lower raw = PROOF_HEADER" "session_of ids = Inr s"
    "\<forall>(raw, w)\<in>set scope. lower raw \<in> set IDENTITY_HEADERS \<longrightarrow> w = header ids (lower raw)"
    using session_vouched [OF assms] by blast
  have "\<not> is_ok (require_superuser cd st scope now) \<and>
      (\<forall>p. is_ok (require_permission cd st scope p now) \<longrightarrow> p \<in> set grants) \<and>
      (\<forall>ps. is_ok (require_any_permission cd st scope ps now) \<longrightarrow> set ps \<inter> set grants \<noteq> {}) \<and>
      (\<forall>ps. is_ok (require_perm cd st ps scope now) \<longrightarrow> set ps \<subseteq> set grants) \<and>
      (\<forall>ps. is_ok (require_any_perm cd st ps scope now) \<longrightarrow> set ps \<inter> set grants \<noteq> {})"
    if "v = Service key grants" for key grants
  proof -
    have within: "within_grants (Service key grants) ids" using v(2) that by simp
    note granted = has_perm_granted [OF v(5) within]
    have "\<not> ss_superuser s" by (rule session_of_service(1) [OF v(5) within])
    then show ?thesis using granted
      by (auto simp: assms require_superuser_def require_permission_def require_any_permission_def
        require_perm_def require_any_perm_def first_missing_None list_ex_iff split: option.splits)
  qed
  then show ?thesis using v by blast
qed

text \<open>C8. The middleware lets nothing through that could be taken for an identity: a request is
  forwarded without one only if no header has the name of an identity header, of the proof or of an
  alias, in any case, and every endpoint then answers 401; it is forwarded with one only if an
  assertion vouches for exactly these headers, and the endpoint reads the same ones.\<close>

theorem forwarded_requests_are_anonymous_or_vouched_for:
  assumes "middleware cd st k scope now = Forward found" and "k \<noteq> OTHER_SCOPE"
  shows "case found of
      None \<Rightarrow> (\<forall>(raw, w)\<in>set scope. \<not> is_identity_name raw) \<and>
        get_user_info_by_gateway cd st scope now = Inl Unauthorized
    | Some ids \<Rightarrow> get_user_info_by_gateway cd st scope now = session_of ids \<and>
        (\<exists>v assertion. vouches cd st now v assertion ids) \<and>
        (\<forall>(raw, w)\<in>set scope. lower raw \<in> set IDENTITY_HEADERS \<longrightarrow> w = header ids (lower raw))"
proof -
  have f: "verified_identity_headers cd st scope now = Inr found"
    using assms by (auto simp: middleware_def split: sum.splits auth_error.splits)
  show ?thesis
  proof (cases found)
    case None
    then have "scan_headers [] None scope = Inr ([], None)"
      using f by (auto simp: verified_identity_headers_def raw_principal_headers_def ebind_Inr
        split: option.splits if_splits)
    then show ?thesis using scan_headers_anonymous f None by (auto simp: get_user_info_by_gateway_def)
  next
    case (Some ids)
    then show ?thesis using verified_headers_vouched [of cd st scope now ids] f
      by (auto simp: get_user_info_by_gateway_def)
  qed
qed

section \<open>Witnesses\<close>

text \<open>A service that delegates a user to another one, with codecs that know two texts.\<close>

definition w_ids :: "(string \<times> string) list" where
  "w_ids = [(''x-user-id'', ''7''), (''x-user-name'', ''kim''), (''x-user-superuser'', ''false''),
     (''x-user-roles'', ''''), (''x-user-permissions'', ''doc:read''), (''x-user-supervision-full'', '''')]"

definition w_jwt_header :: pydict where
  "w_jwt_header = service_header None"

definition w_jwt_payload :: pydict where
  "w_jwt_payload = service_payload ''core'' ''docs'' 100 60 w_ids"

definition w_secret :: string where
  "w_secret = replicate 32 CHR ''k''"

definition w_codecs :: codecs where
  "w_codecs = \<lparr>
     cd_loads = (\<lambda>b. if b = [1] then Inr (PDict w_jwt_header) else if b = [2] then Inr (PDict w_jwt_payload) else Inl NotJson),
     cd_dumps = (\<lambda>v. if v = PDict w_jwt_header then [1] else [2]),
     cd_parse = (\<lambda>s. Inr (PDict [(''core'', PDict [(''key'', PStr w_secret), (''permissions'', PList [PStr ''doc:read''])])])),
     cd_hmac = (\<lambda>key msg. take 2 key @ take 2 msg),
     cd_import_key = (\<lambda>s. None)\<rparr>"

definition w_receiver :: settings where
  "w_receiver = \<lparr>st_public_key = None, st_public_keys = None, st_gateway_kid = None, st_service_name = Some ''docs'',
     st_signing_key = None, st_signing_kid = None, st_trusted = Some ''trusted''\<rparr>"

definition w_scope :: "(string \<times> string) list" where
  "w_scope = [(''Host'', ''docs''), (''X-User-ID'', ''7''), (''X-User-Name'', ''kim''), (''X-User-Superuser'', ''false''),
     (''X-User-Roles'', ''''), (''X-User-Permissions'', ''doc:read''), (''X-User-Supervision-Full'', ''''),
     (''X-Xgen-Principal'', seal w_codecs (utf8_bytes w_secret) w_jwt_header w_jwt_payload)]"

definition w_session :: session where
  "w_session = \<lparr>ss_user_id = 7, ss_user_name = ustr_of ''kim'', ss_superuser = False, ss_roles = [],
     ss_permissions = [ustr_of ''doc:read''], ss_supervision = []\<rparr>"

lemma w_segments: "b64url [1] = ''AQ''" "b64url [2] = ''Ag''" "b64url [107, 107, 65, 81] = ''a2tBUQ''"
  by (simp_all add: b64url_char_def b64url_alphabet_def Let_def)

lemma w_decoded: "decode_canonical ''AQ'' = Inr [1]" "decode_canonical ''Ag'' = Inr [2]"
  "decode_canonical ''a2tBUQ'' = Inr [107, 107, 65, 81]"
  using decode_encode [of "[1]"] decode_encode [of "[2]"] decode_encode [of "[107, 107, 65, 81]"]
  by (simp_all only: w_segments list.distinct not_False_eq_True simp_thms)

lemma w_key: "utf8_bytes w_secret = replicate 32 107"
  by (simp add: utf8_replicate w_secret_def)

lemma w_differ: "w_jwt_payload \<noteq> w_jwt_header"
  by (simp add: w_jwt_header_def w_jwt_payload_def service_header_def service_payload_def)

lemma w_proof: "seal w_codecs (utf8_bytes w_secret) w_jwt_header w_jwt_payload = ''AQ.Ag.a2tBUQ''"
proof -
  have "take 2 (replicate 32 (107 :: 8 word)) = [107, 107]" "take 2 (ascii_bytes ''AQ.Ag'') = [65, 81]"
    by (simp_all add: eval_nat_numeral ascii_bytes_def)
  then show ?thesis
    by (simp add: seal_def json_segment_def w_codecs_def w_key w_segments w_differ del: take_replicate b64url.simps)
qed

lemma w_segment_decoded:
  "decode_json_segment w_codecs ''AQ'' = Inr w_jwt_header" "decode_json_segment w_codecs ''Ag'' = Inr w_jwt_payload"
  by (simp_all add: decode_json_segment_def w_decoded w_codecs_def)

lemma w_scan: "scan_headers [] None w_scope = Inr (w_ids, Some ''AQ.Ag.a2tBUQ'')"
  unfolding w_scope_def w_proof w_ids_def by code_simp

lemma w_canonical: "canonical_identity_headers (as_values w_ids) False = Inr w_ids"
  by code_simp

lemma w_services: "trusted_services w_codecs (Some ''trusted'') =
    Inr [(''core'', ([(None, (replicate 32 107, None))], [''doc:read'']))]"
proof -
  have "grant_list (PList [PStr ''doc:read'']) = Inr [''doc:read'']" "is_name ''core''" by code_simp+
  moreover have "key_bytes (PStr w_secret) = Inr (replicate 32 107)" by (simp add: key_bytes_def w_key)
  ultimately show ?thesis
    by (simp add: trusted_services_def json_config_def w_codecs_def trusted_entry_def keys_of_def dget_def)
qed

lemma w_verified: "verified_identity_headers w_codecs w_receiver w_scope 110 = Inr (Some w_ids)"
proof -
  have "split_on CHR ''.'' ''AQ.Ag.a2tBUQ'' = [''AQ'', ''Ag'', ''a2tBUQ'']" "\<not> MAX_ASSERTION < length ''AQ.Ag.a2tBUQ''"
    by code_simp+
  moreover have "select_verifier w_codecs w_receiver w_jwt_header w_jwt_payload =
      Inr (Service (replicate 32 107) [''doc:read''], None)"
    using w_services by (simp add: select_verifier_def w_receiver_def w_jwt_payload_def service_payload_def dget_def
      service_key_def w_jwt_header_def service_header_def is_dict_of_def keys_of_def)
  moreover have "signature_ok w_codecs (Service (replicate 32 107) [''doc:read'']) (ascii_bytes ''AQ.Ag'') [107, 107, 65, 81]"
  proof -
    have "take 2 (replicate 32 (107 :: 8 word)) = [107, 107]" "take 2 (ascii_bytes ''AQ.Ag'') = [65, 81]"
      by (simp_all add: eval_nat_numeral ascii_bytes_def)
    then show ?thesis by (simp add: signature_ok_def w_codecs_def del: take_replicate)
  qed
  moreover have "within_grants (Service (replicate 32 107) [''doc:read'']) w_ids"
  proof -
    have "comma_items (header w_ids ''x-user-permissions'') = [ustr_of ''doc:read'']"
      "lower (header w_ids ''x-user-superuser'') = ''false''" by code_simp+
    then show ?thesis by (simp add: within_grants_def ustr_of_def)
  qed
  moreover have "service_name (opt_str (st_service_name w_receiver)) = Inr ''docs''" by code_simp
  moreover have "dget w_jwt_payload ''aud'' = PStr ''docs''" "dget w_jwt_payload ''headers'' = PDict (as_values w_ids)"
    "lifetime_ok (dget w_jwt_payload ''iat'') (dget w_jwt_payload ''exp'') 110 None" "keys_of w_jwt_payload = set CLAIM_KEYS"
    by (auto simp: w_jwt_payload_def service_payload_def dget_def lifetime_ok_def keys_of_def CLAIM_KEYS_def)
  ultimately have "verify_assertion w_codecs w_receiver ''AQ.Ag.a2tBUQ'' w_ids 110 = Inr w_jwt_payload"
    by (simp add: verify_assertion_def w_segment_decoded w_decoded w_canonical)
  moreover have "w_ids \<noteq> []" by (simp add: w_ids_def)
  ultimately show ?thesis
    by (simp add: verified_identity_headers_def raw_principal_headers_def w_scan w_canonical)
qed

lemma w_get_session: "get_user_info_by_gateway w_codecs w_receiver w_scope 110 = Inr w_session"
proof -
  have "session_of w_ids = Inr w_session" by code_simp
  then show ?thesis by (simp add: get_user_info_by_gateway_def w_verified)
qed

theorem every_session_is_vouched_for_witness:
  "\<exists>v assertion ids. vouches w_codecs w_receiver 110 v assertion ids \<and> session_of ids = Inr w_session"
  using every_session_is_vouched_for [OF w_get_session] by blast

lemma w_forwarded: "middleware w_codecs w_receiver HTTP w_scope 110 = Forward (Some w_ids)"
  by (simp add: middleware_def w_verified)

theorem forwarded_requests_are_anonymous_or_vouched_for_witness:
  "\<exists>v assertion. vouches w_codecs w_receiver 110 v assertion w_ids"
  using forwarded_requests_are_anonymous_or_vouched_for [OF w_forwarded] by simp

end
