(* ===== verification/AuthDelegation.thy ===== *)
theory AuthDelegation
  imports AuthSession
begin

text \<open>
  Delegation between services, end to end: what \<open>service_principal_headers\<close> of the sender puts on a
  request is what \<open>verified_identity_headers\<close> of the receiver reads from it. The law of the JSON codec
  is that a document that was written is read back with its members in some order.
\<close>

section \<open>Canonical headers\<close>

definition is_safe :: "string \<Rightarrow> bool" where
  "is_safe s \<longleftrightarrow> list_all (\<lambda>c. 32 \<le> (of_char c :: nat) \<and> (of_char c :: nat) \<noteq> 127) s"

lemma safe_header_value_iff: "safe_header_value (PStr s) = (if is_safe s then Inr s else Inl Invalid)"
proof -
  have "list_ex (\<lambda>c. (of_char c :: nat) < 32 \<or> (of_char c :: nat) = 127) s \<longleftrightarrow> \<not> is_safe s"
    by (induction s) (auto simp: is_safe_def)
  then show ?thesis by (simp add: safe_header_value_def)
qed

definition is_canonical :: "(string \<times> string) list \<Rightarrow> bool" where
  "is_canonical ids \<longleftrightarrow> map fst ids = IDENTITY_HEADERS \<and> (\<forall>(n, v)\<in>set ids. is_safe v) \<and>
     header ids ''x-user-id'' \<noteq> [] \<and> header ids ''x-user-name'' \<noteq> [] \<and>
     lower (header ids ''x-user-superuser'') \<in> {''true'', ''false''}"

lemma identity_names: "\<forall>n\<in>set IDENTITY_HEADERS. lower n = n \<and> \<not> is_alias n" "distinct IDENTITY_HEADERS"
  by code_simp+

lemma identity_member [simp]: "''x-user-id'' \<in> set IDENTITY_HEADERS" "''x-user-name'' \<in> set IDENTITY_HEADERS"
  "''x-user-superuser'' \<in> set IDENTITY_HEADERS"
  by (simp_all add: IDENTITY_HEADERS_def)

lemma header_map: "n \<in> set ns \<Longrightarrow> header (map (\<lambda>n. (n, f n)) ns) n = f n"
  by (simp add: header_def map_of_map_restrict)

lemma gather_headers_safe:
  "gather_headers acc hs = Inr given \<Longrightarrow> \<forall>(n, v)\<in>set acc. is_safe v \<Longrightarrow> \<forall>(n, v)\<in>set given. is_safe v"
proof (induction acc hs rule: gather_headers.induct)
  case (2 acc raw v hs)
  then obtain t where t: "safe_header_value v = Inr t" "gather_headers (acc @ [(lower raw, t)]) hs = Inr given"
    "\<not> is_alias (lower raw)" "lower raw \<in> set IDENTITY_HEADERS" "lower raw \<notin> keys_of acc"
    by (auto simp: Let_def ebind_Inr split: if_splits)
  have "is_safe t" using t(1) safe_header_value_iff by (cases v) (auto simp: safe_header_value_def split: if_splits)
  then show ?case using "2.IH" [OF refl t(3) _ t(5) t(2)] t(4) "2.prems"(2) by simp
qed simp

lemma setdefault_safe: "\<forall>(n, v)\<in>set d. is_safe v \<Longrightarrow> is_safe w \<Longrightarrow> \<forall>(n, v)\<in>set (setdefault k w d). is_safe v"
  by (auto simp: setdefault_def)

lemma canonical_result:
  assumes "canonical_identity_headers hs defaults = Inr ids"
  shows "is_canonical ids"
proof -
  obtain given where g: "gather_headers [] hs = Inr given" using assms
    by (auto simp: canonical_identity_headers_def ebind_Inr)
  define c where "c = (if defaults then setdefault ''x-user-supervision-full'' [] (setdefault ''x-user-permissions'' []
              (setdefault ''x-user-roles'' [] (setdefault ''x-user-superuser'' ''false'' given))) else given)"
  have c: "ids = map (\<lambda>n. (n, header c n)) IDENTITY_HEADERS" "keys_of c = set IDENTITY_HEADERS"
    "header c ''x-user-id'' \<noteq> []" "header c ''x-user-name'' \<noteq> []"
    "lower (header c ''x-user-superuser'') \<in> {''true'', ''false''}"
    using assms by (auto simp: canonical_identity_headers_def g Let_def c_def [symmetric] split: if_splits)
  have "is_safe []" "is_safe ''false''" by code_simp+
  then have "\<forall>(n, v)\<in>set c. is_safe v" using gather_headers_safe [OF g]
    unfolding c_def by (cases defaults) (simp_all only: if_True if_False, intro setdefault_safe, simp_all)
  then have "is_safe (header c n)" for n by (auto simp: header_def is_safe_def split: option.splits dest!: map_of_SomeD)
  then show ?thesis using c(3-5) by (simp add: is_canonical_def c(1) header_map case_prod_beta comp_def)
qed

lemma gather_headers_plain:
  "\<forall>(n, v)\<in>set hs. n \<in> set IDENTITY_HEADERS \<and> (\<exists>s. v = PStr s \<and> is_safe s) \<Longrightarrow> distinct (map fst hs) \<Longrightarrow>
    keys_of acc \<inter> keys_of hs = {} \<Longrightarrow> \<exists>out. gather_headers acc hs = Inr (acc @ out) \<and> hs = as_values out"
proof (induction hs arbitrary: acc)
  case (Cons h hs)
  obtain n s where h: "h = (n, PStr s)" "n \<in> set IDENTITY_HEADERS" "is_safe s" using Cons.prems(1) by (cases h) auto
  have n: "lower n = n" "\<not> is_alias n" using identity_names(1) h(2) by auto
  have "keys_of (acc @ [(n, s)]) \<inter> keys_of hs = {}" using Cons.prems(2,3) h(1) by (auto simp: keys_of_def)
  then have "\<exists>out. gather_headers (acc @ [(n, s)]) hs = Inr ((acc @ [(n, s)]) @ out) \<and> hs = as_values out"
    using Cons.prems(1,2) by (intro Cons.IH) simp_all
  then obtain out where "gather_headers (acc @ [(n, s)]) hs = Inr ((acc @ [(n, s)]) @ out)" "hs = as_values out"
    by blast
  moreover have "n \<notin> keys_of acc" using Cons.prems(3) h(1) by (auto simp: keys_of_def)
  ultimately show ?case using h n
    by (intro exI [of _ "(n, s) # out"]) (simp add: as_values_def safe_header_value_iff)
qed (simp add: as_values_def)

lemma header_cong:
  assumes "distinct (map fst a)" and "distinct (map fst b)" and "set a = set b"
  shows "header a n = header b n"
proof -
  have "map_of a = map_of b" using assms by (simp add: map_of_inject_set)
  then show ?thesis by (simp add: header_def)
qed

lemma canonical_reordered:
  assumes "is_canonical ids" and "distinct (map fst x)" and "set x = set (as_values ids)"
  shows "canonical_identity_headers x defaults = Inr ids"
proof -
  have names: "map fst ids = IDENTITY_HEADERS" and safe: "\<forall>(n, v)\<in>set ids. is_safe v"
    using assms(1) by (simp_all add: is_canonical_def)
  have "\<forall>(n, v)\<in>set x. n \<in> set IDENTITY_HEADERS \<and> (\<exists>s. v = PStr s \<and> is_safe s)"
    unfolding assms(3) names [symmetric] using safe by (auto simp: as_values_def image_iff) force
  then obtain out where out: "gather_headers [] x = Inr out" "x = as_values out"
    using gather_headers_plain [of x "[]"] assms(2) by (auto simp: keys_of_def)
  have fst: "map fst (as_values d) = map fst d" for d by (simp add: as_values_def comp_def case_prod_beta)
  have d: "distinct (map fst out)" "distinct (map fst ids)" using assms(2) out(2) fst names identity_names(2) by simp_all
  have inj: "inj (\<lambda>(k :: string, v :: string). (k, PStr v))" by (auto simp: inj_def)
  have same: "set out = set ids"
    using assms(3) out(2) inj_image_eq_iff [OF inj] by (simp add: as_values_def)
  then have keys: "keys_of out = set IDENTITY_HEADERS" using names by (simp add: keys_of_def flip: names)
  have h: "header out n = header ids n" for n by (rule header_cong [OF d same])
  have "setdefault k w out = out" if "k \<in> set IDENTITY_HEADERS" for k w using that keys by (simp add: setdefault_def)
  then have "(if defaults then setdefault ''x-user-supervision-full'' [] (setdefault ''x-user-permissions'' []
              (setdefault ''x-user-roles'' [] (setdefault ''x-user-superuser'' ''false'' out))) else out) = out"
    by (simp add: IDENTITY_HEADERS_def)
  moreover have "map (\<lambda>n. (n, header ids n)) IDENTITY_HEADERS = ids"
    unfolding names [symmetric] using d(2) by (auto simp: header_def comp_def intro!: map_idI)
  ultimately show ?thesis using assms(1) out(1) keys h
    by (simp add: canonical_identity_headers_def is_canonical_def)
qed

section \<open>Headers on the wire\<close>

lemma wire_names: "\<forall>n\<in>set (PROOF_HEADER # IDENTITY_HEADERS). lower (wire_name n) = n \<and> list_all is_ascii (wire_name n)"
  "\<not> is_alias PROOF_HEADER" "PROOF_HEADER \<notin> set IDENTITY_HEADERS"
  by code_simp+

lemma scan_others:
  "\<forall>(raw, v)\<in>set hs. list_all is_ascii raw \<and> \<not> is_identity_name raw \<Longrightarrow>
    scan_headers identity p (hs @ rest) = scan_headers identity p rest"
  by (induction hs) (auto simp: is_identity_name_def Let_def)

lemma scan_wire:
  "\<forall>(n, v)\<in>set hs. n \<in> set IDENTITY_HEADERS \<and> is_safe v \<Longrightarrow> distinct (map fst hs) \<Longrightarrow>
    keys_of identity \<inter> keys_of hs = {} \<Longrightarrow>
    scan_headers identity p (map (\<lambda>(n, v). (wire_name n, v)) hs @ rest) = scan_headers (identity @ hs) p rest"
proof (induction hs arbitrary: identity)
  case (Cons h hs)
  obtain n v where h: "h = (n, v)" "n \<in> set IDENTITY_HEADERS" "is_safe v" using Cons.prems(1) by (cases h) auto
  have n: "lower (wire_name n) = n" "list_all is_ascii (wire_name n)" "\<not> is_alias n" "n \<notin> keys_of identity"
    using wire_names(1) identity_names(1) h Cons.prems(3) by (auto simp: keys_of_def)
  have "keys_of (identity @ [(n, v)]) \<inter> keys_of hs = {}" using Cons.prems(2,3) h(1) by (auto simp: keys_of_def)
  then have "scan_headers (identity @ [(n, v)]) p (map (\<lambda>(n, v). (wire_name n, v)) hs @ rest) =
      scan_headers ((identity @ [(n, v)]) @ hs) p rest"
    using Cons.prems(1,2) by (intro Cons.IH) simp_all
  then show ?case using h n by (simp add: Let_def safe_header_value_iff)
qed simp

lemma scan_request:
  assumes "is_canonical ids" and "list_all is_ascii token"
    and "\<forall>(raw, v)\<in>set (before @ after). list_all is_ascii raw \<and> \<not> is_identity_name raw"
  shows "scan_headers [] None (before @ (map (\<lambda>(n, v). (wire_name n, v)) ids @ [(wire_name PROOF_HEADER, token)]) @ after) =
    Inr (ids, Some token)"
proof -
  have names: "map fst ids = IDENTITY_HEADERS" and safe: "\<forall>(n, v)\<in>set ids. is_safe v"
    using assms(1) by (simp_all add: is_canonical_def)
  have ids: "\<forall>(n, v)\<in>set ids. n \<in> set IDENTITY_HEADERS \<and> is_safe v" "distinct (map fst ids)"
    using safe identity_names(2) unfolding names [symmetric] by force+
  have tail: "scan_headers i p after = Inr (i, p)" for i p using scan_others [of after i p "[]"] assms(3) by simp
  have "scan_headers ids None ((wire_name PROOF_HEADER, token) # after) = Inr (ids, Some token)"
    using wire_names assms(2) tail by (simp add: Let_def)
  moreover have "scan_headers [] None (before @ rest) = scan_headers [] None rest" for rest
    using assms(3) by (intro scan_others) simp
  ultimately show ?thesis using scan_wire [OF ids, of "[]" None "(wire_name PROOF_HEADER, token) # after"]
    by (simp add: keys_of_def)
qed

section \<open>The receiver\<close>

lemma kid_without_single:
  assumes "trusted_services cd raw = Inr services" and "map_of services name = Some (keys, grants)"
    and "map_of keys (Some k) = Some y"
  shows "map_of keys None = None"
proof -
  obtain d where "emap trusted_entry d = Inr services" using assms(1) by (auto simp: trusted_services_def ebind_Inr)
  then obtain kv where e: "trusted_entry kv = Inr (name, (keys, grants))" using emap_map_of assms(2) by metis
  then have "(\<exists>key. keys = [(None, key)]) \<or> (\<exists>ring. keys = map (\<lambda>(kid, k). (Some kid, k)) ring)"
    by (auto simp: trusted_entry_def ebind_Inr split: if_splits pyval.splits)
  then show ?thesis
  proof
    assume "\<exists>ring. keys = map (\<lambda>(kid, k). (Some kid, k)) ring"
    then show ?thesis by (auto simp: map_of_eq_None_iff)
  qed (use assms(3) in auto)
qed

lemma selects_sender_key:
  assumes "keys_of hdr = keys_of (service_header kid)"
    and "\<forall>k\<in>keys_of (service_header kid). reordered (dget hdr k) (dget (service_header kid) k)"
    and "map_of keys kid = Some (key, cutoff)" and "kid \<noteq> None \<longrightarrow> map_of keys None = None"
    and "\<forall>k. kid = Some k \<longrightarrow> is_name k"
  shows "service_key hdr keys = Inr (key, cutoff)"
  using assms by (cases kid)
    (auto simp: service_key_def service_header_def is_dict_of_def with_kid_def keys_of_def key_id_def dget_def)

text \<open>An assertion sealed for this audience, read by a receiver that trusts its issuer with this key.\<close>

lemma sealed_assertion_verifies:
  assumes can: "is_canonical ids" and names: "service_name (PStr audience) = Inr audience"
    and plain: "lower (header ids ''x-user-superuser'') = ''false''"
      "\<forall>p\<in>set (comma_items (header ids ''x-user-permissions'')). of_char CHR ''*'' \<notin> set p"
    and kid: "\<forall>k. kid = Some k \<longrightarrow> is_name k" and ttl: "1 \<le> ttl" "ttl \<le> 60"
    and trust: "st_service_name st = Some audience" "trusted_services cd (st_trusted st) = Inr services"
      "map_of services me = Some (keys, grants)" "map_of keys kid = Some (key, cutoff)"
    and granted: "set (comma_items (header ids ''x-user-permissions'')) \<subseteq> set (map ustr_of grants)"
    and codec: "reads_back cd (service_header kid)" "reads_back cd (service_payload me audience now ttl ids)"
      "\<forall>m. cd_hmac cd key m \<noteq> []"
    and short: "length (seal cd key (service_header kid) (service_payload me audience now ttl ids)) \<le> MAX_ASSERTION"
    and time: "now \<le> later" "later < now + ttl" "\<forall>c. cutoff = Some c \<longrightarrow> now + ttl \<le> c"
  shows "is_ok (verify_assertion cd st (seal cd key (service_header kid) (service_payload me audience now ttl ids)) ids later)"
proof -
  let ?p = "json_segment cd (service_header kid)" and ?b = "json_segment cd (service_payload me audience now ttl ids)"
  let ?sig = "cd_hmac cd key (ascii_bytes (?p @ ''.'' @ ?b))"
  let ?token = "seal cd key (service_header kid) (service_payload me audience now ttl ids)"
  have token: "split_on CHR ''.'' ?token = [?p, ?b, b64url ?sig]"
    unfolding seal_def Let_def json_segment_def by (rule split_sealed)
  have full: "?p \<noteq> []" "?b \<noteq> []" "b64url ?sig \<noteq> []"
    using codec by (simp_all add: json_segment_def b64url_Nil reads_back_def)
  obtain hdr where h: "decode_json_segment cd ?p = Inr hdr" "keys_of hdr = keys_of (service_header kid)"
    "\<forall>k\<in>keys_of (service_header kid). reordered (dget hdr k) (dget (service_header kid) k)"
    using read_segment [OF codec(1)] by blast
  obtain pl where b: "decode_json_segment cd ?b = Inr pl"
    "keys_of pl = keys_of (service_payload me audience now ttl ids)"
    "\<forall>k\<in>keys_of (service_payload me audience now ttl ids).
      reordered (dget pl k) (dget (service_payload me audience now ttl ids) k)"
    using read_segment [OF codec(2)] by blast
  have claims: "dget pl ''iss'' = PStr me" "dget pl ''aud'' = PStr audience" "dget pl ''type'' = PStr ''service''"
    "dget pl ''iat'' = PInt now" "dget pl ''exp'' = PInt (now + ttl)" "keys_of pl = set CLAIM_KEYS"
    using b(2,3) by (simp_all add: service_payload_def keys_of_def dget_def CLAIM_KEYS_def)
  obtain x where x: "dget pl ''headers'' = PDict x" "distinct (map fst x)" "set x = set (as_values ids)"
    using b(3) by (auto simp: service_payload_def keys_of_def dget_def)
  have "service_key hdr keys = Inr (key, cutoff)"
    using selects_sender_key [OF h(2,3) trust(4)] kid_without_single [OF trust(2,3)] trust(4) kid by blast
  then have sel: "select_verifier cd st hdr pl = Inr (Service key grants, cutoff)"
    using claims trust(2,3) by (simp add: select_verifier_def)
  have "distinct (map fst (as_values ids))"
    using can identity_names(2) by (simp add: is_canonical_def as_values_def comp_def case_prod_beta)
  then have bound: "canonical_identity_headers x False = Inr ids" "canonical_identity_headers (as_values ids) False = Inr ids"
    using canonical_reordered [OF can] x(2,3) by blast+
  have "within_grants (Service key grants) ids"
    using plain granted by (auto simp: within_grants_def list_all_iff)
  moreover have "lifetime_ok (PInt now) (PInt (now + ttl)) later cutoff"
    using time ttl by (auto simp: lifetime_ok_def split: option.splits)
  moreover have "decode_canonical (b64url ?sig) = Inr ?sig" using codec(3) by (intro decode_encode) simp
  ultimately show ?thesis using short token full h(1) b(1) sel claims x(1) bound names trust(1)
    by (simp add: verify_assertion_def signature_ok_def opt_str_def)
qed

section \<open>Property\<close>

text \<open>C9. Delegation reads back: when a service makes the headers of a delegated user and the receiver
  is the audience, trusts this service with the key it was signed with and grants it the permissions
  stated, then within the lifetime the middleware of the receiver forwards exactly the identity that
  was delegated, whatever other headers surround it and in whatever order JSON wrote the members.\<close>

theorem delegated_identity_is_forwarded:
  assumes sent: "service_principal_headers cd sender delegated audience name signing_key kid ttl now = Inr hs"
    and ids: "canonical_identity_headers delegated True = Inr ids"
    and source: "or_env name (st_service_name sender) = Some me" "or_env signing_key (st_signing_key sender) = Some secret"
      "or_env kid (st_signing_kid sender) = used"
    and trust: "st_service_name st = Some audience" "trusted_services cd (st_trusted st) = Inr services"
      "map_of services me = Some (keys, grants)" "map_of keys used = Some (utf8_bytes secret, cutoff)"
    and granted: "set (comma_items (header ids ''x-user-permissions'')) \<subseteq> set (map ustr_of grants)"
    and codec: "reads_back cd (service_header used)" "reads_back cd (service_payload me audience now ttl ids)"
      "\<forall>m. cd_hmac cd (utf8_bytes secret) m \<noteq> []"
    and short: "\<forall>(n, v)\<in>set hs. length v \<le> MAX_ASSERTION"
    and time: "now \<le> later" "later < now + ttl" "\<forall>c. cutoff = Some c \<longrightarrow> now + ttl \<le> c"
    and others: "\<forall>(raw, v)\<in>set (before @ after). list_all is_ascii raw \<and> \<not> is_identity_name raw"
  shows "middleware cd st HTTP (before @ hs @ after) later = Forward (Some ids)"
proof -
  let ?token = "seal cd (utf8_bytes secret) (service_header used) (service_payload me audience now ttl ids)"
  have can: "is_canonical ids" by (rule canonical_result [OF ids])
  have own: "canonical_identity_headers (as_values ids) b = Inr ids" for b
    using can identity_names(2)
    by (intro canonical_reordered) (simp_all add: is_canonical_def as_values_def comp_def case_prod_beta)
  obtain assertion where a: "sign_principal_for_service cd sender (as_values ids) audience name signing_key kid ttl now = Inr assertion"
    and hs: "hs = map (\<lambda>(n, v). (wire_name n, v)) ids @ [(wire_name PROOF_HEADER, assertion)]"
    using sent ids by (auto simp: service_principal_headers_def ebind_Inr)
  have s: "service_name (PStr me) = Inr me" "service_name (PStr audience) = Inr audience"
    "assertion = ?token" "\<forall>k. used = Some k \<longrightarrow> is_name k" "1 \<le> ttl" "ttl \<le> 60"
    "lower (header ids ''x-user-superuser'') = ''false''"
    "\<forall>p\<in>set (comma_items (header ids ''x-user-permissions'')). of_char CHR ''*'' \<notin> set p"
    using a source by (auto simp: sign_principal_for_service_def ebind_Inr opt_str_def own service_name_def key_bytes_def
      key_id_def list_ex_iff split: if_splits option.splits)
  have "is_ok (verify_assertion cd st ?token ids later)"
    using short hs s by (intro sealed_assertion_verifies [OF can s(2,7,8,4,5,6) trust granted codec _ time]) auto
  then obtain payload where "verify_assertion cd st ?token ids later = Inr payload" by (auto simp: is_ok_iff)
  moreover have "list_all is_ascii ?token" using b64_plain(2) by (simp add: seal_def Let_def json_segment_def is_ascii_def)
  then have "scan_headers [] None (before @ hs @ after) = Inr (ids, Some ?token)"
    using scan_request [OF can _ others] hs s(3) by simp
  moreover have "ids \<noteq> []" using can by (auto simp: is_canonical_def IDENTITY_HEADERS_def)
  ultimately have "verified_identity_headers cd st (before @ hs @ after) later = Inr (Some ids)"
    using own by (simp add: verified_identity_headers_def raw_principal_headers_def)
  then show ?thesis by (simp add: middleware_def)
qed

definition w_sender :: settings where
  "w_sender = w_receiver\<lparr>st_service_name := Some ''core'', st_signing_key := Some w_secret\<rparr>"

definition w_delegated :: "(string \<times> pyval) list" where
  "w_delegated = [(''X-User-ID'', PStr ''7''), (''X-User-Name'', PStr ''kim''), (''X-User-Permissions'', PStr ''doc:read'')]"

definition w_headers :: "(string \<times> string) list" where
  "w_headers = map (\<lambda>(n, v). (wire_name n, v)) w_ids @ [(wire_name PROOF_HEADER, ''AQ.Ag.a2tBUQ'')]"

lemma w_ids_given: "canonical_identity_headers w_delegated True = Inr w_ids"
  by code_simp

lemma w_items: "comma_items (header w_ids ''x-user-permissions'') = [ustr_of ''doc:read'']"
  "lower (header w_ids ''x-user-superuser'') = ''false''"
  by code_simp+

lemma w_sent: "service_principal_headers w_codecs w_sender w_delegated ''docs'' None None None 60 100 = Inr w_headers"
proof -
  have "canonical_identity_headers (as_values w_ids) True = Inr w_ids" "service_name (PStr ''core'') = Inr ''core''"
    "service_name (PStr ''docs'') = Inr ''docs''" by code_simp+
  moreover have "key_bytes (PStr w_secret) = Inr (utf8_bytes w_secret)" by (simp add: key_bytes_def w_key)
  moreover have "seal w_codecs (utf8_bytes w_secret) (service_header None) (service_payload ''core'' ''docs'' 100 60 w_ids)
      = ''AQ.Ag.a2tBUQ''" using w_proof by (simp add: w_jwt_header_def w_jwt_payload_def)
  ultimately show ?thesis
    by (simp add: service_principal_headers_def sign_principal_for_service_def w_ids_given w_sender_def w_receiver_def
      or_env_def opt_str_def w_items w_headers_def ustr_of_def)
qed

lemma w_reads_back: "reads_back w_codecs (service_header None)" "reads_back w_codecs (service_payload ''core'' ''docs'' 100 60 w_ids)"
proof -
  show "reads_back w_codecs (service_header None)"
    using w_differ by (auto simp: reads_back_def w_codecs_def w_jwt_header_def service_header_def keys_of_def dget_def)
  have "distinct (map fst (as_values w_ids))" by (simp add: w_ids_def as_values_def)
  then show "reads_back w_codecs (service_payload ''core'' ''docs'' 100 60 w_ids)"
    using w_differ by (auto simp: reads_back_def w_codecs_def w_jwt_payload_def service_payload_def keys_of_def dget_def)
qed

theorem delegated_identity_is_forwarded_witness:
  "middleware w_codecs w_receiver HTTP ([(''Host'', ''docs'')] @ w_headers @ []) 110 = Forward (Some w_ids)"
proof (rule delegated_identity_is_forwarded [OF w_sent w_ids_given, where me = "''core''" and secret = w_secret
      and used = None and services = "[(''core'', ([(None, (replicate 32 107, None))], [''doc:read'']))]"
      and keys = "[(None, (replicate 32 107, None))]" and grants = "[''doc:read'']" and cutoff = None])
  show "\<forall>(n, v)\<in>set w_headers. length v \<le> MAX_ASSERTION"
    by (simp add: w_headers_def w_ids_def MAX_ASSERTION_def)
  show "\<forall>(raw, v)\<in>set ([(''Host'', ''docs'')] @ []). list_all is_ascii raw \<and> \<not> is_identity_name raw" by code_simp
  show "\<forall>m. cd_hmac w_codecs (utf8_bytes w_secret) m \<noteq> []" by (simp add: w_codecs_def w_key)
qed (simp_all add: w_sender_def w_receiver_def or_env_def w_services w_key w_items w_reads_back)

end
