(* ===== verification/DocumentCapability.thy ===== *)
theory DocumentCapability
  imports AuthTokens
begin








section \<open>Claims\<close>








section \<open>Signing and verifying\<close>





section \<open>The digest of a deployment\<close>

text \<open>\<open>auth/deployment_policy.py\<close>: the digest a capability names, over the fields of the deployment row
  that matter. \<open>json.dumps\<close> without infinite numbers, which may refuse a value, and SHA-256 are arguments.\<close>

datatype digest_error = MissingFields "string list" | BadPublicPolicy | NotJsonValue | DigestEscapes py_exc

definition DEPLOYMENT_POLICY_FIELDS :: "string list" where
  "DEPLOYMENT_POLICY_FIELDS = [''id'', ''user_id'', ''workflow_id'', ''published_workflow_id'', ''is_deployed'', ''is_accepted'',
     ''deployment_stage'', ''deploy_key'', ''require_api_key'', ''public_policy'']"

definition public_policy :: "codecs \<Rightarrow> pyval \<Rightarrow> digest_error + pyval" where
  "public_policy cd v = (case v of
       PStr s \<Rightarrow> (case cd_parse cd s of
           Inr w \<Rightarrow> Inr w
         | Inl NotJson \<Rightarrow> Inl BadPublicPolicy
         | Inl (OtherError x) \<Rightarrow> Inl (DigestEscapes x))
     | _ \<Rightarrow> Inr v)"

definition deployment_policy_digest ::
  "codecs \<Rightarrow> (pyval \<Rightarrow> bytes option) \<Rightarrow> (bytes \<Rightarrow> string) \<Rightarrow> pydict \<Rightarrow> digest_error + string" where
  "deployment_policy_digest cd dumps sha row =
     (let missing = filter (\<lambda>f. f \<notin> keys_of row) DEPLOYMENT_POLICY_FIELDS
      in if missing \<noteq> [] then Inl (MissingFields missing)
         else ebind (public_policy cd (dget row ''public_policy'')) (\<lambda>policy.
           case dumps (PDict (map (\<lambda>f. (f, if f = ''public_policy'' then policy else dget row f)) DEPLOYMENT_POLICY_FIELDS)) of
             None \<Rightarrow> Inl NotJsonValue
           | Some encoded \<Rightarrow> Inr (sha encoded)))"

section \<open>Lemmas\<close>










text \<open>Other columns of the row do not matter, and a policy kept as JSON text has the digest of its value.\<close>

lemma digest_ignores_other_columns:
  assumes "\<forall>f\<in>set DEPLOYMENT_POLICY_FIELDS. map_of row f = map_of row' f"
  shows "deployment_policy_digest cd dumps sha row = deployment_policy_digest cd dumps sha row'"
proof -
  have fields: "f \<in> keys_of row \<longleftrightarrow> f \<in> keys_of row'" "dget row f = dget row' f" if "f \<in> set DEPLOYMENT_POLICY_FIELDS" for f
    using assms that map_of_eq_None_iff [of row f] map_of_eq_None_iff [of row' f] by (auto simp: keys_of_def dget_def)
  have missing: "filter (\<lambda>f. f \<notin> keys_of row) DEPLOYMENT_POLICY_FIELDS = filter (\<lambda>f. f \<notin> keys_of row') DEPLOYMENT_POLICY_FIELDS"
    using fields(1) by (intro filter_cong) auto
  have policy: "dget row ''public_policy'' = dget row' ''public_policy''"
    by (rule fields(2)) (simp add: DEPLOYMENT_POLICY_FIELDS_def)
  have canonical: "map (\<lambda>f. (f, if f = ''public_policy'' then p else dget row f)) DEPLOYMENT_POLICY_FIELDS =
      map (\<lambda>f. (f, if f = ''public_policy'' then p else dget row' f)) DEPLOYMENT_POLICY_FIELDS" for p
    using fields(2) by (intro map_cong) auto
  show ?thesis unfolding deployment_policy_digest_def missing policy canonical ..
qed

lemma digest_of_json_text:
  assumes "cd_parse cd s = Inr v" and "\<forall>t. v \<noteq> PStr t"
    and "dget row ''public_policy'' = PStr s" and "''public_policy'' \<in> keys_of row"
  shows "deployment_policy_digest cd dumps sha row = deployment_policy_digest cd dumps sha (dset ''public_policy'' v row)"
proof -
  have "keys_of (dset ''public_policy'' v row) = insert ''public_policy'' (keys_of row)"
    by (simp add: keys_of_def keys_dset)
  then have keys: "keys_of (dset ''public_policy'' v row) = keys_of row" using assms(4) by auto
  have get: "dget (dset ''public_policy'' v row) f = (if f = ''public_policy'' then v else dget row f)" for f
    by (induction row) (auto simp: dget_def)
  have "public_policy cd (PStr s) = Inr v" "public_policy cd v = Inr v"
    using assms(1,2) by (simp_all add: public_policy_def split: pyval.splits)
  then show ?thesis unfolding deployment_policy_digest_def keys get using assms(3) by (simp cong: if_cong)
qed

section \<open>Properties\<close>


section \<open>Witnesses\<close>


















end
