(* ===== verification/Lifecycle.thy ===== *)
theory Lifecycle
  imports Prelude
begin

text \<open>
  The contracts that the state machines of the program share. An operation takes a state and
  an event and either raises (the state stays as it was) or returns the next state; a
  history is a list of attempted events. The locales state what an operation promises, and
  prove once what then holds along every history. The approval engine and the deployment
  stages are interpretations of them.
\<close>

section \<open>Histories\<close>

definition attempt :: "('s \<Rightarrow> 'e \<Rightarrow> 'x + 's) \<Rightarrow> 's \<Rightarrow> 'e \<Rightarrow> 's" where
  "attempt step s e = (case step s e of Inl _ \<Rightarrow> s | Inr s' \<Rightarrow> s')"

definition history :: "('s \<Rightarrow> 'e \<Rightarrow> 'x + 's) \<Rightarrow> 's \<Rightarrow> 'e list \<Rightarrow> 's" where
  "history step s es = foldl (attempt step) s es"

lemma history_simps [simp]:
  "history step s [] = s"
  "history step s (e # es) = history step (attempt step s e) es"
  by (simp_all add: history_def)

lemma history_append: "history step s (es @ fs) = history step (history step s es) fs"
  by (simp add: history_def)

lemma attempt_cases:
  obtains (refused) "attempt step s e = s"
    | (changed) s' where "step s e = Inr s'" "attempt step s e = s'"
  by (cases "step s e") (auto simp: attempt_def)

section \<open>An invariant every operation keeps\<close>

locale guarded =
  fixes step :: "'s \<Rightarrow> 'e \<Rightarrow> 'x + 's" and inv :: "'s \<Rightarrow> bool"
  assumes step_inv: "inv s \<Longrightarrow> step s e = Inr s' \<Longrightarrow> inv s'"
begin

lemma attempt_inv: "inv s \<Longrightarrow> inv (attempt step s e)"
  by (cases rule: attempt_cases [of step s e]) (auto intro: step_inv)

lemma history_inv: "inv s \<Longrightarrow> inv (history step s es)"
  by (induction es arbitrary: s) (auto intro: attempt_inv)

end

section \<open>Final states\<close>

text \<open>In a final state every event is refused.\<close>

locale final_states =
  fixes step :: "'s \<Rightarrow> 'e \<Rightarrow> 'x + 's" and final :: "'s \<Rightarrow> bool"
  assumes final_refuses: "final s \<Longrightarrow> \<exists>x. step s e = Inl x"
begin

lemma attempt_final: "final s \<Longrightarrow> attempt step s e = s"
  using final_refuses [of s e] by (auto simp: attempt_def)

lemma history_final: "final s \<Longrightarrow> history step s es = s"
  by (induction es) (auto simp: attempt_final)

text \<open>What is decided stays decided: a later history only extends the one that got there.\<close>

lemma history_final_prefix:
  "final (history step s es) \<Longrightarrow> history step s (es @ fs) = history step s es"
  by (simp add: history_append history_final)

end

section \<open>A gate that opens on a grant only\<close>

locale gate =
  fixes step :: "'s \<Rightarrow> 'e \<Rightarrow> 'x + 's"
    and opened :: "'s \<Rightarrow> bool"
    and grant :: "'s \<Rightarrow> 'e \<Rightarrow> bool"
  assumes opens_by_grant:
    "step s e = Inr s' \<Longrightarrow> opened s' \<Longrightarrow> \<not> opened s \<Longrightarrow> grant s e"
begin

lemma history_opens_by_grant:
  assumes "\<not> opened s" and "opened (history step s es)"
  shows "\<exists>as e bs. es = as @ e # bs \<and> \<not> opened (history step s as) \<and>
    opened (history step s (as @ [e])) \<and> grant (history step s as) e"
  using assms
proof (induction es arbitrary: s)
  case Nil
  then show ?case by simp
next
  case (Cons e es)
  show ?case
  proof (cases "opened (attempt step s e)")
    case True
    with Cons.prems(1) have "grant s e"
      by (cases rule: attempt_cases [of step s e]) (auto intro: opens_by_grant)
    with True Cons.prems(1) show ?thesis
      by (intro exI [of _ "[]"] exI [of _ e] exI [of _ es]) simp
  next
    case False
    with Cons.prems(2) obtain as d bs where
      "es = as @ d # bs" "\<not> opened (history step (attempt step s e) as)"
      "opened (history step (attempt step s e) (as @ [d]))"
      "grant (history step (attempt step s e) as) d"
      using Cons.IH [of "attempt step s e"] by auto
    then show ?thesis
      by (intro exI [of _ "e # as"] exI [of _ d] exI [of _ bs]) simp
  qed
qed

end

section \<open>An audited machine\<close>

text \<open>A machine with an invariant and final states: a history keeps the invariant and
  nothing after a final state changes anything.\<close>

locale audited = guarded step inv + final_states step final
  for step :: "'s \<Rightarrow> 'e \<Rightarrow> 'x + 's" and inv :: "'s \<Rightarrow> bool" and final :: "'s \<Rightarrow> bool"
begin

lemma history_settled:
  "inv s \<Longrightarrow> final (history step s es) \<Longrightarrow>
    inv (history step s (es @ fs)) \<and> history step s (es @ fs) = history step s es"
  by (simp add: history_final_prefix history_inv)

end

end
