(* ===== verification/DeployStage.thy ===== *)
theory DeployStage
  imports Lifecycle
begin

text \<open>
  \<open>src/xgen_sdk/deploy_state_machine.py\<close>: the stage of a workflow deployment, the
  transitions on deploy, cancel, approval result and administrator revocation, the legacy
  boolean columns written beside the stage and read back from old rows.
\<close>

section \<open>Stages\<close>

datatype stage = IDLE | PENDING_APPROVAL | DEPLOYED | REJECTED | REVOKED

definition stage_name :: "stage \<Rightarrow> string" where
  "stage_name s = (case s of
     IDLE \<Rightarrow> ''idle'' | PENDING_APPROVAL \<Rightarrow> ''pending_approval'' | DEPLOYED \<Rightarrow> ''deployed''
   | REJECTED \<Rightarrow> ''rejected'' | REVOKED \<Rightarrow> ''revoked'')"

definition ALL_STAGES :: "(string \<times> stage) list" where
  "ALL_STAGES = map (\<lambda>s. (stage_name s, s)) [IDLE, PENDING_APPROVAL, DEPLOYED, REJECTED, REVOKED]"

definition LEGACY_STAGE_ALIASES :: "(string \<times> stage) list" where
  "LEGACY_STAGE_ALIASES =
     [(''pending_admin'', PENDING_APPROVAL), (''pending_governance'', PENDING_APPROVAL),
      (''rejected_admin'', REJECTED), (''rejected_governance'', REJECTED)]"

text \<open>The stored value of a stage is any Python value.\<close>

definition normalize_stage :: "pyval \<Rightarrow> stage" where
  "normalize_stage v = (let s = strip (str_or_empty v) in
     case map_of ALL_STAGES s of Some st \<Rightarrow> st
     | None \<Rightarrow> (case map_of LEGACY_STAGE_ALIASES s of Some st \<Rightarrow> st | None \<Rightarrow> IDLE))"

section \<open>Transitions\<close>

datatype stage_error = InvalidStageTransition stage | UnknownDecision pyval

definition next_stage_on_user_deploy :: "pyval \<Rightarrow> bool \<Rightarrow> stage" where
  "next_stage_on_user_deploy current_stage approval_required =
     (if normalize_stage current_stage = DEPLOYED then DEPLOYED
      else if approval_required then PENDING_APPROVAL else DEPLOYED)"

definition next_stage_on_user_cancel :: "pyval \<Rightarrow> stage" where
  "next_stage_on_user_cancel current_stage = IDLE"

definition next_stage_on_approval :: "pyval \<Rightarrow> pyval \<Rightarrow> stage_error + stage" where
  "next_stage_on_approval current_stage decision =
     (let current = normalize_stage current_stage;
          d = lower (strip (str_or_empty decision))
      in if current \<noteq> PENDING_APPROVAL then Inl (InvalidStageTransition current)
         else if d = ''approved'' then Inr DEPLOYED
         else if d = ''rejected'' then Inr REJECTED
         else if d = ''canceled'' then Inr IDLE
         else Inl (UnknownDecision decision))"

definition next_stage_on_admin_revoke :: "pyval \<Rightarrow> stage_error + stage" where
  "next_stage_on_admin_revoke current_stage =
     (let current = normalize_stage current_stage
      in if current \<noteq> DEPLOYED then Inl (InvalidStageTransition current) else Inr REVOKED)"

section \<open>Legacy columns\<close>

record legacy_flags =
  is_deployed :: bool
  inquire_deploy :: bool
  is_admin_accepted :: bool
  is_governance_accepted :: bool

definition stage_to_legacy_flags :: "pyval \<Rightarrow> legacy_flags" where
  "stage_to_legacy_flags stage =
     (let s = normalize_stage stage;
          out = \<lparr>is_deployed = False, inquire_deploy = False,
                 is_admin_accepted = False, is_governance_accepted = False\<rparr>
      in if s = PENDING_APPROVAL then out\<lparr>inquire_deploy := True\<rparr>
         else if s = DEPLOYED then
           out\<lparr>is_deployed := True, is_admin_accepted := True, is_governance_accepted := True\<rparr>
         else out)"

datatype stage_group = GROUP_NOT_DEPLOYED | GROUP_PENDING | GROUP_DEPLOYED

definition stage_to_simple_group :: "pyval \<Rightarrow> stage_group" where
  "stage_to_simple_group stage =
     (let s = normalize_stage stage
      in if s = DEPLOYED then GROUP_DEPLOYED
         else if s = PENDING_APPROVAL then GROUP_PENDING else GROUP_NOT_DEPLOYED)"

definition infer_state_from_legacy_flags :: "legacy_flags \<Rightarrow> stage \<times> bool" where
  "infer_state_from_legacy_flags row =
     (if is_deployed row then (DEPLOYED, True)
      else if inquire_deploy row then (PENDING_APPROVAL, False)
      else if is_governance_accepted row \<or> is_admin_accepted row then (REVOKED, True)
      else (IDLE, False))"

section \<open>The machine over stored values\<close>

text \<open>The events a deployment sees. The stored value after an event is the name of the
  stage the operation returned.\<close>

datatype deploy_event =
    UserDeploy bool
  | UserCancel
  | ApprovalResult pyval
  | AdminRevoke

definition store_stage :: "stage_error + stage \<Rightarrow> stage_error + pyval" where
  "store_stage r = ebind r (\<lambda>s. Inr (PStr (stage_name s)))"

fun deploy_step :: "pyval \<Rightarrow> deploy_event \<Rightarrow> stage_error + pyval" where
  "deploy_step v (UserDeploy req) = store_stage (Inr (next_stage_on_user_deploy v req))"
| "deploy_step v UserCancel = store_stage (Inr (next_stage_on_user_cancel v))"
| "deploy_step v (ApprovalResult d) = store_stage (next_stage_on_approval v d)"
| "deploy_step v AdminRevoke = store_stage (next_stage_on_admin_revoke v)"

definition exposed :: "pyval \<Rightarrow> bool" where
  "exposed v = (normalize_stage v = DEPLOYED)"

text \<open>What may open external access: an approval that said yes while one was pending, or a
  deployment in a configuration that needs no approval.\<close>

fun deploy_grant :: "pyval \<Rightarrow> deploy_event \<Rightarrow> bool" where
  "deploy_grant v (UserDeploy req) = (\<not> req)"
| "deploy_grant v (ApprovalResult d) =
     (normalize_stage v = PENDING_APPROVAL \<and> lower (strip (str_or_empty d)) = ''approved'')"
| "deploy_grant v _ = False"

definition stored_well :: "pyval \<Rightarrow> bool" where
  "stored_well v = (\<exists>s. v = PStr (stage_name s))"

section \<open>Lemmas\<close>

lemmas stage_defs = normalize_stage_def ALL_STAGES_def LEGACY_STAGE_ALIASES_def stage_name_def

lemma strip_stage_name [simp]: "strip (stage_name s) = stage_name s"
  by (cases s) (simp_all add: stage_name_def strip_def is_space_def Let_def)

lemma normalize_stage_name [simp]: "normalize_stage (PStr (stage_name s)) = s"
  unfolding normalize_stage_def Let_def str_or_empty_simps strip_stage_name
  by (cases s) (simp_all add: ALL_STAGES_def stage_name_def)

lemma normalize_stage_DEPLOYED:
  "normalize_stage v = DEPLOYED \<longleftrightarrow> strip (str_or_empty v) = ''deployed''"
  by (auto simp: stage_defs Let_def split: if_splits option.splits)

lemma normalize_stage_unknown:
  "strip (str_or_empty v) \<notin> set (map fst ALL_STAGES @ map fst LEGACY_STAGE_ALIASES) \<Longrightarrow>
    normalize_stage v = IDLE"
  by (simp add: normalize_stage_def Let_def map_of_None)

lemma deploy_step_gate:
  "deploy_step v e = Inr v' \<Longrightarrow> exposed v' \<Longrightarrow> \<not> exposed v \<Longrightarrow> deploy_grant v e"
  by (cases e) (auto simp: exposed_def store_stage_def ebind_Inr next_stage_on_user_deploy_def
      next_stage_on_user_cancel_def next_stage_on_approval_def next_stage_on_admin_revoke_def
      Let_def split: if_splits)

lemma deploy_step_stored: "deploy_step v e = Inr v' \<Longrightarrow> stored_well v'"
  by (cases e) (auto simp: stored_well_def store_stage_def ebind_Inr)

interpretation deploy_gate: gate deploy_step exposed deploy_grant
  by unfold_locales (rule deploy_step_gate)

interpretation deploy_inv: guarded deploy_step stored_well
  by unfold_locales (rule deploy_step_stored)

section \<open>Properties\<close>

text \<open>C5. External access opens only by a grant: along any history of deploy, cancel, approval
  and revoke events (refused ones leave the stage as it was) that starts closed and ends
  exposed, there is an event that opened it, and that event is either a deployment made where
  no approval is required, or an approval result \<open>approved\<close> arriving while the stage was
  \<open>pending_approval\<close>.\<close>

theorem deploy_opens_by_grant_only:
  assumes "\<not> exposed v" and "exposed (history deploy_step v es)"
  shows "\<exists>as e bs. es = as @ e # bs \<and> \<not> exposed (history deploy_step v as) \<and>
    (e = UserDeploy False \<or>
     (\<exists>d. e = ApprovalResult d \<and> lower (strip (str_or_empty d)) = ''approved'' \<and>
          normalize_stage (history deploy_step v as) = PENDING_APPROVAL))"
proof -
  obtain as e bs where "es = as @ e # bs" "\<not> exposed (history deploy_step v as)"
    "deploy_grant (history deploy_step v as) e"
    using deploy_gate.history_opens_by_grant [OF assms] by blast
  then show ?thesis by (cases e) auto
qed

theorem deploy_opens_by_grant_only_witness:
  "\<exists>as e bs. [UserDeploy True, ApprovalResult (PStr ''approved'')] = as @ e # bs \<and>
    \<not> exposed (history deploy_step (PStr ''idle'') as) \<and>
    (e = UserDeploy False \<or>
     (\<exists>d. e = ApprovalResult d \<and> lower (strip (str_or_empty d)) = ''approved'' \<and>
          normalize_stage (history deploy_step (PStr ''idle'') as) = PENDING_APPROVAL))"
proof (rule deploy_opens_by_grant_only)
  show "\<not> exposed (PStr ''idle'')" by code_simp
  show "exposed (history deploy_step (PStr ''idle'')
      [UserDeploy True, ApprovalResult (PStr ''approved'')])" by code_simp
qed

text \<open>Reading back a stage the program wrote is exact, and everything else fails closed: the
  name of every stage normalizes to that stage, a stored value that is neither a stage name
  nor a legacy alias (after trimming) reads as \<open>idle\<close>, and only the text \<open>deployed\<close> reads as
  deployed.\<close>

lemma normalize_stage_fails_closed:
  "normalize_stage (PStr (stage_name s)) = s \<and>
   (strip (str_or_empty v) \<notin> set (map fst ALL_STAGES @ map fst LEGACY_STAGE_ALIASES) \<longrightarrow>
      normalize_stage v = IDLE) \<and>
   (exposed v \<longleftrightarrow> strip (str_or_empty v) = ''deployed'')"
  by (simp add: exposed_def normalize_stage_DEPLOYED normalize_stage_unknown)

lemma normalize_stage_fails_closed_witness:
  "normalize_stage (PStr ''DEPLOYED'') = IDLE"
proof -
  have "strip (str_or_empty (PStr ''DEPLOYED'')) \<notin>
      set (map fst ALL_STAGES @ map fst LEGACY_STAGE_ALIASES)" by code_simp
  then show ?thesis using normalize_stage_fails_closed [of IDLE "PStr ''DEPLOYED''"] by blast
qed

text \<open>The legacy columns and the stage agree: reading the flags written for a stage gives
  back \<open>deployed\<close> and \<open>pending_approval\<close> exactly and \<open>idle\<close> for the three closed stages, so a
  row whose stage is lost is never read as more open than it was; \<open>is_deployed\<close> is written
  exactly for an exposed stage.\<close>

lemma legacy_flags_roundtrip:
  "fst (infer_state_from_legacy_flags (stage_to_legacy_flags v)) =
     (if normalize_stage v \<in> {DEPLOYED, PENDING_APPROVAL} then normalize_stage v else IDLE) \<and>
   is_deployed (stage_to_legacy_flags v) = exposed v \<and>
   (stage_to_simple_group v = GROUP_DEPLOYED) = exposed v"
  by (cases "normalize_stage v") (simp_all add: stage_to_legacy_flags_def
      infer_state_from_legacy_flags_def exposed_def stage_to_simple_group_def)

end
