(* ===== verification/Quota.thy ===== *)
theory Quota
  imports Prelude
begin

text \<open>
  \<open>src/xgen_sdk/quota\<close>: token quota policies. \<open>types.py\<close> (enumerations with their safe
  \<open>coerce\<close>, the policy, usage and decision records), \<open>resolver.py\<close> (combining the policies of
  a user's roles and the user's own), \<open>evaluator.py\<close> (usage against the combined limits) and
  \<open>period.py\<close> (calendar bounds of a period). Dates are \<open>datetime.date\<close>: years 1 to 9999 of the
  Gregorian calendar, with \<open>OverflowError\<close> outside.
\<close>

section \<open>Types\<close>

datatype QuotaPeriod = DAILY | WEEKLY | MONTHLY
datatype QuotaScope = TOTAL | INPUT | OUTPUT | TOOL
datatype QuotaAction = BLOCK | WARN
datatype QuotaTargetType = USER | ROLE

definition QuotaPeriod_coerce :: "string option \<Rightarrow> QuotaPeriod" where
  "QuotaPeriod_coerce value = (case value of None \<Rightarrow> MONTHLY
   | Some s \<Rightarrow> if s = ''daily'' then DAILY else if s = ''weekly'' then WEEKLY else MONTHLY)"

definition QuotaScope_coerce :: "string option \<Rightarrow> QuotaScope" where
  "QuotaScope_coerce value = (case value of None \<Rightarrow> TOTAL
   | Some s \<Rightarrow> if s = ''input'' then INPUT else if s = ''output'' then OUTPUT
       else if s = ''tool'' then TOOL else TOTAL)"

definition QuotaAction_coerce :: "string option \<Rightarrow> QuotaAction" where
  "QuotaAction_coerce value = (case value of None \<Rightarrow> BLOCK
   | Some s \<Rightarrow> if s = ''warn'' then WARN else BLOCK)"

definition QuotaTargetType_coerce :: "string option \<Rightarrow> QuotaTargetType" where
  "QuotaTargetType_coerce value = (case value of None \<Rightarrow> USER
   | Some s \<Rightarrow> if s = ''role'' then ROLE else USER)"

record QuotaPolicySpec =
  qp_id :: int
  target_type :: QuotaTargetType
  target_id :: int
  period_type :: QuotaPeriod
  scope :: QuotaScope
  token_limit :: int
  action_on_exceed :: QuotaAction
  priority :: int
  is_active :: bool

record QuotaUsage =
  us_period :: QuotaPeriod
  period_start_kst :: string
  period_end_kst :: string
  input_tokens :: int
  output_tokens :: int
  tool_tokens :: int
  total_tokens :: int

fun value_for :: "QuotaUsage \<Rightarrow> QuotaScope \<Rightarrow> int" where
  "value_for u INPUT = input_tokens u"
| "value_for u OUTPUT = output_tokens u"
| "value_for u TOOL = tool_tokens u"
| "value_for u TOTAL = total_tokens u"

record QuotaDecision =
  allowed :: bool
  d_action :: "QuotaAction option"
  triggered_policy_id :: "int option"
  d_period :: "QuotaPeriod option"
  d_scope :: "QuotaScope option"
  used_tokens :: "int option"
  limit_tokens :: "int option"
  reason_key :: "string option"

definition QuotaDecision_allow :: QuotaDecision where
  "QuotaDecision_allow = \<lparr>allowed = True, d_action = None, triggered_policy_id = None,
     d_period = None, d_scope = None, used_tokens = None, limit_tokens = None,
     reason_key = None\<rparr>"

text \<open>A policy with action \<open>a\<close> that the usage has reached.\<close>

definition exceeds ::
    "(QuotaPeriod \<rightharpoonup> QuotaUsage) \<Rightarrow> QuotaAction \<Rightarrow> QuotaPolicySpec \<Rightarrow> bool" where
  "exceeds usage a p = (action_on_exceed p = a \<and>
     (\<exists>u. usage (period_type p) = Some u \<and> 0 < token_limit p \<and>
       token_limit p \<le> value_for u (scope p)))"

section \<open>Combining policies\<close>

type_synonym quota_key = "QuotaPeriod \<times> QuotaScope"
type_synonym effective = "(quota_key \<times> QuotaPolicySpec) list"

definition quota_key :: "QuotaPolicySpec \<Rightarrow> quota_key" where
  "quota_key p = (period_type p, scope p)"

text \<open>One round of the loop over the role policies.\<close>

definition combine_role :: "QuotaPolicySpec \<Rightarrow> effective \<Rightarrow> effective" where
  "combine_role p role_eff =
     (let key = quota_key p
      in case map_of role_eff key of
           None \<Rightarrow> dset key p role_eff
         | Some cur \<Rightarrow>
             (let (role_eff, cur) =
                (if token_limit p < token_limit cur then (dset key p role_eff, p)
                 else (role_eff, cur))
              in if action_on_exceed cur \<noteq> BLOCK \<and> action_on_exceed p = BLOCK
                 then dset key (cur\<lparr>action_on_exceed := BLOCK\<rparr>) role_eff
                 else role_eff))"

definition role_policies :: "int list \<Rightarrow> QuotaPolicySpec list \<Rightarrow> QuotaPolicySpec list" where
  "role_policies role_ids ps =
     filter (\<lambda>p. is_active p \<and> target_type p = ROLE \<and> target_id p \<in> set role_ids) ps"

definition user_policies :: "int \<Rightarrow> QuotaPolicySpec list \<Rightarrow> QuotaPolicySpec list" where
  "user_policies user_id ps =
     filter (\<lambda>p. is_active p \<and> target_type p = USER \<and> target_id p = user_id) ps"

definition effective_map :: "int \<Rightarrow> int list \<Rightarrow> QuotaPolicySpec list \<Rightarrow> effective" where
  "effective_map user_id user_role_ids all_active_policies =
     (let role_eff = fold combine_role (role_policies user_role_ids all_active_policies) [];
          user_eff = dict_of (map (\<lambda>p. (quota_key p, p)) (user_policies user_id all_active_policies))
      in fold (\<lambda>(k, p) d. dset k p d) user_eff role_eff)"

definition resolve_effective_policies ::
    "int \<Rightarrow> int list \<Rightarrow> QuotaPolicySpec list \<Rightarrow> QuotaPolicySpec list" where
  "resolve_effective_policies user_id user_role_ids all_active_policies =
     map snd (effective_map user_id user_role_ids all_active_policies)"

section \<open>Evaluation\<close>

text \<open>\<open>used >= limit\<close> for a policy whose period has a usage and whose limit is positive.\<close>

definition quota_hit :: "(QuotaPeriod \<rightharpoonup> QuotaUsage) \<Rightarrow> QuotaPolicySpec \<Rightarrow> int option" where
  "quota_hit usage p = (case usage (period_type p) of None \<Rightarrow> None
     | Some u \<Rightarrow>
         if token_limit p \<le> 0 then None
         else if value_for u (scope p) < token_limit p then None
         else Some (value_for u (scope p)))"

fun scan_hits ::
    "(QuotaPeriod \<rightharpoonup> QuotaUsage) \<Rightarrow> QuotaPolicySpec list \<Rightarrow>
     (QuotaPolicySpec \<times> int) option \<Rightarrow> (QuotaPolicySpec \<times> int) option \<Rightarrow>
     (QuotaPolicySpec \<times> int) option \<times> (QuotaPolicySpec \<times> int) option" where
  "scan_hits usage [] block_hit warn_hit = (block_hit, warn_hit)"
| "scan_hits usage (p # ps) block_hit warn_hit =
     (case quota_hit usage p of None \<Rightarrow> scan_hits usage ps block_hit warn_hit
      | Some used \<Rightarrow>
          if action_on_exceed p = BLOCK \<and> block_hit = None
          then scan_hits usage ps (Some (p, used)) warn_hit
          else if action_on_exceed p = WARN \<and> warn_hit = None
          then scan_hits usage ps block_hit (Some (p, used))
          else scan_hits usage ps block_hit warn_hit)"

fun period_value :: "QuotaPeriod \<Rightarrow> string" where
  "period_value DAILY = ''daily''"
| "period_value WEEKLY = ''weekly''"
| "period_value MONTHLY = ''monthly''"

fun scope_value :: "QuotaScope \<Rightarrow> string" where
  "scope_value TOTAL = ''total''"
| "scope_value INPUT = ''input''"
| "scope_value OUTPUT = ''output''"
| "scope_value TOOL = ''tool''"

definition evaluate_quota ::
    "QuotaPolicySpec list \<Rightarrow> (QuotaPeriod \<rightharpoonup> QuotaUsage) \<Rightarrow> QuotaDecision" where
  "evaluate_quota effective_policies usage_by_period =
     (case scan_hits usage_by_period effective_policies None None of
        (Some (p, used), _) \<Rightarrow>
          \<lparr>allowed = False, d_action = Some BLOCK, triggered_policy_id = Some (qp_id p),
           d_period = Some (period_type p), d_scope = Some (scope p),
           used_tokens = Some used, limit_tokens = Some (token_limit p),
           reason_key = Some (''quota.exceeded.'' @ period_value (period_type p) @ ''.'' @
             scope_value (scope p))\<rparr>
      | (None, Some (p, used)) \<Rightarrow>
          \<lparr>allowed = True, d_action = Some WARN, triggered_policy_id = Some (qp_id p),
           d_period = Some (period_type p), d_scope = Some (scope p),
           used_tokens = Some used, limit_tokens = Some (token_limit p),
           reason_key = Some (''quota.warning.'' @ period_value (period_type p) @ ''.'' @
             scope_value (scope p))\<rparr>
      | (None, None) \<Rightarrow> QuotaDecision_allow)"

section \<open>Lemmas on combining\<close>

lemma combine_role_other:
  "quota_key p \<noteq> k \<Longrightarrow> map_of (combine_role p d) k = map_of d k"
  by (auto simp: combine_role_def Let_def split: option.splits)

lemma combine_role_same:
  "map_of (combine_role p d) (quota_key p) = Some
     (case map_of d (quota_key p) of None \<Rightarrow> p
      | Some cur \<Rightarrow> (let m = (if token_limit p < token_limit cur then p else cur)
          in m\<lparr>action_on_exceed :=
               (if action_on_exceed p = BLOCK then BLOCK else action_on_exceed m)\<rparr>))"
  by (auto simp: combine_role_def Let_def split: option.splits)

text \<open>The policy kept for one key, as a fold over the policies of that key.\<close>

definition merge_policy :: "QuotaPolicySpec \<Rightarrow> QuotaPolicySpec option \<Rightarrow> QuotaPolicySpec option" where
  "merge_policy p c = Some (case c of None \<Rightarrow> p
      | Some cur \<Rightarrow> (let m = (if token_limit p < token_limit cur then p else cur)
          in m\<lparr>action_on_exceed :=
               (if action_on_exceed p = BLOCK then BLOCK else action_on_exceed m)\<rparr>))"

lemma fold_combine_role:
  "map_of (fold combine_role ps d) k =
     fold merge_policy (filter (\<lambda>p. quota_key p = k) ps) (map_of d k)"
  by (induction ps arbitrary: d)
     (auto simp: combine_role_other combine_role_same merge_policy_def)

lemma combine_role_distinct:
  "distinct (map fst d) \<Longrightarrow> distinct (map fst (combine_role p d))"
  by (auto simp: combine_role_def Let_def distinct_dset split: option.splits)

lemma fold_combine_role_distinct:
  "distinct (map fst d) \<Longrightarrow> distinct (map fst (fold combine_role ps d))"
  by (induction ps arbitrary: d) (auto simp: combine_role_distinct)

lemma effective_map_distinct: "distinct (map fst (effective_map uid rids ps))"
  unfolding effective_map_def Let_def
  by (intro distinct_fold_dset fold_combine_role_distinct) simp

lemma map_of_effective_map:
  "map_of (effective_map uid rids ps) k =
     (case find (\<lambda>p. quota_key p = k) (rev (user_policies uid ps)) of
        Some p \<Rightarrow> Some p
      | None \<Rightarrow> fold merge_policy (filter (\<lambda>p. quota_key p = k) (role_policies rids ps)) None)"
proof -
  have find: "map_of (map (\<lambda>p. (quota_key p, p)) us) k = find (\<lambda>p. quota_key p = k) us" for us
    by (induction us) auto
  have inv: "map_of (rev (dict_of kvs)) = map_of (dict_of kvs)" for kvs :: effective
    by (rule map_of_inject_set [THEN iffD2]) (simp_all flip: rev_map)
  show ?thesis
    by (simp add: effective_map_def Let_def map_of_fold_dset inv map_of_dict_of map_add_def
        fold_combine_role rev_map find split: option.split)
qed

text \<open>The merged limit is the least one.\<close>

lemma merge_policy_limit:
  "fold merge_policy ps (Some c) = Some m \<Longrightarrow>
     token_limit m = Min (insert (token_limit c) (token_limit ` set ps))"
proof (induction ps arbitrary: c)
  case Nil
  then show ?case by simp
next
  case (Cons p ps)
  let ?c = "the (merge_policy p (Some c))"
  have c: "merge_policy p (Some c) = Some ?c" by (simp add: merge_policy_def)
  have lim: "token_limit ?c = min (token_limit p) (token_limit c)"
    by (simp add: merge_policy_def Let_def)
  from Cons.prems c have "fold merge_policy ps (Some ?c) = Some m" by simp
  then have "token_limit m = Min (insert (token_limit ?c) (token_limit ` set ps))"
    by (rule Cons.IH)
  also have "\<dots> = Min (insert (token_limit c) (token_limit ` set (p # ps)))"
    by (cases "set ps = {}") (auto simp: lim Min_insert min.assoc min.left_commute min.commute)
  finally show ?case .
qed

lemma merge_policy_Some: "ps \<noteq> [] \<Longrightarrow> \<exists>m. fold merge_policy ps c = Some m"
proof (induction ps arbitrary: c)
  case Nil
  then show ?case by simp
next
  case (Cons p ps)
  then show ?case by (cases "ps = []") (auto simp: merge_policy_def)
qed

section \<open>The action kept for one key\<close>

text \<open>The first policy that attains the least limit, and everything after it.\<close>

definition from_first_min :: "QuotaPolicySpec list \<Rightarrow> QuotaPolicySpec list" where
  "from_first_min ps = dropWhile (\<lambda>p. token_limit p \<noteq> Min (token_limit ` set ps)) ps"

lemma from_first_min_le:
  assumes "\<forall>q\<in>set qs. token_limit p \<le> token_limit q"
  shows "from_first_min (p # qs) = p # qs"
proof -
  have "Min (token_limit ` set (p # qs)) = token_limit p"
    using assms by (intro Min_eqI) auto
  then show ?thesis by (simp add: from_first_min_def)
qed

lemma from_first_min_less:
  assumes "\<not> (\<forall>q\<in>set qs. token_limit p \<le> token_limit q)"
  shows "from_first_min (p # qs) = from_first_min qs"
proof -
  have ne: "qs \<noteq> []" using assms by auto
  have "Min (token_limit ` set qs) < token_limit p"
    using assms ne by (auto simp: Min_less_iff not_le)
  then have "Min (token_limit ` set (p # qs)) = Min (token_limit ` set qs)"
    and "token_limit p \<noteq> Min (token_limit ` set qs)"
    using ne assms by (auto simp: Min_insert min_def)
  then show ?thesis by (simp add: from_first_min_def)
qed

lemma from_first_min_Cons:
  "from_first_min (p # qs) =
     (if \<forall>q\<in>set qs. token_limit p \<le> token_limit q then p # qs else from_first_min qs)"
  using from_first_min_le from_first_min_less by auto

lemma merge_policy_action:
  "fold merge_policy ps (Some c) = Some m \<Longrightarrow>
     (action_on_exceed m = BLOCK) =
       (\<exists>q\<in>set (from_first_min (c # ps)). action_on_exceed q = BLOCK)"
proof (induction ps arbitrary: c)
  case Nil
  then show ?case by (simp add: from_first_min_def)
next
  case (Cons p ps)
  let ?c = "the (merge_policy p (Some c))"
  have c0: "merge_policy p (Some c) = Some ?c" by (simp add: merge_policy_def)
  have "fold merge_policy ps (Some ?c) = Some m"
    using Cons.prems c0 by simp
  note IH = Cons.IH [OF this]
  show ?case
  proof (cases "token_limit p < token_limit c")
    case True
    then have "token_limit ?c = token_limit p" "action_on_exceed ?c = action_on_exceed p"
      by (auto simp: merge_policy_def Let_def; cases "action_on_exceed p"; simp)+
    then show ?thesis using IH True by (auto simp: from_first_min_Cons)
  next
    case False
    then have "token_limit ?c = token_limit c"
      "(action_on_exceed ?c = BLOCK) = (action_on_exceed c = BLOCK \<or> action_on_exceed p = BLOCK)"
      by (auto simp: merge_policy_def Let_def)
    then show ?thesis using IH False by (auto simp: from_first_min_Cons)
  qed
qed

lemma merge_policy_action_None:
  "fold merge_policy ps None = Some m \<Longrightarrow>
     (action_on_exceed m = BLOCK) = (\<exists>q\<in>set (from_first_min ps). action_on_exceed q = BLOCK)"
  by (cases ps) (simp_all add: merge_policy_action merge_policy_def [of _ None])

section \<open>Lemmas on evaluation\<close>

lemma scan_hits_block:
  "fst (scan_hits usage ps b w) = (case b of Some x \<Rightarrow> Some x
     | None \<Rightarrow> map_option (\<lambda>p. (p, the (quota_hit usage p)))
         (find (\<lambda>p. quota_hit usage p \<noteq> None \<and> action_on_exceed p = BLOCK) ps))"
  by (induction usage ps b w rule: scan_hits.induct) (auto split: option.splits)

lemma scan_hits_warn:
  "snd (scan_hits usage ps b w) = (case w of Some x \<Rightarrow> Some x
     | None \<Rightarrow> map_option (\<lambda>p. (p, the (quota_hit usage p)))
         (find (\<lambda>p. quota_hit usage p \<noteq> None \<and> action_on_exceed p = WARN) ps))"
proof (induction usage ps b w rule: scan_hits.induct)
  case (1 usage b w)
  show ?case by (simp split: option.split)
next
  case (2 usage p ps b w)
  then show ?case by (cases "action_on_exceed p") (auto split: option.splits)
qed

lemma find_None_all: "find P xs = None \<longleftrightarrow> (\<forall>x\<in>set xs. \<not> P x)"
  by (auto simp: find_None_iff)

lemma quota_hit_Some:
  "quota_hit usage p = Some n \<longleftrightarrow> (\<exists>u. usage (period_type p) = Some u \<and> n = value_for u (scope p) \<and>
     0 < token_limit p \<and> token_limit p \<le> n)"
  by (auto simp: quota_hit_def split: option.splits)

section \<open>One policy per key\<close>

definition keyed :: "effective \<Rightarrow> bool" where
  "keyed d = (\<forall>(k, p)\<in>set d. quota_key p = k)"

lemma keyed_dset: "keyed d \<Longrightarrow> quota_key p = k \<Longrightarrow> keyed (dset k p d)"
  unfolding keyed_def by (induction d) (auto split: if_splits)

lemma quota_key_action [simp]: "quota_key (p\<lparr>action_on_exceed := a\<rparr>) = quota_key p"
  by (simp add: quota_key_def)

lemma keyed_lookup: "keyed d \<Longrightarrow> map_of d k = Some p \<Longrightarrow> quota_key p = k"
  by (auto simp: keyed_def dest!: map_of_SomeD)

lemma keyed_combine_role: "keyed d \<Longrightarrow> keyed (combine_role p d)"
  by (auto simp: combine_role_def Let_def keyed_dset dest: keyed_lookup
      intro!: keyed_dset split: option.splits)

lemma keyed_fold_dset: "keyed kvs \<Longrightarrow> keyed d \<Longrightarrow> keyed (fold (\<lambda>(k, p) d. dset k p d) kvs d)"
proof (induction kvs arbitrary: d)
  case (Cons kv kvs)
  obtain k v where kv: "kv = (k, v)" by (cases kv)
  with Cons.prems(1) have "keyed kvs" "quota_key v = k" by (auto simp: keyed_def)
  with Cons.IH [of "dset k v d"] Cons.prems(2) kv show ?case by (simp add: keyed_dset)
qed simp

lemma keyed_fold_combine: "keyed d \<Longrightarrow> keyed (fold combine_role ps d)"
  by (induction ps arbitrary: d) (auto simp: keyed_combine_role)

lemma keyed_effective_map: "keyed (effective_map uid rids ps)"
proof -
  have "keyed (map (\<lambda>p. (quota_key p, p)) us)" for us by (auto simp: keyed_def)
  moreover have "keyed []" by (simp add: keyed_def)
  ultimately show ?thesis
    unfolding effective_map_def Let_def dict_of_def
    by (intro keyed_fold_dset keyed_fold_combine)
qed

lemma keyed_snd: "keyed d \<Longrightarrow> map quota_key (map snd d) = map fst d"
  by (induction d) (auto simp: keyed_def)

lemma in_resolve_iff:
  "p \<in> set (resolve_effective_policies uid rids ps) \<longleftrightarrow>
    map_of (effective_map uid rids ps) (quota_key p) = Some p"
proof
  assume "p \<in> set (resolve_effective_policies uid rids ps)"
  then obtain k where "(k, p) \<in> set (effective_map uid rids ps)"
    by (auto simp: resolve_effective_policies_def)
  moreover from this have "quota_key p = k"
    using keyed_effective_map by (fastforce simp: keyed_def)
  ultimately show "map_of (effective_map uid rids ps) (quota_key p) = Some p"
    by (auto simp: effective_map_distinct)
next
  assume "map_of (effective_map uid rids ps) (quota_key p) = Some p"
  then show "p \<in> set (resolve_effective_policies uid rids ps)"
    by (force simp: resolve_effective_policies_def dest!: map_of_SomeD)
qed

section \<open>Properties\<close>

text \<open>Resolution gives exactly one policy for each period and scope that some applicable
  active policy names, and a user's own policy replaces whatever the roles gave: where the
  user has active policies for a key, the effective policy of that key is the last of them.\<close>

lemma resolve_one_per_key_user_wins:
  "distinct (map quota_key (resolve_effective_policies uid rids ps)) \<and>
   (\<forall>p. filter (\<lambda>q. quota_key q = quota_key p) (user_policies uid ps) \<noteq> [] \<longrightarrow>
      (p \<in> set (resolve_effective_policies uid rids ps)) =
      (p = last (filter (\<lambda>q. quota_key q = quota_key p) (user_policies uid ps))))"
proof (intro conjI allI impI)
  show "distinct (map quota_key (resolve_effective_policies uid rids ps))"
    unfolding resolve_effective_policies_def keyed_snd [OF keyed_effective_map]
    by (rule effective_map_distinct)
next
  fix p
  let ?us = "filter (\<lambda>q. quota_key q = quota_key p) (user_policies uid ps)"
  assume ne: "?us \<noteq> []"
  have "find P (rev us) = (if filter P us = [] then None else Some (last (filter P us)))"
    for P and us :: "QuotaPolicySpec list"
    by (induction us rule: rev_induct) (auto simp: filter_empty_conv)
  then have "map_of (effective_map uid rids ps) (quota_key p) = Some (last ?us)"
    using ne by (simp add: map_of_effective_map)
  then show "(p \<in> set (resolve_effective_policies uid rids ps)) = (p = last ?us)"
    by (auto simp: in_resolve_iff)
qed

definition w_user :: QuotaPolicySpec where
  "w_user = \<lparr>qp_id = 2, target_type = USER, target_id = 7, period_type = DAILY, scope = TOTAL,
     token_limit = 100, action_on_exceed = WARN, priority = 0, is_active = True\<rparr>"

definition w_block :: QuotaPolicySpec where
  "w_block = \<lparr>qp_id = 1, target_type = ROLE, target_id = 3, period_type = DAILY, scope = TOTAL,
     token_limit = 50, action_on_exceed = BLOCK, priority = 0, is_active = True\<rparr>"

definition w_warn :: QuotaPolicySpec where
  "w_warn = w_block\<lparr>qp_id := 4, token_limit := 20, action_on_exceed := WARN\<rparr>"

lemma resolve_one_per_key_user_wins_witness:
  "w_user \<in> set (resolve_effective_policies 7 [3] [w_block, w_user])"
proof -
  have f: "filter (\<lambda>q. quota_key q = quota_key w_user) (user_policies 7 [w_block, w_user]) = [w_user]"
    by code_simp
  show ?thesis
    using resolve_one_per_key_user_wins [of 7 "[3]" "[w_block, w_user]"] f by auto
qed

text \<open>Without a policy of the user for a key, the roles decide: the effective limit is the
  least limit of the user's active role policies for that key, and the effective action is
  \<open>block\<close> exactly when one of the policies from the first least one onwards blocks (a blocking
  policy that comes earlier in the list than the first least limit is lost).\<close>

lemma resolve_role_limit_and_action:
  fixes k :: quota_key
  assumes "filter (\<lambda>q. quota_key q = k) (user_policies uid ps) = []"
    and "filter (\<lambda>q. quota_key q = k) (role_policies rids ps) \<noteq> []"
  shows "\<exists>m\<in>set (resolve_effective_policies uid rids ps). quota_key m = k \<and>
    token_limit m = Min (token_limit ` set (filter (\<lambda>q. quota_key q = k) (role_policies rids ps))) \<and>
    (action_on_exceed m = BLOCK \<longleftrightarrow>
      (\<exists>q\<in>set (from_first_min (filter (\<lambda>q. quota_key q = k) (role_policies rids ps))).
         action_on_exceed q = BLOCK))"
proof -
  let ?rs = "filter (\<lambda>q. quota_key q = k) (role_policies rids ps)"
  have "find (\<lambda>p. quota_key p = k) (rev (user_policies uid ps)) = None"
    using assms(1) by (auto simp: find_None_iff filter_empty_conv)
  then have "map_of (effective_map uid rids ps) k = fold merge_policy ?rs None"
    by (simp add: map_of_effective_map)
  moreover obtain m where m: "fold merge_policy ?rs None = Some m"
    using merge_policy_Some [OF assms(2)] by blast
  ultimately have look: "map_of (effective_map uid rids ps) k = Some m" by simp
  then have key: "quota_key m = k" using keyed_effective_map keyed_lookup by blast
  have "token_limit m = Min (token_limit ` set ?rs)"
  proof (cases ?rs)
    case (Cons q qs)
    then have "fold merge_policy qs (Some q) = Some m"
      using m by (simp add: merge_policy_def [of _ None])
    then show ?thesis using Cons by (simp add: merge_policy_limit)
  qed (use assms(2) in simp)
  moreover have "m \<in> set (resolve_effective_policies uid rids ps)"
    using look key by (simp add: in_resolve_iff)
  ultimately show ?thesis using key merge_policy_action_None [OF m] by blast
qed

lemma resolve_role_limit_and_action_witness:
  "\<exists>m\<in>set (resolve_effective_policies 7 [3] [w_warn, w_block]).
     token_limit m = 20 \<and> action_on_exceed m = BLOCK"
proof -
  let ?k = "(DAILY, TOTAL)"
  have u: "filter (\<lambda>q. quota_key q = ?k) (user_policies 7 [w_warn, w_block]) = []" by code_simp
  have r: "filter (\<lambda>q. quota_key q = ?k) (role_policies [3] [w_warn, w_block]) = [w_warn, w_block]"
    by code_simp
  have v: "Min (token_limit ` set [w_warn, w_block]) = 20"
    "\<exists>q\<in>set (from_first_min [w_warn, w_block]). action_on_exceed q = BLOCK" by code_simp+
  show ?thesis
    using resolve_role_limit_and_action [of ?k 7 "[w_warn, w_block]" "[3]"] u r v by auto
qed

text \<open>The escalation to \<open>block\<close> depends on the order of the policies. For two role policies
  of one key, a blocking one and a warning one with a smaller limit: listed blocking first,
  a user over both limits is let through with a warning; listed the other way round, the same
  user is blocked.\<close>

lemma block_escalation_order_dependent:
  assumes "quota_key b = quota_key w" "token_limit w < token_limit b" "0 < token_limit w"
    and "action_on_exceed b = BLOCK" "action_on_exceed w = WARN"
    and "role_policies rids [b, w] = [b, w]" "user_policies uid [b, w] = []"
    and "usage (period_type b) = Some u" "token_limit b \<le> value_for u (scope b)"
  shows "allowed (evaluate_quota (resolve_effective_policies uid rids [b, w]) usage) \<and>
    \<not> allowed (evaluate_quota (resolve_effective_policies uid rids [w, b]) usage)"
proof -
  have k: "period_type b = period_type w" "scope b = scope w"
    using assms(1) by (simp_all add: quota_key_def)
  have r: "role_policies rids [w, b] = [w, b]" "user_policies uid [w, b] = []"
    using assms(6,7) by (auto simp: role_policies_def user_policies_def split: if_splits)
  have "resolve_effective_policies uid rids [b, w] = [w]"
    using assms by (simp add: resolve_effective_policies_def effective_map_def combine_role_def
        dict_of_def)
  moreover have "resolve_effective_policies uid rids [w, b] = [w\<lparr>action_on_exceed := BLOCK\<rparr>]"
    using assms r by (simp add: resolve_effective_policies_def effective_map_def
        combine_role_def dict_of_def)
  moreover have "quota_hit usage w = Some (value_for u (scope w))"
    using assms k by (simp add: quota_hit_def)
  moreover have "quota_hit usage (w\<lparr>action_on_exceed := BLOCK\<rparr>) = Some (value_for u (scope w))"
    using assms k by (simp add: quota_hit_def)
  ultimately show ?thesis using assms by (simp add: evaluate_quota_def)
qed

definition w_usage :: "QuotaPeriod \<rightharpoonup> QuotaUsage" where
  "w_usage = [DAILY \<mapsto> \<lparr>us_period = DAILY, period_start_kst = [], period_end_kst = [],
     input_tokens = 60, output_tokens = 20, tool_tokens = 0, total_tokens = 80\<rparr>]"

lemma block_escalation_order_dependent_witness:
  "allowed (evaluate_quota (resolve_effective_policies 7 [3] [w_block, w_warn]) w_usage) \<and>
   \<not> allowed (evaluate_quota (resolve_effective_policies 7 [3] [w_warn, w_block]) w_usage)"
  by (rule block_escalation_order_dependent
      [where u = "\<lparr>us_period = DAILY, period_start_kst = [], period_end_kst = [],
        input_tokens = 60, output_tokens = 20, tool_tokens = 0, total_tokens = 80\<rparr>"])
     (simp_all add: w_block_def w_warn_def w_usage_def quota_key_def role_policies_def
        user_policies_def)

text \<open>The decision reports the first policy of the list that is exceeded and asks for the action.\<close>

definition reports_first :: "(QuotaPeriod \<rightharpoonup> QuotaUsage) \<Rightarrow> QuotaAction \<Rightarrow> QuotaPolicySpec list \<Rightarrow> QuotaDecision \<Rightarrow> bool" where
  "reports_first usage a ps d \<longleftrightarrow> (\<exists>pre p post u. ps = pre @ p # post \<and> exceeds usage a p \<and>
     (\<forall>q\<in>set pre. \<not> exceeds usage a q) \<and> usage (period_type p) = Some u \<and>
     d_action d = Some a \<and> triggered_policy_id d = Some (qp_id p) \<and> d_period d = Some (period_type p) \<and>
     d_scope d = Some (scope p) \<and> limit_tokens d = Some (token_limit p) \<and>
     used_tokens d = Some (value_for u (scope p)))"

lemma find_split: "find P xs = Some x \<Longrightarrow> \<exists>pre post. xs = pre @ x # post \<and> P x \<and> (\<forall>y\<in>set pre. \<not> P y)"
proof (induction xs)
  case (Cons y xs)
  show ?case
  proof (cases "P y")
    case True
    then have "y = x" using Cons.prems by simp
    then show ?thesis using True by (intro exI [of _ "[]"] exI [of _ xs]) simp
  next
    case False
    then obtain pre post where "xs = pre @ x # post" "P x" "\<forall>y\<in>set pre. \<not> P y" using Cons by auto
    then have "y # xs = (y # pre) @ x # post \<and> P x \<and> (\<forall>z\<in>set (y # pre). \<not> P z)" using False by simp
    then show ?thesis by blast
  qed
qed simp

text \<open>C6. The decision blocks exactly when some policy with a positive limit and a known usage of its
  period has that usage at or over the limit and asks to block, and it then reports the first
  such policy of the list; when none blocks and some such policy asks to warn, it allows and
  reports the first that warns; otherwise it allows and reports nothing. What it reports of the
  policy are its id, period, scope and limit and the usage in that scope.\<close>

theorem evaluate_quota_decision:
  "allowed (evaluate_quota ps usage) = (\<not> (\<exists>p\<in>set ps. exceeds usage BLOCK p)) \<and>
   (if \<exists>p\<in>set ps. exceeds usage BLOCK p then reports_first usage BLOCK ps (evaluate_quota ps usage)
    else if \<exists>p\<in>set ps. exceeds usage WARN p then reports_first usage WARN ps (evaluate_quota ps usage)
    else evaluate_quota ps usage = QuotaDecision_allow)"
proof -
  let ?P = "\<lambda>a p. quota_hit usage p \<noteq> None \<and> action_on_exceed p = a"
  have P: "?P a p = exceeds usage a p" for a p
    by (auto simp: exceeds_def quota_hit_Some)
  let ?b = "find (?P BLOCK) ps" and ?w = "find (?P WARN) ps"
  have s: "scan_hits usage ps None None =
      (map_option (\<lambda>p. (p, the (quota_hit usage p))) ?b,
       map_option (\<lambda>p. (p, the (quota_hit usage p))) ?w)"
    by (simp add: prod_eq_iff scan_hits_block scan_hits_warn)
  have n: "(?b = None) = (\<not> (\<exists>p\<in>set ps. exceeds usage BLOCK p))" "(?w = None) = (\<not> (\<exists>p\<in>set ps. exceeds usage WARN p))"
    unfolding P by (auto simp: find_None_iff)
  have f: "reports_first usage a ps d"
    if found: "find (?P a) ps = Some p" and d: "d_action d = Some a" "triggered_policy_id d = Some (qp_id p)"
      "d_period d = Some (period_type p)" "d_scope d = Some (scope p)" "limit_tokens d = Some (token_limit p)"
      "used_tokens d = Some (the (quota_hit usage p))" for a p d
  proof -
    obtain pre post where sp: "ps = pre @ p # post" "exceeds usage a p" "\<forall>q\<in>set pre. \<not> exceeds usage a q"
      using find_split [OF found] unfolding P by blast
    then obtain u where u: "usage (period_type p) = Some u" "quota_hit usage p = Some (value_for u (scope p))"
      by (auto simp: exceeds_def quota_hit_def)
    show ?thesis unfolding reports_first_def
      by (rule exI [of _ pre], rule exI [of _ p], rule exI [of _ post], rule exI [of _ u]) (use sp u d in simp)
  qed
  have cases: "scan_hits usage ps None None =
      (if ?b = None then None else Some (the ?b, the (quota_hit usage (the ?b))),
       if ?w = None then None else Some (the ?w, the (quota_hit usage (the ?w))))"
    unfolding s by (cases ?b; cases ?w) simp_all
  show ?thesis
  proof (cases "?b = None")
    case False
    then obtain p where p: "?b = Some p" by blast
    have "reports_first usage BLOCK ps (evaluate_quota ps usage)"
      by (rule f [OF p]) (simp_all only: evaluate_quota_def cases p, simp_all)
    moreover have "\<not> allowed (evaluate_quota ps usage)" by (simp only: evaluate_quota_def cases p) simp
    ultimately show ?thesis using n(1) False by simp
  next
    case b: True
    have a: "allowed (evaluate_quota ps usage)"
      by (cases "?w = None") (simp_all only: evaluate_quota_def cases b, simp_all add: QuotaDecision_allow_def)
    show ?thesis
    proof (cases "?w = None")
      case False
      then obtain p where p: "?w = Some p" by blast
      have "reports_first usage WARN ps (evaluate_quota ps usage)"
        by (rule f [OF p]) (simp_all only: evaluate_quota_def cases b p, simp_all)
      then show ?thesis using b n a False by simp
    next
      case w: True
      have "evaluate_quota ps usage = QuotaDecision_allow" by (simp only: evaluate_quota_def cases b w) simp
      then show ?thesis using b w n a by simp
    qed
  qed
qed

theorem evaluate_quota_decision_witness:
  "\<not> allowed (evaluate_quota [w_warn, w_block] w_usage) \<and>
   triggered_policy_id (evaluate_quota [w_warn, w_block] w_usage) = Some 1 \<and>
   reports_first w_usage BLOCK [w_warn, w_block] (evaluate_quota [w_warn, w_block] w_usage)"
proof -
  have e: "triggered_policy_id (evaluate_quota [w_warn, w_block] w_usage) = Some 1" by code_simp
  have b: "\<exists>p\<in>set [w_warn, w_block]. exceeds w_usage BLOCK p"
    by (simp add: exceeds_def w_block_def w_warn_def w_usage_def)
  show ?thesis using evaluate_quota_decision [of "[w_warn, w_block]" w_usage] e b by simp
qed

end
