(* ===== verification/QuotaCalendar.thy ===== *)
theory QuotaCalendar
  imports Quota
begin

text \<open>
  \<open>src/xgen_sdk/quota/period.py\<close> on calendar dates, once the current time has been read in the
  configured zone, and the parts of Python's \<open>datetime.date\<close> it uses. Adding a \<open>timedelta\<close>
  of whole days is counting days; leaving the years 1 to 9999 raises \<open>OverflowError\<close>.
\<close>

section \<open>Dates\<close>

record date =
  year :: int
  month :: int
  day :: int

definition is_leap :: "int \<Rightarrow> bool" where
  "is_leap y = (y mod 4 = 0 \<and> (y mod 100 \<noteq> 0 \<or> y mod 400 = 0))"

definition days_in_month :: "int \<Rightarrow> int \<Rightarrow> int" where
  "days_in_month y m = (if m = 2 then (if is_leap y then 29 else 28)
     else if m \<in> {4, 6, 9, 11} then 30 else 31)"

definition valid_date :: "date \<Rightarrow> bool" where
  "valid_date d = (1 \<le> year d \<and> year d \<le> 9999 \<and> 1 \<le> month d \<and> month d \<le> 12 \<and>
     1 \<le> day d \<and> day d \<le> days_in_month (year d) (month d))"

definition next_day :: "date \<Rightarrow> date option" where
  "next_day d =
     (if day d < days_in_month (year d) (month d) then Some (d\<lparr>day := day d + 1\<rparr>)
      else if month d < 12 then Some \<lparr>year = year d, month = month d + 1, day = 1\<rparr>
      else if year d < 9999 then Some \<lparr>year = year d + 1, month = 1, day = 1\<rparr>
      else None)"

definition prev_day :: "date \<Rightarrow> date option" where
  "prev_day d =
     (if 1 < day d then Some (d\<lparr>day := day d - 1\<rparr>)
      else if 1 < month d then
        Some \<lparr>year = year d, month = month d - 1, day = days_in_month (year d) (month d - 1)\<rparr>
      else if 1 < year d then Some \<lparr>year = year d - 1, month = 12, day = 31\<rparr>
      else None)"

fun add_days :: "nat \<Rightarrow> date \<Rightarrow> date option" where
  "add_days 0 d = Some d"
| "add_days (Suc n) d = (case next_day d of None \<Rightarrow> None | Some d' \<Rightarrow> add_days n d')"

fun sub_days :: "nat \<Rightarrow> date \<Rightarrow> date option" where
  "sub_days 0 d = Some d"
| "sub_days (Suc n) d = (case prev_day d of None \<Rightarrow> None | Some d' \<Rightarrow> sub_days n d')"

text \<open>\<open>date.toordinal\<close> and \<open>date.weekday\<close> (Monday is 0).\<close>

definition days_before_month :: "int \<Rightarrow> int \<Rightarrow> int" where
  "days_before_month y m =
     [0, 31, 59, 90, 120, 151, 181, 212, 243, 273, 304, 334] ! nat (m - 1) +
     (if 2 < m \<and> is_leap y then 1 else 0)"

definition days_before_year :: "int \<Rightarrow> int" where
  "days_before_year y = (y - 1) * 365 + (y - 1) div 4 - (y - 1) div 100 + (y - 1) div 400"

definition toordinal :: "date \<Rightarrow> int" where
  "toordinal d = days_before_year (year d) + days_before_month (year d) (month d) + day d"

definition weekday :: "date \<Rightarrow> int" where
  "weekday d = (toordinal d + 6) mod 7"

definition pad :: "nat \<Rightarrow> string \<Rightarrow> string" where
  "pad w s = replicate (w - length s) (CHR ''0'') @ s"

definition isoformat :: "date \<Rightarrow> string" where
  "isoformat d = pad 4 (int_str (year d)) @ ''-'' @ pad 2 (int_str (month d)) @ ''-'' @
     pad 2 (int_str (day d))"

section \<open>Bounds of a period\<close>

definition period_bounds :: "QuotaPeriod \<Rightarrow> date \<Rightarrow> (date \<times> date) option" where
  "period_bounds period n =
     (case period of
        DAILY \<Rightarrow> Some (n, n)
      | WEEKLY \<Rightarrow>
          (case sub_days (nat (weekday n)) n of None \<Rightarrow> None
           | Some start \<Rightarrow> (case add_days 6 start of None \<Rightarrow> None
              | Some end_ \<Rightarrow> Some (start, end_)))
      | MONTHLY \<Rightarrow>
          (let start = n\<lparr>day := 1\<rparr>
           in case add_days 4 (start\<lparr>day := 28\<rparr>) of None \<Rightarrow> None
              | Some t \<Rightarrow> (let nxt = t\<lparr>day := 1\<rparr>
                  in case sub_days 1 nxt of None \<Rightarrow> None
                     | Some end_ \<Rightarrow> Some (start, end_))))"

definition period_bounds_kst :: "QuotaPeriod \<Rightarrow> date \<Rightarrow> py_exc + string \<times> string" where
  "period_bounds_kst period n = (case period_bounds period n of None \<Rightarrow> Inl OverflowError
     | Some (start, end_) \<Rightarrow> Inr (isoformat start, isoformat end_))"

section \<open>Lemmas\<close>

lemma month_cases:
  assumes "1 \<le> (m::int)" "m \<le> 12"
  shows "m = 1 \<or> m = 2 \<or> m = 3 \<or> m = 4 \<or> m = 5 \<or> m = 6 \<or> m = 7 \<or> m = 8 \<or> m = 9 \<or>
    m = 10 \<or> m = 11 \<or> m = 12"
proof -
  have "m \<in> set [1..12]" using assms by (simp only: set_upto atLeastAtMost_iff)
  moreover have "[1..12] = [1, 2, 3, 4, 5, 6, 7, 8, 9, 10, 11, 12 :: int]" by code_simp
  ultimately have "m \<in> set [1, 2, 3, 4, 5, 6, 7, 8, 9, 10, 11, 12]" by (simp only:)
  then show ?thesis by simp
qed

lemma div_succ:
  assumes "0 < (k::int)"
  shows "(a + 1) div k = a div k + (if (a + 1) mod k = 0 then 1 else 0)"
proof -
  let ?q = "a div k" and ?r = "a mod k"
  have a: "a = k * ?q + ?r" and r: "0 \<le> ?r" "?r < k" using assms by simp_all
  show ?thesis
  proof (cases "?r + 1 < k")
    case True
    have "(a + 1) div k = ?q"
      by (rule int_div_pos_eq [where r = "?r + 1"]) (use a r True in auto)
    moreover have "(a + 1) mod k = ?r + 1"
      by (rule int_mod_pos_eq [where q = ?q]) (use a r True in auto)
    ultimately show ?thesis using r by simp
  next
    case False
    then have k: "?r + 1 = k" using r by simp
    have "a + 1 = k * ?q + (?r + 1)" using a by linarith
    then have eq: "a + 1 = k * (?q + 1) + 0" unfolding k by (simp add: distrib_left)
    have "(a + 1) div k = ?q + 1"
      by (rule int_div_pos_eq [where r = 0]) (use eq assms in auto)
    moreover have "(a + 1) mod k = 0"
      by (rule int_mod_pos_eq [where q = "?q + 1"]) (use eq assms in auto)
    ultimately show ?thesis by simp
  qed
qed

lemma days_in_month_bounds: "28 \<le> days_in_month y m \<and> days_in_month y m \<le> 31"
  by (simp add: days_in_month_def)

lemma days_before_month_Suc:
  assumes "1 \<le> m" "m < 12"
  shows "days_before_month y (m + 1) = days_before_month y m + days_in_month y m"
  using month_cases [OF assms(1) less_imp_le [OF assms(2)]] assms(2)
  by (elim disjE) (simp_all add: days_before_month_def days_in_month_def)

lemma leap_count:
  "(R \<Longrightarrow> Q) \<Longrightarrow> (Q \<Longrightarrow> P) \<Longrightarrow>
    n + (a + (if P then 1 else 0)) - (b + (if Q then 1 else 0)) + (c + (if R then 1 else 0)) =
    (n - 365 + a - b + c) + 365 + (if P \<and> (\<not> Q \<or> R) then 1 else (0::int))"
  by (cases P; cases Q; cases R; simp)

lemma days_before_month_nonneg:
  assumes "1 \<le> m" "m \<le> 12"
  shows "0 \<le> days_before_month y m"
  using month_cases [OF assms] by (elim disjE) (simp_all add: days_before_month_def)

lemma days_before_year_Suc:
  "days_before_year (y + 1) = days_before_year y + 365 + (if is_leap y then 1 else 0)"
proof -
  have d: "0 < k \<Longrightarrow> y div k = (y - 1) div k + (if y mod k = 0 then 1 else 0)" for k
    using div_succ [of k "y - 1"] by simp
  have i: "y mod 400 = 0 \<Longrightarrow> y mod 100 = 0" "y mod 100 = 0 \<Longrightarrow> y mod 4 = 0"
    using dvd_trans [of "100 :: int" 400 y] dvd_trans [of "4 :: int" 100 y]
    by (simp_all add: mod_eq_0_iff_dvd)
  have "days_before_year (y + 1) = y * 365 + y div 4 - y div 100 + y div 400"
    by (simp add: days_before_year_def)
  also have "\<dots> = (y * 365 - 365 + (y - 1) div 4 - (y - 1) div 100 + (y - 1) div 400) + 365 +
      (if is_leap y then 1 else 0)"
    unfolding is_leap_def d [of 4, simplified] d [of 100, simplified] d [of 400, simplified]
    by (rule leap_count) (fact i)+
  also have "y * 365 - 365 = (y - 1) * 365" by simp
  finally show ?thesis by (simp only: days_before_year_def)
qed

lemma days_before_month_12: "days_before_month y 12 + 31 = 365 + (if is_leap y then 1 else 0)"
  by (simp add: days_before_month_def)

lemma next_day_valid:
  assumes "valid_date d" "next_day d = Some d'"
  shows "valid_date d' \<and> toordinal d' = toordinal d + 1"
proof -
  have dim: "1 \<le> days_in_month y m" for y m using days_in_month_bounds [of y m] by simp
  consider "day d < days_in_month (year d) (month d)"
    | "day d = days_in_month (year d) (month d)" "month d < 12"
    | "day d = days_in_month (year d) (month d)" "month d = 12"
    using assms(1) by (fastforce simp: valid_date_def)
  then show ?thesis
  proof cases
    case 1
    then show ?thesis using assms by (auto simp: next_day_def valid_date_def toordinal_def)
  next
    case 2
    then show ?thesis using assms dim
      by (auto simp: next_day_def valid_date_def toordinal_def days_before_month_Suc)
  next
    case 3
    then have "days_in_month (year d) 12 = 31" by (simp add: days_in_month_def)
    then show ?thesis using 3 assms dim days_before_month_12 [of "year d"]
      by (auto simp: next_day_def valid_date_def toordinal_def days_before_year_Suc
          days_before_month_def split: if_splits)
  qed
qed

lemma prev_day_valid:
  assumes "valid_date d" "prev_day d = Some d'"
  shows "valid_date d' \<and> toordinal d' = toordinal d - 1"
proof -
  have dim: "1 \<le> days_in_month y m" for y m using days_in_month_bounds [of y m] by simp
  have d31: "days_in_month y 12 = 31" for y by (simp add: days_in_month_def)
  consider "1 < day d" | "day d = 1" "1 < month d" | "day d = 1" "month d = 1"
    using assms(1) by (fastforce simp: valid_date_def)
  then show ?thesis
  proof cases
    case 1
    then show ?thesis using assms by (auto simp: prev_day_def valid_date_def toordinal_def)
  next
    case 2
    then show ?thesis using assms dim days_before_month_Suc [of "month d - 1" "year d"]
      by (auto simp: prev_day_def valid_date_def toordinal_def)
  next
    case 3
    then show ?thesis using assms d31 days_before_year_Suc [of "year d - 1"]
        days_before_month_12 [of "year d - 1"]
      by (auto simp: prev_day_def valid_date_def toordinal_def days_before_month_def
          split: if_splits)
  qed
qed

lemma add_days_valid:
  "valid_date d \<Longrightarrow> add_days n d = Some d' \<Longrightarrow>
    valid_date d' \<and> toordinal d' = toordinal d + int n"
  by (induction n d rule: add_days.induct) (auto split: option.splits dest: next_day_valid)

lemma sub_days_valid:
  "valid_date d \<Longrightarrow> sub_days n d = Some d' \<Longrightarrow>
    valid_date d' \<and> toordinal d' = toordinal d - int n"
  by (induction n d rule: sub_days.induct) (auto split: option.splits dest: prev_day_valid)

lemma toordinal_pos: "valid_date d \<Longrightarrow> 1 \<le> toordinal d"
proof -
  assume v: "valid_date d"
  have "0 \<le> days_before_year (year d)"
  proof -
    define z where "z = year d - 1"
    have z: "0 \<le> z" using v by (simp add: valid_date_def z_def)
    have "z div 100 \<le> z" using z zdiv_mono2 [of z 1 100] by simp
    then have "z div 100 \<le> z * 365" using z by linarith
    moreover have "0 \<le> z div 4" "0 \<le> z div 400" using z by simp_all
    ultimately show ?thesis unfolding days_before_year_def z_def [symmetric] by simp
  qed
  moreover have "0 \<le> days_before_month (year d) (month d)"
    using v by (intro days_before_month_nonneg) (simp_all add: valid_date_def)
  ultimately show ?thesis using v by (simp add: toordinal_def valid_date_def)
qed

lemma next_day_Some: "day d < days_in_month (year d) (month d) \<Longrightarrow>
    next_day d = Some (d\<lparr>day := day d + 1\<rparr>)"
  by (simp add: next_day_def)

text \<open>The last day of a month: four days after the 28th is in the next month, unless that would
  be year 10000.\<close>

definition first_of_next :: "int \<Rightarrow> int \<Rightarrow> date" where
  "first_of_next y m = (if m < 12 then \<lparr>year = y, month = m + 1, day = 1\<rparr>
     else \<lparr>year = y + 1, month = 1, day = 1\<rparr>)"

lemma add_days_4_from_28:
  assumes "1 \<le> y" "y \<le> 9999" "1 \<le> m" "m \<le> 12"
  shows "map_option (\<lambda>t. t\<lparr>day := 1\<rparr>) (add_days 4 \<lparr>year = y, month = m, day = 28\<rparr>) =
    (if y = 9999 \<and> m = 12 then None else Some (first_of_next y m))"
proof -
  have four: "add_days 4 d = add_days (Suc (Suc (Suc (Suc 0)))) d" for d
    by (simp add: numeral_eq_Suc)
  have bounds: "\<And>y m. 28 \<le> days_in_month y m"
    using days_in_month_bounds by blast
  have first: "\<And>y m. 1 < days_in_month y m" "\<And>y m. 2 < days_in_month y m"
    "\<And>y m. 3 < days_in_month y m" "\<And>y m. 4 < days_in_month y m"
    using bounds by (smt (verit, best))+
  consider "days_in_month y m = 28" | "days_in_month y m = 29"
    | "days_in_month y m = 30" | "days_in_month y m = 31"
    by (cases "m = 2"; cases "is_leap y"; cases "m \<in> {4, 6, 9, 11}")
      (simp_all add: days_in_month_def)
  then show ?thesis
    by cases (use assms first in \<open>auto simp: four next_day_def first_of_next_def\<close>)
qed

lemma prev_of_first_of_next:
  assumes "1 \<le> y" "1 \<le> m" "m \<le> 12"
  shows "sub_days 1 (first_of_next y m) = Some \<lparr>year = y, month = m, day = days_in_month y m\<rparr>"
proof -
  have "sub_days 1 d = (case prev_day d of None \<Rightarrow> None | Some d' \<Rightarrow> Some d')" for d
    by (simp add: One_nat_def split: option.split)
  then show ?thesis using assms
    by (auto simp: first_of_next_def prev_day_def days_in_month_def)
qed

lemma monthly_bounds:
  assumes "valid_date n"
  shows "period_bounds MONTHLY n =
    (if year n = 9999 \<and> month n = 12 then None
     else Some (n\<lparr>day := 1\<rparr>, n\<lparr>day := days_in_month (year n) (month n)\<rparr>))"
proof -
  obtain y m d where n: "n = \<lparr>year = y, month = m, day = d\<rparr>" by (cases n)
  have v: "1 \<le> y" "y \<le> 9999" "1 \<le> m" "m \<le> 12"
    using assms by (simp_all add: n valid_date_def)
  show ?thesis
  proof (cases "add_days 4 \<lparr>year = y, month = m, day = 28\<rparr>")
    case None
    then show ?thesis using add_days_4_from_28 [OF v]
      by (simp add: n period_bounds_def split: if_splits)
  next
    case (Some t)
    then have "t\<lparr>day := 1\<rparr> = first_of_next y m \<and> \<not> (y = 9999 \<and> m = 12)"
      using add_days_4_from_28 [OF v] by (simp split: if_splits)
    then show ?thesis using Some prev_of_first_of_next [OF v(1,3,4)]
      by (simp add: n period_bounds_def Let_def)
  qed
qed

lemma sub_days_total: "valid_date d \<Longrightarrow> int n < toordinal d \<Longrightarrow> \<exists>d'. sub_days n d = Some d'"
proof (induction n arbitrary: d)
  case (Suc n)
  show ?case
  proof (cases "prev_day d")
    case None
    with Suc.prems(1) have "year d = 1" "month d = 1" "day d = 1"
      by (auto simp: prev_day_def valid_date_def split: if_splits)
    then have "toordinal d = 1"
      by (simp add: toordinal_def days_before_year_def days_before_month_def)
    with Suc.prems(2) show ?thesis by simp
  next
    case (Some d')
    with Suc.prems prev_day_valid have "valid_date d'" "int n < toordinal d'" by fastforce+
    with Suc.IH Some show ?thesis by simp
  qed
qed simp

lemma weekly_start:
  assumes "valid_date n"
  shows "\<exists>s. sub_days (nat (weekday n)) n = Some s \<and> valid_date s \<and> weekday s = 0 \<and>
    toordinal s = toordinal n - weekday n"
proof -
  have w: "0 \<le> weekday n" by (simp add: weekday_def)
  have "(toordinal n + 6) mod 7 = (toordinal n - 1) mod 7"
    using mod_add_self2 [of "toordinal n - 1" 7] by (simp add: algebra_simps)
  then have "weekday n \<le> toordinal n - 1"
    using zmod_le_nonneg_dividend [of "toordinal n - 1" 7] toordinal_pos [OF assms]
    by (simp add: weekday_def)
  then obtain s where s: "sub_days (nat (weekday n)) n = Some s"
    using sub_days_total [OF assms, of "nat (weekday n)"] w by auto
  with sub_days_valid [OF assms s] w have v: "valid_date s" "toordinal s = toordinal n - weekday n"
    by simp_all
  have "toordinal s + 6 = (toordinal n + 6) - (toordinal n + 6) mod 7"
    using v(2) by (simp add: weekday_def)
  also have "\<dots> = 7 * ((toordinal n + 6) div 7)" by (rule minus_mod_eq_mult_div)
  finally have "weekday s = 0" by (simp only: weekday_def mod_mult_self1_is_0)
  then show ?thesis using s v by blast
qed

section \<open>Property\<close>

text \<open>C12. The bounds of a period that contains a calendar day: the daily period is that day; the
  weekly one runs from a Monday to the Sunday six days later and contains the day; the
  monthly one runs from the first to the last day of the day's month. All three are computed
  for every date except where the last day would fall after the year 9999.\<close>

theorem period_bounds_contain:
  assumes "valid_date n"
  shows "period_bounds DAILY n = Some (n, n) \<and>
    (\<forall>s e. period_bounds WEEKLY n = Some (s, e) \<longrightarrow> valid_date s \<and> valid_date e \<and>
       weekday s = 0 \<and> weekday e = 6 \<and> toordinal e = toordinal s + 6 \<and>
       toordinal s \<le> toordinal n \<and> toordinal n \<le> toordinal e) \<and>
    (period_bounds WEEKLY n = None \<longrightarrow> (\<forall>s. sub_days (nat (weekday n)) n = Some s \<longrightarrow>
       add_days 6 s = None)) \<and>
    period_bounds MONTHLY n =
      (if year n = 9999 \<and> month n = 12 then None
       else Some (n\<lparr>day := 1\<rparr>, n\<lparr>day := days_in_month (year n) (month n)\<rparr>))"
proof (intro conjI allI impI)
  show "period_bounds MONTHLY n =
      (if year n = 9999 \<and> month n = 12 then None
       else Some (n\<lparr>day := 1\<rparr>, n\<lparr>day := days_in_month (year n) (month n)\<rparr>))"
    using assms by (rule monthly_bounds)
  obtain s0 where s0: "sub_days (nat (weekday n)) n = Some s0" "valid_date s0" "weekday s0 = 0"
    "toordinal s0 = toordinal n - weekday n"
    using weekly_start [OF assms] by blast
  have w: "0 \<le> weekday n" "weekday n < 7" by (simp_all add: weekday_def)
  fix s e
  assume "period_bounds WEEKLY n = Some (s, e)"
  with s0 have e: "s = s0" "add_days 6 s0 = Some e"
    by (auto simp: period_bounds_def split: option.splits)
  from add_days_valid [OF s0(2) e(2)] have ve: "valid_date e" "toordinal e = toordinal s0 + 6"
    by simp_all
  then show "valid_date s" "valid_date e" "weekday s = 0" "toordinal e = toordinal s + 6"
    "toordinal s \<le> toordinal n" "toordinal n \<le> toordinal e"
    using e s0 w by simp_all
  have "weekday e = (weekday s0 + 6) mod 7"
    unfolding weekday_def ve(2) mod_add_left_eq by (simp add: algebra_simps)
  then show "weekday e = 6" using s0(3) by simp
qed (auto simp: period_bounds_def split: option.splits)

theorem period_bounds_contain_witness:
  "period_bounds MONTHLY \<lparr>year = 2024, month = 2, day = 10\<rparr> =
     Some (\<lparr>year = 2024, month = 2, day = 1\<rparr>, \<lparr>year = 2024, month = 2, day = 29\<rparr>)"
proof -
  have v: "valid_date \<lparr>year = 2024, month = 2, day = 10\<rparr>"
    by (simp add: valid_date_def days_in_month_def is_leap_def)
  show ?thesis using period_bounds_contain [OF v] by (simp add: days_in_month_def is_leap_def)
qed

end
