(* ===== verification/ApprovalBlocks.thy ===== *)
theory ApprovalBlocks
  imports Prelude
begin

text \<open>
  \<open>src/xgen_sdk/approval/blocks.py\<close>: the kinds of form fields ("blocks"), when one counts
  as filled, what a value must respect, and which required blocks are still missing.

  A block is the dictionary the code passes around. The stored value of a block is JSON
  text; the decoder \<open>json.loads\<close> is the parameter \<open>loads\<close> (\<open>None\<close> where it raises), and
  nothing is assumed of it.
\<close>

type_synonym decoder = "string \<Rightarrow> pyval option"

section \<open>Kinds of blocks\<close>

definition TEXT :: string where "TEXT = ''text''"
definition ATTACHMENTS :: string where "ATTACHMENTS = ''attachments''"
definition AGENT_DEV_PLAN :: string where "AGENT_DEV_PLAN = ''agent_dev_plan''"
definition EVALUATION :: string where "EVALUATION = ''evaluation''"

lemmas block_type_names = TEXT_def ATTACHMENTS_def AGENT_DEV_PLAN_def EVALUATION_def

definition LEGACY_BLOCK_TYPES :: "(string \<times> string) list" where
  "LEGACY_BLOCK_TYPES = [(''risk_assessment'', EVALUATION)]"

definition normalize_block_type :: "pyval \<Rightarrow> string" where
  "normalize_block_type block_type =
     (let name = str_or_empty block_type
      in case map_of LEGACY_BLOCK_TYPES name of None \<Rightarrow> name | Some n \<Rightarrow> n)"

definition is_retired :: "pyval \<Rightarrow> bool" where
  "is_retired block_type = (block_type = PStr AGENT_DEV_PLAN)"

section \<open>When a value fills its block\<close>

definition blank :: "pyval \<Rightarrow> bool" where
  "blank v = (strip (str_or_empty v) = [])"

definition nonempty_text :: "pyval \<Rightarrow> bool" where
  "nonempty_text data = (\<not> blank (case data of PDict d \<Rightarrow> dget d ''text'' | _ \<Rightarrow> data))"

definition has_files :: "pyval \<Rightarrow> bool" where
  "has_files data = (case data of
       PDict d \<Rightarrow> (case dget d ''attachment_ids'' of PList xs \<Rightarrow> 0 < length xs | _ \<Rightarrow> False)
     | _ \<Rightarrow> False)"

definition is_score :: "pyval \<Rightarrow> bool" where
  "is_score v = (case v of
       PInt i \<Rightarrow> 0 \<le> i
     | PFloat (Finite q) _ \<Rightarrow> 0 \<le> q
     | PFloat PosInf _ \<Rightarrow> True
     | _ \<Rightarrow> False)"

definition has_text :: "pyval \<Rightarrow> bool" where
  "has_text v = (case v of PList xs \<Rightarrow> list_ex (\<lambda>x. \<not> blank x) xs | _ \<Rightarrow> \<not> blank v)"

text \<open>\<open>d.get(k, default)\<close> and the truth value of an optional item of an evaluation form.\<close>

definition dget_or :: "pydict \<Rightarrow> string \<Rightarrow> pyval \<Rightarrow> pyval" where
  "dget_or d k v = (case map_of d k of None \<Rightarrow> v | Some w \<Rightarrow> w)"

definition option_on :: "pyval \<Rightarrow> string \<Rightarrow> bool" where
  "option_on options key = (case options of
       PDict d \<Rightarrow> (case map_of d key of
           None \<Rightarrow> True
         | Some (PDict v) \<Rightarrow> truthy (dget_or v ''enabled'' (PBool True))
         | Some v \<Rightarrow> truthy v)
     | _ \<Rightarrow> True)"

text \<open>What an evaluation sheet still lacks.\<close>

datatype gap =
    GapEvaluation
  | GapScores
  | GapScoresMissing nat
  | GapRationale
  | GapGrade
  | GapImpactScope

definition as_list :: "pyval \<Rightarrow> pyval list" where
  "as_list v = (case v of PList xs \<Rightarrow> xs | _ \<Rightarrow> [])"

definition dicts_of :: "pyval list \<Rightarrow> pydict list" where
  "dicts_of xs = concat (map (\<lambda>x. case x of PDict d \<Rightarrow> [d] | _ \<Rightarrow> []) xs)"

definition evaluation_items :: "pydict \<Rightarrow> pydict list" where
  "evaluation_items d =
     (let categories = (case dget d ''item_scores'' of
            PDict snapshot \<Rightarrow> dget snapshot ''categories'' | _ \<Rightarrow> PNone)
      in concat (map (\<lambda>cat. dicts_of (as_list (dget cat ''items''))) (dicts_of (as_list categories))))"

definition evaluation_gaps :: "pyval \<Rightarrow> gap list" where
  "evaluation_gaps data = (case data of
       PDict d \<Rightarrow>
         (let items = evaluation_items d;
              empty = length (filter (\<lambda>it. \<not> is_score (dget it ''score'')) items)
          in (if items = [] then [GapScores]
              else if empty \<noteq> 0 then [GapScoresMissing empty] else []) @
             (if has_text (dget d ''rationale'') then [] else [GapRationale]) @
             (if has_text (dget d ''risk_level'') then [] else [GapGrade]) @
             (if option_on (dget d ''options'') ''impact_scope'' \<and>
                 \<not> has_text (dget d ''impact_scope'') then [GapImpactScope] else []))
     | _ \<Rightarrow> [GapEvaluation])"

definition has_evaluation :: "pyval \<Rightarrow> bool" where
  "has_evaluation data =
     ((case data of PDict _ \<Rightarrow> True | _ \<Rightarrow> False) \<and> evaluation_gaps data = [])"

definition REGISTRY :: "(string \<times> (pyval \<Rightarrow> bool)) list" where
  "REGISTRY = [(TEXT, nonempty_text), (ATTACHMENTS, has_files), (EVALUATION, has_evaluation)]"

definition spec :: "pyval \<Rightarrow> (pyval \<Rightarrow> bool) option" where
  "spec block_type = map_of REGISTRY (normalize_block_type block_type)"

definition is_known :: "pyval \<Rightarrow> bool" where
  "is_known block_type = (spec block_type \<noteq> None)"

definition parse_data :: "decoder \<Rightarrow> pyval \<Rightarrow> pyval" where
  "parse_data loads raw = (case raw of
       PDict _ \<Rightarrow> raw
     | PList _ \<Rightarrow> raw
     | PStr s \<Rightarrow> (if s = [] then PNone else case loads s of None \<Rightarrow> PNone | Some v \<Rightarrow> v)
     | _ \<Rightarrow> PNone)"

definition is_filled :: "decoder \<Rightarrow> pydict \<Rightarrow> bool" where
  "is_filled loads block =
     (if is_retired (dget block ''block_type'') then True
      else case spec (dget block ''block_type'') of
             None \<Rightarrow> True
           | Some filled \<Rightarrow> filled (parse_data loads (dget block ''data'')))"

section \<open>What a value must respect\<close>

datatype data_error =
    PlanningRetired
  | TooManyFiles int
  | WrongExtensions "string list" "string list"
  | ConfigOverflow

text \<open>\<open>name.rsplit('.', 1)[-1]\<close> when the name has a dot.\<close>

definition extension :: "string \<Rightarrow> string" where
  "extension name = (if CHR ''.'' \<in> set name
     then lower (rev (takeWhile (\<lambda>c. c \<noteq> CHR ''.'') (rev name))) else [])"

definition or_else :: "pyval \<Rightarrow> pyval \<Rightarrow> pyval" where
  "or_else v w = (if truthy v then v else w)"

definition file_name_of :: "pydict \<Rightarrow> string" where
  "file_name_of f = str_or_empty (or_else (dget f ''original_name'') (dget f ''file_name''))"

definition max_count_of :: "pyval \<Rightarrow> data_error + int option" where
  "max_count_of v = (case v of
       PNone \<Rightarrow> Inr None
     | _ \<Rightarrow> (case py_int v of
           Inr n \<Rightarrow> Inr (Some n)
         | Inl OverflowError \<Rightarrow> Inl ConfigOverflow
         | Inl _ \<Rightarrow> Inr None))"

definition allowed_extensions :: "pyval \<Rightarrow> string list" where
  "allowed_extensions v =
     map (\<lambda>e. dropWhile (\<lambda>c. c = CHR ''.'') (lower (py_str e))) (as_list v)"

definition check_extensions :: "pydict \<Rightarrow> pydict \<Rightarrow> data_error + unit" where
  "check_extensions cfg data =
     (let exts = allowed_extensions (dget cfg ''extensions'');
          bad = filter (\<lambda>n. extension n \<notin> set exts)
            (map file_name_of (dicts_of (as_list (dget data ''files''))))
      in if exts \<noteq> [] \<and> bad \<noteq> [] then Inl (WrongExtensions exts (take 3 bad)) else Inr ())"

definition validate_attachments :: "pydict \<Rightarrow> pydict \<Rightarrow> data_error + unit" where
  "validate_attachments cfg data =
     (let ids = as_list (dget data ''attachment_ids'')
      in ebind (max_count_of (dget cfg ''max_count'')) (\<lambda>max_count.
           case max_count of
             Some m \<Rightarrow> if 0 < m \<and> m < int (length ids) then Inl (TooManyFiles m)
                       else check_extensions cfg data
           | None \<Rightarrow> check_extensions cfg data))"

definition validate_data :: "decoder \<Rightarrow> pydict \<Rightarrow> pyval \<Rightarrow> data_error + unit" where
  "validate_data loads block data =
     (if is_retired (dget block ''block_type'') \<or>
         (case data of PDict d \<Rightarrow> ''plan_id'' \<in> fst ` set d | _ \<Rightarrow> False)
      then Inl PlanningRetired
      else case or_else (parse_data loads (dget block ''config'')) (PDict []) of
             PDict cfg \<Rightarrow>
               if normalize_block_type (dget block ''block_type'') \<noteq> ATTACHMENTS then Inr ()
               else (case data of PDict d \<Rightarrow> validate_attachments cfg d | _ \<Rightarrow> Inr ())
           | _ \<Rightarrow> Inr ())"

section \<open>Missing required blocks\<close>

text \<open>\<open>int(b.get("step_order", -1))\<close>: a value that is not a number skips the block, an
  infinite float escapes as \<open>OverflowError\<close>.\<close>

definition block_step :: "pydict \<Rightarrow> py_exc + int option" where
  "block_step b = (case py_int (dget_or b ''step_order'' (PInt (-1))) of
       Inr n \<Rightarrow> Inr (Some n)
     | Inl TypeError \<Rightarrow> Inr None
     | Inl ValueError \<Rightarrow> Inr None
     | Inl e \<Rightarrow> Inl e)"

fun unfilled :: "decoder \<Rightarrow> (int \<Rightarrow> bool) \<Rightarrow> pydict list \<Rightarrow> py_exc + pydict list" where
  "unfilled loads want [] = Inr []"
| "unfilled loads want (b # bs) = ebind (block_step b) (\<lambda>step.
     ebind (unfilled loads want bs) (\<lambda>rest.
       Inr (if (case step of None \<Rightarrow> False | Some n \<Rightarrow> want n) \<and>
               truthy (dget b ''required'') \<and> \<not> is_filled loads b
            then b # rest else rest)))"

definition unfilled_required :: "decoder \<Rightarrow> pydict list \<Rightarrow> int \<Rightarrow> py_exc + pydict list" where
  "unfilled_required loads blocks step_order = unfilled loads (\<lambda>s. s = step_order) blocks"

definition unfilled_upto :: "decoder \<Rightarrow> pydict list \<Rightarrow> int \<Rightarrow> py_exc + pydict list" where
  "unfilled_upto loads blocks step_order = unfilled loads (\<lambda>s. s \<le> step_order) blocks"

section \<open>The interface the approval engine relies on\<close>

text \<open>The engine asks one question: which required fields up to a step are missing. What it
  needs of the answer: it names fields of the form, it only grows with the step, and each
  field is judged on its own.\<close>

locale required_fields =
  fixes missing :: "'b list \<Rightarrow> int \<Rightarrow> 'x + 'b list"
  assumes missing_sub: "missing bs n = Inr out \<Longrightarrow> set out \<subseteq> set bs"
    and missing_mono: "missing bs n = Inr [] \<Longrightarrow> m \<le> n \<Longrightarrow> missing bs m = Inr []"
    and missing_append:
      "missing (as @ bs) n = Inr [] \<longleftrightarrow> missing as n = Inr [] \<and> missing bs n = Inr []"
begin

lemma missing_none: "missing [] n = Inr out \<Longrightarrow> out = []"
  using missing_sub [of "[]" n out] by simp

lemma missing_fold: "missing (concat bss) n = Inr [] \<Longrightarrow> bs \<in> set bss \<Longrightarrow> missing bs n = Inr []"
  by (induction bss) (auto simp: missing_append)

text \<open>The checks of a whole line of approvals follow from the check of its last step.\<close>

lemma missing_last:
  assumes "sorted ks" "ks \<noteq> []" "missing bs (last ks) = Inr []"
  shows "\<forall>k\<in>set ks. missing bs k = Inr []"
proof
  fix k assume "k \<in> set ks"
  then have "k \<le> last ks" using assms(1) by (simp add: sorted_le_last)
  with assms(3) show "missing bs k = Inr []" by (rule missing_mono)
qed

end

section \<open>Lemmas\<close>

definition countable_step :: "pydict \<Rightarrow> bool" where
  "countable_step b = is_ok (block_step b)"

definition missing_at :: "decoder \<Rightarrow> (int \<Rightarrow> bool) \<Rightarrow> pydict \<Rightarrow> bool" where
  "missing_at loads want b =
     ((case block_step b of Inr (Some n) \<Rightarrow> want n | _ \<Rightarrow> False) \<and>
      truthy (dget b ''required'') \<and> \<not> is_filled loads b)"

lemma unfilled_Inr:
  "unfilled loads want bs = Inr out \<longleftrightarrow>
     list_all countable_step bs \<and> out = filter (missing_at loads want) bs"
proof (induction bs arbitrary: out)
  case (Cons b bs)
  show ?case
    by (cases "block_step b")
      (auto simp: ebind_Inr Cons.IH countable_step_def missing_at_def split: option.splits)
qed auto

lemma unfilled_Nil_iff:
  "unfilled loads want bs = Inr [] \<longleftrightarrow>
     list_all (\<lambda>b. countable_step b \<and> \<not> missing_at loads want b) bs"
  by (auto simp: unfilled_Inr list_all_iff filter_empty_conv eq_commute [of "[]"])

lemma missing_at_mono:
  "missing_at loads P b \<Longrightarrow> (\<And>n. P n \<Longrightarrow> Q n) \<Longrightarrow> missing_at loads Q b"
  by (auto simp: missing_at_def split: sum.splits option.splits)

interpretation fields: required_fields "unfilled_upto loads" for loads
proof
  show "unfilled_upto loads bs n = Inr out \<Longrightarrow> set out \<subseteq> set bs" for bs n out
    by (auto simp: unfilled_upto_def unfilled_Inr)
  show "unfilled_upto loads bs m = Inr []"
    if "unfilled_upto loads bs n = Inr []" "m \<le> n" for bs n m
    using that missing_at_mono [of loads "\<lambda>s. s \<le> m" _ "\<lambda>s. s \<le> n"]
    by (auto simp: unfilled_upto_def unfilled_Nil_iff list_all_iff)
  show "unfilled_upto loads (as @ bs) n = Inr [] \<longleftrightarrow>
      unfilled_upto loads as n = Inr [] \<and> unfilled_upto loads bs n = Inr []" for as bs n
    by (simp add: unfilled_upto_def unfilled_Nil_iff)
qed

lemma check_extensions_ok:
  "check_extensions cfg d = Inr () \<longleftrightarrow> allowed_extensions (dget cfg ''extensions'') = [] \<or>
     (\<forall>f\<in>set (dicts_of (as_list (dget d ''files''))).
       extension (file_name_of f) \<in> set (allowed_extensions (dget cfg ''extensions'')))"
  by (auto simp: check_extensions_def Let_def filter_empty_conv)

section \<open>Properties\<close>

text \<open>Nothing required is missing up to a step exactly when every block has a step number and
  the per-step check that the form screen runs finds nothing at any step up to that one; the
  checks of earlier steps then hold too.\<close>

lemma unfilled_upto_all_steps:
  "unfilled_upto loads bs n = Inr [] \<longleftrightarrow>
     list_all countable_step bs \<and> (\<forall>m. m \<le> n \<longrightarrow> unfilled_required loads bs m = Inr [])"
  (is "?l \<longleftrightarrow> ?r")
proof
  assume ?l
  then show ?r
    using missing_at_mono [of loads "\<lambda>s. s = _" _ "\<lambda>s. s \<le> n"]
    by (auto simp: unfilled_upto_def unfilled_required_def unfilled_Nil_iff list_all_iff)
next
  assume r: ?r
  show ?l
    unfolding unfilled_upto_def unfilled_Nil_iff list_all_iff
  proof (intro ballI conjI notI)
    fix b assume b: "b \<in> set bs"
    then show "countable_step b" using r by (simp add: list_all_iff)
    assume miss: "missing_at loads (\<lambda>s. s \<le> n) b"
    then obtain k where k: "block_step b = Inr (Some k)" "k \<le> n"
      by (auto simp: missing_at_def split: sum.splits option.splits)
    with miss have "missing_at loads (\<lambda>s. s = k) b" by (simp add: missing_at_def)
    with r b k show False
      by (auto simp: unfilled_required_def unfilled_Nil_iff list_all_iff)
  qed
qed

definition w_text_block :: pydict where
  "w_text_block = [(''step_order'', PInt 1), (''block_type'', PStr ''text''),
     (''required'', PBool True), (''data'', PStr ''{}'')]"

lemma unfilled_upto_all_steps_witness:
  "unfilled_upto (\<lambda>_. Some (PStr ''ok'')) [w_text_block] 1 = Inr [] \<and>
   unfilled_required (\<lambda>_. Some (PStr ''ok'')) [w_text_block] 1 = Inr [] \<and>
   unfilled_required (\<lambda>_. None) [w_text_block] 1 = Inr [w_text_block]"
proof -
  have l: "unfilled_upto (\<lambda>_. Some (PStr ''ok'')) [w_text_block] 1 = Inr []" by code_simp
  moreover have "unfilled_required (\<lambda>_. None) [w_text_block] 1 = Inr [w_text_block]" by code_simp
  moreover have "unfilled_required (\<lambda>_. Some (PStr ''ok'')) [w_text_block] 1 = Inr []"
    using l unfilled_upto_all_steps [of "\<lambda>_. Some (PStr ''ok'')" "[w_text_block]" 1] by auto
  ultimately show ?thesis by simp
qed

text \<open>An attachment value the server accepts respects what the form announces: at most
  \<open>max_count\<close> files where that is a positive number, and, where extensions are listed, only
  files with one of them. A value for a retired block or carrying a plan is refused.\<close>

lemma validate_data_sound:
  assumes "validate_data loads block (PDict d) = Inr ()"
    and "normalize_block_type (dget block ''block_type'') = ATTACHMENTS"
    and "parse_data loads (dget block ''config'') = PDict cfg"
  shows "map_of d ''plan_id'' = None \<and>
    (\<forall>m. max_count_of (dget cfg ''max_count'') = Inr (Some m) \<longrightarrow> 0 < m \<longrightarrow>
       int (length (as_list (dget d ''attachment_ids''))) \<le> m) \<and>
    (allowed_extensions (dget cfg ''extensions'') = [] \<or>
     (\<forall>f\<in>set (dicts_of (as_list (dget d ''files''))).
       extension (file_name_of f) \<in> set (allowed_extensions (dget cfg ''extensions''))))"
proof -
  have plan: "''plan_id'' \<notin> fst ` set d"
    using assms(1) by (auto simp: validate_data_def split: if_splits)
  have at: "validate_attachments cfg d = Inr ()"
  proof (cases "cfg = []")
    case True
    then show ?thesis
      by (simp add: validate_attachments_def max_count_of_def dget_def check_extensions_def
          allowed_extensions_def as_list_def)
  next
    case False
    then show ?thesis using assms by (simp add: validate_data_def or_else_def split: if_splits)
  qed
  then have "check_extensions cfg d = Inr ()"
    by (auto simp: validate_attachments_def Let_def ebind_Inr split: option.splits if_splits)
  with at plan show ?thesis
    by (auto simp: check_extensions_ok validate_attachments_def Let_def ebind_Inr map_of_None
        split: option.splits if_splits)
qed

definition w_attach_block :: pydict where
  "w_attach_block = [(''block_type'', PStr ''attachments''), (''config'', PDict
     [(''max_count'', PStr ''2''), (''extensions'', PList [PStr ''.PDF''])])]"

definition w_attach_value :: pydict where
  "w_attach_value = [(''attachment_ids'', PList [PInt 7]),
     (''files'', PList [PDict [(''file_name'', PStr ''a.b.Pdf'')]])]"

lemma validate_data_sound_witness:
  "int (length (as_list (dget w_attach_value ''attachment_ids''))) \<le> 2 \<and>
   validate_data (\<lambda>_. None) w_attach_block (PDict
     [(''attachment_ids'', PList [PInt 1, PInt 2, PInt 3])]) = Inl (TooManyFiles 2)"
proof -
  have acc: "validate_data (\<lambda>_. None) w_attach_block (PDict w_attach_value) = Inr ()"
    and ty: "normalize_block_type (dget w_attach_block ''block_type'') = ATTACHMENTS"
    and cfg: "parse_data (\<lambda>_. None) (dget w_attach_block ''config'') =
      PDict [(''max_count'', PStr ''2''), (''extensions'', PList [PStr ''.PDF''])]"
    and two: "max_count_of (dget [(''max_count'', PStr ''2''),
      (''extensions'', PList [PStr ''.PDF''])] ''max_count'') = Inr (Some 2)"
    and no: "validate_data (\<lambda>_. None) w_attach_block (PDict
      [(''attachment_ids'', PList [PInt 1, PInt 2, PInt 3])]) = Inl (TooManyFiles 2)"
    by code_simp+
  show ?thesis using validate_data_sound [OF acc ty cfg] two no by auto
qed

text \<open>The options of an evaluation sheet decide about one thing only, whether the scope of
  impact is demanded: with any options the gaps are those of a sheet without options, less the
  scope of impact where the options switch it off. No options can waive a score, the rationale
  or the grade.\<close>

lemma evaluation_options_waive_scope_only:
  "evaluation_gaps (PDict (dset ''options'' opts d)) =
     filter (\<lambda>g. if g = GapImpactScope then option_on opts ''impact_scope'' else True)
       (evaluation_gaps (PDict (dset ''options'' PNone d)))"
proof -
  have other: "dget (dset ''options'' v d) k = dget d k" if "k \<noteq> ''options''" for v k
    using that by (simp add: dget_def)
  have own: "dget (dset ''options'' v d) ''options'' = v" for v
    by (simp add: dget_def)
  have items: "evaluation_items (dset ''options'' v d) = evaluation_items d" for v
    by (simp add: evaluation_items_def other)
  show ?thesis
    by (simp add: evaluation_gaps_def items other own Let_def) (simp add: option_on_def)
qed

end
