(* ===== verification/ApprovalEngine.thy ===== *)
theory ApprovalEngine
  imports ApprovalBlocks Lifecycle "HOL-Library.Product_Lexorder" "HOL-Library.Multiset"
begin

text \<open>
  \<open>src/xgen_sdk/approval/engine.py\<close>, the rules of an approval without the database: how a line
  of approvers is built, what one decision or a withdrawal does to the request and its
  steps, and the recomputation of a request from its written steps.

  A request and a step are the rows the functions receive. A missing \<open>approver_id\<close>,
  \<open>requester_id\<close> or \<open>current_step_order\<close> is 0, which the code treats alike (\<open>x or 0\<close>,
  \<open>x or 1\<close>); a missing or empty status is \<open>OTHER []\<close>.
\<close>

section \<open>States\<close>

datatype status =
  PENDING | APPROVED | REJECTED | CANCELED | WAITING | SKIPPED | OTHER string

definition TERMINAL :: "status list" where
  "TERMINAL = [APPROVED, REJECTED, CANCELED]"

type_synonym time = int

record step =
  approver_id :: int
  step_order :: int
  step_status :: status
  acted_at :: "time option"
  step_note :: "string option"

record request =
  requester_id :: int
  req_status :: status
  current_step_order :: int
  decided_at :: "time option"

datatype approval_error =
    EmptyLine
  | BadApprover
  | DuplicateApprover
  | OpenSlotsUnfilled
  | SlotCountChanged nat
  | FixedApproverChanged int
  | BadAction
  | Closed status
  | NotAnApprover
  | AlreadyActed
  | NotYourTurn
  | MissingBlocks "pydict list"
  | NotRequester
  | SomeoneApproved
  | Uncaught py_exc

section \<open>Building a line\<close>

definition given_order :: "pydict \<Rightarrow> nat \<Rightarrow> py_exc + int" where
  "given_order raw idx =
     (case py_int (dget_or raw ''step_order'' (PInt (int idx + 1))) of
        Inr n \<Rightarrow> Inr n
      | Inl OverflowError \<Rightarrow> Inl OverflowError
      | Inl _ \<Rightarrow> Inr (int idx + 1))"

definition given_approver :: "pydict \<Rightarrow> approval_error + int" where
  "given_approver raw = (case py_int (dget raw ''approver_id'') of
       Inr n \<Rightarrow> Inr n
     | Inl OverflowError \<Rightarrow> Inl (Uncaught OverflowError)
     | Inl _ \<Rightarrow> Inl BadApprover)"

definition lift_py :: "py_exc + 'a \<Rightarrow> approval_error + 'a" where
  "lift_py m = (case m of Inl e \<Rightarrow> Inl (Uncaught e) | Inr v \<Rightarrow> Inr v)"

lemma lift_py_simps [simp]: "lift_py (Inl e) = Inl (Uncaught e)" "lift_py (Inr v) = Inr v"
  by (simp_all add: lift_py_def)

lemma lift_py_Inr [simp]: "lift_py m = Inr v \<longleftrightarrow> m = Inr v"
  by (cases m) auto

fun order_specs :: "nat \<Rightarrow> int list \<Rightarrow> pydict list \<Rightarrow> approval_error + (int \<times> nat \<times> int) list" where
  "order_specs idx seen [] = Inr []"
| "order_specs idx seen (raw # specs) =
     ebind (given_approver raw) (\<lambda>approver.
       if approver \<in> set seen then Inl DuplicateApprover
       else ebind (lift_py (given_order raw idx)) (\<lambda>given.
         ebind (order_specs (Suc idx) (approver # seen) specs) (\<lambda>rest.
           Inr ((max 1 given, idx, approver) # rest))))"

record plan_step =
  plan_approver :: int
  plan_order :: int

definition number_line :: "(int \<times> nat \<times> 'a) list \<Rightarrow> (int \<times> 'a) list" where
  "number_line ordered =
     zip (map (\<lambda>n. int n + 1) [0..<length ordered])
       (map (\<lambda>(_, _, a). a) (sort_key (\<lambda>(g, i, _). (g, i)) ordered))"

definition plan_steps :: "pydict list \<Rightarrow> approval_error + plan_step list" where
  "plan_steps specs =
     (if specs = [] then Inl EmptyLine
      else ebind (order_specs 0 [] specs) (\<lambda>ordered.
        Inr (map (\<lambda>(n, a). \<lparr>plan_approver = a, plan_order = n\<rparr>) (number_line ordered))))"

text \<open>Templates of lines, where a slot may leave the person open.\<close>

definition is_open_slot :: "pydict \<Rightarrow> bool" where
  "is_open_slot raw = (case dget raw ''approver_id'' of
       PNone \<Rightarrow> True
     | PStr s \<Rightarrow> strip s = []
     | _ \<Rightarrow> False)"

record slot =
  slot_approver :: "int option"
  slot_order :: int

fun order_slots ::
  "nat \<Rightarrow> int list \<Rightarrow> pydict list \<Rightarrow> approval_error + (int \<times> nat \<times> int option) list" where
  "order_slots idx seen [] = Inr []"
| "order_slots idx seen (raw # specs) =
     ebind (if is_open_slot raw then Inr None
            else ebind (given_approver raw) (\<lambda>a.
              if a \<in> set seen then Inl DuplicateApprover else Inr (Some a))) (\<lambda>approver.
       ebind (lift_py (given_order raw idx)) (\<lambda>given.
         ebind (order_slots (Suc idx) (case approver of None \<Rightarrow> seen | Some a \<Rightarrow> a # seen) specs)
           (\<lambda>rest. Inr ((max 1 given, idx, approver) # rest))))"

definition plan_line_slots :: "pydict list \<Rightarrow> approval_error + slot list" where
  "plan_line_slots specs =
     (if specs = [] then Inl EmptyLine
      else ebind (order_slots 0 [] specs) (\<lambda>ordered.
        Inr (map (\<lambda>(n, a). \<lparr>slot_approver = a, slot_order = n\<rparr>) (number_line ordered))))"

definition open_slot_orders :: "pydict list \<Rightarrow> approval_error + int list" where
  "open_slot_orders slots = ebind (plan_line_slots slots) (\<lambda>ss.
     Inr (map slot_order (filter (\<lambda>s. slot_approver s = None) ss)))"

fun check_fixed :: "(slot \<times> plan_step) list \<Rightarrow> approval_error + unit" where
  "check_fixed [] = Inr ()"
| "check_fixed ((s, p) # rest) = (case slot_approver s of
       None \<Rightarrow> check_fixed rest
     | Some a \<Rightarrow> if a \<noteq> plan_approver p then Inl (FixedApproverChanged (slot_order s))
                 else check_fixed rest)"

definition fill_open_slots :: "pydict list \<Rightarrow> pydict list \<Rightarrow> approval_error + plan_step list" where
  "fill_open_slots template steps =
     ebind (plan_line_slots template) (\<lambda>slots.
       if list_ex is_open_slot steps then Inl OpenSlotsUnfilled
       else ebind (plan_steps steps) (\<lambda>chosen.
         if length chosen \<noteq> length slots then Inl (SlotCountChanged (length slots))
         else ebind (check_fixed (zip slots chosen)) (\<lambda>_. Inr chosen)))"

definition open_steps :: "plan_step list \<Rightarrow> approval_error + step list" where
  "open_steps planned =
     (if planned = [] then Inl EmptyLine
      else let first = Min (set (map plan_order planned))
        in Inr (map (\<lambda>s. \<lparr>approver_id = plan_approver s, step_order = plan_order s,
             step_status = (if plan_order s = first then PENDING else WAITING),
             acted_at = None, step_note = None\<rparr>) planned))"

section \<open>Decisions\<close>

definition step_of :: "step list \<Rightarrow> int \<Rightarrow> nat option" where
  "step_of steps actor =
     (case first_index (\<lambda>s. approver_id s = actor \<and> step_status s = PENDING) steps of
        Some i \<Rightarrow> Some i
      | None \<Rightarrow> first_index (\<lambda>s. approver_id s = actor) steps)"

definition status_or_pending :: "status \<Rightarrow> status" where
  "status_or_pending s = (if s = OTHER [] then PENDING else s)"

definition skip_open :: "step \<Rightarrow> step" where
  "skip_open s = (if step_status s \<in> {WAITING, PENDING} then s\<lparr>step_status := SKIPPED\<rparr> else s)"

definition note_text :: "string \<Rightarrow> string option" where
  "note_text n = (if take 500 n = [] then None else Some (take 500 n))"

definition later_orders :: "step list \<Rightarrow> int \<Rightarrow> int list" where
  "later_orders steps current = sort (remdups (filter (\<lambda>k. current < k) (map step_order steps)))"

text \<open>The step that is signed, and what the signature does to the request and the other steps.\<close>

definition signed :: "status \<Rightarrow> string \<Rightarrow> time \<Rightarrow> step \<Rightarrow> step" where
  "signed action nt now s =
     s\<lparr>step_status := action, acted_at := Some now, step_note := note_text nt\<rparr>"

definition current_of :: "request \<Rightarrow> int" where
  "current_of rq = (if current_step_order rq = 0 then 1 else current_step_order rq)"

definition pass_on :: "request \<Rightarrow> step list \<Rightarrow> status \<Rightarrow> time \<Rightarrow> request \<times> step list" where
  "pass_on rq out action now =
     (if action = REJECTED
      then (rq\<lparr>req_status := REJECTED, decided_at := Some now\<rparr>, map skip_open out)
      else case later_orders out (current_of rq) of
        [] \<Rightarrow> (rq\<lparr>req_status := APPROVED, decided_at := Some now\<rparr>, out)
      | nxt # _ \<Rightarrow> (rq\<lparr>current_step_order := nxt\<rparr>,
          map (\<lambda>s. if step_order s = nxt then s\<lparr>step_status := PENDING\<rparr> else s) out))"

definition decide ::
  "decoder \<Rightarrow> request \<Rightarrow> step list \<Rightarrow> int \<Rightarrow> status \<Rightarrow> string \<Rightarrow> time \<Rightarrow> pydict list \<Rightarrow>
    approval_error + request \<times> step list" where
  "decide loads rq steps actor action nt now blocks =
     (if action \<notin> {APPROVED, REJECTED} then Inl BadAction
      else if status_or_pending (req_status rq) \<in> set TERMINAL
        then Inl (Closed (status_or_pending (req_status rq)))
      else case step_of steps actor of
        None \<Rightarrow> Inl NotAnApprover
      | Some i \<Rightarrow>
        (if step_status (steps ! i) \<in> {APPROVED, REJECTED} then Inl AlreadyActed
         else if step_status (steps ! i) \<noteq> PENDING then Inl NotYourTurn
         else ebind (if action = APPROVED
             then lift_py (unfilled_upto loads blocks (step_order (steps ! i))) else Inr [])
           (\<lambda>missing. if missing \<noteq> [] then Inl (MissingBlocks (take 5 missing))
             else Inr (pass_on rq (steps[i := signed action nt now (steps ! i)]) action now))))"

definition advance :: "step list \<Rightarrow> int \<Rightarrow> time \<Rightarrow> status \<times> int \<times> time option" where
  "advance steps current now =
     (if list_ex (\<lambda>s. step_status s = REJECTED) steps then (REJECTED, current, Some now)
      else let here = filter (\<lambda>s. step_order s = current) steps
        in if here = [] \<or> list_ex (\<lambda>s. step_status s \<noteq> APPROVED) here then (PENDING, current, None)
           else case later_orders steps current of
             [] \<Rightarrow> (APPROVED, current, Some now)
           | nxt # _ \<Rightarrow> (PENDING, nxt, None))"

definition cancel ::
  "request \<Rightarrow> step list \<Rightarrow> int \<Rightarrow> time \<Rightarrow> approval_error + request \<times> step list" where
  "cancel rq steps actor now =
     (if requester_id rq \<noteq> actor then Inl NotRequester
      else if status_or_pending (req_status rq) \<in> set TERMINAL
        then Inl (Closed (status_or_pending (req_status rq)))
      else if list_ex (\<lambda>s. step_status s = APPROVED) steps then Inl SomeoneApproved
      else Inr (rq\<lparr>req_status := CANCELED, decided_at := Some now\<rparr>, map skip_open steps))"

section \<open>The machine\<close>

datatype event =
    Decide int status string time "pydict list"
  | Cancel int time

fun engine_step :: "decoder \<Rightarrow> request \<times> step list \<Rightarrow> event \<Rightarrow> approval_error + request \<times> step list" where
  "engine_step loads (rq, steps) (Decide actor action nt now blocks) =
     decide loads rq steps actor action nt now blocks"
| "engine_step loads (rq, steps) (Cancel actor now) = cancel rq steps actor now"

section \<open>The ledger\<close>

text \<open>The status a step must have, given the request's: one approver after the other up to the
  current step, nothing signed after it.\<close>

fun expected :: "status \<Rightarrow> int \<Rightarrow> int \<Rightarrow> status" where
  "expected PENDING c k = (if k < c then APPROVED else if k = c then PENDING else WAITING)"
| "expected APPROVED c k = APPROVED"
| "expected REJECTED c k = (if k < c then APPROVED else if k = c then REJECTED else SKIPPED)"
| "expected CANCELED c k = SKIPPED"
| "expected s c k = s"

fun ledger_ok :: "request \<times> step list \<Rightarrow> bool" where
  "ledger_ok (rq, steps) \<longleftrightarrow>
     req_status rq \<in> {PENDING, APPROVED, REJECTED, CANCELED} \<and>
     distinct (map step_order steps) \<and> list_all (\<lambda>s. 1 \<le> step_order s) steps \<and>
     list_ex (\<lambda>s. step_order s = current_step_order rq) steps \<and>
     list_all (\<lambda>s. step_status s = expected (req_status rq) (current_step_order rq) (step_order s)) steps"

definition closed :: "request \<times> step list \<Rightarrow> bool" where
  "closed st = (req_status (fst st) \<in> set TERMINAL)"

lemma closed_simp [simp]:
  "closed (rq, steps) \<longleftrightarrow> req_status rq \<in> {APPROVED, REJECTED, CANCELED}"
  by (auto simp: closed_def TERMINAL_def)

lemma terminal_simp [simp]:
  "status_or_pending s \<in> set TERMINAL \<longleftrightarrow> s \<in> {APPROVED, REJECTED, CANCELED}"
  by (auto simp: TERMINAL_def status_or_pending_def)

section \<open>Lemmas\<close>

lemma later_Nil: "later_orders steps c = [] \<longleftrightarrow> (\<forall>s\<in>set steps. step_order s \<le> c)"
  (is "?l = [] \<longleftrightarrow> ?r")
proof -
  have "set ?l = {k \<in> step_order ` set steps. c < k}" by (auto simp: later_orders_def)
  then show ?thesis by (auto simp: not_less simp flip: set_empty)
qed

lemma later_Cons:
  assumes "later_orders steps c = nxt # r"
  shows "nxt \<in> step_order ` set steps" "c < nxt"
    "\<And>s. s \<in> set steps \<Longrightarrow> c < step_order s \<Longrightarrow> nxt \<le> step_order s"
proof -
  have set: "set (nxt # r) = {k \<in> step_order ` set steps. c < k}"
    unfolding assms [symmetric] by (auto simp: later_orders_def)
  moreover have "sorted (nxt # r)" by (simp flip: assms add: later_orders_def)
  ultimately show "nxt \<in> step_order ` set steps" "c < nxt"
    "\<And>s. s \<in> set steps \<Longrightarrow> c < step_order s \<Longrightarrow> nxt \<le> step_order s"
    by (auto simp: set_eq_iff)
qed

lemma step_of_Some:
  "step_of steps actor = Some i \<Longrightarrow> i < length steps \<and> approver_id (steps ! i) = actor"
  by (auto simp: step_of_def split: option.splits dest!: first_index_Some)

lemma decide_Inr:
  assumes "decide loads rq steps actor action nt now blocks = Inr st"
  obtains i where "i < length steps" "approver_id (steps ! i) = actor"
    "step_status (steps ! i) = PENDING" "action \<in> {APPROVED, REJECTED}"
    "req_status rq \<notin> {APPROVED, REJECTED, CANCELED}"
    "action = APPROVED \<Longrightarrow> unfilled_upto loads blocks (step_order (steps ! i)) = Inr []"
    "st = pass_on rq (steps[i := signed action nt now (steps ! i)]) action now"
  using assms that
  by (auto simp: decide_def ebind_Inr dest!: step_of_Some split: if_splits option.splits)

lemma cancel_Inr:
  "cancel rq steps actor now = Inr st \<longleftrightarrow> requester_id rq = actor \<and>
     req_status rq \<notin> {APPROVED, REJECTED, CANCELED} \<and>
     (\<forall>s\<in>set steps. step_status s \<noteq> APPROVED) \<and>
     st = (rq\<lparr>req_status := CANCELED, decided_at := Some now\<rparr>, map skip_open steps)"
  by (auto simp: cancel_def list_ex_iff)

lemma skip_open_simps [simp]:
  "step_order (skip_open s) = step_order s" "approver_id (skip_open s) = approver_id s"
  "step_status (skip_open s) =
     (if step_status s \<in> {WAITING, PENDING} then SKIPPED else step_status s)"
  by (auto simp: skip_open_def)

lemma signed_simps [simp]:
  "step_order (signed action nt now s) = step_order s"
  "approver_id (signed action nt now s) = approver_id s"
  "step_status (signed action nt now s) = action"
  by (auto simp: signed_def)

text \<open>Signing the step of index \<open>i\<close> leaves the orders and the other steps alone.\<close>

lemma orders_update:
  "step_order x = step_order (steps ! i) \<Longrightarrow> map step_order (steps[i := x]) = map step_order steps"
  by (cases "i < length steps") (auto intro!: nth_equalityI simp: nth_list_update list_update_beyond)

lemma set_update_order:
  assumes "distinct (map step_order steps)" "i < length steps"
  shows "set (steps[i := x]) = insert x {s \<in> set steps. step_order s \<noteq> step_order (steps ! i)}"
proof -
  have "distinct steps" using assms(1) by (simp add: distinct_map)
  moreover have "step_order s = step_order (steps ! i) \<longleftrightarrow> s = steps ! i" if "s \<in> set steps" for s
    using assms(1) that nth_mem [OF assms(2)]
    by (meson distinct_map inj_on_eq_iff)
  ultimately show ?thesis using assms(2) by (auto simp add: set_update_distinct)
qed

lemma pending_order:
  assumes "ledger_ok (rq, steps)" "i < length steps" "step_status (steps ! i) = PENDING"
    "req_status rq \<notin> {APPROVED, REJECTED, CANCELED}"
  shows "req_status rq = PENDING" "step_order (steps ! i) = current_step_order rq"
    "current_of rq = current_step_order rq"
proof -
  show p: "req_status rq = PENDING" using assms by auto
  show o: "step_order (steps ! i) = current_step_order rq"
    using assms p nth_mem [OF assms(2)] by (auto simp: list_all_iff split: if_splits)
  show "current_of rq = current_step_order rq"
    using assms(1) o nth_mem [OF assms(2)] by (fastforce simp: list_all_iff current_of_def)
qed

text \<open>A signature on a good ledger gives a good ledger.\<close>

lemma pass_on_ok:
  assumes ok: "ledger_ok (rq, steps)" and i: "i < length steps" and p: "step_status (steps ! i) = PENDING"
    and live: "req_status rq \<notin> {APPROVED, REJECTED, CANCELED}" and a: "action \<in> {APPROVED, REJECTED}"
  shows "ledger_ok (pass_on rq (steps[i := signed action nt now (steps ! i)]) action now)"
proof -
  let ?c = "current_step_order rq" and ?out = "steps[i := signed action nt now (steps ! i)]"
  note pend = pending_order [OF ok i p live]
  have d: "distinct (map step_order steps)" and pos: "\<forall>s\<in>set steps. 1 \<le> step_order s"
    and st: "\<forall>s\<in>set steps. step_status s = expected PENDING ?c (step_order s)"
    using ok pend(1) by (auto simp: list_all_iff)
  have orders: "map step_order ?out = map step_order steps" by (simp add: orders_update)
  have out: "set ?out = insert (signed action nt now (steps ! i)) {s \<in> set steps. step_order s \<noteq> ?c}"
    using set_update_order [OF d i] pend(2) by simp
  have mine: "step_order (signed action nt now (steps ! i)) = ?c" "1 \<le> ?c"
    using pend(2) pos i by (auto simp flip: pend(2))
  have ostat: "\<forall>s\<in>set ?out. step_status s = (if step_order s = ?c then action
      else expected PENDING ?c (step_order s))"
    using out st mine by auto
  have opos: "\<forall>s\<in>set ?out. 1 \<le> step_order s" and cur: "\<exists>s\<in>set ?out. step_order s = ?c"
    using out pos mine by auto
  show ?thesis
  proof (cases "action = REJECTED")
    case True
    have "\<forall>s\<in>set ?out. step_status (skip_open s) = expected REJECTED ?c (step_order s)"
      using ostat True by auto
    then show ?thesis using True d orders opos cur
      by (auto simp: pass_on_def list_all_iff list_ex_iff comp_def)
  next
    case False
    then have act: "action = APPROVED" using a by simp
    show ?thesis
    proof (cases "later_orders ?out ?c")
      case Nil
      then have "\<forall>s\<in>set ?out. step_order s \<le> ?c" by (simp only: later_Nil)
      then have "\<forall>s\<in>set ?out. step_status s = APPROVED" using ostat act by force
      then show ?thesis using Nil False d orders opos cur pend(3)
        by (auto simp: pass_on_def list_all_iff list_ex_iff)
    next
      case (Cons nxt r)
      note nxt = later_Cons [OF Cons]
      define pass :: "step \<Rightarrow> step" where "pass = (\<lambda>s. if step_order s = nxt then s\<lparr>step_status := PENDING\<rparr> else s)"
      have o: "step_order (pass s) = step_order s" for s by (simp add: pass_def)
      have stat: "step_status (pass s) = expected PENDING nxt (step_order s)" if "s \<in> set ?out" for s
        using ostat that act nxt(2) nxt(3) [OF that] by (auto simp: pass_def)
      have "\<exists>s\<in>set ?out. step_order s = nxt" using nxt(1) by auto
      moreover have "pass_on rq ?out action now = (rq\<lparr>current_step_order := nxt\<rparr>, map pass ?out)"
        using False Cons pend(3) by (simp add: pass_on_def pass_def)
      ultimately show ?thesis using d orders opos pend(1) stat
        by (simp add: list_all_iff list_ex_iff comp_def o del: expected.simps)
    qed
  qed
qed

lemma cancel_ok:
  assumes "ledger_ok (rq, steps)" "cancel rq steps actor now = Inr st"
  shows "ledger_ok st"
  using assms by (auto simp: cancel_Inr list_all_iff list_ex_iff comp_def split: if_splits)

lemma engine_step_ok:
  assumes "ledger_ok st" "engine_step loads st e = Inr st'"
  shows "ledger_ok st'"
proof -
  obtain rq steps where st: "st = (rq, steps)" by (cases st)
  show ?thesis
  proof (cases e)
    case (Decide actor action nt now blocks)
    with assms(2) st have "decide loads rq steps actor action nt now blocks = Inr st'" by simp
    then show ?thesis
      by (cases rule: decide_Inr) (use assms(1) st in \<open>auto intro: pass_on_ok simp del: ledger_ok.simps\<close>)
  next
    case (Cancel actor now)
    with assms st show ?thesis using cancel_ok by simp
  qed
qed

lemma closed_refuses:
  assumes "closed st"
  shows "\<exists>x. engine_step loads st e = Inl x"
proof -
  obtain rq steps where st: "st = (rq, steps)" by (cases st)
  show ?thesis
    using assms by (cases e) (auto simp: st decide_def cancel_def)
qed

interpretation ledger: audited "engine_step loads" ledger_ok closed for loads
  by unfold_locales (rule engine_step_ok, assumption+, rule closed_refuses, assumption)

interpretation approval_gate: gate "engine_step loads"
  "\<lambda>st. req_status (fst st) = APPROVED"
  "\<lambda>st e. \<exists>actor nt now blocks. e = Decide actor APPROVED nt now blocks" for loads
proof
  fix st e st'
  assume s: "engine_step loads st e = Inr st'" and a: "req_status (fst st') = APPROVED"
    and n: "req_status (fst st) \<noteq> APPROVED"
  obtain rq steps where st: "st = (rq, steps)" by (cases st)
  show "\<exists>actor nt now blocks. e = Decide actor APPROVED nt now blocks"
  proof (cases e)
    case (Decide actor action nt now blocks)
    with s st have "decide loads rq steps actor action nt now blocks = Inr st'" by simp
    then show ?thesis
      by (cases rule: decide_Inr) (use a Decide in \<open>auto simp: pass_on_def\<close>)
  next
    case (Cancel actor now)
    with s a st show ?thesis by (auto simp: cancel_Inr)
  qed
qed

text \<open>What a planned line looks like.\<close>

lemma order_specs_Inr:
  "order_specs idx seen specs = Inr os \<Longrightarrow>
    emap given_approver specs = Inr (map (\<lambda>(_, _, a). a) os) \<and>
    distinct (map (\<lambda>(_, _, a). a) os) \<and> set (map (\<lambda>(_, _, a). a) os) \<inter> set seen = {} \<and>
    (list_all (\<lambda>raw. map_of raw ''step_order'' = None) specs \<longrightarrow>
      sorted (map (\<lambda>(g, i, _). (g, i)) os) \<and> (\<forall>(g, i, _)\<in>set os. int idx + 1 \<le> g \<and> idx \<le> i))"
proof (induction specs arbitrary: idx seen os)
  case (Cons raw specs)
  then obtain a g rest where a: "given_approver raw = Inr a" "a \<notin> set seen"
    and g: "given_order raw idx = Inr g"
    and rest: "order_specs (Suc idx) (a # seen) specs = Inr rest" "os = (max 1 g, idx, a) # rest"
    by (auto simp: ebind_Inr split: if_splits)
  note ih = Cons.IH [OF rest(1)]
  have "g = int idx + 1" if "map_of raw ''step_order'' = None"
    using g that by (simp add: given_order_def dget_or_def)
  then show ?case using ih a rest(2) by fastforce
qed simp

lemma number_line_approvers: "map snd (number_line os) = map (\<lambda>(_, _, a). a) (sort_key (\<lambda>(g, i, _). (g, i)) os)"
  by (simp add: number_line_def)

lemma number_line_orders: "map fst (number_line os) = map (\<lambda>n. int n + 1) [0..<length os]"
  by (simp add: number_line_def)

lemma plan_steps_Inr:
  assumes "plan_steps specs = Inr ps"
  obtains os where "order_specs 0 [] specs = Inr os" "os \<noteq> []" "length os = length specs"
    "map plan_approver ps = map (\<lambda>(_, _, a). a) (sort_key (\<lambda>(g, i, _). (g, i)) os)"
    "map plan_order ps = map (\<lambda>n. int n + 1) [0..<length specs]"
proof -
  obtain os where os: "order_specs 0 [] specs = Inr os" "specs \<noteq> []"
    "ps = map (\<lambda>(n, a). \<lparr>plan_approver = a, plan_order = n\<rparr>) (number_line os)"
    using assms by (auto simp: plan_steps_def ebind_Inr split: if_splits)
  have len: "length os = length specs"
    using order_specs_Inr [OF os(1)] emap_Inr_length by fastforce
  have "map plan_approver ps = map snd (number_line os)" "map plan_order ps = map fst (number_line os)"
    by (simp_all add: os(3) comp_def case_prod_unfold)
  then show thesis using that [OF os(1)] len os(2)
    by (simp add: number_line_approvers number_line_orders) (metis length_0_conv)
qed

text \<open>Where a plan is opened, the ledger is good.\<close>

lemma open_steps_ok:
  assumes "plan_steps specs = Inr ps" "open_steps ps = Inr steps"
  shows "ledger_ok (\<lparr>requester_id = r, req_status = PENDING, current_step_order = 1,
    decided_at = None\<rparr>, steps)"
proof -
  obtain os :: "(int \<times> nat \<times> int) list" where os: "os \<noteq> []" "length os = length specs"
    "map plan_order ps = map (\<lambda>n. int n + 1) [0..<length specs]"
    by (rule plan_steps_Inr [OF assms(1)]) blast
  then have n: "0 < length specs" by auto
  have set: "plan_order ` set ps = (\<lambda>n. int n + 1) ` {0..<length specs}"
    using arg_cong [OF os(3), of set] by (simp only: set_map set_upt)
  have one: "1 \<in> plan_order ` set ps" unfolding set using n by (intro image_eqI [of _ _ 0]) simp_all
  have ge: "\<forall>k\<in>plan_order ` set ps. 1 \<le> k" unfolding set by simp
  have first: "Min (set (map plan_order ps)) = 1"
    unfolding set_map using one ge by (intro Min_eqI) (simp, blast, simp)
  have steps: "steps = map (\<lambda>s. \<lparr>approver_id = plan_approver s, step_order = plan_order s,
      step_status = (if plan_order s = 1 then PENDING else WAITING),
      acted_at = None, step_note = None\<rparr>) ps"
    using assms(2) first by (auto simp: open_steps_def split: if_splits)
  have "map step_order steps = map plan_order ps" by (simp add: steps comp_def)
  then have "distinct (map step_order steps)" by (simp add: os(3) distinct_map inj_on_def)
  moreover have "\<exists>s\<in>set steps. step_order s = 1" using one by (auto simp: steps)
  ultimately show ?thesis using ge by (auto simp: list_all_iff list_ex_iff steps)
qed

text \<open>A signature stays as it was written, whatever happens next.\<close>

definition carries :: "step \<Rightarrow> request \<times> step list \<Rightarrow> bool" where
  "carries s st \<longleftrightarrow> ledger_ok st \<and> s \<in> set (snd st) \<and> step_status s = APPROVED"

lemma pass_on_keeps:
  assumes ok: "ledger_ok (rq, steps)" and i: "i < length steps" "step_status (steps ! i) = PENDING"
    and live: "req_status rq \<notin> {APPROVED, REJECTED, CANCELED}"
    and s: "s \<in> set steps" "step_status s = APPROVED"
  shows "s \<in> set (snd (pass_on rq (steps[i := signed action nt now (steps ! i)]) action now))"
proof -
  note pend = pending_order [OF ok i live]
  have d: "distinct (map step_order steps)" using ok by simp
  have lt: "step_order s < current_step_order rq"
    using ok pend(1) s by (auto simp: list_all_iff split: if_splits)
  then have out: "s \<in> set (steps[i := signed action nt now (steps ! i)])"
    using set_update_order [OF d i(1)] s(1) pend(2) by simp
  show ?thesis
  proof (cases "action = REJECTED")
    case True
    have "skip_open s = s" using s(2) by (simp add: skip_open_def)
    with out True show ?thesis by (auto simp: pass_on_def intro: image_eqI [of _ _ s])
  next
    case False
    show ?thesis
    proof (cases "later_orders (steps[i := signed action nt now (steps ! i)]) (current_of rq)")
      case (Cons nxt r)
      then have "step_order s \<noteq> nxt" using later_Cons(2) [OF Cons] lt pend(3) by simp
      with out False Cons show ?thesis
        by (auto simp: pass_on_def intro: image_eqI [of _ _ s])
    qed (use out False in \<open>simp add: pass_on_def\<close>)
  qed
qed

lemma engine_step_carries:
  assumes c: "carries s st" and e: "engine_step loads st e = Inr st'"
  shows "carries s st'"
proof -
  obtain rq steps where st: "st = (rq, steps)" by (cases st)
  have ok: "ledger_ok (rq, steps)" and s: "s \<in> set steps" "step_status s = APPROVED"
    using c by (simp_all add: carries_def st)
  have "s \<in> set (snd st')"
  proof (cases e)
    case (Decide actor action nt now blocks)
    with e st have "decide loads rq steps actor action nt now blocks = Inr st'" by simp
    then show ?thesis
      by (cases rule: decide_Inr) (use pass_on_keeps [OF ok _ _ _ s] in blast)
  next
    case (Cancel actor now)
    with e st s show ?thesis by (auto simp: cancel_Inr)
  qed
  then show ?thesis using engine_step_ok [OF _ e] ok s(2) by (simp add: carries_def st)
qed

interpretation signature: guarded "engine_step loads" "carries s" for loads s
  by unfold_locales (rule engine_step_carries)

interpretation settled: final_states "engine_step loads" closed for loads
  by unfold_locales (rule closed_refuses)

text \<open>The required fields behind a signature.\<close>

fun decided_with :: "pydict list \<Rightarrow> event \<Rightarrow> bool" where
  "decided_with bs (Decide _ _ _ _ blocks) = (blocks = bs)"
| "decided_with bs (Cancel _ _) = True"

definition backed :: "decoder \<Rightarrow> pydict list \<Rightarrow> request \<times> step list \<Rightarrow> bool" where
  "backed loads bs st \<longleftrightarrow> (\<forall>s\<in>set (snd st). step_status s = APPROVED \<longrightarrow>
     unfilled_upto loads bs (step_order s) = Inr [])"

lemma pass_on_signed:
  assumes "s' \<in> set (snd (pass_on rq out action now))" "step_status s' = APPROVED"
  shows "\<exists>s\<in>set out. step_status s = APPROVED \<and> step_order s = step_order s'"
  using assms by (auto simp: pass_on_def split: if_splits list.splits)

lemma backed_step:
  assumes b: "backed loads bs st" and e: "engine_step loads st e = Inr st'" and d: "decided_with bs e"
  shows "backed loads bs st'"
proof -
  obtain rq steps where st: "st = (rq, steps)" by (cases st)
  show ?thesis
  proof (cases e)
    case (Decide actor action nt now blocks)
    with e st have "decide loads rq steps actor action nt now blocks = Inr st'" by simp
    then show ?thesis
    proof (cases rule: decide_Inr)
      case (1 i)
      show ?thesis unfolding backed_def
      proof (intro ballI impI)
        fix s' assume "s' \<in> set (snd st')" "step_status s' = APPROVED"
        then obtain s where s: "s \<in> set (steps[i := signed action nt now (steps ! i)])"
          "step_status s = APPROVED" "step_order s = step_order s'"
          using pass_on_signed 1(7) by blast
        then consider "s \<in> set steps" | "s = signed action nt now (steps ! i)"
          using set_update_subset_insert by fastforce
        then show "unfilled_upto loads bs (step_order s') = Inr []"
          by cases (use s b 1(6) d Decide in \<open>auto simp: backed_def st\<close>)
      qed
    qed
  next
    case (Cancel actor now)
    with e b st show ?thesis by (auto simp: cancel_Inr backed_def)
  qed
qed

lemma backed_history:
  "backed loads bs st \<Longrightarrow> list_all (decided_with bs) es \<Longrightarrow>
    backed loads bs (history (engine_step loads) st es)"
proof (induction es arbitrary: st)
  case (Cons e es)
  have "backed loads bs (attempt (engine_step loads) st e)"
    by (cases rule: attempt_cases [of "engine_step loads" st e])
      (use Cons.prems in \<open>auto dest: backed_step\<close>)
  with Cons show ?case by simp
qed simp

text \<open>One signature in a line that stands in order.\<close>

definition who :: "step \<Rightarrow> int \<times> int" where
  "who s = (approver_id s, step_order s)"

lemma who_pass_on:
  "map who (snd (pass_on rq (steps[i := signed action nt now (steps ! i)]) action now)) = map who steps"
  by (cases "i < length steps")
    (auto simp: pass_on_def who_def comp_def nth_list_update list_update_beyond
      intro!: nth_equalityI split: list.splits)

lemma one_signature:
  assumes ok: "ledger_ok (rq, steps)" and p: "req_status rq = PENDING" and k: "k < length steps"
    and cur: "current_step_order rq = step_order (steps ! k)"
    and sorted: "sorted (map step_order steps)" and da: "distinct (map approver_id steps)"
    and filled: "unfilled_upto loads bs (step_order (steps ! k)) = Inr []"
  shows "\<exists>rq' steps'. decide loads rq steps (approver_id (steps ! k)) APPROVED nt now bs = Inr (rq', steps') \<and>
    ledger_ok (rq', steps') \<and> map who steps' = map who steps \<and>
    (if Suc k = length steps then req_status rq' = APPROVED
     else req_status rq' = PENDING \<and> current_step_order rq' = step_order (steps ! Suc k))"
proof -
  let ?out = "steps[k := signed APPROVED nt now (steps ! k)]" and ?c = "step_order (steps ! k)"
  have d: "distinct (map step_order steps)" using ok by simp
  have pend: "step_status (steps ! k) = PENDING" using ok p cur k by (simp add: list_all_length)
  have "step_of steps (approver_id (steps ! k)) = Some k"
  proof -
    have "first_index (\<lambda>s. approver_id s = approver_id (steps ! k) \<and> step_status s = PENDING) steps = Some k"
      by (rule first_index_unique) (use k pend da in \<open>auto simp: distinct_conv_nth\<close>)
    then show ?thesis by (simp add: step_of_def)
  qed
  then have dec: "decide loads rq steps (approver_id (steps ! k)) APPROVED nt now bs =
      Inr (pass_on rq ?out APPROVED now)"
    using p pend filled by (simp add: decide_def)
  have live: "req_status rq \<notin> {APPROVED, REJECTED, CANCELED}" using p by simp
  have ok': "ledger_ok (pass_on rq ?out APPROVED now)" by (rule pass_on_ok [OF ok k pend live]) simp
  have orders: "map step_order ?out = map step_order steps" by (simp add: orders_update)
  have mono: "i \<le> j \<Longrightarrow> j < length steps \<Longrightarrow> step_order (steps ! i) \<le> step_order (steps ! j)" for i j
    using sorted by (auto simp: sorted_iff_nth_mono)
  have strict: "i < j \<Longrightarrow> j < length steps \<Longrightarrow> step_order (steps ! i) < step_order (steps ! j)" for i j
    using mono [of i j] d by (auto simp: distinct_conv_nth order_le_less)
  have cof: "current_of rq = ?c" using pending_order(3) [OF ok k pend live] cur by simp
  have later: "later_orders ?out ?c = later_orders steps ?c" by (simp add: later_orders_def orders)
  have "if Suc k = length steps then req_status (fst (pass_on rq ?out APPROVED now)) = APPROVED
    else req_status (fst (pass_on rq ?out APPROVED now)) = PENDING \<and>
      current_step_order (fst (pass_on rq ?out APPROVED now)) = step_order (steps ! Suc k)"
  proof (cases "Suc k = length steps")
    case True
    then have "later_orders steps ?c = []"
      using mono by (auto simp: later_Nil in_set_conv_nth)
    then show ?thesis using True by (simp add: pass_on_def cof later)
  next
    case False
    then have sk: "Suc k < length steps" using k by simp
    then have "later_orders steps ?c \<noteq> []"
      using strict [of k "Suc k"] nth_mem [OF sk] by (auto simp: later_Nil not_le)
    then obtain nxt r where l: "later_orders steps ?c = nxt # r" by (cases "later_orders steps ?c") auto
    obtain j where j: "j < length steps" "nxt = step_order (steps ! j)"
      using later_Cons(1) [OF l] by (auto simp: in_set_conv_nth)
    then have "k < j" using later_Cons(2) [OF l] mono [of j k] k by (force simp: not_less)
    then have "step_order (steps ! Suc k) \<le> nxt" using mono [of "Suc k" j] j by simp
    moreover have "nxt \<le> step_order (steps ! Suc k)"
      using later_Cons(3) [OF l nth_mem [OF sk]] strict [of k "Suc k"] sk by simp
    ultimately show ?thesis using False p l by (simp add: pass_on_def cof later)
  qed
  then show ?thesis using dec ok' who_pass_on [of rq steps k APPROVED nt now]
    by (cases "pass_on rq ?out APPROVED now") auto
qed

lemma who_nth:
  assumes "map who xs = map who ys" "i < length ys"
  shows "approver_id (xs ! i) = approver_id (ys ! i) \<and> step_order (xs ! i) = step_order (ys ! i)"
  using arg_cong [OF assms(1), of "\<lambda>l. l ! i"] arg_cong [OF assms(1), of length] assms(2)
  by (simp add: who_def)

lemma all_sign:
  assumes "ledger_ok (rq, steps)" "req_status rq = PENDING" "k < length steps"
    and "current_step_order rq = step_order (steps ! k)"
    and "sorted (map step_order steps)" "distinct (map approver_id steps)"
    and "unfilled_upto loads bs (step_order (last steps)) = Inr []"
  shows "req_status (fst (history (engine_step loads) (rq, steps)
    (map (\<lambda>s. Decide (approver_id s) APPROVED nt now bs) (drop k steps)))) = APPROVED"
  using assms
proof (induction "length steps - k" arbitrary: k rq steps)
  case (Suc n)
  note prems = Suc.prems
  have filled: "\<forall>k\<in>set (map step_order steps). unfilled_upto loads bs k = Inr []"
  proof (rule fields.missing_last)
    have "steps \<noteq> []" using prems(3) by auto
    then show "map step_order steps \<noteq> []"
      "unfilled_upto loads bs (last (map step_order steps)) = Inr []"
      using prems(7) by (simp_all add: last_map)
  qed (rule prems(5))
  then have "unfilled_upto loads bs (step_order (steps ! k)) = Inr []" using prems(3) by simp
  from one_signature [OF prems(1-6) this, of nt now] obtain rq' steps' where
    dec: "decide loads rq steps (approver_id (steps ! k)) APPROVED nt now bs = Inr (rq', steps')"
    and ok': "ledger_ok (rq', steps')" and ids: "map who steps' = map who steps"
    and next_: "if Suc k = length steps then req_status rq' = APPROVED
      else req_status rq' = PENDING \<and> current_step_order rq' = step_order (steps ! Suc k)"
    by blast
  have split: "drop k steps = steps ! k # drop (Suc k) steps"
    using prems(3) by (simp add: Cons_nth_drop_Suc)
  have att: "attempt (engine_step loads) (rq, steps) (Decide (approver_id (steps ! k)) APPROVED nt now bs) =
      (rq', steps')"
    by (simp add: attempt_def dec)
  show ?case
  proof (cases "Suc k = length steps")
    case True
    then show ?thesis using next_ by (simp add: split att)
  next
    case False
    have len: "length steps' = length steps" using arg_cong [OF ids, of length] by simp
    have o: "map step_order steps' = map step_order steps" and ap: "map approver_id steps' = map approver_id steps"
      using arg_cong [OF ids, of "map snd"] arg_cong [OF ids, of "map fst"]
      by (simp_all add: comp_def who_def)
    have "steps \<noteq> []" "steps' \<noteq> []" using prems(3) len by auto
    then have "step_order (last steps') = step_order (last steps)"
      using arg_cong [OF o, of last] by (simp add: last_map)
    moreover have "n = length steps' - Suc k" "Suc k < length steps'" using Suc.hyps(2) prems(3) False len by simp_all
    moreover have "current_step_order rq' = step_order (steps' ! Suc k)"
      using next_ False who_nth [OF ids, of "Suc k"] prems(3) by simp
    ultimately have "req_status (fst (history (engine_step loads) (rq', steps')
        (map (\<lambda>s. Decide (approver_id s) APPROVED nt now bs) (drop (Suc k) steps')))) = APPROVED"
      using Suc.hyps(1) [of steps' "Suc k" rq'] ok' next_ False prems(5-7) by (simp add: o ap)
    moreover have "map (\<lambda>s. Decide (approver_id s) APPROVED nt now bs) (drop (Suc k) steps') =
        map (\<lambda>s. Decide (approver_id s) APPROVED nt now bs) (drop (Suc k) steps)"
      using who_nth [OF ids] len by (intro nth_equalityI) simp_all
    ultimately show ?thesis by (simp add: split att)
  qed
qed simp

lemma check_fixed_ok:
  "check_fixed sps = Inr () \<longleftrightarrow>
     (\<forall>(s, p)\<in>set sps. slot_approver s = None \<or> slot_approver s = Some (plan_approver p))"
  by (induction sps rule: check_fixed.induct) (auto split: option.splits)

lemma plan_line_slots_orders:
  "plan_line_slots specs = Inr slots \<Longrightarrow>
    map slot_order slots = map (\<lambda>n. int n + 1) [0..<length slots]"
  by (auto simp: plan_line_slots_def ebind_Inr comp_def case_prod_unfold number_line_def split: if_splits)

section \<open>Properties\<close>

text \<open>A line that is accepted has one step per entry, numbered from 1 without gaps, each
  person named by the entries exactly once and nobody else; without explicit numbers it
  keeps the order sent. Opened for a request, it is a good ledger whose first step is the
  current one.\<close>

lemma submitted_line_is_good:
  assumes "plan_steps specs = Inr ps"
  shows "\<exists>as steps. emap given_approver specs = Inr as \<and> distinct as \<and>
    mset (map plan_approver ps) = mset as \<and>
    map plan_order ps = map (\<lambda>n. int n + 1) [0..<length specs] \<and>
    (list_all (\<lambda>raw. map_of raw ''step_order'' = None) specs \<longrightarrow> map plan_approver ps = as) \<and>
    open_steps ps = Inr steps \<and> map approver_id steps = map plan_approver ps \<and>
    ledger_ok (\<lparr>requester_id = r, req_status = PENDING, current_step_order = 1,
      decided_at = None\<rparr>, steps)"
proof -
  obtain os where os: "order_specs 0 [] specs = Inr os" "os \<noteq> []" "length os = length specs"
    "map plan_approver ps = map (\<lambda>(_, _, a). a) (sort_key (\<lambda>(g, i, _). (g, i)) os)"
    "map plan_order ps = map (\<lambda>n. int n + 1) [0..<length specs]"
    using plan_steps_Inr [OF assms] .
  have ps: "ps \<noteq> []" using arg_cong [OF os(5), of length] os(2,3) by auto
  then obtain steps where steps: "open_steps ps = Inr steps" "map approver_id steps = map plan_approver ps"
    by (simp add: open_steps_def Let_def comp_def)
  have kept: "map plan_approver ps = map (\<lambda>(_, _, a). a) os"
    if "list_all (\<lambda>raw. map_of raw ''step_order'' = None) specs"
    using order_specs_Inr [OF os(1)] that by (simp add: os(4) sort_key_id_if_sorted)
  have "mset (map plan_approver ps) = mset (map (\<lambda>(_, _, a). a) os)" by (simp add: os(4))
  then show ?thesis
    using order_specs_Inr [OF os(1)] os(5) kept steps open_steps_ok [OF assms steps(1)] by blast
qed

lemma submitted_line_is_good_witness:
  "\<exists>ps. plan_steps [[(''approver_id'', PStr ''12''), (''step_order'', PInt 9)],
      [(''approver_id'', PInt 7), (''step_order'', PInt 5)]] = Inr ps \<and>
    map plan_approver ps = [7, 12] \<and> mset (map plan_approver ps) = mset [12, 7]"
proof -
  let ?specs = "[[(''approver_id'', PStr ''12''), (''step_order'', PInt 9)],
      [(''approver_id'', PInt 7), (''step_order'', PInt 5)]]"
  have p: "plan_steps ?specs = Inr [\<lparr>plan_approver = 7, plan_order = 1\<rparr>,
      \<lparr>plan_approver = 12, plan_order = 2\<rparr>]" and e: "emap given_approver ?specs = Inr [12, 7]"
    by code_simp+
  show ?thesis using submitted_line_is_good [OF p] p e by auto
qed

text \<open>C1. Along every history of decisions and withdrawals, refused ones included, the ledger stays
  good; the request is approved exactly when every step is, and while it is pending exactly
  one step waits for a signature.\<close>

theorem approved_iff_every_step_signed:
  assumes "ledger_ok st" and "history (engine_step loads) st es = (rq, steps)"
  shows "ledger_ok (rq, steps) \<and>
    (req_status rq = APPROVED \<longleftrightarrow> list_all (\<lambda>s. step_status s = APPROVED) steps) \<and>
    length (filter (\<lambda>s. step_status s = PENDING) steps) = (if req_status rq = PENDING then 1 else 0)"
proof -
  have ok: "ledger_ok (rq, steps)" using ledger.history_inv [OF assms(1), of loads es] assms(2) by simp
  then have d: "distinct (map step_order steps)"
    and cur: "\<exists>s\<in>set steps. step_order s = current_step_order rq"
    and st: "\<forall>s\<in>set steps. step_status s = expected (req_status rq) (current_step_order rq) (step_order s)"
    and four: "req_status rq \<in> {PENDING, APPROVED, REJECTED, CANCELED}"
    by (auto simp: list_all_iff list_ex_iff)
  have iff: "req_status rq = APPROVED \<longleftrightarrow> list_all (\<lambda>s. step_status s = APPROVED) steps"
    using cur st four by (auto simp: list_all_iff)
  have "length (filter (\<lambda>s. step_status s = PENDING) steps) = (if req_status rq = PENDING then 1 else 0)"
  proof (cases "req_status rq = PENDING")
    case True
    have "filter (\<lambda>s. step_status s = PENDING) steps =
        filter (\<lambda>s. step_order s = current_step_order rq) steps"
      using st True by (intro filter_cong) auto
    moreover have "length (filter (\<lambda>s. step_order s = current_step_order rq) steps) \<le> 1"
      using d by (intro filter_length_le1) (auto simp: distinct_map inj_on_def)
    moreover have "filter (\<lambda>s. step_order s = current_step_order rq) steps \<noteq> []"
      using cur by (simp add: filter_empty_conv)
    ultimately show ?thesis using True by (simp add: le_Suc_eq)
  next
    case False
    then have "\<forall>s\<in>set steps. step_status s \<noteq> PENDING" using st four by (auto split: if_splits)
    then show ?thesis using False by simp
  qed
  with ok iff show ?thesis by blast
qed

definition w_request :: request where
  "w_request = \<lparr>requester_id = 3, req_status = PENDING, current_step_order = 1, decided_at = None\<rparr>"

definition w_step :: "int \<Rightarrow> int \<Rightarrow> status \<Rightarrow> step" where
  "w_step a k s = \<lparr>approver_id = a, step_order = k, step_status = s, acted_at = None, step_note = None\<rparr>"

definition w_line :: "request \<times> step list" where
  "w_line = (w_request, [w_step 7 1 PENDING, w_step 12 2 WAITING])"

lemma w_line_ok [simp]: "ledger_ok w_line"
  by (simp add: w_line_def w_request_def w_step_def)

theorem approved_iff_every_step_signed_witness:
  "\<exists>rq steps. history (engine_step (\<lambda>_. None)) w_line
      [Decide 7 APPROVED ''ok'' 10 [], Cancel 3 11, Decide 12 APPROVED [] 12 []] = (rq, steps) \<and>
    req_status rq = APPROVED \<and> list_all (\<lambda>s. step_status s = APPROVED) steps"
proof -
  let ?es = "[Decide 7 APPROVED ''ok'' 10 [], Cancel 3 11, Decide 12 APPROVED [] 12 []]"
  have a: "req_status (fst (history (engine_step (\<lambda>_. None)) w_line ?es)) = APPROVED" by code_simp
  obtain rq steps where h: "history (engine_step (\<lambda>_. None)) w_line ?es = (rq, steps)"
    by (cases "history (engine_step (\<lambda>_. None)) w_line ?es")
  show ?thesis using approved_iff_every_step_signed [OF w_line_ok h] h a by auto
qed

text \<open>C3. A decided request stays as it was decided: once a request is closed every decision and every
  withdrawal raises, whatever was attempted before, and the ledger, still good, is the one that
  was closed. Only an approval, given while the request was not approved, makes it approved.\<close>

theorem decided_stays_decided:
  assumes "ledger_ok st" and "closed (history (engine_step loads) st es)"
  shows "(\<forall>e. \<exists>x. engine_step loads (history (engine_step loads) st (es @ fs)) e = Inl x) \<and>
    history (engine_step loads) st (es @ fs) = history (engine_step loads) st es \<and>
    ledger_ok (history (engine_step loads) st es) \<and>
    (req_status (fst st) \<noteq> APPROVED \<longrightarrow>
     req_status (fst (history (engine_step loads) st es)) = APPROVED \<longrightarrow>
     (\<exists>as actor nt now blocks bs. es = as @ Decide actor APPROVED nt now blocks # bs \<and>
       req_status (fst (history (engine_step loads) st as)) \<noteq> APPROVED))"
proof -
  have kept: "history (engine_step loads) st (es @ fs) = history (engine_step loads) st es"
    using ledger.history_settled [OF assms, of fs] by blast
  have "\<exists>x. engine_step loads (history (engine_step loads) st (es @ fs)) e = Inl x" for e
    unfolding kept by (rule ledger.final_refuses [OF assms(2)])
  then show ?thesis
    using kept ledger.history_inv [OF assms(1), of loads es] approval_gate.history_opens_by_grant [of st loads es] by blast
qed

theorem decided_stays_decided_witness:
  "(\<exists>x. engine_step (\<lambda>_. None) (history (engine_step (\<lambda>_. None)) w_line
      ([Decide 7 REJECTED ''no'' 10 []] @ [Decide 12 APPROVED [] 12 []])) (Cancel 3 13) = Inl x) \<and>
   history (engine_step (\<lambda>_. None)) w_line
      ([Decide 7 REJECTED ''no'' 10 []] @ [Decide 12 APPROVED [] 12 []]) =
    history (engine_step (\<lambda>_. None)) w_line [Decide 7 REJECTED ''no'' 10 []] \<and>
   req_status (fst (history (engine_step (\<lambda>_. None)) w_line [Decide 7 REJECTED ''no'' 10 []])) = REJECTED"
proof -
  have r: "req_status (fst (history (engine_step (\<lambda>_. None)) w_line
      [Decide 7 REJECTED ''no'' 10 []])) = REJECTED" by code_simp
  then have c: "closed (history (engine_step (\<lambda>_. None)) w_line [Decide 7 REJECTED ''no'' 10 []])"
    by (simp add: closed_def TERMINAL_def)
  show ?thesis using decided_stays_decided [OF w_line_ok c, of "[Decide 12 APPROVED [] 12 []]"] r by blast
qed

text \<open>C2. A given approval cannot be undone: once an approver has signed, the signed step keeps its
  person, place, time and note through every later history, and the drafter's withdrawal is
  refused forever.\<close>

theorem approval_cannot_be_withdrawn:
  assumes "ledger_ok st" and "s \<in> set (snd st)" and "step_status s = APPROVED"
  shows "s \<in> set (snd (history (engine_step loads) st es)) \<and>
    (\<exists>x. engine_step loads (history (engine_step loads) st es) (Cancel actor now) = Inl x)"
proof -
  have "carries s (history (engine_step loads) st es)"
    by (rule signature.history_inv) (use assms in \<open>simp add: carries_def\<close>)
  then show ?thesis
    by (cases "history (engine_step loads) st es") (auto simp: carries_def cancel_def list_ex_iff)
qed

theorem approval_cannot_be_withdrawn_witness:
  "\<exists>x. engine_step (\<lambda>_. None) (history (engine_step (\<lambda>_. None))
     (w_request\<lparr>current_step_order := 2\<rparr>, [w_step 7 1 APPROVED, w_step 12 2 PENDING])
     [Decide 7 REJECTED [] 9 []]) (Cancel 3 10) = Inl x"
proof -
  let ?st = "(w_request\<lparr>current_step_order := 2\<rparr>, [w_step 7 1 APPROVED, w_step 12 2 PENDING])"
  have ok: "ledger_ok ?st" by (simp add: w_request_def w_step_def)
  have s: "w_step 7 1 APPROVED \<in> set (snd ?st)" "step_status (w_step 7 1 APPROVED) = APPROVED"
    by (simp_all add: w_step_def)
  show ?thesis using approval_cannot_be_withdrawn [OF ok s] by blast
qed

text \<open>Recomputing a request from its written steps gives what deciding gave: after every
  accepted decision on a good ledger, \<open>advance\<close> on the new steps and the old current step
  returns the new status, the new current step and, where the request closed, the time.\<close>

lemma advance_agrees_with_decide:
  assumes "ledger_ok (rq, steps)"
    and "decide loads rq steps actor action nt now blocks = Inr (rq', steps')"
  shows "advance steps' (current_step_order rq) now =
    (req_status rq', current_step_order rq',
     if req_status rq' = PENDING then None else decided_at rq')"
  using assms(2)
proof (cases rule: decide_Inr)
  case (1 i)
  let ?c = "current_step_order rq" and ?out = "steps[i := signed action nt now (steps ! i)]"
  note pend = pending_order [OF assms(1) 1(1,3,5)]
  have ok: "ledger_ok (rq', steps')" unfolding 1(7) by (rule pass_on_ok [OF assms(1) 1(1,3,5,4)])
  have d: "distinct (map step_order steps)" using assms(1) by simp
  have mine: "signed action nt now (steps ! i) \<in> set ?out" using 1(1) by (simp add: set_update_memI)
  show ?thesis
  proof (cases "action = REJECTED")
    case True
    then have "skip_open (signed action nt now (steps ! i)) \<in> set steps'"
      using 1(7) mine by (auto simp: pass_on_def)
    then have "\<exists>s\<in>set steps'. step_status s = REJECTED"
      by (rule bexI [rotated]) (simp add: True)
    then show ?thesis using 1(7) True by (auto simp: advance_def pass_on_def list_ex_iff)
  next
    case False
    then have act: "action = APPROVED" using 1(4) by simp
    show ?thesis
    proof (cases "later_orders ?out ?c")
      case Nil
      then have eq: "rq' = rq\<lparr>req_status := APPROVED, decided_at := Some now\<rparr>" "steps' = ?out"
        using 1(7) False pend(3) by (simp_all add: pass_on_def)
      then have "\<forall>s\<in>set steps'. step_status s = APPROVED" using ok by (simp add: list_all_iff)
      moreover have "filter (\<lambda>s. step_order s = ?c) steps' \<noteq> []"
        using bexI [OF _ mine, of "\<lambda>s. step_order s = ?c"] pend(2)
        by (simp add: filter_empty_conv eq)
      ultimately show ?thesis using Nil eq
        by (auto simp: advance_def list_ex_iff)
    next
      case (Cons nxt r)
      define pass :: "step \<Rightarrow> step" where
        "pass = (\<lambda>s. if step_order s = nxt then s\<lparr>step_status := PENDING\<rparr> else s)"
      have o: "step_order (pass s) = step_order s" for s by (simp add: pass_def)
      have eq: "rq' = rq\<lparr>current_step_order := nxt\<rparr>" "steps' = map pass ?out"
        using 1(7) False pend(3) Cons by (simp_all add: pass_on_def pass_def)
      have st: "\<forall>s\<in>set steps'. step_status s = expected PENDING nxt (step_order s)"
        using ok pend(1) eq by (simp add: list_all_iff)
      have "later_orders steps' ?c = nxt # r"
        using Cons by (simp add: later_orders_def eq comp_def o)
      moreover have "filter (\<lambda>s. step_order s = ?c) steps' \<noteq> []"
        using bexI [OF _ mine, of "\<lambda>s. step_order s = ?c"] pend(2)
        by (simp add: filter_empty_conv eq o)
      moreover have "\<not> list_ex (\<lambda>s. step_status s = REJECTED) steps'"
        "\<not> list_ex (\<lambda>s. step_status s \<noteq> APPROVED) (filter (\<lambda>s. step_order s = ?c) steps')"
        using st later_Cons(2) [OF Cons] by (auto simp: list_ex_iff)
      ultimately show ?thesis using eq(1) pend(1)
        by (simp add: advance_def)
    qed
  qed
qed

lemma advance_agrees_with_decide_witness:
  "\<exists>rq' steps'. decide (\<lambda>_. None) w_request (snd w_line) 7 APPROVED [] 5 [] = Inr (rq', steps') \<and>
    advance steps' 1 5 = (PENDING, 2, None)"
proof -
  obtain rq' steps' where r: "decide (\<lambda>_. None) w_request (snd w_line) 7 APPROVED [] 5 [] = Inr (rq', steps')"
    and q: "req_status rq' = PENDING" "current_step_order rq' = 2"
    by (cases "decide (\<lambda>_. None) w_request (snd w_line) 7 APPROVED [] 5 []")
      (simp_all add: w_line_def w_request_def w_step_def decide_def step_of_def TERMINAL_def
        status_or_pending_def unfilled_upto_def pass_on_def later_orders_def current_of_def signed_def)
  have ok: "ledger_ok (w_request, snd w_line)" using w_line_ok by (simp add: w_line_def)
  show ?thesis using advance_agrees_with_decide [OF ok r] r q by (simp add: w_request_def)
qed

text \<open>C4. A line of approvers can always be finished: when each person of a good pending ledger,
  standing in order with nobody twice, approves in turn and the fields required up to the
  last step are filled, the request ends approved.\<close>

theorem signing_in_turn_approves:
  assumes "ledger_ok (rq, steps)" "req_status rq = PENDING"
    and "sorted (map step_order steps)" "distinct (map approver_id steps)"
    and "current_step_order rq = step_order (hd steps)"
    and "unfilled_upto loads bs (step_order (last steps)) = Inr []"
  shows "req_status (fst (history (engine_step loads) (rq, steps)
    (map (\<lambda>s. Decide (approver_id s) APPROVED nt now bs) steps))) = APPROVED"
proof -
  have "steps \<noteq> []" using assms(1) by auto
  then show ?thesis using all_sign [of rq steps 0 loads bs nt now] assms by (simp add: hd_conv_nth)
qed

theorem signing_in_turn_approves_witness:
  "req_status (fst (history (engine_step (\<lambda>_. None)) (w_request, snd w_line)
    (map (\<lambda>s. Decide (approver_id s) APPROVED ''ok'' 4 []) (snd w_line)))) = APPROVED"
  by (rule signing_in_turn_approves)
    (simp_all add: w_line_def w_request_def w_step_def unfilled_upto_def)

text \<open>Nothing is signed over a missing field: when all decisions of a history are taken on the
  same form, then for every step that carries an approval no required field up to that step
  is missing, at that step or at any earlier one.\<close>

lemma signatures_are_backed_by_fields:
  assumes "ledger_ok st" and "list_all (\<lambda>s. step_status s \<noteq> APPROVED) (snd st)"
    and "list_all (decided_with bs) es" and "s \<in> set (snd (history (engine_step loads) st es))"
    and "step_status s = APPROVED" and "m \<le> step_order s"
  shows "unfilled_upto loads bs m = Inr []"
proof -
  have "backed loads bs st" using assms(2) by (auto simp: backed_def list_all_iff)
  then have "unfilled_upto loads bs (step_order s) = Inr []"
    using backed_history [OF _ assms(3)] assms(4,5) by (auto simp: backed_def)
  then show ?thesis using assms(6) by (rule fields.missing_mono)
qed

lemma signatures_are_backed_by_fields_witness:
  "unfilled_upto (\<lambda>_. Some (PStr ''ok'')) [w_text_block] 1 = Inr [] \<and>
   decide (\<lambda>_. None) w_request (snd w_line) 7 APPROVED [] 5 [w_text_block] =
     Inl (MissingBlocks [w_text_block])"
proof -
  let ?l = "\<lambda>_. Some (PStr ''ok'')" and ?es = "[Decide 7 APPROVED [] 5 [w_text_block]]"
  have h: "(w_step 7 1 APPROVED)\<lparr>acted_at := Some 5\<rparr> \<in> set (snd (history (engine_step ?l) w_line ?es))"
    by code_simp
  have n: "list_all (\<lambda>s. step_status s \<noteq> APPROVED) (snd w_line)" by code_simp
  have no: "decide (\<lambda>_. None) w_request (snd w_line) 7 APPROVED [] 5 [w_text_block] =
     Inl (MissingBlocks [w_text_block])" by code_simp
  show ?thesis
    using signatures_are_backed_by_fields [OF w_line_ok n _ h, of "[w_text_block]" 1] no
    by (simp add: w_step_def)
qed

text \<open>Filling keeps the people of the fixed slots.\<close>

lemma fill_open_slots_keeps:
  assumes "fill_open_slots template sent = Inr chosen"
  shows "\<exists>slots. plan_line_slots template = Inr slots \<and> plan_steps sent = Inr chosen \<and>
    length chosen = length slots \<and> map plan_order chosen = map slot_order slots \<and>
    (\<forall>i<length slots. slot_approver (slots ! i) = None \<or>
      slot_approver (slots ! i) = Some (plan_approver (chosen ! i)))"
proof -
  obtain slots where s: "plan_line_slots template = Inr slots" "plan_steps sent = Inr chosen"
    "length chosen = length slots" "check_fixed (zip slots chosen) = Inr ()"
    using assms by (auto simp: fill_open_slots_def ebind_Inr split: if_splits)
  have fixed: "slot_approver (slots ! i) = None \<or> slot_approver (slots ! i) = Some (plan_approver (chosen ! i))"
    if "i < length slots" for i
    using s(3,4) that by (auto simp: check_fixed_ok set_zip)
  have line: "map plan_order chosen = map (\<lambda>n. int n + 1) [0..<length sent]"
    by (rule plan_steps_Inr [OF s(2)]) blast
  have "length chosen = length sent" using arg_cong [OF line, of length] by simp
  with line have "map plan_order chosen = map (\<lambda>n. int n + 1) [0..<length chosen]" by simp
  moreover have "map slot_order slots = map (\<lambda>n. int n + 1) [0..<length slots]"
    using plan_line_slots_orders [OF s(1)] .
  ultimately show ?thesis using s fixed by auto
qed

text \<open>A fixed line keeps the administrator's people: filling the open slots of a template gives
  exactly the line planned from what was sent, with as many steps as the template has slots,
  and the person of every fixed slot in that slot's place.\<close>

lemma fixed_slots_keep_their_approver:
  assumes "fill_open_slots template sent = Inr chosen"
  shows "\<exists>slots. plan_line_slots template = Inr slots \<and> plan_steps sent = Inr chosen \<and>
    length chosen = length slots \<and> map plan_order chosen = map slot_order slots \<and>
    (\<forall>i<length slots. slot_approver (slots ! i) = None \<or>
      slot_approver (slots ! i) = Some (plan_approver (chosen ! i)))"
  using fill_open_slots_keeps [OF assms] .

lemma fixed_slots_keep_their_approver_witness:
  "\<exists>slots. plan_line_slots [[(''approver_id'', PInt 7)], [(''approver_id'', PNone)]] = Inr slots \<and>
     length slots = 2 \<and>
   fill_open_slots [[(''approver_id'', PInt 7)], [(''approver_id'', PNone)]]
     [[(''approver_id'', PInt 8)], [(''approver_id'', PInt 9)]] = Inl (FixedApproverChanged 1)"
proof -
  have f: "fill_open_slots [[(''approver_id'', PInt 7)], [(''approver_id'', PNone)]]
     [[(''approver_id'', PInt 7)], [(''approver_id'', PInt 9)]] =
      Inr [\<lparr>plan_approver = 7, plan_order = 1\<rparr>, \<lparr>plan_approver = 9, plan_order = 2\<rparr>]"
    and b: "fill_open_slots [[(''approver_id'', PInt 7)], [(''approver_id'', PNone)]]
     [[(''approver_id'', PInt 8)], [(''approver_id'', PInt 9)]] = Inl (FixedApproverChanged 1)"
    by code_simp+
  show ?thesis using fixed_slots_keep_their_approver [OF f] b by auto
qed

end
