(* ===== verification/ApprovalRegistry.thy ===== *)
theory ApprovalRegistry
  imports Lifecycle
begin

text \<open>
  \<open>src/xgen_sdk/approval/catalog.py\<close> and \<open>registry.py\<close>: which actions can be put to approval,
  which service applies them, and the hooks the services register to apply or clear them.

  The texts of the catalogue (label, description, domain) are for screens and left out. A
  hook is a function of the service that registers it: it takes the payload and the request
  and either returns or raises, here with the reason the code records.
\<close>

section \<open>Catalogue\<close>

record action_spec =
  spec_type :: string
  spec_owner :: string
  spec_gated :: bool
  spec_user_submittable :: bool

definition OWNER_CORE :: string where "OWNER_CORE = ''core''"
definition OWNER_WORKFLOW :: string where "OWNER_WORKFLOW = ''workflow''"
definition GENERIC :: string where "GENERIC = ''generic''"
definition TEST :: string where "TEST = ''test''"

definition free_action :: "string \<Rightarrow> action_spec" where
  "free_action t = \<lparr>spec_type = t, spec_owner = OWNER_CORE, spec_gated = False,
     spec_user_submittable = True\<rparr>"

definition gated_action :: "string \<Rightarrow> string \<Rightarrow> action_spec" where
  "gated_action owner t = \<lparr>spec_type = t, spec_owner = owner, spec_gated = True,
     spec_user_submittable = False\<rparr>"

definition CATALOG :: "action_spec list" where
  "CATALOG = map free_action [GENERIC, TEST] @
     map (gated_action OWNER_CORE) [''agent.deploy'', ''agent.redeploy''] @
     map (gated_action OWNER_WORKFLOW)
       [''app.api_deploy'', ''app.api_redeploy'', ''app.share'',
        ''collection.create'', ''collection.upload'', ''collection.update'',
        ''filestore.upload'', ''filestore.embed'', ''db.create'', ''db.share'',
        ''tool.publish'', ''agent.share'', ''agent.resources'']"

definition RETIRED :: "string list" where
  "RETIRED = [''cloud.storage_create'', ''cloud.upload'', ''cloud.update'', ''cloud.share'',
     ''cloud.device_link'', ''cloud.agent_link'']"

definition catalog_spec :: "string \<Rightarrow> action_spec option" where
  "catalog_spec action_type = map_of (map (\<lambda>s. (spec_type s, s)) CATALOG) action_type"

definition gated_specs :: "action_spec list" where
  "gated_specs = filter spec_gated CATALOG"

definition owned_by :: "string \<Rightarrow> string list" where
  "owned_by owner = map spec_type (filter (\<lambda>s. spec_owner s = owner) CATALOG)"

section \<open>Registered actions\<close>

type_synonym ('p, 'r) hook = "'p \<Rightarrow> 'r \<Rightarrow> string option"

record ('p, 'r) action =
  action_apply :: "('p, 'r) hook option"
  action_reject :: "('p, 'r) hook option"
  action_spec_of :: "action_spec option"

type_synonym ('p, 'r) registry = "(string \<times> ('p, 'r) action) list"

definition first_some :: "'a option \<Rightarrow> 'a option \<Rightarrow> 'a option" where
  "first_some a b = (case a of Some _ \<Rightarrow> a | None \<Rightarrow> b)"

definition no_action :: "('p, 'r) action" where
  "no_action = \<lparr>action_apply = None, action_reject = None, action_spec_of = None\<rparr>"

definition entry_of :: "('p, 'r) registry \<Rightarrow> string \<Rightarrow> ('p, 'r) action" where
  "entry_of reg key = (case map_of reg key of None \<Rightarrow> no_action | Some a \<Rightarrow> a)"

definition register_action ::
  "string \<Rightarrow> ('p, 'r) hook option \<Rightarrow> ('p, 'r) hook option \<Rightarrow> action_spec option \<Rightarrow>
    ('p, 'r) registry \<Rightarrow> py_exc + ('p, 'r) registry" where
  "register_action action_type applier reject sp reg =
     (let key = strip action_type in
      if key = [] then Inl ValueError
      else let prev = entry_of reg key
        in Inr (dset key \<lparr>action_apply = first_some applier (action_apply prev),
             action_reject = first_some reject (action_reject prev),
             action_spec_of = first_some sp (first_some (action_spec_of prev) (catalog_spec key))\<rparr> reg))"

definition is_registered :: "('p, 'r) registry \<Rightarrow> string \<Rightarrow> bool" where
  "is_registered reg action_type = (map_of reg action_type \<noteq> None)"

definition is_user_submittable :: "('p, 'r) registry \<Rightarrow> string \<Rightarrow> bool" where
  "is_user_submittable reg action_type = (case action_spec_of (entry_of reg action_type) of
       None \<Rightarrow> True | Some sp \<Rightarrow> spec_user_submittable sp)"

definition has_apply :: "('p, 'r) registry \<Rightarrow> string \<Rightarrow> bool" where
  "has_apply reg action_type = (action_apply (entry_of reg action_type) \<noteq> None)"

definition has_reject :: "('p, 'r) registry \<Rightarrow> string \<Rightarrow> bool" where
  "has_reject reg action_type = (action_reject (entry_of reg action_type) \<noteq> None)"

definition owner_of :: "('p, 'r) registry \<Rightarrow> string \<Rightarrow> string" where
  "owner_of reg action_type = (case action_spec_of (entry_of reg action_type) of
       None \<Rightarrow> OWNER_CORE | Some sp \<Rightarrow> spec_owner sp)"

section \<open>Running the hooks\<close>

datatype run_error =
    NoLongerUsed string
  | NotRegistered string
  | HookRaised string

definition run_hook :: "('p, 'r) hook option \<Rightarrow> 'p \<Rightarrow> 'r \<Rightarrow> run_error option" where
  "run_hook h payload request = (case h of None \<Rightarrow> None
     | Some fn \<Rightarrow> (case fn payload request of None \<Rightarrow> None
         | Some reason \<Rightarrow> Some (HookRaised (take 1000 reason))))"

definition run_apply ::
  "('p, 'r) registry \<Rightarrow> string \<Rightarrow> 'p \<Rightarrow> 'r \<Rightarrow> run_error option" where
  "run_apply reg action_type payload request = (case map_of reg action_type of
       None \<Rightarrow> Some (if action_type \<in> set RETIRED then NoLongerUsed action_type
                     else NotRegistered action_type)
     | Some entry \<Rightarrow> run_hook (action_apply entry) payload request)"

definition run_reject ::
  "('p, 'r) registry \<Rightarrow> string \<Rightarrow> 'p \<Rightarrow> 'r \<Rightarrow> run_error option" where
  "run_reject reg action_type payload request = (case map_of reg action_type of
       None \<Rightarrow> (if action_type \<in> set RETIRED then None else Some (NotRegistered action_type))
     | Some entry \<Rightarrow> run_hook (action_reject entry) payload request)"

text \<open>Importing the module registers the catalogue and the hook of the test action.\<close>

definition register_ok ::
  "string \<times> ('p, 'r) hook option \<times> ('p, 'r) hook option \<times> action_spec option \<Rightarrow>
    ('p, 'r) registry \<Rightarrow> ('p, 'r) registry" where
  "register_ok r reg = (case r of (t, a, j, sp) \<Rightarrow>
     (case register_action t a j sp reg of Inl _ \<Rightarrow> reg | Inr reg' \<Rightarrow> reg'))"

definition initial_registry :: "('p, 'r) registry" where
  "initial_registry = register_ok (TEST, Some (\<lambda>_ _. None), None, None)
     (fold (\<lambda>sp. register_ok (spec_type sp, None, None, Some sp)) CATALOG [])"

section \<open>Lemmas\<close>

lemmas catalog_defs = CATALOG_def free_action_def gated_action_def OWNER_CORE_def OWNER_WORKFLOW_def
  GENERIC_def TEST_def

lemma first_some_simps [simp]:
  "first_some None b = b" "first_some (Some x) b = Some x"
  "first_some a b = None \<longleftrightarrow> a = None \<and> b = None"
  by (auto simp: first_some_def split: option.split)

lemma first_some_Some [simp]: "\<exists>y. first_some a (Some x) = Some y"
  by (cases a) auto

lemma entry_of_register:
  "entry_of (register_ok (t, a, j, sp) reg) key =
    (if strip t = key \<and> key \<noteq> [] then
       \<lparr>action_apply = first_some a (action_apply (entry_of reg key)),
        action_reject = first_some j (action_reject (entry_of reg key)),
        action_spec_of = first_some sp (first_some (action_spec_of (entry_of reg key)) (catalog_spec key))\<rparr>
     else entry_of reg key)"
  by (auto simp: register_ok_def register_action_def Let_def entry_of_def)

lemma registered_register:
  "is_registered (register_ok (t, a, j, sp) reg) key \<longleftrightarrow>
    is_registered reg key \<or> strip t = key \<and> key \<noteq> []"
  by (auto simp: register_ok_def register_action_def Let_def is_registered_def)

text \<open>An action that carries its own entry of the catalogue keeps it when services register
  hooks without a description of their own, and a hook, once there, is only replaced.\<close>

lemma fold_register:
  assumes "list_all (\<lambda>(_, _, _, sp). sp = None) rs"
    and "action_spec_of (entry_of reg key) = Some s"
  shows "action_spec_of (entry_of (fold register_ok rs reg) key) = Some s \<and>
    (has_apply reg key \<longrightarrow> has_apply (fold register_ok rs reg) key) \<and>
    (has_reject reg key \<longrightarrow> has_reject (fold register_ok rs reg) key) \<and>
    (is_registered reg key \<longrightarrow> is_registered (fold register_ok rs reg) key)"
  using assms
proof (induction rs arbitrary: reg)
  case (Cons r rs)
  obtain t a j sp where r: "r = (t, a, j, sp)" by (cases r)
  with Cons.prems have "sp = None" by simp
  then have "action_spec_of (entry_of (register_ok r reg) key) = Some s"
    "has_apply reg key \<Longrightarrow> has_apply (register_ok r reg) key"
    "has_reject reg key \<Longrightarrow> has_reject (register_ok r reg) key"
    "is_registered reg key \<Longrightarrow> is_registered (register_ok r reg) key"
    using Cons.prems(2) by (auto simp: r entry_of_register has_apply_def has_reject_def registered_register)
  with Cons.IH [of "register_ok r reg"] Cons.prems(1) show ?case by simp
qed simp

lemma registered_entry:
  "spec_type s \<notin> spec_type ` set sps \<Longrightarrow> list_all (\<lambda>s. strip (spec_type s) = spec_type s) sps \<Longrightarrow>
    entry_of (fold (\<lambda>sp. register_ok (spec_type sp, None, None, Some sp)) sps reg) (spec_type s) =
      entry_of reg (spec_type s) \<and>
    is_registered (fold (\<lambda>sp. register_ok (spec_type sp, None, None, Some sp)) sps reg) (spec_type s) =
      is_registered reg (spec_type s)"
  by (induction sps arbitrary: reg) (auto simp: entry_of_register registered_register)

lemma fold_catalog:
  "s \<in> set sps \<Longrightarrow> distinct (map spec_type sps) \<Longrightarrow>
    list_all (\<lambda>s. strip (spec_type s) = spec_type s \<and> spec_type s \<noteq> []) sps \<Longrightarrow>
    action_spec_of (entry_of (fold (\<lambda>sp. register_ok (spec_type sp, None, None, Some sp)) sps reg)
      (spec_type s)) = Some s \<and>
    is_registered (fold (\<lambda>sp. register_ok (spec_type sp, None, None, Some sp)) sps reg) (spec_type s)"
proof (induction sps arbitrary: reg)
  case (Cons sp sps)
  show ?case
  proof (cases "s = sp")
    case True
    with Cons.prems(2) have "spec_type s \<notin> spec_type ` set sps" by auto
    with registered_entry [OF this, of "register_ok (spec_type sp, None, None, Some sp) reg"] Cons.prems(3) True
    show ?thesis by (simp add: entry_of_register registered_register list_all_iff)
  next
    case False
    with Cons show ?thesis by simp
  qed
qed simp

lemma initial_entry:
  assumes "s \<in> set CATALOG"
  shows "action_spec_of (entry_of (initial_registry :: ('p, 'r) registry) (spec_type s)) = Some s \<and>
    is_registered (initial_registry :: ('p, 'r) registry) (spec_type s)"
proof -
  have d: "distinct (map spec_type CATALOG)" by code_simp
  have w: "list_all (\<lambda>s. strip (spec_type s) = spec_type s \<and> spec_type s \<noteq> []) CATALOG" by code_simp
  have "spec_type s \<noteq> []" using assms w by (simp add: list_all_iff)
  with fold_catalog [OF assms d w, of "[]"] show ?thesis
    by (auto simp: initial_registry_def entry_of_register registered_register)
qed

section \<open>Properties\<close>

text \<open>The gate cannot be talked open by registration: whatever hooks the services register
  later, without describing actions of their own, every action of the catalogue stays
  registered with its owner, no action that can be gated can be submitted by hand, and a
  retired action is not in the catalogue.\<close>

lemma catalogue_survives_registration:
  fixes rs :: "(string \<times> ('p, 'r) hook option \<times> ('p, 'r) hook option \<times> action_spec option) list"
  assumes "list_all (\<lambda>(_, _, _, sp). sp = None) rs" and "s \<in> set CATALOG"
  shows "is_registered (fold register_ok rs initial_registry) (spec_type s) \<and>
    owner_of (fold register_ok rs initial_registry) (spec_type s) = spec_owner s \<and>
    (is_user_submittable (fold register_ok rs initial_registry) (spec_type s) \<longleftrightarrow> \<not> spec_gated s) \<and>
    spec_type s \<notin> set RETIRED"
proof -
  have i: "action_spec_of (entry_of (initial_registry :: ('p, 'r) registry) (spec_type s)) = Some s \<and>
    is_registered (initial_registry :: ('p, 'r) registry) (spec_type s)"
    using assms(2) by (rule initial_entry)
  have "list_all (\<lambda>s. spec_user_submittable s = (\<not> spec_gated s) \<and> spec_type s \<notin> set RETIRED) CATALOG"
    by code_simp
  then have "spec_user_submittable s = (\<not> spec_gated s)" "spec_type s \<notin> set RETIRED"
    using assms(2) by (simp_all add: list_all_iff)
  then show ?thesis
    using i fold_register [OF assms(1) conjunct1 [OF i]]
    by (simp add: owner_of_def is_user_submittable_def)
qed

lemma catalogue_survives_registration_witness:
  "is_registered (fold register_ok [(''db.share'', Some (\<lambda>_ _. None), None, None)]
     (initial_registry :: (unit, unit) registry)) ''db.share'' \<and>
   owner_of (fold register_ok [(''db.share'', Some (\<lambda>_ _. None), None, None)]
     (initial_registry :: (unit, unit) registry)) ''db.share'' = ''workflow''"
proof -
  let ?s = "gated_action OWNER_WORKFLOW ''db.share''"
  have s: "?s \<in> set CATALOG" by (simp add: CATALOG_def)
  show ?thesis
    using catalogue_survives_registration [of "[(''db.share'', Some (\<lambda>_ _. None), None, None)] ::
      (string \<times> (unit, unit) hook option \<times> (unit, unit) hook option \<times> action_spec option) list" ?s] s
    by (simp add: gated_action_def OWNER_WORKFLOW_def)
qed

end
