(* ===== verification/ApprovalLedger.thy ===== *)
theory ApprovalLedger
  imports ApprovalEngine ApprovalRegistry
begin

text \<open>
  \<open>src/xgen_sdk/approval/store.py\<close>, the written ledger of requests: what each operation reads
  and writes, statement by statement, for requests without a follow-up line.

  An \<open>entry\<close> is the row of a request with its rows of steps and blocks; every statement names
  one request, so a statement is a function on an entry (with the number of matched rows
  where the code asks for it). \<open>en_effects\<close> records the calls of the services' hooks. The
  clock readings of an operation are its arguments.
\<close>

section \<open>The ledger\<close>

datatype effect = BlockApplied pydict | ActionApplied | ActionCleared

datatype failure = BlockFailure string | ActionFailure run_error

text \<open>The follow-up lines fixed for a request when it was submitted.\<close>

record followup_config =
  fc_version :: int
  fc_enabled :: bool
  fc_required :: bool
  fc_source :: int
  fc_lines :: "int list"

record entry =
  en_request :: request
  en_steps :: "step list"
  en_blocks :: "pydict list"
  en_action :: string
  en_target :: "string option"
  en_payload :: pyval
  en_applied_at :: "time option"
  en_claimed_at :: "time option"
  en_apply_error :: "failure list"
  en_canceled_by :: "string option"
  en_cancel_note :: "string option"
  en_followup :: "followup_config option"
  en_effects :: "effect list"

type_synonym block_applier = "entry \<Rightarrow> pydict \<Rightarrow> pyval \<Rightarrow> string option"

text \<open>What the process around the ledger has: the decoder and encoder of stored values, the
  registered hooks, the lease of a claim and whether the claim column exists yet.\<close>

record services =
  sv_loads :: decoder
  sv_dumps :: "pyval \<Rightarrow> string"
  sv_actions :: "(pyval, entry) registry"
  sv_appliers :: "(string \<times> block_applier) list"
  sv_lease :: time
  sv_can_claim :: bool

definition view :: "entry \<Rightarrow> request \<times> step list" where
  "view e = (en_request e, en_steps e)"

definition normalized :: "pydict \<Rightarrow> pydict" where
  "normalized row =
     (let out = (if is_retired (dget row ''block_type'')
            then dset ''required'' (PBool False) (dset ''retired'' (PBool True) row) else row)
      in if map_of out ''block_type'' = None then out
         else dset ''block_type'' (PStr (normalize_block_type (dget out ''block_type''))) out)"

definition list_request_blocks :: "entry \<Rightarrow> pydict list" where
  "list_request_blocks e = map normalized (en_blocks e)"

section \<open>Hooks after a decision\<close>

definition register_applier ::
  "pyval \<Rightarrow> block_applier \<Rightarrow> (string \<times> block_applier) list \<Rightarrow> (string \<times> block_applier) list" where
  "register_applier block_type fn appliers = dset (normalize_block_type block_type) fn appliers"

definition applier_of :: "(string \<times> block_applier) list \<Rightarrow> pyval \<Rightarrow> block_applier option" where
  "applier_of appliers block_type = map_of appliers (normalize_block_type block_type)"

fun apply_blocks :: "services \<Rightarrow> entry \<Rightarrow> pydict list \<Rightarrow> failure list \<times> effect list" where
  "apply_blocks sv loaded [] = ([], [])"
| "apply_blocks sv loaded (b # bs) =
     (let (errs, effs) = apply_blocks sv loaded bs in
      case applier_of (sv_appliers sv) (dget b ''block_type'') of
        None \<Rightarrow> (errs, effs)
      | Some fn \<Rightarrow>
          (let data = parse_data (sv_loads sv) (dget b ''data'') in
           if data = PNone then (errs, effs)
           else case fn loaded b data of
                  None \<Rightarrow> (errs, BlockApplied b # effs)
                | Some reason \<Rightarrow> (BlockFailure reason # errs, BlockApplied b # effs)))"

text \<open>\<open>_claim_apply\<close>: \<open>None\<close> where the claim cannot be recorded.\<close>

definition claim_apply :: "services \<Rightarrow> time \<Rightarrow> entry \<Rightarrow> bool option \<times> entry" where
  "claim_apply sv now e =
     (if \<not> sv_can_claim sv then (None, e)
      else if en_applied_at e = None \<and>
          (case en_claimed_at e of None \<Rightarrow> True | Some t \<Rightarrow> t < now - sv_lease sv)
      then (Some True, e\<lparr>en_claimed_at := Some now\<rparr>)
      else (Some False, e))"

definition hook_failures :: "run_error option \<Rightarrow> failure list" where
  "hook_failures r = (case r of None \<Rightarrow> [] | Some x \<Rightarrow> [ActionFailure x])"

definition run_hooks :: "services \<Rightarrow> string \<Rightarrow> entry \<Rightarrow> status \<Rightarrow> failure list \<times> effect list" where
  "run_hooks sv action_type loaded st =
     (if st = APPROVED then
        let (errs, effs) = apply_blocks sv loaded (list_request_blocks loaded)
        in (errs @ hook_failures (run_apply (sv_actions sv) action_type (en_payload loaded) loaded),
            effs @ (if has_apply (sv_actions sv) action_type then [ActionApplied] else []))
      else (hook_failures (run_reject (sv_actions sv) action_type (en_payload loaded) loaded),
            if has_reject (sv_actions sv) action_type then [ActionCleared] else []))"

definition stamp_applied :: "time \<Rightarrow> failure list \<Rightarrow> entry \<Rightarrow> entry" where
  "stamp_applied now errs e = (if en_applied_at e = None
     then e\<lparr>en_applied_at := Some now, en_apply_error := errs\<rparr> else e)"

definition finish ::
  "services \<Rightarrow> time \<Rightarrow> time \<Rightarrow> string \<Rightarrow> entry \<Rightarrow> status \<Rightarrow> entry \<Rightarrow> failure list \<times> entry" where
  "finish sv claim_now stamp_now action_type loaded st e =
     (case claim_apply sv claim_now e of
        (Some False, e1) \<Rightarrow> ([], e1)
      | (_, e1) \<Rightarrow>
          (let (errs, effs) = run_hooks sv action_type loaded st
           in (errs, stamp_applied stamp_now errs (e1\<lparr>en_effects := en_effects e1 @ effs\<rparr>))))"

definition or_generic :: "string \<Rightarrow> string" where
  "or_generic a = (if a = [] then GENERIC else a)"

definition settle_hooks :: "services \<Rightarrow> time \<Rightarrow> time \<Rightarrow> entry \<Rightarrow> entry \<Rightarrow> entry" where
  "settle_hooks sv claim_now stamp_now loaded e =
     (let action_type = or_generic (en_action loaded);
          st = (if req_status (en_request loaded) = OTHER [] then APPROVED
                else req_status (en_request loaded));
          mine = (has_apply (sv_actions sv) action_type \<or> has_reject (sv_actions sv) action_type \<or>
            owner_of (sv_actions sv) action_type = OWNER_CORE)
      in if mine then snd (finish sv claim_now stamp_now action_type loaded st e) else e)"

section \<open>Deciding\<close>

text \<open>The conditional writes: each returns whether it matched a row.\<close>

definition write_step :: "int \<Rightarrow> status \<Rightarrow> string \<Rightarrow> time \<Rightarrow> entry \<Rightarrow> bool \<times> entry" where
  "write_step actor action nt now e =
     (let mine = (\<lambda>s. approver_id s = actor \<and> step_status s = PENDING)
      in (list_ex mine (en_steps e),
          e\<lparr>en_steps := map (\<lambda>s. if mine s then signed action nt now s else s) (en_steps e)\<rparr>))"

definition move_request ::
  "status \<Rightarrow> int \<Rightarrow> time option \<Rightarrow> int \<Rightarrow> entry \<Rightarrow> bool \<times> entry" where
  "move_request st nxt decided current e =
     (if req_status (en_request e) = PENDING \<and> current_step_order (en_request e) = current
      then (True, e\<lparr>en_request := (en_request e)\<lparr>req_status := st, current_step_order := nxt,
              decided_at := decided\<rparr>\<rparr>)
      else (False, e))"

definition skip_rows :: "entry \<Rightarrow> entry" where
  "skip_rows e = e\<lparr>en_steps := map skip_open (en_steps e)\<rparr>"

definition open_next :: "int \<Rightarrow> entry \<Rightarrow> entry" where
  "open_next nxt e = e\<lparr>en_steps := map (\<lambda>s. if step_order s = nxt \<and> step_status s = WAITING
     then s\<lparr>step_status := PENDING\<rparr> else s) (en_steps e)\<rparr>"

definition follow_up_rows :: "status \<Rightarrow> int \<Rightarrow> entry \<Rightarrow> entry" where
  "follow_up_rows st nxt e = (if st = REJECTED then skip_rows e
     else if st = PENDING then open_next nxt e else e)"

text \<open>The clock readings of one operation: of the decision, the claim and the stamp.\<close>

record clock =
  t_now :: time
  t_claim :: time
  t_stamp :: time

definition store_decide ::
  "services \<Rightarrow> clock \<Rightarrow> entry \<Rightarrow> int \<Rightarrow> status \<Rightarrow> string \<Rightarrow> approval_error + entry" where
  "store_decide sv ck e actor action nt =
     (let now = t_now ck; current = current_of (en_request e) in
      ebind (decide (sv_loads sv) (en_request e) (en_steps e) actor action nt now
          (list_request_blocks e)) (\<lambda>_.
        let (won_step, e1) = write_step actor action nt now e in
        if \<not> won_step then Inl AlreadyActed
        else
          let (st, nxt, decided) = advance (en_steps e1) current now;
              moved = (st \<noteq> PENDING \<or> nxt \<noteq> current);
              (own, e2) = (if moved then move_request st nxt decided current e1 else (False, e1))
          in if \<not> own then Inr e2
             else let e3 = follow_up_rows st nxt e2
               in Inr (if st \<in> {APPROVED, REJECTED}
                       then settle_hooks sv (t_claim ck) (t_stamp ck) e3 e3 else e3)))"

section \<open>Withdrawing\<close>

definition close_request :: "time \<Rightarrow> string \<Rightarrow> string \<Rightarrow> entry \<Rightarrow> entry" where
  "close_request now by nt e = (if req_status (en_request e) = PENDING
     then e\<lparr>en_request := (en_request e)\<lparr>req_status := CANCELED, decided_at := Some now\<rparr>,
            en_canceled_by := Some by, en_cancel_note := (if nt = [] then None else Some nt)\<rparr>
     else e)"

definition close_as_canceled :: "services \<Rightarrow> clock \<Rightarrow> string \<Rightarrow> string \<Rightarrow> entry \<Rightarrow> entry" where
  "close_as_canceled sv ck by nt e =
     (let e1 = close_request (t_now ck) by nt (skip_rows e)
      in settle_hooks sv (t_claim ck) (t_stamp ck) e1 e1)"

definition store_cancel :: "services \<Rightarrow> clock \<Rightarrow> entry \<Rightarrow> int \<Rightarrow> approval_error + entry" where
  "store_cancel sv ck e actor =
     ebind (cancel (en_request e) (en_steps e) actor (t_now ck)) (\<lambda>_.
       Inr (close_as_canceled sv ck ''requester'' [] e))"

definition system_cancel :: "services \<Rightarrow> clock \<Rightarrow> string \<Rightarrow> entry \<Rightarrow> entry" where
  "system_cancel sv ck nt e =
     (if req_status (en_request e) \<noteq> PENDING then e
      else close_as_canceled sv ck ''system'' (take 500 nt) e)"

section \<open>Settling by the owning service\<close>

definition settle :: "services \<Rightarrow> clock \<Rightarrow> entry \<Rightarrow> entry" where
  "settle sv ck e =
     (if en_applied_at e \<noteq> None \<or> req_status (en_request e) = PENDING then e
      else snd (finish sv (t_claim ck) (t_stamp ck) (or_generic (en_action e)) e
             (req_status (en_request e)) e))"

section \<open>The whole table\<close>

text \<open>The table of requests, in the order of the ids.\<close>

type_synonym ledger_db = "(int \<times> entry) list"

definition find_pending_for_target :: "ledger_db \<Rightarrow> string \<Rightarrow> string \<Rightarrow> int option" where
  "find_pending_for_target db action_type target_ref =
     (if target_ref = [] then None
      else case rev (filter (\<lambda>(_, e). en_action e = action_type \<and> en_target e = Some target_ref \<and>
               req_status (en_request e) = PENDING) db) of
             [] \<Rightarrow> None
           | (k, _) # _ \<Rightarrow> Some k)"

definition claim_settlements :: "ledger_db \<Rightarrow> string list \<Rightarrow> int \<Rightarrow> int list" where
  "claim_settlements db action_types limit =
     (if action_types = [] then []
      else take (nat (max 1 (min limit 200)))
        (map fst (filter (\<lambda>(_, e). en_applied_at e = None \<and>
          req_status (en_request e) \<in> set TERMINAL \<and> en_action e \<in> set action_types) db)))"

definition retire_actions :: "services \<Rightarrow> clock \<Rightarrow> string \<Rightarrow> ledger_db \<Rightarrow> ledger_db" where
  "retire_actions sv ck nt db = map (\<lambda>(k, e).
     (k, if req_status (en_request e) = PENDING \<and> en_action e \<in> set RETIRED
         then system_cancel sv ck nt e else e)) db"

definition can_read :: "entry \<Rightarrow> int \<Rightarrow> bool \<Rightarrow> bool" where
  "can_read e user_id is_admin \<longleftrightarrow> is_admin \<or> requester_id (en_request e) = user_id \<or>
     list_ex (\<lambda>s. approver_id s = user_id) (en_steps e)"

section \<open>Lemmas\<close>

definition entry_ok :: "entry \<Rightarrow> bool" where
  "entry_ok e \<longleftrightarrow> ledger_ok (view e) \<and>
     (req_status (en_request e) = PENDING \<longrightarrow> decided_at (en_request e) = None)"

lemma claim_apply_view:
  "en_request (snd (claim_apply sv t e)) = en_request e" "en_steps (snd (claim_apply sv t e)) = en_steps e"
  by (simp_all add: claim_apply_def)

lemma stamp_applied_view [simp]:
  "en_request (stamp_applied t errs e) = en_request e" "en_steps (stamp_applied t errs e) = en_steps e"
  by (simp_all add: stamp_applied_def)

lemma finish_view:
  "en_request (snd (finish sv a b ty l st e)) = en_request e"
  "en_steps (snd (finish sv a b ty l st e)) = en_steps e"
  using claim_apply_view [of sv a e]
  by (auto simp: finish_def Let_def split: prod.split option.split bool.split)

lemma settle_hooks_view [simp]:
  "en_request (settle_hooks sv a b l e) = en_request e"
  "en_steps (settle_hooks sv a b l e) = en_steps e"
  by (simp_all add: settle_hooks_def Let_def finish_view)

lemma settle_view: "view (settle sv ck e) = view e"
  by (simp add: settle_def view_def finish_view)

text \<open>The signed row is the one the rules chose.\<close>

lemma map_signed:
  assumes ok: "ledger_ok (rq, steps)" and i: "i < length steps" "step_status (steps ! i) = PENDING"
    "approver_id (steps ! i) = actor" and live: "req_status rq \<notin> {APPROVED, REJECTED, CANCELED}"
  shows "map (\<lambda>s. if approver_id s = actor \<and> step_status s = PENDING then signed action nt now s else s) steps =
    steps[i := signed action nt now (steps ! i)]"
proof (rule nth_equalityI)
  fix j assume j: "j < length (map (\<lambda>s. if approver_id s = actor \<and> step_status s = PENDING
    then signed action nt now s else s) steps)"
  have "j = i" if "step_status (steps ! j) = PENDING"
  proof -
    have "step_order (steps ! j) = step_order (steps ! i)"
      using pending_order(2) [OF ok _ that live] pending_order(2) [OF ok i(1,2) live] j by simp
    then show ?thesis using ok i(1) j by (simp add: distinct_conv_nth) blast
  qed
  with i j show "map (\<lambda>s. if approver_id s = actor \<and> step_status s = PENDING
      then signed action nt now s else s) steps ! j = steps[i := signed action nt now (steps ! i)] ! j"
    by (auto simp: nth_list_update)
qed simp

lemma advance_signed:
  assumes ok: "ledger_ok (rq, steps)" and i: "i < length steps" "step_status (steps ! i) = PENDING"
    and live: "req_status rq \<notin> {APPROVED, REJECTED, CANCELED}" and a: "action \<in> {APPROVED, REJECTED}"
    and out: "out = steps[i := signed action nt now (steps ! i)]"
  shows "advance out (current_step_order rq) now =
    (if action = REJECTED then (REJECTED, current_step_order rq, Some now)
     else case later_orders out (current_step_order rq) of
       [] \<Rightarrow> (APPROVED, current_step_order rq, Some now) | nxt # _ \<Rightarrow> (PENDING, nxt, None))"
proof -
  let ?c = "current_step_order rq"
  note pend = pending_order [OF ok i live]
  have d: "distinct (map step_order steps)" using ok by simp
  have set: "set out = insert (signed action nt now (steps ! i)) {s \<in> set steps. step_order s \<noteq> ?c}"
    using set_update_order [OF d i(1)] pend(2) by (simp add: out)
  have mine: "signed action nt now (steps ! i) \<in> set out" by (simp add: set)
  show ?thesis
  proof (cases "action = REJECTED")
    case True
    then have "list_ex (\<lambda>s. step_status s = REJECTED) out"
      using bexI [OF _ mine, of "\<lambda>s. step_status s = REJECTED"] by (simp add: list_ex_iff)
    then show ?thesis using True by (simp add: advance_def)
  next
    case False
    then have act: "action = APPROVED" using a by simp
    have "step_status s \<noteq> REJECTED" if "s \<in> set out" for s
      using that act ok pend(1) by (auto simp: set list_all_iff split: if_splits)
    then have no: "\<not> list_ex (\<lambda>s. step_status s = REJECTED) out" by (auto simp: list_ex_iff)
    have here: "filter (\<lambda>s. step_order s = ?c) out \<noteq> []"
      using bexI [OF _ mine, of "\<lambda>s. step_order s = ?c"] pend(2) by (simp add: filter_empty_conv)
    have "\<not> list_ex (\<lambda>s. step_status s \<noteq> APPROVED) (filter (\<lambda>s. step_order s = ?c) out)"
      using act by (auto simp: list_ex_iff set)
    with no here show ?thesis using False by (simp add: advance_def)
  qed
qed

text \<open>Opening the next step in the rows is opening it in the rules.\<close>

lemma open_next_rows:
  assumes ok: "ledger_ok (rq, steps)" and i: "i < length steps" "step_status (steps ! i) = PENDING"
    and live: "req_status rq \<notin> {APPROVED, REJECTED, CANCELED}"
    and out: "out = steps[i := signed action nt now (steps ! i)]"
    and later: "later_orders out (current_step_order rq) = nxt # r"
  shows "map (\<lambda>s. if step_order s = nxt \<and> step_status s = WAITING then s\<lparr>step_status := PENDING\<rparr> else s) out =
    map (\<lambda>s. if step_order s = nxt then s\<lparr>step_status := PENDING\<rparr> else s) out"
proof (rule map_cong)
  fix s assume s: "s \<in> set out"
  note pend = pending_order [OF ok i live]
  have d: "distinct (map step_order steps)" using ok by simp
  have "step_status s = WAITING" if "step_order s = nxt"
    using s that later_Cons(2) [OF later] set_update_order [OF d i(1)] pend ok
    by (auto simp: out list_all_iff)
  then show "(if step_order s = nxt \<and> step_status s = WAITING then s\<lparr>step_status := PENDING\<rparr> else s) =
      (if step_order s = nxt then s\<lparr>step_status := PENDING\<rparr> else s)" by simp
qed simp

text \<open>Who gets to claim, over a list of attempts at given times.\<close>

fun winners :: "services \<Rightarrow> time list \<Rightarrow> entry \<Rightarrow> time list" where
  "winners sv [] e = []"
| "winners sv (t # ts) e = (case claim_apply sv t e of
     (Some True, e') \<Rightarrow> t # winners sv ts e'
   | (_, e') \<Rightarrow> winners sv ts e')"

lemma winners_after:
  assumes "sv_can_claim sv" "en_claimed_at e = Some c" "u \<in> set (winners sv ts e)"
    and "sorted ts" "list_all (\<lambda>t. c \<le> t) ts" "0 \<le> sv_lease sv"
  shows "c + sv_lease sv < u"
  using assms
proof (induction ts arbitrary: e c)
  case (Cons t ts)
  show ?case
  proof (cases "en_applied_at e = None \<and> c < t - sv_lease sv")
    case True
    then have cl: "claim_apply sv t e = (Some True, e\<lparr>en_claimed_at := Some t\<rparr>)"
      using Cons.prems by (simp add: claim_apply_def)
    with Cons.prems(3) consider "u = t" | "u \<in> set (winners sv ts (e\<lparr>en_claimed_at := Some t\<rparr>))"
      by auto
    then show ?thesis
    proof cases
      case 2
      then have "t + sv_lease sv < u"
        using Cons.prems by (intro Cons.IH [of "e\<lparr>en_claimed_at := Some t\<rparr>"]) (auto simp: list_all_iff)
      then show ?thesis using True Cons.prems(6) by simp
    qed (use True in simp)
  next
    case False
    then have "claim_apply sv t e = (Some False, e)"
      using Cons.prems by (simp add: claim_apply_def)
    with Cons.prems show ?thesis by (intro Cons.IH [of e]) auto
  qed
qed simp

lemma settle_applied: "en_applied_at e \<noteq> None \<Longrightarrow> settle sv ck e = e"
  by (simp add: settle_def)

lemma settle_all_applied: "en_applied_at e \<noteq> None \<Longrightarrow> foldl (\<lambda>e ck. settle sv ck e) e cks = e"
  by (induction cks) (auto simp: settle_applied)

lemma fresh_claim:
  "en_applied_at e = None \<Longrightarrow> en_claimed_at e = None \<Longrightarrow>
    claim_apply sv t e = (if sv_can_claim sv then (Some True, e\<lparr>en_claimed_at := Some t\<rparr>) else (None, e))"
  by (simp add: claim_apply_def)

text \<open>Statement by statement, a decision does what the rules say.\<close>

lemma store_decide_view:
  assumes "entry_ok e"
  shows "map_sum id view (store_decide sv ck e actor action nt) =
    decide (sv_loads sv) (en_request e) (en_steps e) actor action nt (t_now ck) (list_request_blocks e)"
proof (cases "decide (sv_loads sv) (en_request e) (en_steps e) actor action nt (t_now ck) (list_request_blocks e)")
  case (Inl x)
  then show ?thesis by (simp add: store_decide_def)
next
  case (Inr st)
  let ?rq = "en_request e" and ?steps = "en_steps e" and ?now = "t_now ck"
  have ok: "ledger_ok (?rq, ?steps)" and dn: "req_status ?rq = PENDING \<Longrightarrow> decided_at ?rq = None"
    using assms by (simp_all add: entry_ok_def view_def)
  from Inr show ?thesis
  proof (cases rule: decide_Inr)
    case (1 i)
    define out where "out = ?steps[i := signed action nt ?now (?steps ! i)]"
    note pend = pending_order [OF ok 1(1,3,5)]
    have won: "write_step actor action nt ?now e = (True, e\<lparr>en_steps := out\<rparr>)"
      using map_signed [OF ok 1(1,3,2,5)] 1(1-3)
      by (auto simp: write_step_def out_def list_ex_iff Let_def intro!: bexI [of _ "?steps ! i"])
    note adv = advance_signed [OF ok 1(1,3,5,4) out_def]
    have dec: "decided_at ?rq = None" using dn pend(1) by simp
    show ?thesis
    proof (cases "action = REJECTED")
      case True
      then show ?thesis using Inr 1(7) won adv pend
        by (simp add: store_decide_def move_request_def follow_up_rows_def skip_rows_def
            pass_on_def view_def Let_def out_def)
    next
      case False
      show ?thesis
      proof (cases "later_orders out (current_step_order ?rq)")
        case Nil
        then show ?thesis using Inr 1(7) won adv pend False
          by (simp add: store_decide_def move_request_def follow_up_rows_def
              pass_on_def view_def Let_def flip: out_def)
      next
        case (Cons nxt r)
        have "nxt \<noteq> current_step_order ?rq" using later_Cons(2) [OF Cons] by simp
        then show ?thesis
          using Inr 1(7) won adv pend False Cons dec open_next_rows [OF ok 1(1,3,5) out_def Cons]
          by (simp add: store_decide_def move_request_def follow_up_rows_def open_next_def
              pass_on_def view_def Let_def flip: out_def)
      qed
    qed
  qed
qed

lemma store_cancel_view:
  assumes "entry_ok e"
  shows "map_sum id view (store_cancel sv ck e actor) =
    cancel (en_request e) (en_steps e) actor (t_now ck)"
proof -
  have "req_status (en_request e) \<in> {PENDING, APPROVED, REJECTED, CANCELED}"
    using assms by (simp add: entry_ok_def view_def)
  then show ?thesis
    by (auto simp: store_cancel_def cancel_def close_as_canceled_def close_request_def
        skip_rows_def view_def Let_def)
qed

text \<open>No statement of these operations touches the blocks.\<close>

lemma settle_hooks_blocks [simp]: "en_blocks (settle_hooks sv a b l e) = en_blocks e"
  by (auto simp: settle_hooks_def finish_def claim_apply_def stamp_applied_def Let_def split: prod.split)

lemma settle_blocks: "en_blocks (settle sv ck e) = en_blocks e"
  by (auto simp: settle_def finish_def claim_apply_def stamp_applied_def Let_def split: prod.split)

lemma store_decide_blocks: "store_decide sv ck e actor action nt = Inr e' \<Longrightarrow> en_blocks e' = en_blocks e"
  by (auto simp: store_decide_def write_step_def move_request_def follow_up_rows_def skip_rows_def
      open_next_def Let_def ebind_Inr split: prod.splits if_splits)

lemma close_as_canceled_blocks: "en_blocks (close_as_canceled sv ck by nt e) = en_blocks e"
  by (simp add: close_as_canceled_def close_request_def skip_rows_def Let_def)

section \<open>Properties\<close>

text \<open>C16. The written ledger does what the rules say: on a good entry, deciding through the
  conditional statements of the store, run without interference, refuses exactly what the
  rules refuse, with the same error, and otherwise leaves exactly the request and steps the
  rules return; settling hooks does not touch them.\<close>

theorem store_decide_refines_rules:
  assumes "entry_ok e"
  shows "map_sum id view (store_decide sv ck e actor action nt) =
    decide (sv_loads sv) (en_request e) (en_steps e) actor action nt (t_now ck) (list_request_blocks e)"
  using assms by (rule store_decide_view)

definition w_services :: services where
  "w_services = \<lparr>sv_loads = (\<lambda>_. None), sv_dumps = (\<lambda>_. []), sv_actions = [], sv_appliers = [], sv_lease = 600,
     sv_can_claim = True\<rparr>"

definition w_entry :: entry where
  "w_entry = \<lparr>en_request = fst w_line, en_steps = snd w_line, en_blocks = [],
     en_action = ''generic'', en_target = None, en_payload = PNone, en_applied_at = None,
     en_claimed_at = None, en_apply_error = [], en_canceled_by = None, en_cancel_note = None,
     en_followup = None, en_effects = []\<rparr>"

definition w_clock :: clock where
  "w_clock = \<lparr>t_now = 5, t_claim = 6, t_stamp = 7\<rparr>"

lemma w_entry_ok [simp]: "entry_ok w_entry"
  by (simp add: entry_ok_def w_entry_def view_def w_line_def w_request_def w_step_def)

theorem store_decide_refines_rules_witness:
  "map_sum id view (store_decide w_services w_clock w_entry 7 APPROVED ''ok'') =
    decide (\<lambda>_. None) (fst w_line) (snd w_line) 7 APPROVED ''ok'' 5 []"
  using store_decide_refines_rules [OF w_entry_ok, of w_services w_clock 7 APPROVED "''ok''"]
  by (simp add: w_services_def w_clock_def w_entry_def list_request_blocks_def)

text \<open>Withdrawing through the store is withdrawing by the rules, and the system's own withdrawal
  closes a pending request without touching what was signed: every approved step stays.\<close>

lemma store_cancel_refines_rules:
  assumes "entry_ok e"
  shows "map_sum id view (store_cancel sv ck e actor) =
      cancel (en_request e) (en_steps e) actor (t_now ck) \<and>
    (req_status (en_request e) = PENDING \<longrightarrow>
      req_status (en_request (system_cancel sv ck nt e)) = CANCELED) \<and>
    filter (\<lambda>s. step_status s = APPROVED) (en_steps (system_cancel sv ck nt e)) =
      filter (\<lambda>s. step_status s = APPROVED) (en_steps e)"
proof (intro conjI impI)
  show "map_sum id view (store_cancel sv ck e actor) =
      cancel (en_request e) (en_steps e) actor (t_now ck)"
    using assms by (rule store_cancel_view)
  show "req_status (en_request (system_cancel sv ck nt e)) = CANCELED"
    if "req_status (en_request e) = PENDING"
    using that by (simp add: system_cancel_def close_as_canceled_def close_request_def skip_rows_def Let_def)
  have "filter (\<lambda>s. step_status s = APPROVED) (map skip_open ss) =
      filter (\<lambda>s. step_status s = APPROVED) ss" for ss
    by (induction ss) (auto simp: skip_open_def)
  then show "filter (\<lambda>s. step_status s = APPROVED) (en_steps (system_cancel sv ck nt e)) =
      filter (\<lambda>s. step_status s = APPROVED) (en_steps e)"
    by (simp add: system_cancel_def close_as_canceled_def close_request_def skip_rows_def Let_def)
qed

lemma store_cancel_refines_rules_witness:
  "map_sum id view (store_cancel w_services w_clock w_entry 3) =
      cancel (fst w_line) (snd w_line) 3 5 \<and>
   req_status (en_request (system_cancel w_services w_clock [] w_entry)) = CANCELED"
  using store_cancel_refines_rules [OF w_entry_ok, of w_services w_clock 3 "[]"]
  by (simp add: w_clock_def w_entry_def w_line_def w_request_def)

text \<open>C17. A decided request is settled once: where claims can be recorded and nobody has claimed it,
  the first settling runs the hooks of the decision, stamps the request with the outcome, and
  every later settling, at whatever times, leaves the entry and the record of hook calls as
  they are.\<close>

theorem settled_exactly_once:
  assumes "sv_can_claim sv" and "en_applied_at e = None" and "en_claimed_at e = None"
    and "closed (view e)"
  shows "foldl (\<lambda>e ck. settle sv ck e) e (ck # cks) = settle sv ck e \<and>
    en_applied_at (settle sv ck e) = Some (t_stamp ck) \<and>
    en_effects (settle sv ck e) = en_effects e @
      snd (run_hooks sv (or_generic (en_action e)) e (req_status (en_request e))) \<and>
    en_apply_error (settle sv ck e) =
      fst (run_hooks sv (or_generic (en_action e)) e (req_status (en_request e)))"
proof -
  have np: "req_status (en_request e) \<noteq> PENDING" using assms(4) by (auto simp: view_def)
  obtain errs effs where r: "run_hooks sv (or_generic (en_action e)) e (req_status (en_request e)) = (errs, effs)"
    by (cases "run_hooks sv (or_generic (en_action e)) e (req_status (en_request e))")
  have s: "settle sv ck e = stamp_applied (t_stamp ck) errs
      (e\<lparr>en_claimed_at := Some (t_claim ck), en_effects := en_effects e @ effs\<rparr>)"
    using assms np r by (simp add: settle_def finish_def fresh_claim)
  then have a: "en_applied_at (settle sv ck e) = Some (t_stamp ck)"
    using assms(2) by (simp add: stamp_applied_def)
  then have "foldl (\<lambda>e ck. settle sv ck e) (settle sv ck e) cks = settle sv ck e"
    by (intro settle_all_applied) simp
  then show ?thesis using a s r assms(2) by (simp add: stamp_applied_def)
qed

theorem settled_exactly_once_witness:
  "en_applied_at (settle w_services w_clock (w_entry\<lparr>en_request := w_request\<lparr>req_status := REJECTED\<rparr>\<rparr>)) = Some 7"
  using settled_exactly_once [of w_services "w_entry\<lparr>en_request := w_request\<lparr>req_status := REJECTED\<rparr>\<rparr>" w_clock "[]"]
  by (simp add: w_services_def w_entry_def w_clock_def view_def)

text \<open>Two workers never hold the same settlement at once: over attempts at nondecreasing times,
  in whatever state the claim column was, two successful claims of a request are more than the
  lease apart.\<close>

lemma claims_are_a_lease_apart:
  assumes "sv_can_claim sv" and "sorted ts" and "0 \<le> sv_lease sv"
  shows "sorted_wrt (\<lambda>t u. t + sv_lease sv < u) (winners sv ts e)"
  using assms(2)
proof (induction ts arbitrary: e)
  case (Cons t ts)
  have IH: "sorted_wrt (\<lambda>t u. t + sv_lease sv < u) (winners sv ts e')" for e'
    using Cons by simp
  show ?case
  proof (cases "claim_apply sv t e")
    case (Pair r e')
    show ?thesis
    proof (cases "r = Some True")
      case True
      then have "en_claimed_at e' = Some t"
        using Pair by (auto simp: claim_apply_def split: if_splits)
      then have "\<forall>u\<in>set (winners sv ts e'). t + sv_lease sv < u"
        using winners_after [OF assms(1)] Cons.prems assms(3) by (auto simp: list_all_iff)
      with Pair True IH show ?thesis by simp
    next
      case False
      then have "winners sv (t # ts) e = winners sv ts e'"
        using Pair by (auto split: option.split bool.split)
      then show ?thesis using IH by simp
    qed
  qed
qed simp

lemma claims_are_a_lease_apart_witness:
  "winners w_services [5, 6, 700] w_entry = [5, 700] \<and>
   sorted_wrt (\<lambda>t u. t + 600 < u) (winners w_services [5, 6, 700] w_entry)"
proof -
  have w: "winners w_services [5, 6, 700] w_entry = [5, 700]" by code_simp
  show ?thesis
    using claims_are_a_lease_apart [of w_services "[5, 6, 700]" w_entry] w
    by (simp add: w_services_def)
qed

text \<open>A request of a retired action does not hang: with no hook registered for it, the clean-up
  at start-up closes every pending one as canceled by the system, stamps it as settled and
  records no failure.\<close>

lemma retired_requests_end_cleanly:
  assumes "(k, e) \<in> set db" and "req_status (en_request e) = PENDING" and "en_action e \<in> set RETIRED"
    and "map_of (sv_actions sv) (en_action e) = None"
    and "en_applied_at e = None" and "en_claimed_at e = None"
  shows "\<exists>e'. (k, e') \<in> set (retire_actions sv ck nt db) \<and>
    req_status (en_request e') = CANCELED \<and> en_canceled_by e' = Some ''system'' \<and>
    en_applied_at e' = Some (t_stamp ck) \<and> en_apply_error e' = []"
proof -
  let ?e = "system_cancel sv ck nt e"
  have g: "or_generic (en_action e) = en_action e"
    using assms(3) by (auto simp: or_generic_def RETIRED_def)
  have core: "owner_of (sv_actions sv) (en_action e) = OWNER_CORE"
    using assms(4) by (simp add: owner_of_def entry_of_def no_action_def)
  define e1 where "e1 = close_request (t_now ck) ''system'' (take 500 nt) (skip_rows e)"
  have e1: "en_action e1 = en_action e" "en_applied_at e1 = None" "en_claimed_at e1 = None"
    "req_status (en_request e1) = CANCELED" "en_canceled_by e1 = Some ''system''"
    using assms(2,5,6) by (simp_all add: e1_def close_request_def skip_rows_def)
  have rh: "run_hooks sv (en_action e) e1 CANCELED = ([], [])"
    using assms(3,4) by (simp add: run_hooks_def run_reject_def hook_failures_def has_reject_def
        entry_of_def no_action_def)
  have "?e = settle_hooks sv (t_claim ck) (t_stamp ck) e1 e1"
    using assms(2) by (simp add: system_cancel_def close_as_canceled_def e1_def Let_def)
  then have "?e = stamp_applied (t_stamp ck) []
      ((snd (claim_apply sv (t_claim ck) e1))\<lparr>en_effects := en_effects e1\<rparr>)"
    using e1 g core rh
    by (cases "sv_can_claim sv") (simp_all add: settle_hooks_def finish_def fresh_claim Let_def)
  moreover have "(k, ?e) \<in> set (retire_actions sv ck nt db)"
    using assms(1-3) by (force simp: retire_actions_def image_iff)
  ultimately show ?thesis using e1
    by (intro exI [of _ ?e]) (simp add: stamp_applied_def fresh_claim)
qed

lemma retired_requests_end_cleanly_witness:
  "\<exists>e'. (4, e') \<in> set (retire_actions w_services w_clock [] [(4, w_entry\<lparr>en_action := ''cloud.upload''\<rparr>)]) \<and>
    req_status (en_request e') = CANCELED \<and> en_canceled_by e' = Some ''system'' \<and>
    en_applied_at e' = Some (t_stamp w_clock) \<and> en_apply_error e' = []"
  by (rule retired_requests_end_cleanly [of 4 "w_entry\<lparr>en_action := ''cloud.upload''\<rparr>"])
    (simp_all add: w_entry_def w_services_def w_line_def w_request_def RETIRED_def)

end
