(* ===== verification/ApprovalRace.thy ===== *)
theory ApprovalRace
  imports ApprovalLedger
begin

text \<open>
  Several calls of \<open>store.decide\<close> and \<open>store.cancel\<close> on one request at the same time
  (\<open>src/xgen_sdk/approval/store.py\<close>). Every SQL statement is one indivisible step; between
  two statements of a call any statements of other calls may run. A schedule is a list of
  thread numbers; running it is a function, so that schedules can be evaluated.
\<close>

section \<open>Threads\<close>

text \<open>Where a call stands: the next statement it will run, with what it has read. The flag of
  \<open>Withdrawn\<close> says whether the last statement of the withdrawal wrote the row; the code does not ask
  for it, and no step of a call depends on it.\<close>

datatype thread =
    Deciding int status string time
  | DecidingRow int status string time request
  | Checked int status string time int
  | Signed status time int
  | Computed int status int "time option"
  | Owner status int
  | Decided status
  | Lost
  | Withdrawing int time
  | WithdrawingRow int time request
  | Allowed time
  | Skipped time
  | Withdrawn bool
  | Failed approval_error

fun thread_step :: "services \<Rightarrow> entry \<Rightarrow> thread \<Rightarrow> entry \<times> thread" where
  "thread_step sv e (Deciding actor action nt now) =
     (e, DecidingRow actor action nt now (en_request e))"
| "thread_step sv e (DecidingRow actor action nt now rq) =
     (e, case decide (sv_loads sv) rq (en_steps e) actor action nt now (list_request_blocks e) of
           Inl x \<Rightarrow> Failed x
         | Inr _ \<Rightarrow> Checked actor action nt now (current_of rq))"
| "thread_step sv e (Checked actor action nt now current) =
     (let (won, e') = write_step actor action nt now e
      in (e', if won then Signed action now current else Failed AlreadyActed))"
| "thread_step sv e (Signed action now current) =
     (let (st, nxt, decided) = advance (en_steps e) current now
      in (e, if st \<noteq> PENDING \<or> nxt \<noteq> current then Computed current st nxt decided else Lost))"
| "thread_step sv e (Computed current st nxt decided) =
     (let (own, e') = move_request st nxt decided current e
      in (e', if own then Owner st nxt else Lost))"
| "thread_step sv e (Owner st nxt) = (follow_up_rows st nxt e, Decided st)"
| "thread_step sv e (Withdrawing actor now) = (e, WithdrawingRow actor now (en_request e))"
| "thread_step sv e (WithdrawingRow actor now rq) =
     (e, case cancel rq (en_steps e) actor now of
           Inl x \<Rightarrow> Failed x
         | Inr _ \<Rightarrow> Allowed now)"
| "thread_step sv e (Allowed now) = (skip_rows e, Skipped now)"
| "thread_step sv e (Skipped now) =
     (let e' = close_request now ''requester'' [] e in (e', Withdrawn (en_request e' \<noteq> en_request e)))"
| "thread_step sv e (Decided st) = (e, Decided st)"
| "thread_step sv e Lost = (e, Lost)"
| "thread_step sv e (Withdrawn wrote) = (e, Withdrawn wrote)"
| "thread_step sv e (Failed x) = (e, Failed x)"

definition sched_step :: "services \<Rightarrow> entry \<times> thread list \<Rightarrow> nat \<Rightarrow> entry \<times> thread list" where
  "sched_step sv g i = (case g of (e, ts) \<Rightarrow>
     if i < length ts then
       (let (e', t') = thread_step sv e (ts ! i) in (e', ts[i := t']))
     else g)"

definition run_schedule :: "services \<Rightarrow> entry \<times> thread list \<Rightarrow> nat list \<Rightarrow> entry \<times> thread list" where
  "run_schedule sv g is = foldl (sched_step sv) g is"

fun starting :: "thread \<Rightarrow> bool" where
  "starting (Deciding _ _ _ _) = True"
| "starting (Withdrawing _ _) = True"
| "starting _ = False"

text \<open>The calls whose statement closed the request: a decision that won it with a final state, and a
  withdrawal that wrote it.\<close>

fun closer :: "thread \<Rightarrow> bool" where
  "closer (Owner st _) = (st \<noteq> PENDING)"
| "closer (Decided st) = (st \<noteq> PENDING)"
| "closer (Withdrawn wrote) = wrote"
| "closer _ = False"

section \<open>The invariant\<close>

definition approved_at :: "entry \<Rightarrow> int \<Rightarrow> bool" where
  "approved_at e k \<longleftrightarrow> (\<forall>s\<in>set (en_steps e). step_order s = k \<longrightarrow> step_status s = APPROVED)"

definition orders :: "entry \<Rightarrow> int list" where
  "orders e = map step_order (en_steps e)"

abbreviation at_step :: "entry \<Rightarrow> int" where
  "at_step e \<equiv> current_step_order (en_request e)"

abbreviation state_of :: "entry \<Rightarrow> status" where
  "state_of e \<equiv> req_status (en_request e)"

definition rows_ok :: "entry \<Rightarrow> bool" where
  "rows_ok e \<longleftrightarrow> at_step e \<in> set (orders e) \<and> 1 \<le> at_step e \<and>
     (\<forall>k\<in>set (orders e). k < at_step e \<longrightarrow> approved_at e k) \<and>
     (\<forall>s\<in>set (en_steps e). step_status s = PENDING \<longrightarrow> step_order s = at_step e) \<and>
     state_of e \<in> {PENDING, APPROVED, REJECTED, CANCELED} \<and>
     (state_of e = APPROVED \<longrightarrow> (\<forall>s\<in>set (en_steps e). step_status s = APPROVED))"

fun thread_ok :: "entry \<Rightarrow> thread \<Rightarrow> bool" where
  "thread_ok e (Checked _ action _ _ _) \<longleftrightarrow> action \<in> {APPROVED, REJECTED}"
| "thread_ok e (Computed current st nxt _) \<longleftrightarrow>
     st = REJECTED \<and> nxt = current \<or>
     st = APPROVED \<and> nxt = current \<and> approved_at e current \<and> (\<forall>k\<in>set (orders e). k \<le> current) \<or>
     st = PENDING \<and> approved_at e current \<and> nxt \<in> set (orders e) \<and> current < nxt \<and>
       (\<forall>k\<in>set (orders e). current < k \<longrightarrow> nxt \<le> k)"
| "thread_ok e (Owner st nxt) \<longleftrightarrow> (if st = PENDING then nxt \<le> at_step e else state_of e = st)"
| "thread_ok e (Decided st) \<longleftrightarrow> (st \<noteq> PENDING \<longrightarrow> state_of e = st)"
| "thread_ok e (Withdrawn wrote) \<longleftrightarrow> (wrote \<longrightarrow> state_of e = CANCELED)"
| "thread_ok e _ \<longleftrightarrow> True"

definition race_ok :: "entry \<times> thread list \<Rightarrow> bool" where
  "race_ok g \<longleftrightarrow> rows_ok (fst g) \<and> list_all (thread_ok (fst g)) (snd g) \<and>
     length (filter closer (snd g)) = (if state_of (fst g) = PENDING then 0 else 1)"

text \<open>How rows may change: orders never, approvals are kept, the current step only grows, a
  closed request keeps its state.\<close>

definition evolves :: "entry \<Rightarrow> entry \<Rightarrow> bool" where
  "evolves e e' \<longleftrightarrow> orders e' = orders e \<and> (\<forall>k. approved_at e k \<longrightarrow> approved_at e' k) \<and>
     at_step e \<le> at_step e' \<and> (state_of e \<noteq> PENDING \<longrightarrow> state_of e' = state_of e)"

lemma evolves_refl [simp]: "evolves e e"
  by (simp add: evolves_def)

lemma evolves_trans: "evolves e e' \<Longrightarrow> evolves e' e'' \<Longrightarrow> evolves e e''"
  by (auto simp: evolves_def)

lemma thread_ok_evolves: "thread_ok e t \<Longrightarrow> evolves e e' \<Longrightarrow> thread_ok e' t"
  by (cases t) (auto simp: evolves_def split: if_splits)

text \<open>Writing rows of steps: places stay, signed rows stay.\<close>

lemma rows_map:
  assumes "\<And>s. step_order (f s) = step_order s" "\<And>s. step_status s = APPROVED \<Longrightarrow> f s = s"
    and "\<And>s. s \<in> set (en_steps e) \<Longrightarrow> step_status (f s) = PENDING \<Longrightarrow> step_order s = at_step e"
    and "rows_ok e"
  shows "rows_ok (e\<lparr>en_steps := map f (en_steps e)\<rparr>) \<and> evolves e (e\<lparr>en_steps := map f (en_steps e)\<rparr>)"
proof -
  let ?e = "e\<lparr>en_steps := map f (en_steps e)\<rparr>"
  have o: "orders ?e = orders e" using assms(1) by (simp add: orders_def comp_def)
  have a: "approved_at ?e k" if "approved_at e k" for k
    using that assms(1,2) by (auto simp: approved_at_def)
  have "\<forall>s\<in>set (en_steps ?e). step_status s = APPROVED" if "state_of e = APPROVED"
    using that assms(2,4) by (auto simp: rows_ok_def)
  then show ?thesis using o a assms(1,3,4) by (auto simp: rows_ok_def evolves_def)
qed

text \<open>The statements on steps leave the row of the request alone.\<close>

lemma request_kept [simp]:
  "en_request (snd (write_step actor action nt now e)) = en_request e"
  "en_request (skip_rows e) = en_request e"
  "en_request (open_next nxt e) = en_request e"
  by (simp_all add: write_step_def Let_def skip_rows_def open_next_def)

lemma write_step_race:
  assumes "rows_ok e" "action \<in> {APPROVED, REJECTED}"
  shows "rows_ok (snd (write_step actor action nt now e)) \<and>
    evolves e (snd (write_step actor action nt now e))"
  unfolding write_step_def Let_def snd_conv
  by (rule rows_map) (use assms in \<open>auto simp: rows_ok_def split: if_splits\<close>)

lemma skip_rows_race: "rows_ok e \<Longrightarrow> rows_ok (skip_rows e) \<and> evolves e (skip_rows e)"
  unfolding skip_rows_def
  by (rule rows_map) (auto simp: skip_open_def rows_ok_def split: if_splits)

lemma open_next_race:
  assumes "rows_ok e" "nxt \<le> at_step e"
  shows "rows_ok (open_next nxt e) \<and> evolves e (open_next nxt e)"
  unfolding open_next_def
proof (rule rows_map [OF _ _ _ assms(1)])
  fix s
  assume s: "s \<in> set (en_steps e)" and p: "step_status (if step_order s = nxt \<and> step_status s = WAITING
    then s\<lparr>step_status := PENDING\<rparr> else s) = PENDING"
  show "step_order s = at_step e"
  proof (cases "step_order s = nxt \<and> step_status s = WAITING")
    case True
    then have "\<not> approved_at e nxt" using s by (auto simp: approved_at_def)
    then have "\<not> nxt < at_step e" using assms(1) s True by (auto simp: rows_ok_def orders_def)
    then show ?thesis using True assms(2) by simp
  next
    case False
    then have "step_status s = PENDING" using p by (simp split: if_splits)
    then show ?thesis using s assms(1) by (auto simp: rows_ok_def)
  qed
qed auto

lemma close_request_race:
  assumes ok: "rows_ok e"
  shows "rows_ok (close_request now by nt e) \<and> evolves e (close_request now by nt e)"
proof (cases "state_of e = PENDING")
  case True
  define e' where "e' = close_request now by nt e"
  have o: "orders e' = orders e" "approved_at e' = approved_at e" "state_of e' = CANCELED"
    "at_step e' = at_step e" "en_steps e' = en_steps e"
    using True by (simp_all add: e'_def close_request_def orders_def approved_at_def fun_eq_iff)
  have "rows_ok e'" using ok by (simp add: rows_ok_def o)
  moreover have "evolves e e'" using True by (simp add: evolves_def o)
  ultimately show ?thesis by (simp add: e'_def)
qed (use ok in \<open>simp add: close_request_def\<close>)

lemma move_request_race:
  assumes ok: "rows_ok e" and t: "thread_ok e (Computed current st nxt d)"
    and m: "move_request st nxt d current e = (own, e')"
  shows "rows_ok e' \<and> evolves e e' \<and> (own \<longrightarrow> state_of e = PENDING \<and> thread_ok e' (Owner st nxt))"
proof (cases own)
  case False
  then show ?thesis using m ok by (simp add: move_request_def split: if_splits)
next
  case True
  then have p: "state_of e = PENDING" "at_step e = current"
    and e': "e' = e\<lparr>en_request := (en_request e)\<lparr>req_status := st, current_step_order := nxt, decided_at := d\<rparr>\<rparr>"
    using m by (auto simp: move_request_def split: if_splits)
  have o: "orders e' = orders e" "approved_at e' = approved_at e" "state_of e' = st" "at_step e' = nxt"
    "en_steps e' = en_steps e"
    by (simp_all add: e' orders_def approved_at_def fun_eq_iff)
  have below: "\<forall>k\<in>set (orders e). k < current \<longrightarrow> approved_at e k" using ok p(2) by (simp add: rows_ok_def)
  from t consider "st = REJECTED" "nxt = current"
    | "st = APPROVED" "nxt = current" "approved_at e current" "\<forall>k\<in>set (orders e). k \<le> current"
    | "st = PENDING" "approved_at e current" "nxt \<in> set (orders e)" "current < nxt"
      "\<forall>k\<in>set (orders e). current < k \<longrightarrow> nxt \<le> k"
    by auto
  then show ?thesis
  proof cases
    case 1
    then show ?thesis using ok p o True by (auto simp: rows_ok_def evolves_def)
  next
    case 2
    have "step_status s = APPROVED" if "s \<in> set (en_steps e)" for s
    proof -
      have k: "step_order s \<in> set (orders e)" using that by (simp add: orders_def)
      with 2(4) consider "step_order s < current" | "step_order s = current" by fastforce
      then show ?thesis using 2(3) below k that by cases (auto simp: approved_at_def)
    qed
    then show ?thesis using 2 ok p o True by (auto simp: rows_ok_def evolves_def)
  next
    case 3
    have "approved_at e k" if "k \<in> set (orders e)" "k < nxt" for k
    proof -
      have "\<not> current < k" using 3(5) that by auto
      then consider "k < current" | "k = current" by linarith
      then show ?thesis using below that 3(2) by cases auto
    qed
    moreover have "step_status s \<noteq> PENDING" if "s \<in> set (en_steps e)" for s
    proof
      assume "step_status s = PENDING"
      moreover from this have "step_order s = current" using ok p(2) that by (simp add: rows_ok_def)
      ultimately show False using 3(2) that by (simp add: approved_at_def)
    qed
    ultimately have "rows_ok e'" using 3 ok p by (simp add: rows_ok_def o)
    moreover have "evolves e e'" using 3 p by (simp add: evolves_def o)
    ultimately show ?thesis using 3(1) p o by simp
  qed
qed

lemma advance_computed:
  assumes "advance (en_steps e) current now = (st, nxt, d)" "st \<noteq> PENDING \<or> nxt \<noteq> current"
  shows "thread_ok e (Computed current st nxt d)"
proof (cases "list_ex (\<lambda>s. step_status s = REJECTED) (en_steps e)")
  case True
  then show ?thesis using assms by (simp add: advance_def)
next
  case False
  let ?here = "filter (\<lambda>s. step_order s = current) (en_steps e)"
  have here: "\<not> (?here = [] \<or> list_ex (\<lambda>s. step_status s \<noteq> APPROVED) ?here)"
    using False assms by (auto simp: advance_def Let_def simp del: filter_empty_conv split: if_splits)
  then have a: "approved_at e current" by (auto simp: approved_at_def list_ex_iff)
  show ?thesis
  proof (cases "later_orders (en_steps e) current")
    case Nil
    then have "\<forall>k\<in>set (orders e). k \<le> current" by (simp add: later_Nil orders_def)
    then show ?thesis using assms(1) False here a Nil by (simp add: advance_def)
  next
    case (Cons n r)
    note l = later_Cons [OF Cons]
    have "n \<in> set (orders e)" "\<forall>k\<in>set (orders e). current < k \<longrightarrow> n \<le> k"
      using l(1,3) by (auto simp: orders_def)
    then show ?thesis using assms(1) False here a Cons l(2) by (simp add: advance_def)
  qed
qed

text \<open>One statement of one thread.\<close>

lemma thread_step_ok:
  assumes ok: "rows_ok e" and t: "thread_ok e t" and s: "thread_step sv e t = (e', t')"
  shows "rows_ok e' \<and> evolves e e' \<and> thread_ok e' t' \<and>
    (closer t' \<longleftrightarrow> closer t \<or> state_of e = PENDING \<and> state_of e' \<noteq> PENDING)"
proof (cases t)
  case (DecidingRow actor action nt now rq)
  then show ?thesis using ok s
    by (auto elim!: decide_Inr split: sum.splits)
next
  case (Checked actor action nt now current)
  then show ?thesis using s t write_step_race [OF ok, of action actor nt now]
    by (auto simp: split_beta split: if_splits)
next
  case (Signed action now current)
  obtain st nxt d where a: "advance (en_steps e) current now = (st, nxt, d)"
    by (cases "advance (en_steps e) current now")
  then show ?thesis using s ok Signed advance_computed [OF a] by (auto split: if_splits)
next
  case (Computed current st nxt d)
  obtain own f where m: "move_request st nxt d current e = (own, f)"
    by (cases "move_request st nxt d current e")
  with s Computed have e': "e' = f" "t' = (if own then Owner st nxt else Lost)" by simp_all
  from move_request_race [OF ok _ m] t Computed
  have r: "rows_ok f" "evolves e f" "own \<Longrightarrow> state_of e = PENDING \<and> thread_ok f (Owner st nxt)" by auto
  show ?thesis
  proof (cases own)
    case True
    then have p: "state_of e = PENDING" and f: "st \<noteq> PENDING \<longrightarrow> state_of f = st" using r(3) by auto
    have "state_of f = st" using m True by (auto simp: move_request_def split: if_splits)
    then show ?thesis using True r e' p Computed by simp
  next
    case False
    then have "f = e" using m by (auto simp: move_request_def split: if_splits)
    then show ?thesis using r e' False Computed by simp
  qed
next
  case (Owner st nxt)
  show ?thesis
  proof (cases "st = PENDING")
    case True
    then show ?thesis using s t Owner open_next_race [OF ok, of nxt] by (auto simp: follow_up_rows_def)
  next
    case False
    then have "state_of e = st" using t Owner by simp
    then show ?thesis using s Owner False ok skip_rows_race [OF ok]
      by (auto simp: follow_up_rows_def evolves_def)
  qed
next
  case (WithdrawingRow actor now rq)
  then show ?thesis using ok s by (auto split: sum.splits)
next
  case (Allowed now)
  then show ?thesis using ok s skip_rows_race by auto
next
  case (Skipped now)
  define f where "f = close_request now ''requester'' [] e"
  have e': "e' = f" "t' = Withdrawn (en_request f \<noteq> en_request e)"
    using s unfolding Skipped thread_step.simps Let_def f_def [symmetric] by auto
  have w: "en_request f \<noteq> en_request e \<longleftrightarrow> state_of e = PENDING" "state_of e = PENDING \<Longrightarrow> state_of f = CANCELED"
    by (auto simp: f_def close_request_def dest: arg_cong [of _ _ req_status])
  have "state_of e \<noteq> PENDING \<Longrightarrow> f = e" by (simp add: f_def close_request_def)
  then show ?thesis using Skipped e' w close_request_race [OF ok, of now "''requester''" "[]"]
    by (cases "state_of e = PENDING") (auto simp: f_def [symmetric])
qed (use ok t s in auto)

text \<open>The number of closers after one of the calls took a step.\<close>

lemma closers_update:
  assumes "i < length ts"
  shows "length (filter closer (ts[i := t'])) + (if closer (ts ! i) then 1 else 0) =
    length (filter closer ts) + (if closer t' then 1 else 0)"
proof -
  have "ts = take i ts @ ts ! i # drop (Suc i) ts" using assms(1) by (simp add: id_take_nth_drop)
  then have "length (filter closer ts) = length (filter closer (take i ts @ ts ! i # drop (Suc i) ts))"
    by simp
  moreover have "ts[i := t'] = take i ts @ t' # drop (Suc i) ts" using assms(1) by (rule upd_conv_take_nth_drop)
  ultimately show ?thesis by simp
qed

lemma closer_closed: "thread_ok e t \<Longrightarrow> closer t \<Longrightarrow> state_of e \<noteq> PENDING"
  by (cases t) auto

lemma sched_step_ok:
  assumes ok: "race_ok g"
  shows "race_ok (sched_step sv g i) \<and> evolves (fst g) (fst (sched_step sv g i))"
proof (cases "i < length (snd g)")
  case False
  then show ?thesis using ok by (cases g) (simp add: sched_step_def)
next
  case True
  obtain e ts where g: "g = (e, ts)" by (cases g)
  obtain e' t' where s: "thread_step sv e (ts ! i) = (e', t')" by (cases "thread_step sv e (ts ! i)")
  have i: "i < length ts" using True g by simp
  have rows: "rows_ok e" and all: "list_all (thread_ok e) ts"
    and one: "length (filter closer ts) = (if state_of e = PENDING then 0 else 1)"
    using ok by (simp_all add: race_ok_def g)
  have ti: "thread_ok e (ts ! i)" using all i by (simp add: list_all_length)
  note r = thread_step_ok [OF rows ti s]
  have res: "sched_step sv g i = (e', ts[i := t'])" using i s by (simp add: sched_step_def g)
  have "list_all (thread_ok e') (ts[i := t'])"
    using all r i by (auto simp: list_all_length nth_list_update intro: thread_ok_evolves)
  moreover have "length (filter closer (ts[i := t'])) = (if state_of e' = PENDING then 0 else 1)"
  proof -
    have stays: "state_of e' \<noteq> PENDING" if "state_of e \<noteq> PENDING" using r that by (auto simp: evolves_def)
    show ?thesis using closers_update [OF i, of t'] one r closer_closed [OF ti] stays
      by (cases "state_of e = PENDING"; cases "state_of e' = PENDING"; cases "closer (ts ! i)") simp_all
  qed
  ultimately show ?thesis using r res unfolding g by (simp add: race_ok_def)
qed

lemma run_ok:
  "race_ok g \<Longrightarrow> race_ok (run_schedule sv g is) \<and> evolves (fst g) (fst (run_schedule sv g is))"
proof (induction "is" arbitrary: g)
  case (Cons i "is")
  then show ?case using sched_step_ok [of g sv i] evolves_trans
    by (fastforce simp: run_schedule_def)
qed (simp add: run_schedule_def)

lemma start_ok:
  assumes "entry_ok e" "state_of e = PENDING" "list_all starting ts"
  shows "race_ok (e, ts)"
proof -
  have l: "ledger_ok (en_request e, en_steps e)" using assms(1) by (simp add: entry_ok_def view_def)
  have c: "\<exists>s\<in>set (en_steps e). step_order s = at_step e" "\<forall>s\<in>set (en_steps e). 1 \<le> step_order s"
    and st: "\<forall>s\<in>set (en_steps e). step_status s = expected PENDING (at_step e) (step_order s)"
    using l assms(2) by (auto simp: list_ex_iff list_all_iff)
  have "rows_ok e"
    unfolding rows_ok_def
  proof (intro conjI)
    show "at_step e \<in> set (orders e)" "1 \<le> at_step e" using c by (force simp: orders_def)+
    show "\<forall>k\<in>set (orders e). k < at_step e \<longrightarrow> approved_at e k" using st by (auto simp: approved_at_def)
    show "\<forall>s\<in>set (en_steps e). step_status s = PENDING \<longrightarrow> step_order s = at_step e"
      using st by (auto split: if_splits)
  qed (use assms(2) in simp_all)
  moreover have "thread_ok e t \<and> \<not> closer t" if "t \<in> set ts" for t
    using assms(3) that by (cases t) (auto simp: list_all_iff)
  ultimately show ?thesis using assms(2) by (auto simp: race_ok_def list_all_iff filter_empty_conv)
qed

section \<open>Properties\<close>

text \<open>C18. Racing calls cannot fake an approval: from a good pending request, whatever decisions
  and withdrawals run at once and however their statements interleave, a request that is
  approved has every step approved; as long as the request is pending no call has closed it, and
  once it is closed exactly one has, be it a decision or a withdrawal; and the state that call
  gave it is the state the request has.\<close>

theorem races_keep_approvals_honest:
  assumes "entry_ok e" and "state_of e = PENDING" and "list_all starting ts"
    and "run_schedule sv (e, ts) is = (e', ts')"
  shows "(state_of e' = APPROVED \<longrightarrow> list_all (\<lambda>s. step_status s = APPROVED) (en_steps e')) \<and>
    length (filter closer ts') = (if state_of e' = PENDING then 0 else 1) \<and>
    (\<forall>st. Decided st \<in> set ts' \<longrightarrow> st \<noteq> PENDING \<longrightarrow> state_of e' = st) \<and>
    (Withdrawn True \<in> set ts' \<longrightarrow> state_of e' = CANCELED)"
proof -
  have "race_ok (e', ts')" using run_ok [OF start_ok [OF assms(1-3)], of sv "is"] assms(4) by simp
  then show ?thesis by (auto simp: race_ok_def rows_ok_def list_all_iff)
qed

theorem races_keep_approvals_honest_witness:
  "state_of (fst (run_schedule w_services (w_entry, [Deciding 7 APPROVED [] 1, Deciding 7 REJECTED [] 2, Withdrawing 3 1])
     [2, 2, 0, 1, 0, 1, 1, 0, 1, 1, 1, 2, 2])) = REJECTED \<and>
   length (filter closer (snd (run_schedule w_services
     (w_entry, [Deciding 7 APPROVED [] 1, Deciding 7 REJECTED [] 2, Withdrawing 3 1])
     [2, 2, 0, 1, 0, 1, 1, 0, 1, 1, 1, 2, 2]))) = 1"
proof -
  let ?ts = "[Deciding 7 APPROVED [] 1, Deciding 7 REJECTED [] 2, Withdrawing 3 1]"
    and ?is = "[2, 2, 0, 1, 0, 1, 1, 0, 1, 1, 1, 2, 2]"
  have p: "state_of w_entry = PENDING" "list_all starting ?ts"
    by (simp_all add: w_entry_def w_line_def w_request_def)
  have r: "state_of (fst (run_schedule w_services (w_entry, ?ts) ?is)) = REJECTED" by code_simp
  obtain e' ts' where run: "run_schedule w_services (w_entry, ?ts) ?is = (e', ts')"
    by (cases "run_schedule w_services (w_entry, ?ts) ?is")
  show ?thesis using races_keep_approvals_honest [OF w_entry_ok p run] r run by simp
qed

text \<open>Under any interleaving a closed request stays closed as it was, the current step never
  goes back, no step changes its place, and what is approved stays approved.\<close>

lemma races_never_reopen:
  assumes "entry_ok e" and "state_of e = PENDING" and "list_all starting ts"
    and "state_of (fst (run_schedule sv (e, ts) is)) \<noteq> PENDING"
  shows "state_of (fst (run_schedule sv (e, ts) (is @ js))) = state_of (fst (run_schedule sv (e, ts) is)) \<and>
    at_step (fst (run_schedule sv (e, ts) is)) \<le> at_step (fst (run_schedule sv (e, ts) (is @ js))) \<and>
    orders (fst (run_schedule sv (e, ts) (is @ js))) = orders e"
proof -
  have g: "race_ok (run_schedule sv (e, ts) is)" "evolves e (fst (run_schedule sv (e, ts) is))"
    using run_ok [OF start_ok [OF assms(1-3)], of sv "is"] by simp_all
  have "run_schedule sv (e, ts) (is @ js) = run_schedule sv (run_schedule sv (e, ts) is) js"
    by (simp add: run_schedule_def)
  then show ?thesis using run_ok [OF g(1), of sv js] g(2) assms(4) by (auto simp: evolves_def)
qed

lemma races_never_reopen_witness:
  "state_of (fst (run_schedule w_services (w_entry, [Withdrawing 3 1, Deciding 7 APPROVED [] 2])
     ([0, 1, 0, 1, 0, 0] @ [1, 1, 1]))) = CANCELED"
proof -
  let ?ts = "[Withdrawing 3 1, Deciding 7 APPROVED [] 2]"
  have p: "state_of w_entry = PENDING" "list_all starting ?ts"
    by (simp_all add: w_entry_def w_line_def w_request_def)
  have r: "state_of (fst (run_schedule w_services (w_entry, ?ts) [0, 1, 0, 1, 0, 0])) = CANCELED" by code_simp
  then show ?thesis using races_never_reopen [OF w_entry_ok p, of w_services "[0, 1, 0, 1, 0, 0]" "[1, 1, 1]"] by simp
qed

text \<open>A call of a schedule, and one statement of it.\<close>

lemma run_schedule_simps [simp]:
  "run_schedule sv g [] = g"
  "run_schedule sv g (i # is) = run_schedule sv (sched_step sv g i) is"
  by (simp_all add: run_schedule_def)

lemma sched_step_thread:
  "i < length ts \<Longrightarrow> ts ! i = t \<Longrightarrow> thread_step sv e t = (e', t') \<Longrightarrow> sched_step sv (e, ts) i = (e', ts[i := t'])"
  by (simp add: sched_step_def)

text \<open>C19. The rule that nobody withdraws an approval does not survive the race. Take any pending
  request on which a withdrawal and an approval are both allowed as things stand, and any calls
  among which both are starting: the withdrawal reads the steps, the approver's signature is
  written, and the withdrawal goes on to close the request. It ends canceled with the signed step
  in place, which the rules alone never allow, and the withdrawal reports success.\<close>

theorem race_withdraws_a_signed_request:
  assumes "state_of e = PENDING"
    and w: "i < length ts" "ts ! i = Withdrawing drafter t1" "cancel (en_request e) (en_steps e) drafter t1 = Inr c"
    and a: "j < length ts" "ts ! j = Deciding approver APPROVED nt t2"
      "decide (sv_loads sv) (en_request e) (en_steps e) approver APPROVED nt t2 (list_request_blocks e) = Inr d"
  shows "\<exists>e' ts'. run_schedule sv (e, ts) [i, i, j, j, j, i, i] = (e', ts') \<and> ts' ! i = Withdrawn True \<and>
    state_of e' = CANCELED \<and> \<not> ledger_ok (view e') \<and>
    (\<exists>s\<in>set (en_steps e'). approver_id s = approver \<and> step_status s = APPROVED \<and> acted_at s = Some t2)"
proof -
  have ij: "i \<noteq> j" using w(2) a(2) by auto
  obtain k where k: "k < length (en_steps e)" "approver_id (en_steps e ! k) = approver" "step_status (en_steps e ! k) = PENDING"
    by (rule decide_Inr [OF a(3)])
  define mine :: "step \<Rightarrow> bool" where "mine = (\<lambda>s. approver_id s = approver \<and> step_status s = PENDING)"
  have won: "list_ex mine (en_steps e)" using k by (auto simp: mine_def list_ex_iff)
  define e1 where "e1 = e\<lparr>en_steps := map (\<lambda>s. if mine s then signed APPROVED nt t2 s else s) (en_steps e)\<rparr>"
  define e2 where "e2 = skip_rows e1"
  define e3 where "e3 = close_request t1 ''requester'' [] e2"
  have st: "state_of e2 = PENDING" using assms(1) by (simp add: e2_def e1_def skip_rows_def)
  then have e3: "state_of e3 = CANCELED" "en_steps e3 = en_steps e2" "en_request e3 \<noteq> en_request e2"
    by (auto simp: e3_def close_request_def dest: arg_cong [of _ _ req_status])
  have wr: "write_step approver APPROVED nt t2 e = (True, e1)"
    using won by (simp add: write_step_def Let_def e1_def mine_def [abs_def])
  let ?cur = "current_of (en_request e)"
  have run: "run_schedule sv (e, ts) [i, i, j, j, j, i, i] =
      (e3, ts[i := Allowed t1, j := Signed APPROVED t2 ?cur, i := Withdrawn True])"
  proof -
    let ?ta = "ts[i := WithdrawingRow drafter t1 (en_request e)]" and ?tb = "ts[i := Allowed t1]"
    let ?tc = "?tb[j := DecidingRow approver APPROVED nt t2 (en_request e)]"
      and ?td = "?tb[j := Checked approver APPROVED nt t2 ?cur]" and ?te = "?tb[j := Signed APPROVED t2 ?cur]"
    have s1: "sched_step sv (e, ts) i = (e, ?ta)" using w(1,2) by (simp add: sched_step_thread)
    have s2: "sched_step sv (e, ?ta) i = (e, ?tb)" using w(1,3) by (simp add: sched_step_def)
    have s3: "sched_step sv (e, ?tb) j = (e, ?tc)" using a(1,2) ij by (simp add: sched_step_def)
    have s4: "sched_step sv (e, ?tc) j = (e, ?td)" using a(1,3) by (simp add: sched_step_def)
    have s5: "sched_step sv (e, ?td) j = (e1, ?te)" using a(1) wr by (simp add: sched_step_def Let_def)
    have s6: "sched_step sv (e1, ?te) i = (e2, ?te[i := Skipped t1])" using w(1) ij by (simp add: sched_step_def e2_def)
    have s7: "sched_step sv (e2, ?te[i := Skipped t1]) i = (e3, ?te[i := Withdrawn True])"
      using w(1) e3(3) by (simp add: sched_step_def Let_def e3_def [symmetric])
    show ?thesis by (simp only: run_schedule_simps s1 s2 s3 s4 s5 s6 s7)
  qed
  let ?s = "signed APPROVED nt t2 (en_steps e ! k)"
  have "?s \<in> set (en_steps e1)" using k by (force simp: e1_def mine_def)
  then have "skip_open ?s \<in> set (en_steps e3)" unfolding e3(2) e2_def skip_rows_def by simp
  then have s: "?s \<in> set (en_steps e3)" by (simp add: skip_open_def)
  moreover have "step_status ?s \<noteq> expected CANCELED (at_step e3) (step_order ?s)" by simp
  ultimately have "\<not> ledger_ok (view e3)" using e3(1) unfolding view_def ledger_ok.simps list_all_iff by metis
  moreover have "\<exists>s\<in>set (en_steps e3). approver_id s = approver \<and> step_status s = APPROVED \<and> acted_at s = Some t2"
    by (rule bexI [OF _ s]) (use k in \<open>simp add: signed_def\<close>)
  ultimately show ?thesis using run e3(1) w(1) by simp
qed

theorem race_withdraws_a_signed_request_witness:
  "\<exists>e' ts'. run_schedule w_services (w_entry, [Withdrawing 3 1, Deciding 7 APPROVED [] 2]) [0, 0, 1, 1, 1, 0, 0] = (e', ts') \<and>
    state_of e' = CANCELED \<and> (\<exists>s\<in>set (en_steps e'). approver_id s = 7 \<and> step_status s = APPROVED)"
proof -
  have p: "state_of w_entry = PENDING" by (simp add: w_entry_def w_line_def w_request_def)
  have "\<not> isl (cancel (en_request w_entry) (en_steps w_entry) 3 1)" by code_simp
  then obtain c where c: "cancel (en_request w_entry) (en_steps w_entry) 3 1 = Inr c"
    by (cases "cancel (en_request w_entry) (en_steps w_entry) 3 1") auto
  have "\<not> isl (decide (sv_loads w_services) (en_request w_entry) (en_steps w_entry) 7 APPROVED [] 2 (list_request_blocks w_entry))"
    by code_simp
  then obtain d where d: "decide (sv_loads w_services) (en_request w_entry) (en_steps w_entry) 7 APPROVED [] 2
      (list_request_blocks w_entry) = Inr d"
    by (cases "decide (sv_loads w_services) (en_request w_entry) (en_steps w_entry) 7 APPROVED [] 2 (list_request_blocks w_entry)") auto
  show ?thesis
    using race_withdraws_a_signed_request [OF p, of 0 "[Withdrawing 3 1, Deciding 7 APPROVED [] 2]" 3 1 c 1 7 "[]" 2 w_services d]
      c d by auto
qed

text \<open>C20. A call that dies between its two writes leaves the request where no rule can move it: when
  the current step of a pending request is signed and the others wait, every decision and every
  withdrawal by the drafter is refused. Only the system's withdrawal still closes it.\<close>

theorem half_written_decision_is_stuck:
  assumes "req_status rq = PENDING" and "list_all (\<lambda>s. step_status s \<in> {APPROVED, WAITING}) steps"
    and "list_ex (\<lambda>s. step_status s = APPROVED) steps"
  shows "(\<exists>x. engine_step loads (rq, steps) ev = Inl x) \<and>
    req_status (en_request (system_cancel sv ck nt (e\<lparr>en_request := rq, en_steps := steps\<rparr>))) = CANCELED"
proof
  show "\<exists>x. engine_step loads (rq, steps) ev = Inl x"
  proof (cases ev)
    case (Decide actor action nt now blocks)
    have "step_status (steps ! i) \<noteq> PENDING" if "i < length steps" for i
      using assms(2) that by (auto simp: list_all_length)
    then have "decide loads rq steps actor action nt now blocks \<noteq> Inr st" for st
      by (auto elim!: decide_Inr)
    then show ?thesis using Decide by (cases "decide loads rq steps actor action nt now blocks") auto
  next
    case (Cancel actor now)
    then show ?thesis using assms by (auto simp: cancel_def)
  qed
  show "req_status (en_request (system_cancel sv ck nt (e\<lparr>en_request := rq, en_steps := steps\<rparr>))) = CANCELED"
    using assms(1) by (simp add: system_cancel_def close_as_canceled_def close_request_def skip_rows_def Let_def)
qed

theorem half_written_decision_is_stuck_witness:
  "view (fst (run_schedule w_services (w_entry, [Deciding 7 APPROVED [] 2]) [0, 0, 0])) =
     (w_request, [(w_step 7 1 APPROVED)\<lparr>acted_at := Some 2\<rparr>, w_step 12 2 WAITING]) \<and>
   (\<exists>x. engine_step (\<lambda>_. None) (w_request,
     [(w_step 7 1 APPROVED)\<lparr>acted_at := Some 2\<rparr>, w_step 12 2 WAITING]) (Decide 12 APPROVED [] 9 []) = Inl x)"
proof
  show "view (fst (run_schedule w_services (w_entry, [Deciding 7 APPROVED [] 2]) [0, 0, 0])) =
     (w_request, [(w_step 7 1 APPROVED)\<lparr>acted_at := Some 2\<rparr>, w_step 12 2 WAITING])" by code_simp
  have "req_status w_request = PENDING" by (simp add: w_request_def)
  then show "\<exists>x. engine_step (\<lambda>_. None) (w_request,
     [(w_step 7 1 APPROVED)\<lparr>acted_at := Some 2\<rparr>, w_step 12 2 WAITING]) (Decide 12 APPROVED [] 9 []) = Inl x"
    using half_written_decision_is_stuck [of w_request
        "[(w_step 7 1 APPROVED)\<lparr>acted_at := Some 2\<rparr>, w_step 12 2 WAITING]" "\<lambda>_. None" "Decide 12 APPROVED [] 9 []"]
    by (simp add: w_step_def)
qed

end
