(* ===== verification/ApprovalForms.thy ===== *)
theory ApprovalForms
  imports ApprovalEngine
begin

text \<open>
  \<open>src/xgen_sdk/approval/store.py\<close>, the configuration side: lines of approvers, forms with
  their steps and blocks, and the guards that keep a form from needing more approvers than a
  line that uses it has.

  Operations act on the tables and may raise; what was written before stays written. The
  default titles and labels are display texts and a parameter.
\<close>

section \<open>Tables\<close>

record line =
  ln_name :: string
  ln_description :: "string option"
  ln_owner :: int
  ln_shared :: bool
  ln_active :: bool
  ln_form :: "int option"
  ln_followup :: bool
  ln_followup_ids :: "int list"
  ln_steps :: "slot list"

record form_step =
  fs_index :: int
  fs_title :: string
  fs_guide :: "string option"

record form =
  fm_name :: string
  fm_description :: "string option"
  fm_notice :: "string option"
  fm_builtin :: bool
  fm_owner :: "int option"
  fm_active :: bool
  fm_steps :: "form_step list"
  fm_blocks :: "pydict list"

record action_policy =
  ap_required :: bool
  ap_default_line :: "int option"
  ap_locked :: bool
  ap_updated_by :: "int option"
  ap_updated_at :: "int option"

record tables =
  t_lines :: "(int \<times> line) list"
  t_forms :: "(int \<times> form) list"
  t_policies :: "(string \<times> action_policy) list"
  next_line :: int
  next_form :: int

record texts =
  tx_step_title :: "int \<Rightarrow> string"
  tx_block_label :: "string \<Rightarrow> string"
  tx_dumps :: "pyval \<Rightarrow> string"
  tx_loads :: decoder

datatype config_error =
    Rule approval_error
  | NameNeeded
  | LineNotFound
  | FormNotFound
  | NoSteps
  | NoDraftStep
  | StepsMissing "int list"
  | NoApproverStep
  | UnknownBlock string
  | BlockWithoutStep int
  | BuiltinForm
  | FormInUse "string list"
  | LineTooShort int
  | LinesTooShort int "string list"
  | NotOwner
  | LineIsDefault "string list"

definition rule :: "approval_error + 'a \<Rightarrow> config_error + 'a" where
  "rule r = (case r of Inl x \<Rightarrow> Inl (Rule x) | Inr v \<Rightarrow> Inr v)"

definition or_null :: "string \<Rightarrow> string option" where
  "or_null s = (if s = [] then None else Some s)"

section \<open>The shape of a form\<close>

definition step_index :: "pydict \<Rightarrow> py_exc + int" where
  "step_index d = py_int (or_else (dget d ''step_index'') (PInt 0))"

definition sort_order :: "pydict \<Rightarrow> py_exc + int" where
  "sort_order d = py_int (or_else (dget d ''sort_order'') (PInt 0))"

definition step_numbers :: "pydict list \<Rightarrow> py_exc + int list" where
  "step_numbers steps = ebind (emap step_index steps) (\<lambda>ks. Inr (sort (remdups ks)))"

fun check_blocks ::
  "int list \<Rightarrow> nat \<Rightarrow> pydict list \<Rightarrow> config_error + ((int \<times> nat) \<times> int \<times> pydict) list" where
  "check_blocks idx i [] = Inr []"
| "check_blocks idx i (b # bs) =
     (let btype = normalize_block_type (dget b ''block_type'') in
      if \<not> is_known (PStr btype) then Inl (UnknownBlock btype)
      else ebind (rule (lift_py (step_index b))) (\<lambda>step.
        if step \<notin> set idx then Inl (BlockWithoutStep step)
        else ebind (rule (lift_py (sort_order b))) (\<lambda>given.
          ebind (check_blocks idx (Suc i) bs) (\<lambda>rest.
            Inr (((given, i), step,
              dset ''step_index'' (PInt step) (dset ''block_type'' (PStr btype) b)) # rest)))))"

definition renumber :: "int list \<Rightarrow> ((int \<times> nat) \<times> int \<times> pydict) list \<Rightarrow> pydict list" where
  "renumber idx checked = concat (map (\<lambda>step.
     (let mine = sort_key fst (filter (\<lambda>(_, s, _). s = step) checked)
      in map (\<lambda>(n, (_, _, b)). dset ''sort_order'' (PInt (int n)) b)
           (zip [1..<Suc (length mine)] mine))) idx)"

definition validate_form_shape :: "pydict list \<Rightarrow> pydict list \<Rightarrow> config_error + pydict list" where
  "validate_form_shape steps blocks =
     ebind (rule (lift_py (step_numbers steps))) (\<lambda>idx.
       if idx = [] then Inl NoSteps
       else if hd idx \<noteq> 0 then Inl NoDraftStep
       else if idx \<noteq> map int [0..<length idx]
         then Inl (StepsMissing (filter (\<lambda>i. i \<notin> set idx) (map int [0..<nat (last idx + 1)])))
       else if last idx < 1 then Inl NoApproverStep
       else ebind (check_blocks idx 0 blocks) (\<lambda>checked. Inr (renumber idx checked)))"

section \<open>Reading\<close>

definition form_need :: "form \<Rightarrow> int" where
  "form_need f = fold max (map fs_index (fm_steps f)) 0"

definition form_of :: "tables \<Rightarrow> int \<Rightarrow> form option" where
  "form_of t k = map_of (t_forms t) k"

definition line_of :: "tables \<Rightarrow> int \<Rightarrow> line option" where
  "line_of t k = map_of (t_lines t) k"

text \<open>\<open>get_form\<close>: retired blocks are not shown, names are the current ones.\<close>

definition shown_blocks :: "form \<Rightarrow> pydict list" where
  "shown_blocks f = map (\<lambda>b. dset ''block_type'' (PStr (normalize_block_type (dget b ''block_type''))) b)
     (filter (\<lambda>b. \<not> is_retired (dget b ''block_type'')) (fm_blocks f))"

definition step_dict :: "form_step \<Rightarrow> pydict" where
  "step_dict s = [(''step_index'', PInt (fs_index s)), (''title'', PStr (fs_title s)),
     (''guide'', (case fs_guide s of None \<Rightarrow> PNone | Some g \<Rightarrow> PStr g))]"

definition block_input :: "texts \<Rightarrow> pydict \<Rightarrow> pydict" where
  "block_input tx b = [(''step_index'', dget b ''step_index''), (''block_type'', dget b ''block_type''),
     (''label'', dget b ''label''), (''config'', parse_data (tx_loads tx) (dget b ''config'')),
     (''required'', dget b ''required''), (''sort_order'', dget b ''sort_order'')]"

section \<open>Writing forms\<close>

text \<open>The rows of a form. That the table refuses a second row of the same step index is not modelled.\<close>

definition step_row :: "texts \<Rightarrow> pydict \<Rightarrow> int \<Rightarrow> form_step" where
  "step_row tx st i = \<lparr>fs_index = i,
     fs_title = take 100 (py_str (or_else (dget st ''title'') (PStr (tx_step_title tx i)))),
     fs_guide = or_null (take 1000 (str_or_empty (dget st ''guide'')))\<rparr>"

definition step_rows :: "texts \<Rightarrow> pydict list \<Rightarrow> form_step list" where
  "step_rows tx steps =
     (let keyed = map (\<lambda>st. (case step_index st of Inr i \<Rightarrow> i | Inl _ \<Rightarrow> 0, st)) steps
      in map (\<lambda>(i, st). step_row tx st i) (sort_key fst keyed))"

definition block_row :: "texts \<Rightarrow> pydict \<Rightarrow> pydict" where
  "block_row tx b =
     [(''step_index'', dget b ''step_index''), (''block_type'', dget b ''block_type''),
      (''label'', PStr (take 200 (py_str (or_else (dget b ''label'')
         (PStr (tx_block_label tx (py_str (dget b ''block_type'')))))))),
      (''config'', (case dget b ''config'' of PNone \<Rightarrow> PNone | c \<Rightarrow> PStr (tx_dumps tx c))),
      (''required'', PBool (truthy (dget_or b ''required'' (PBool True)))),
      (''sort_order'', dget b ''sort_order'')]"

definition with_steps :: "texts \<Rightarrow> pydict list \<Rightarrow> form \<Rightarrow> form" where
  "with_steps tx steps f = f\<lparr>fm_steps := step_rows tx steps\<rparr>"

definition with_blocks :: "texts \<Rightarrow> pydict list \<Rightarrow> form \<Rightarrow> form" where
  "with_blocks tx blocks f =
     f\<lparr>fm_blocks := filter (\<lambda>b. is_retired (dget b ''block_type'')) (fm_blocks f) @ map (block_row tx) blocks\<rparr>"

definition set_form :: "int \<Rightarrow> (form \<Rightarrow> form) \<Rightarrow> tables \<Rightarrow> tables" where
  "set_form k g t = t\<lparr>t_forms := map (\<lambda>(j, f). (j, if j = k then g f else f)) (t_forms t)\<rparr>"

definition set_line :: "int \<Rightarrow> (line \<Rightarrow> line) \<Rightarrow> tables \<Rightarrow> tables" where
  "set_line k g t = t\<lparr>t_lines := map (\<lambda>(j, l). (j, if j = k then g l else l)) (t_lines t)\<rparr>"

type_synonym 'a config = "(tables, config_error, 'a) act"

definition insert_form :: "form \<Rightarrow> int config" where
  "insert_form f = abind (aread next_form) (\<lambda>k.
     abind (awrite (\<lambda>t. t\<lparr>t_forms := t_forms t @ [(k, f)], next_form := k + 1\<rparr>)) (\<lambda>_. areturn k))"

definition create_form ::
  "texts \<Rightarrow> string \<Rightarrow> string \<Rightarrow> int option \<Rightarrow> pydict list \<Rightarrow> pydict list \<Rightarrow> string \<Rightarrow> bool \<Rightarrow> int config" where
  "create_form tx name description owner steps blocks notice is_builtin =
     abind (acheck (strip name \<noteq> []) NameNeeded) (\<lambda>_.
     abind (alift (validate_form_shape steps blocks)) (\<lambda>checked.
     abind (insert_form \<lparr>fm_name = take 100 (strip name),
         fm_description = or_null (take 500 (strip description)), fm_notice = or_null (strip notice),
         fm_builtin = is_builtin, fm_owner = owner, fm_active = True, fm_steps = [], fm_blocks = []\<rparr>) (\<lambda>k.
     abind (awrite (set_form k (with_steps tx steps))) (\<lambda>_.
     abind (awrite (set_form k (with_blocks tx checked))) (\<lambda>_. areturn k)))))"

definition lines_using :: "int \<Rightarrow> tables \<Rightarrow> line list" where
  "lines_using k t = filter (\<lambda>l. ln_form l = Some k) (map snd (t_lines t))"

definition guard_lines_still_fit :: "int \<Rightarrow> pydict list \<Rightarrow> unit config" where
  "guard_lines_still_fit k steps =
     abind (alift (rule (lift_py (emap step_index steps)))) (\<lambda>ks.
       let need = fold max ks 0 in
       abind (aread (\<lambda>t. filter (\<lambda>l. int (length (ln_steps l)) < need) (lines_using k t))) (\<lambda>short.
         acheck (short = []) (LinesTooShort need (map ln_name (take 5 short)))))"

record form_patch =
  fp_name :: "string option"
  fp_description :: "string option"
  fp_notice :: "string option"
  fp_active :: "bool option"
  fp_steps :: "pydict list option"
  fp_blocks :: "pydict list option"

definition form_columns :: "form_patch \<Rightarrow> form \<Rightarrow> form" where
  "form_columns p f =
     f\<lparr>fm_name := (case fp_name p of None \<Rightarrow> fm_name f | Some n \<Rightarrow> take 100 (strip n)),
       fm_description := (case fp_description p of None \<Rightarrow> fm_description f
         | Some d \<Rightarrow> or_null (take 500 (strip d))),
       fm_notice := (case fp_notice p of None \<Rightarrow> fm_notice f | Some n \<Rightarrow> or_null (strip n)),
       fm_active := (case fp_active p of None \<Rightarrow> fm_active f | Some a \<Rightarrow> a)\<rparr>"

definition option_or :: "'a option \<Rightarrow> 'a \<Rightarrow> 'a" where
  "option_or a b = (case a of None \<Rightarrow> b | Some x \<Rightarrow> x)"

definition update_form :: "texts \<Rightarrow> int \<Rightarrow> form_patch \<Rightarrow> unit config" where
  "update_form tx k p =
     abind (aread (\<lambda>t. form_of t k)) (\<lambda>found. case found of
         None \<Rightarrow> araise FormNotFound
       | Some f \<Rightarrow>
           abind (acheck (\<not> fm_builtin f) BuiltinForm) (\<lambda>_.
           abind (aread (lines_using k)) (\<lambda>used.
           abind (acheck (fp_active p \<noteq> Some False \<or> used = []) (FormInUse (map ln_name (take 5 used)))) (\<lambda>_.
           abind (if fp_steps p = None \<and> fp_blocks p = None then areturn ()
             else
               let next_steps = option_or (fp_steps p) (map step_dict (fm_steps f));
                   next_blocks = option_or (fp_blocks p) (map (block_input tx) (shown_blocks f))
               in abind (alift (validate_form_shape next_steps next_blocks)) (\<lambda>checked.
                  abind (guard_lines_still_fit k next_steps) (\<lambda>_.
                  abind (awrite (set_form k (with_steps tx next_steps))) (\<lambda>_.
                  awrite (set_form k (with_blocks tx checked)))))) (\<lambda>_.
           abind (acheck (case fp_name p of None \<Rightarrow> True | Some n \<Rightarrow> strip n \<noteq> []) NameNeeded) (\<lambda>_.
           awrite (set_form k (form_columns p))))))))"

definition copy_form :: "texts \<Rightarrow> int \<Rightarrow> string \<Rightarrow> int option \<Rightarrow> int config" where
  "copy_form tx k name owner =
     abind (aread (\<lambda>t. form_of t k)) (\<lambda>found. case found of
         None \<Rightarrow> araise FormNotFound
       | Some f \<Rightarrow> create_form tx name (option_or (fm_description f) []) owner
           (map step_dict (fm_steps f)) (map (block_input tx) (shown_blocks f))
           (option_or (fm_notice f) []) False)"

definition delete_form :: "int \<Rightarrow> unit config" where
  "delete_form k =
     abind (aread (\<lambda>t. form_of t k)) (\<lambda>found. case found of
         None \<Rightarrow> areturn ()
       | Some f \<Rightarrow>
           abind (acheck (\<not> fm_builtin f) BuiltinForm) (\<lambda>_.
           abind (aread (lines_using k)) (\<lambda>used.
           abind (acheck (used = []) (FormInUse (map ln_name (take 5 used)))) (\<lambda>_.
           awrite (\<lambda>t. t\<lparr>t_forms := filter (\<lambda>(j, _). j \<noteq> k) (t_forms t)\<rparr>)))))"

section \<open>Writing lines\<close>

definition create_line :: "string \<Rightarrow> string \<Rightarrow> int \<Rightarrow> bool \<Rightarrow> pydict list \<Rightarrow> int config" where
  "create_line name description owner shared steps =
     abind (alift (rule (plan_line_slots steps))) (\<lambda>planned.
     abind (aread next_line) (\<lambda>k.
     abind (awrite (\<lambda>t. t\<lparr>t_lines := t_lines t @ [(k, \<lparr>ln_name = take 100 (strip name),
         ln_description = or_null (take 500 (strip description)), ln_owner = owner,
         ln_shared = shared, ln_active = True, ln_form = None, ln_followup = False,
         ln_followup_ids = [], ln_steps = planned\<rparr>)], next_line := k + 1\<rparr>)) (\<lambda>_. areturn k)))"

record line_patch =
  lp_name :: "string option"
  lp_description :: "string option"
  lp_shared :: "bool option"
  lp_steps :: "pydict list option"

definition line_columns :: "line_patch \<Rightarrow> line \<Rightarrow> line" where
  "line_columns p l =
     l\<lparr>ln_name := (case lp_name p of None \<Rightarrow> ln_name l | Some n \<Rightarrow> take 100 (strip n)),
       ln_description := (case lp_description p of None \<Rightarrow> ln_description l
         | Some d \<Rightarrow> or_null (take 500 (strip d))),
       ln_shared := (case lp_shared p of None \<Rightarrow> ln_shared l | Some s \<Rightarrow> s)\<rparr>"

definition guard_form_still_fits :: "line \<Rightarrow> int \<Rightarrow> unit config" where
  "guard_form_still_fits l n = (case ln_form l of
       None \<Rightarrow> areturn ()
     | Some k \<Rightarrow> abind (aread (\<lambda>t. case form_of t k of None \<Rightarrow> 0 | Some f \<Rightarrow> form_need f)) (\<lambda>need.
         acheck (need \<le> n) (LineTooShort need)))"

definition update_line :: "int \<Rightarrow> line_patch \<Rightarrow> unit config" where
  "update_line k p =
     abind (aread (\<lambda>t. line_of t k)) (\<lambda>found. case found of
         None \<Rightarrow> araise LineNotFound
       | Some l \<Rightarrow>
           abind (acheck (case lp_name p of None \<Rightarrow> True | Some n \<Rightarrow> strip n \<noteq> []) NameNeeded) (\<lambda>_.
           abind (awrite (set_line k (line_columns p))) (\<lambda>_.
           case lp_steps p of
             None \<Rightarrow> areturn ()
           | Some steps \<Rightarrow>
               abind (alift (rule (plan_line_slots steps))) (\<lambda>planned.
               abind (guard_form_still_fits l (int (length planned))) (\<lambda>_.
               awrite (set_line k (\<lambda>l. l\<lparr>ln_steps := planned\<rparr>)))))))"

definition delete_line :: "int \<Rightarrow> int \<Rightarrow> bool \<Rightarrow> bool \<Rightarrow> unit config" where
  "delete_line k actor is_superuser force =
     abind (aread (\<lambda>t. line_of t k)) (\<lambda>found. case found of
         None \<Rightarrow> araise LineNotFound
       | Some l \<Rightarrow>
           abind (acheck (is_superuser \<or> ln_owner l = actor) NotOwner) (\<lambda>_.
           abind (aread (\<lambda>t. map fst (filter (\<lambda>(_, p). ap_default_line p = Some k) (t_policies t)))) (\<lambda>used_by.
           abind (acheck (used_by = [] \<or> force) (LineIsDefault used_by)) (\<lambda>_.
           abind (awrite (\<lambda>t. t\<lparr>t_policies := map (\<lambda>(a, p). (a, if ap_default_line p = Some k
               then p\<lparr>ap_default_line := None, ap_locked := False\<rparr> else p)) (t_policies t)\<rparr>)) (\<lambda>_.
           awrite (set_line k (\<lambda>l. l\<lparr>ln_active := False\<rparr>)))))))"

definition set_line_form :: "int \<Rightarrow> int option \<Rightarrow> unit config" where
  "set_line_form k form_id =
     abind (case form_id of
         None \<Rightarrow> areturn ()
       | Some fid \<Rightarrow> abind (aread (\<lambda>t. form_of t fid)) (\<lambda>found. case found of
           None \<Rightarrow> araise FormNotFound
         | Some f \<Rightarrow> abind (aread (\<lambda>t. case line_of t k of None \<Rightarrow> 0 | Some l \<Rightarrow> int (length (ln_steps l))))
             (\<lambda>have. acheck (form_need f \<le> have) (LineTooShort (form_need f))))) (\<lambda>_.
     awrite (set_line k (\<lambda>l. l\<lparr>ln_form := form_id\<rparr>)))"

section \<open>Lemmas\<close>

lemma rule_Inr [simp]: "rule r = Inr v \<longleftrightarrow> r = Inr v"
  by (cases r) (auto simp: rule_def)

lemma check_blocks_Inr:
  "check_blocks idx i bs = Inr cs \<Longrightarrow> length cs = length bs \<and>
    (\<forall>(g, s, b)\<in>set cs. s \<in> set idx \<and> dget b ''step_index'' = PInt s \<and>
      (\<exists>t. dget b ''block_type'' = PStr t \<and> is_known (PStr t)))"
proof (induction bs arbitrary: i cs)
  case (Cons b bs)
  then show ?case by (fastforce simp: ebind_Inr Let_def dget_def split: if_splits)
qed simp

definition block_name :: "pydict \<Rightarrow> pyval \<times> pyval" where
  "block_name b = (dget b ''step_index'', dget b ''sort_order'')"

lemma renumber_names:
  assumes "\<forall>(g, s, b)\<in>set cs. dget b ''step_index'' = PInt s"
  shows "map block_name (renumber idx cs) = concat (map (\<lambda>step.
    map (\<lambda>n. (PInt step, PInt (int n))) [1..<Suc (length (filter (\<lambda>(_, s, _). s = step) cs))]) idx)"
proof -
  have one: "map block_name (map (\<lambda>(n, (_, _, b)). dset ''sort_order'' (PInt (int n)) b)
      (zip [1..<Suc (length mine)] mine)) = map (\<lambda>n. (PInt step, PInt (int n))) [1..<Suc (length mine)]"
    if "\<forall>(g, s, b)\<in>set mine. dget b ''step_index'' = PInt step" for mine step
  proof (rule nth_equalityI)
    fix j assume "j < length (map block_name (map (\<lambda>(n, (_, _, b)). dset ''sort_order'' (PInt (int n)) b)
      (zip [1..<Suc (length mine)] mine)))"
    then have j: "j < length mine" by simp
    obtain g s b where m: "mine ! j = (g, s, b)" by (cases "mine ! j")
    with that nth_mem [OF j] have "dget b ''step_index'' = PInt step" by auto
    then show "map block_name (map (\<lambda>(n, (_, _, b)). dset ''sort_order'' (PInt (int n)) b)
        (zip [1..<Suc (length mine)] mine)) ! j = map (\<lambda>n. (PInt step, PInt (int n))) [1..<Suc (length mine)] ! j"
      using j m by (simp add: block_name_def dget_def nth_upt del: upt_Suc)
  qed simp
  have "map block_name (let mine = sort_key fst (filter (\<lambda>(_, s, _). s = step) cs)
      in map (\<lambda>(n, (_, _, b)). dset ''sort_order'' (PInt (int n)) b) (zip [1..<Suc (length mine)] mine)) =
    map (\<lambda>n. (PInt step, PInt (int n))) [1..<Suc (length (filter (\<lambda>(_, s, _). s = step) cs))]" for step
  proof -
    have "\<forall>(g, s, b)\<in>set (sort_key fst (filter (\<lambda>(_, s, _). s = step) cs)). dget b ''step_index'' = PInt step"
      using assms by auto
    from one [OF this] show ?thesis by (simp only: Let_def length_sort)
  qed
  then show ?thesis by (simp add: renumber_def map_concat comp_def del: upt_Suc)
qed

lemma distinct_names:
  "distinct idx \<Longrightarrow> distinct (concat (map (\<lambda>step. map (\<lambda>n. (PInt step, PInt (int n))) [1..<Suc (m step)]) idx))"
proof (induction idx)
  case (Cons k idx)
  have "distinct (map (\<lambda>n. (PInt k, PInt (int n))) [1..<Suc (m k)])"
    by (simp add: distinct_map inj_on_def del: upt_Suc)
  with Cons show ?case by (auto simp del: upt_Suc)
qed simp

lemma length_split:
  "distinct idx \<Longrightarrow> \<forall>c\<in>set cs. f c \<in> set idx \<Longrightarrow>
    sum_list (map (\<lambda>k. length (filter (\<lambda>c. f c = k) cs)) idx) = length cs"
proof (induction cs)
  case (Cons c cs)
  have "sum_list (map (\<lambda>k. length (filter (\<lambda>d. f d = k) (c # cs))) idx) =
      sum_list (map (\<lambda>k. if k = f c then 1 else 0) idx) +
      sum_list (map (\<lambda>k. length (filter (\<lambda>d. f d = k) cs)) idx)"
    by (simp add: sum_list_addf [symmetric]) (rule arg_cong [where f = sum_list], simp)
  moreover have "sum_list (map (\<lambda>k. if k = x then 1 else 0) idx) = (1::nat)"
    if "x \<in> set idx" "distinct idx" for x
    using that by (induction idx) (auto simp: sum_list_eq_0_iff)
  ultimately show ?case using Cons by simp
qed (induction idx, auto)

lemma renumber_blocks:
  assumes "b \<in> set (renumber idx cs)"
  shows "\<exists>g s c n. (g, s, c) \<in> set cs \<and> s \<in> set idx \<and> b = dset ''sort_order'' (PInt (int n)) c"
  using assms by (auto simp: renumber_def Let_def dest!: set_zip_rightD) blast

lemma validate_Inr:
  assumes "validate_form_shape steps blocks = Inr out"
  obtains n cs where "1 \<le> n" "step_numbers steps = Inr (map int [0..<Suc n])"
    "check_blocks (map int [0..<Suc n]) 0 blocks = Inr cs" "out = renumber (map int [0..<Suc n]) cs"
proof -
  obtain idx cs where idx: "step_numbers steps = Inr idx" "idx \<noteq> []" "idx = map int [0..<length idx]"
    "\<not> last idx < 1" and cs: "check_blocks idx 0 blocks = Inr cs" "out = renumber idx cs"
    using assms by (auto simp: validate_form_shape_def ebind_Inr split: if_splits)
  obtain n where n: "length idx = Suc n" using idx(2) by (cases idx) auto
  then have eq: "idx = map int [0..<Suc n]" using idx(3) by simp
  have "last idx = int n" by (simp add: eq)
  then show thesis using that [of n cs] idx(1,4) cs unfolding eq by (simp del: upt_Suc)
qed

text \<open>The tables fit: every form a line uses exists and needs no more approvers than the line has.\<close>

definition fits :: "tables \<Rightarrow> bool" where
  "fits t \<longleftrightarrow> distinct (map fst (t_lines t)) \<and> (\<forall>k\<in>fst ` set (t_lines t). k < next_line t) \<and>
     (\<forall>k\<in>fst ` set (t_forms t). k < next_form t) \<and>
     (\<forall>(k, l)\<in>set (t_lines t). \<forall>fid. ln_form l = Some fid \<longrightarrow>
        (\<exists>f. form_of t fid = Some f \<and> form_need f \<le> int (length (ln_steps l))))"

lemma fitsD: "fits t \<Longrightarrow> (j, l) \<in> set (t_lines t) \<Longrightarrow> ln_form l = Some fid \<Longrightarrow>
    \<exists>f. form_of t fid = Some f \<and> form_need f \<le> int (length (ln_steps l))"
  unfolding fits_def by blast

lemma fold_max_set: "set xs = set ys \<Longrightarrow> fold max xs (0::int) = fold max ys 0"
  using Max.set_eq_fold [of 0 xs] Max.set_eq_fold [of 0 ys] by simp

lemma emap_Inr_map: "emap f xs = Inr ys \<Longrightarrow> map f xs = map Inr ys"
  by (induction xs arbitrary: ys) (auto simp: ebind_Inr)

lemma need_with_steps:
  assumes "emap step_index steps = Inr ks"
  shows "form_need (with_steps tx steps f) = fold max ks 0"
proof -
  have "map (\<lambda>st. case step_index st of Inr i \<Rightarrow> i | Inl _ \<Rightarrow> 0) steps =
      map (\<lambda>r. case r of Inr i \<Rightarrow> i | Inl _ \<Rightarrow> 0) (map step_index steps)" by simp
  also have "\<dots> = ks" by (simp add: emap_Inr_map [OF assms] comp_def del: map_map) (simp add: comp_def)
  finally have "set (map fs_index (step_rows tx steps)) = set ks"
    by (auto simp: step_rows_def step_row_def Let_def case_prod_unfold image_image)
  from fold_max_set [OF this] show ?thesis by (simp add: form_need_def with_steps_def)
qed

lemma need_same [simp]:
  "form_need (with_blocks tx bs f) = form_need f" "form_need (form_columns p f) = form_need f"
  by (simp_all add: form_need_def with_blocks_def form_columns_def)

lemma form_of_set_form: "form_of (set_form k g t) j =
    (case form_of t j of None \<Rightarrow> None | Some f \<Rightarrow> Some (if j = k then g f else f))"
proof -
  have "map_of (map (\<lambda>(j, f). (j, if j = k then g f else f)) fs) j =
      (case map_of fs j of None \<Rightarrow> None | Some f \<Rightarrow> Some (if j = k then g f else f))" for fs
    by (induction fs) auto
  then show ?thesis by (simp add: form_of_def set_form_def)
qed

lemma fits_set_form:
  assumes "fits t" and "\<And>f l. form_of t k = Some f \<Longrightarrow> l \<in> set (lines_using k t) \<Longrightarrow>
    form_need (g f) \<le> int (length (ln_steps l))"
  shows "fits (set_form k g t)"
proof -
  have keys: "fst ` set (t_forms (set_form k g t)) = fst ` set (t_forms t)"
    by (force simp: set_form_def image_iff)
  have same: "t_lines (set_form k g t) = t_lines t" "next_line (set_form k g t) = next_line t"
    "next_form (set_form k g t) = next_form t"
    by (simp_all add: set_form_def)
  have "\<exists>f. form_of (set_form k g t) fid = Some f \<and> form_need f \<le> int (length (ln_steps l))"
    if l: "(j, l) \<in> set (t_lines t)" "ln_form l = Some fid" for j l fid
  proof -
    obtain f where f: "form_of t fid = Some f" "form_need f \<le> int (length (ln_steps l))"
      using fitsD [OF assms(1) l] by blast
    show ?thesis
    proof (cases "fid = k")
      case True
      then have "l \<in> set (lines_using k t)" using l by (force simp: lines_using_def)
      with assms(2) f(1) True show ?thesis by (simp add: form_of_set_form)
    qed (use f in \<open>simp add: form_of_set_form\<close>)
  qed
  then show ?thesis using assms(1) by (auto simp: fits_def keys same)
qed

lemma line_of_mem:
  "distinct (map fst (t_lines t)) \<Longrightarrow> line_of t k = Some l \<longleftrightarrow> (k, l) \<in> set (t_lines t)"
  by (simp add: line_of_def)

lemma fits_set_line:
  assumes "fits t" and "\<And>l fid. line_of t k = Some l \<Longrightarrow> ln_form (g l) = Some fid \<Longrightarrow>
    \<exists>f. form_of t fid = Some f \<and> form_need f \<le> int (length (ln_steps (g l)))"
  shows "fits (set_line k g t)"
proof -
  have d: "distinct (map fst (t_lines t))" using assms(1) by (simp add: fits_def)
  have keys: "map fst (t_lines (set_line k g t)) = map fst (t_lines t)"
    by (simp add: set_line_def case_prod_unfold comp_def)
  have keys': "fst ` set (t_lines (set_line k g t)) = fst ` set (t_lines t)"
    unfolding set_map [symmetric] keys by (rule refl)
  have same: "t_forms (set_line k g t) = t_forms t" "next_line (set_line k g t) = next_line t"
    "next_form (set_line k g t) = next_form t" "form_of (set_line k g t) = form_of t"
    by (simp_all add: set_line_def form_of_def fun_eq_iff)
  have "\<exists>f. form_of t fid = Some f \<and> form_need f \<le> int (length (ln_steps l))"
    if l: "(j, l) \<in> set (t_lines (set_line k g t))" "ln_form l = Some fid" for j l fid
  proof -
    obtain m where m: "(j, m) \<in> set (t_lines t)" "l = (if j = k then g m else m)"
      using l(1) by (auto simp: set_line_def)
    show ?thesis
    proof (cases "j = k")
      case True
      with m d assms(2) l(2) show ?thesis by (simp add: line_of_mem)
    next
      case False
      then show ?thesis using m l(2) assms(1) by (auto simp: fits_def)
    qed
  qed
  then show ?thesis using assms(1) unfolding fits_def keys keys' same by auto
qed

lemma fits_new_form:
  assumes "fits t"
  shows "fits (t\<lparr>t_forms := t_forms t @ [(next_form t, f)], next_form := next_form t + 1\<rparr>)"
proof -
  let ?t = "t\<lparr>t_forms := t_forms t @ [(next_form t, f)], next_form := next_form t + 1\<rparr>"
  have "form_of ?t k = Some g" if "form_of t k = Some g" for k g
    using that by (simp add: form_of_def map_add_def)
  then show ?thesis using assms unfolding fits_def by fastforce
qed

lemma fits_unused: "fits t \<Longrightarrow> lines_using (next_form t) t = []"
proof -
  assume f: "fits t"
  have "ln_form l \<noteq> Some (next_form t)" if l: "(j, l) \<in> set (t_lines t)" for j l
  proof
    assume "ln_form l = Some (next_form t)"
    from fitsD [OF f l this] obtain g where "form_of t (next_form t) = Some g" by blast
    then have "next_form t \<in> fst ` set (t_forms t)" by (force simp: form_of_def dest: map_of_SomeD)
    then show False using f by (auto simp: fits_def)
  qed
  then show "lines_using (next_form t) t = []" by (auto simp: lines_using_def filter_empty_conv)
qed

lemma keeps_create_form: "keeps fits (create_form tx name description owner steps blocks notice b)"
proof (rule keepsI)
  fix t assume f: "fits t"
  define f0 :: form where "f0 = \<lparr>fm_name = take 100 (strip name),
    fm_description = or_null (take 500 (strip description)), fm_notice = or_null (strip notice),
    fm_builtin = b, fm_owner = owner, fm_active = True, fm_steps = [], fm_blocks = []\<rparr>"
  define t1 where "t1 = t\<lparr>t_forms := t_forms t @ [(next_form t, f0)], next_form := next_form t + 1\<rparr>"
  have t1: "fits t1" "lines_using (next_form t) t1 = []"
    using fits_new_form [OF f] fits_unused [OF f] by (simp_all add: t1_def lines_using_def)
  then have t2: "fits (set_form (next_form t) (with_steps tx steps) t1)"
    by (intro fits_set_form) simp_all
  have "lines_using (next_form t) (set_form (next_form t) (with_steps tx steps) t1) = []"
    using t1(2) by (simp add: lines_using_def set_form_def)
  then have t3: "fits (set_form (next_form t) (with_blocks tx cs) (set_form (next_form t) (with_steps tx steps) t1))"
    for cs by (intro fits_set_form [OF t2]) simp
  show "fits (snd (create_form tx name description owner steps blocks notice b t))"
    using f t3
    by (simp add: create_form_def insert_form_def act_defs split: sum.split)
      (simp add: t1_def f0_def)
qed

lemma keeps_update_form: "keeps fits (update_form tx k p)"
proof (rule keepsI)
  fix t assume f: "fits t"
  have cols: "fits t \<Longrightarrow> fits (set_form k (form_columns p) t)" for t
    by (rule fits_set_form) (auto simp: lines_using_def dest: fitsD)
  have blocks: "fits t \<Longrightarrow> fits (set_form k (with_blocks tx cs) t)" for cs t
    by (rule fits_set_form) (auto simp: lines_using_def dest: fitsD)
  have steps: "fits (set_form k (with_steps tx ss) t)"
    if "emap step_index ss = Inr ks" "\<forall>l\<in>set (lines_using k t). \<not> int (length (ln_steps l)) < fold max ks 0" for ss ks
    by (rule fits_set_form [OF f]) (use that in \<open>auto simp: need_with_steps\<close>)
  show "fits (snd (update_form tx k p t))"
    using f
    by (auto simp: update_form_def guard_lines_still_fit_def act_defs Let_def filter_empty_conv rule_def lift_py_def
        intro!: cols blocks steps split: option.split sum.split)
qed

lemma keeps_lines:
  "keeps fits (create_line name description owner shared steps)"
  "keeps fits (update_line k lp)" "keeps fits (delete_line k actor su force)"
  "keeps fits (set_line_form k form_id)"
proof -
  have cols: "fits (set_line k (line_columns lp) t)" if f: "fits t" for t
    by (rule fits_set_line [OF f])
      (use f in \<open>auto simp: line_columns_def line_of_def dest!: map_of_SomeD dest: fitsD\<close>)
  show "keeps fits (create_line name description owner shared steps)"
    by (rule keepsI) (fastforce simp: create_line_def act_defs fits_def form_of_def split: sum.split)
  show "keeps fits (delete_line k actor su force)"
  proof (rule keepsI)
    fix t assume f: "fits t"
    have pol: "fits (t\<lparr>t_policies := ps\<rparr>)" for ps using f by (simp add: fits_def form_of_def)
    have "fits (set_line k (\<lambda>l. l\<lparr>ln_active := False\<rparr>) (t\<lparr>t_policies := ps\<rparr>))" for ps
      by (rule fits_set_line [OF pol]) (auto simp: line_of_def form_of_def dest!: map_of_SomeD fitsD [OF f])
    then show "fits (snd (delete_line k actor su force t))"
      using f by (auto simp: delete_line_def act_defs split: option.split)
  qed
  show "keeps fits (set_line_form k form_id)"
  proof (rule keepsI)
    fix t assume f: "fits t"
    have set: "fits (set_line k (\<lambda>l. l\<lparr>ln_form := form_id\<rparr>) t)"
      if "\<And>fid l. form_id = Some fid \<Longrightarrow> line_of t k = Some l \<Longrightarrow>
        \<exists>g. form_of t fid = Some g \<and> form_need g \<le> int (length (ln_steps l))"
      by (rule fits_set_line [OF f]) (use that in auto)
    show "fits (snd (set_line_form k form_id t))"
    proof (cases form_id)
      case None
      then show ?thesis using set by (simp add: set_line_form_def act_defs)
    next
      case (Some fid)
      then show ?thesis using f set
        by (cases "form_of t fid"; cases "line_of t k") (auto simp: set_line_form_def act_defs)
    qed
  qed
  show "keeps fits (update_line k lp)"
  proof (rule keepsI)
    fix t assume f: "fits t"
    have steps: "fits (set_line k (\<lambda>l. l\<lparr>ln_steps := planned\<rparr>) (set_line k (line_columns lp) t))"
      if l: "line_of t k = Some l"
        and g: "\<And>fid g. ln_form l = Some fid \<Longrightarrow> form_of t fid = Some g \<Longrightarrow> form_need g \<le> int (length planned)"
      for l planned
    proof (rule fits_set_line [OF cols [OF f]])
      fix m fid
      assume "line_of (set_line k (line_columns lp) t) k = Some m"
        and "ln_form (m\<lparr>ln_steps := planned\<rparr>) = Some fid"
      moreover have "line_of (set_line k (line_columns lp) t) k = Some (line_columns lp l)"
      proof -
        have "map_of (map (\<lambda>(j, l). (j, if j = k then line_columns lp l else l)) ls) k =
            map_option (line_columns lp) (map_of ls k)" for ls
          by (induction ls) auto
        then show ?thesis using l by (simp add: line_of_def set_line_def)
      qed
      ultimately have lf: "ln_form l = Some fid" by (auto simp: line_columns_def)
      have "(k, l) \<in> set (t_lines t)" using l by (simp add: line_of_def map_of_SomeD)
      from fitsD [OF f this lf] obtain h where "form_of t fid = Some h" by blast
      moreover have "form_of (set_line k (line_columns lp) t) = form_of t"
        by (simp add: form_of_def set_line_def fun_eq_iff)
      ultimately show "\<exists>h. form_of (set_line k (line_columns lp) t) fid = Some h \<and>
          form_need h \<le> int (length (ln_steps (m\<lparr>ln_steps := planned\<rparr>)))"
        using g lf by simp
    qed
    have fo: "form_of (set_line k g t) = form_of t" for g by (simp add: form_of_def set_line_def fun_eq_iff)
    show "fits (snd (update_line k lp t))"
      using f
      by (auto simp: update_line_def guard_form_still_fits_def act_defs rule_def fo
          intro!: cols steps split: option.split sum.split)
  qed
qed

lemma keeps_forms:
  "keeps fits (copy_form tx k name owner)" "keeps fits (delete_form k)"
proof -
  show "keeps fits (copy_form tx k name owner)"
    unfolding copy_form_def
    by (intro keeps_bind keeps_pure) (auto split: option.split intro: keeps_pure keeps_create_form)
  show "keeps fits (delete_form k)"
  proof (rule keepsI)
    fix t assume f: "fits t"
    have "fits (t\<lparr>t_forms := filter (\<lambda>(j, _). j \<noteq> k) (t_forms t)\<rparr>)" if u: "lines_using k t = []"
    proof -
      let ?t = "t\<lparr>t_forms := filter (\<lambda>(j, _). j \<noteq> k) (t_forms t)\<rparr>"
      have other: "form_of ?t j = form_of t j" if "j \<noteq> k" for j
      proof -
        have "map_of (filter (\<lambda>(j, _). j \<noteq> k) fs) j = map_of fs j" for fs :: "(int \<times> form) list"
          using that by (induction fs) auto
        then show ?thesis by (simp add: form_of_def)
      qed
      have "\<exists>g. form_of ?t fid = Some g \<and> form_need g \<le> int (length (ln_steps l))"
        if l: "(j, l) \<in> set (t_lines t)" "ln_form l = Some fid" for j l fid
      proof -
        have "fid \<noteq> k" using u l by (auto simp: lines_using_def filter_empty_conv)
        then show ?thesis using fitsD [OF f l] other by simp
      qed
      then show ?thesis using f by (auto simp: fits_def)
    qed
    then show "fits (snd (delete_form k t))"
      using f by (auto simp: delete_form_def act_defs split: option.split)
  qed
qed

section \<open>Properties\<close>

text \<open>C21. A form that is accepted can be drawn and named: its steps run from 0 without gaps and
  include an approver, no block is lost, every block stands on a step the form has and is of a
  kind the code knows, and the pair of step and number, by which a submission addresses a
  block, names one block only.\<close>

theorem accepted_form_is_well_shaped:
  assumes "validate_form_shape steps blocks = Inr out"
  shows "\<exists>n. 1 \<le> n \<and> step_numbers steps = Inr (map int [0..<Suc n]) \<and> length out = length blocks \<and>
    distinct (map block_name out) \<and>
    (\<forall>b\<in>set out. \<exists>k t. dget b ''step_index'' = PInt (int k) \<and> k \<le> n \<and>
      dget b ''block_type'' = PStr t \<and> is_known (PStr t))"
proof -
  obtain n cs where n: "1 \<le> n" "step_numbers steps = Inr (map int [0..<Suc n])"
    "check_blocks (map int [0..<Suc n]) 0 blocks = Inr cs" "out = renumber (map int [0..<Suc n]) cs"
    using validate_Inr [OF assms] .
  let ?idx = "map int [0..<Suc n]"
  note cs = check_blocks_Inr [OF n(3)]
  have idx: "distinct ?idx" by (simp add: distinct_map inj_on_def del: upt_Suc)
  have at: "\<forall>(g, s, b)\<in>set cs. dget b ''step_index'' = PInt s" using cs by auto
  have names: "map block_name out = concat (map (\<lambda>step. map (\<lambda>m. (PInt step, PInt (int m)))
      [1..<Suc (length (filter (\<lambda>(_, s, _). s = step) cs))]) ?idx)"
    unfolding n(4) by (rule renumber_names [OF at])
  have "distinct (map block_name out)" unfolding names by (rule distinct_names [OF idx])
  moreover have "length out = length blocks"
  proof -
    have "length out = length (map block_name out)" by simp
    also have "\<dots> = sum_list (map (\<lambda>step. length (filter (\<lambda>c. fst (snd c) = step) cs)) ?idx)"
      unfolding names by (simp add: length_concat comp_def case_prod_unfold del: upt_Suc)
    also have "\<dots> = length cs"
      by (rule length_split [OF idx]) (use cs in \<open>auto simp del: set_map upt_Suc\<close>)
    finally show ?thesis using cs by simp
  qed
  moreover have "\<exists>k t. dget b ''step_index'' = PInt (int k) \<and> k \<le> n \<and>
      dget b ''block_type'' = PStr t \<and> is_known (PStr t)" if b: "b \<in> set out" for b
  proof -
    obtain g s c m where c: "(g, s, c) \<in> set cs" "b = dset ''sort_order'' (PInt (int m)) c"
      using renumber_blocks b unfolding n(4) by blast
    with cs have "s \<in> set ?idx" "dget c ''step_index'' = PInt s"
      "\<exists>t. dget c ''block_type'' = PStr t \<and> is_known (PStr t)" by auto
    then show ?thesis by (auto simp: c(2) dget_def less_Suc_eq_le)
  qed
  ultimately show ?thesis using n(1,2) by blast
qed

theorem accepted_form_is_well_shaped_witness:
  "\<exists>out. validate_form_shape [[(''step_index'', PInt 1)], [(''step_index'', PInt 0)]]
      [[(''block_type'', PStr ''text''), (''step_index'', PInt 1), (''sort_order'', PInt 7)],
       [(''block_type'', PStr ''risk_assessment''), (''step_index'', PInt 1), (''sort_order'', PInt 7)]] = Inr out \<and>
    distinct (map block_name out) \<and>
    map block_name out = [(PInt 1, PInt 1), (PInt 1, PInt 2)]"
proof -
  let ?v = "validate_form_shape [[(''step_index'', PInt 1)], [(''step_index'', PInt 0)]]
      [[(''block_type'', PStr ''text''), (''step_index'', PInt 1), (''sort_order'', PInt 7)],
       [(''block_type'', PStr ''risk_assessment''), (''step_index'', PInt 1), (''sort_order'', PInt 7)]]"
  have m: "map_sum (\<lambda>_. ()) (map block_name) ?v = Inr [(PInt 1, PInt 1), (PInt 1, PInt 2)]" by code_simp
  then obtain out where o: "?v = Inr out" by (cases ?v) auto
  show ?thesis using accepted_form_is_well_shaped [OF o] o m by auto
qed

text \<open>C22. No operation on lines and forms, returning or refused half-way, leaves a line shorter than
  the form it uses: creating, changing, copying and deleting forms, creating, changing and
  retiring lines and attaching a form all keep every line at least as long as its form needs,
  with a form that exists.\<close>

theorem lines_stay_long_enough:
  "keeps fits (create_form tx name description owner steps blocks notice builtin) \<and>
   keeps fits (update_form tx fid fp) \<and> keeps fits (copy_form tx fid name owner) \<and>
   keeps fits (delete_form fid) \<and> keeps fits (create_line name description lowner shared steps) \<and>
   keeps fits (update_line lid lp) \<and> keeps fits (delete_line lid actor su force) \<and>
   keeps fits (set_line_form lid form_id)"
  by (simp add: keeps_create_form keeps_update_form keeps_forms keeps_lines)

end
