(* ===== verification/ApprovalEvaluation.thy ===== *)
theory ApprovalEvaluation
  imports ApprovalBlocks
begin

text \<open>
  \<open>src/xgen_sdk/approval/evaluation.py\<close>: the optional items of an evaluation form in their
  full shape, and which version of which form decides them for a block, whatever the caller
  sent.

  The labels of the default choices are display texts outside the model's characters; they
  are the parameter \<open>lab\<close>. The two tables the code reads are given as lists of rows in the
  order of the query, or \<open>None\<close> where reading them fails.
\<close>

section \<open>Options in full\<close>

type_synonym choice = "string \<times> string"

record choice_option =
  co_enabled :: bool
  co_choices :: "choice list"

record eval_options =
  eo_mitigation :: bool
  eo_attachments :: bool
  eo_agent_risk_grade :: bool
  eo_impact_scope :: choice_option
  eo_traits :: choice_option

definition IMPACT_SCOPE_CODES :: "string list" where
  "IMPACT_SCOPE_CODES = [''CUSTOMER'', ''EMPLOYEES'', ''DEPARTMENT'', ''PERSONAL'']"

definition TRAIT_CODES :: "string list" where
  "TRAIT_CODES = [''PERSONAL_DATA'', ''HIGH_IMPACT_AI'']"

definition default_choices :: "(string \<Rightarrow> string) \<Rightarrow> string list \<Rightarrow> choice list" where
  "default_choices lab codes = map (\<lambda>c. (c, lab c)) codes"

definition FULL_OPTIONS :: "(string \<Rightarrow> string) \<Rightarrow> eval_options" where
  "FULL_OPTIONS lab = \<lparr>eo_mitigation = True, eo_attachments = True, eo_agent_risk_grade = True,
     eo_impact_scope = \<lparr>co_enabled = True, co_choices = default_choices lab IMPACT_SCOPE_CODES\<rparr>,
     eo_traits = \<lparr>co_enabled = True, co_choices = default_choices lab TRAIT_CODES\<rparr>\<rparr>"

definition choice_code :: "pydict \<Rightarrow> string" where
  "choice_code item = strip (str_or_empty (dget item ''code''))"

definition choice_label :: "pydict \<Rightarrow> string \<Rightarrow> string" where
  "choice_label item code = (let l = strip (py_str (or_else (dget item ''label'') (PStr code)))
     in if l = [] then code else l)"

fun collect_choices :: "string list \<Rightarrow> pydict list \<Rightarrow> choice list" where
  "collect_choices seen [] = []"
| "collect_choices seen (item # items) =
     (let code = choice_code item in
      if code = [] \<or> code \<in> set seen then collect_choices seen items
      else (code, choice_label item code) # collect_choices (code # seen) items)"

definition choices :: "pyval \<Rightarrow> choice list \<Rightarrow> choice list" where
  "choices raw dflt = (case raw of
       PList xs \<Rightarrow> (let out = collect_choices [] (dicts_of xs) in if out = [] then dflt else out)
     | _ \<Rightarrow> dflt)"

definition flag_option :: "pydict \<Rightarrow> string \<Rightarrow> bool" where
  "flag_option raw key = (case map_of raw key of
       None \<Rightarrow> True
     | Some (PDict v) \<Rightarrow> truthy (dget_or v ''enabled'' (PBool True))
     | Some v \<Rightarrow> truthy v)"

definition choice_of :: "pydict \<Rightarrow> string \<Rightarrow> choice list \<Rightarrow> choice_option" where
  "choice_of raw key dflt = (case map_of raw key of
       None \<Rightarrow> \<lparr>co_enabled = True, co_choices = dflt\<rparr>
     | Some (PDict v) \<Rightarrow> \<lparr>co_enabled = truthy (dget_or v ''enabled'' (PBool True)),
         co_choices = choices (dget v ''choices'') dflt\<rparr>
     | Some v \<Rightarrow> \<lparr>co_enabled = truthy v, co_choices = dflt\<rparr>)"

definition normalize_options :: "(string \<Rightarrow> string) \<Rightarrow> pyval \<Rightarrow> eval_options" where
  "normalize_options lab policy_data =
     (case (case policy_data of PDict d \<Rightarrow> dget d ''options'' | _ \<Rightarrow> PNone) of
        PDict raw \<Rightarrow>
          \<lparr>eo_mitigation = flag_option raw ''mitigation'',
           eo_attachments = flag_option raw ''attachments'',
           eo_agent_risk_grade = flag_option raw ''agent_risk_grade'',
           eo_impact_scope = choice_of raw ''impact_scope'' (default_choices lab IMPACT_SCOPE_CODES),
           eo_traits = choice_of raw ''traits'' (default_choices lab TRAIT_CODES)\<rparr>
      | _ \<Rightarrow> FULL_OPTIONS lab)"

text \<open>The dictionary the code returns for them.\<close>

definition choice_value :: "choice_option \<Rightarrow> pyval" where
  "choice_value c = PDict [(''enabled'', PBool (co_enabled c)),
     (''choices'', PList (map (\<lambda>(code, l). PDict [(''code'', PStr code), (''label'', PStr l)]) (co_choices c)))]"

definition options_value :: "eval_options \<Rightarrow> pyval" where
  "options_value o1 = PDict
     [(''mitigation'', PBool (eo_mitigation o1)), (''attachments'', PBool (eo_attachments o1)),
      (''agent_risk_grade'', PBool (eo_agent_risk_grade o1)),
      (''impact_scope'', choice_value (eo_impact_scope o1)), (''traits'', choice_value (eo_traits o1))]"

section \<open>The form a block follows\<close>

record template_row =
  tr_template_id :: pyval
  tr_is_default :: pyval

record policy_row =
  pr_id :: int
  pr_template_id :: pyval
  pr_version :: int
  pr_policy_data :: pyval
  pr_is_active :: pyval

record evaluation_db =
  db_templates :: "template_row list option"
  db_policies :: "policy_row list option"

datatype eval_error = EvaluationVersionNotFound | EvaluationVersionMismatch

definition BUILTIN_TEMPLATE_ID :: string where "BUILTIN_TEMPLATE_ID = ''ai-risk''"
definition LEGACY_TEMPLATE_ID :: string where "LEGACY_TEMPLATE_ID = ''default''"

definition db_truthy :: "pyval \<Rightarrow> bool" where
  "db_truthy v = (case v of
       PStr s \<Rightarrow> lower (strip s) \<in> {''1'', ''t'', ''true'', ''y'', ''yes''}
     | _ \<Rightarrow> truthy v)"

definition parse_policy_data :: "decoder \<Rightarrow> pyval \<Rightarrow> pyval" where
  "parse_policy_data loads raw = (case raw of
       PDict _ \<Rightarrow> raw
     | PStr s \<Rightarrow> (if strip s = [] then PDict []
         else case loads s of Some (PDict d) \<Rightarrow> PDict d | _ \<Rightarrow> PDict [])
     | _ \<Rightarrow> PDict [])"

definition text_of :: "pyval \<Rightarrow> string" where
  "text_of v = strip (str_or_empty v)"

definition config_template_id :: "decoder \<Rightarrow> pydict \<Rightarrow> string" where
  "config_template_id loads block = (case parse_data loads (dget block ''config'') of
       PDict c \<Rightarrow> text_of (dget c ''template_id'')
     | _ \<Rightarrow> [])"

fun default_template :: "template_row list \<Rightarrow> string" where
  "default_template [] = BUILTIN_TEMPLATE_ID"
| "default_template (t # ts) = (if db_truthy (tr_is_default t)
     then (if str_or_empty (tr_template_id t) = [] then BUILTIN_TEMPLATE_ID
           else str_or_empty (tr_template_id t))
     else default_template ts)"

definition resolve_template_id :: "evaluation_db \<Rightarrow> string \<Rightarrow> string option" where
  "resolve_template_id db requested = (case db_templates db of
       None \<Rightarrow> None
     | Some ts \<Rightarrow> Some (if requested \<noteq> [] \<and> list_ex (\<lambda>t. str_or_empty (tr_template_id t) = requested) ts
         then requested else default_template ts))"

text \<open>\<open>None\<close> where reading raises.\<close>

definition policy_row_of :: "evaluation_db \<Rightarrow> pyval \<Rightarrow> policy_row option option" where
  "policy_row_of db policy_id = (case policy_id of
       PBool _ \<Rightarrow> Some None
     | _ \<Rightarrow> (let pid = strip (py_str policy_id) in
         if pid = [] \<or> \<not> list_all isdigit_char pid then Some None
         else case parse_int pid of None \<Rightarrow> None
           | Some n \<Rightarrow> (case db_policies db of None \<Rightarrow> None
               | Some rows \<Rightarrow> Some (find (\<lambda>r. pr_id r = n) rows))))"

fun max_version :: "policy_row list \<Rightarrow> policy_row option" where
  "max_version [] = None"
| "max_version (r # rs) = (case max_version rs of
     None \<Rightarrow> Some r
   | Some m \<Rightarrow> Some (if pr_version r < pr_version m then m else r))"

definition active_policy_row :: "evaluation_db \<Rightarrow> string \<Rightarrow> policy_row option option" where
  "active_policy_row db template_id = (case db_policies db of
       None \<Rightarrow> None
     | Some rows \<Rightarrow> Some (max_version (filter (\<lambda>r. pr_template_id r = PStr template_id \<and>
         db_truthy (pr_is_active r)) rows)))"

definition has_policy_id :: "pyval \<Rightarrow> bool" where
  "has_policy_id policy_id = (policy_id \<noteq> PNone \<and> strip (py_str policy_id) \<noteq> [])"

text \<open>What was read for a value: the version row and, for a fixed block that names a version,
  the form the block is bound to.\<close>

definition read_version ::
  "decoder \<Rightarrow> evaluation_db \<Rightarrow> pydict \<Rightarrow> pydict \<Rightarrow> (policy_row option \<times> string option) option" where
  "read_version loads db block v =
     (let policy_id = dget v ''policy_id''; fixed = config_template_id loads block in
      if has_policy_id policy_id then
        (case policy_row_of db policy_id of
           None \<Rightarrow> None
         | Some row \<Rightarrow> if fixed \<noteq> [] \<and> row \<noteq> None
             then (case resolve_template_id db fixed of None \<Rightarrow> None | Some t \<Rightarrow> Some (row, Some t))
             else Some (row, None))
      else
        (case resolve_template_id db (if fixed \<noteq> [] then fixed else text_of (dget v ''template_id'')) of
           None \<Rightarrow> None
         | Some t \<Rightarrow> (case active_policy_row db t of None \<Rightarrow> None | Some row \<Rightarrow> Some (row, Some t))))"

definition row_template :: "policy_row \<Rightarrow> string" where
  "row_template r = (if text_of (pr_template_id r) = [] then LEGACY_TEMPLATE_ID else text_of (pr_template_id r))"

definition resolve_options ::
  "(string \<Rightarrow> string) \<Rightarrow> decoder \<Rightarrow> evaluation_db \<Rightarrow> pydict \<Rightarrow> pyval \<Rightarrow> eval_error + eval_options" where
  "resolve_options lab loads db block data =
     (let v = (case data of PDict d \<Rightarrow> d | _ \<Rightarrow> []); wants_version = has_policy_id (dget v ''policy_id'') in
      case read_version loads db block v of
        None \<Rightarrow> Inr (FULL_OPTIONS lab)
      | Some (None, _) \<Rightarrow> if wants_version then Inl EvaluationVersionNotFound else Inr (FULL_OPTIONS lab)
      | Some (Some row, template) \<Rightarrow>
          if wants_version \<and> template \<noteq> None \<and> Some (row_template row) \<noteq> template
          then Inl EvaluationVersionMismatch
          else Inr (normalize_options lab (parse_policy_data loads (pr_policy_data row))))"

text \<open>\<open>store._with_server_options\<close>: the stored value carries the server's options.\<close>

definition with_server_options ::
  "(string \<Rightarrow> string) \<Rightarrow> decoder \<Rightarrow> evaluation_db \<Rightarrow> pydict \<Rightarrow> pyval \<Rightarrow> eval_error + pyval" where
  "with_server_options lab loads db block data =
     (if normalize_block_type (dget block ''block_type'') \<noteq> EVALUATION then Inr data
      else case data of
             PDict d \<Rightarrow> if d = [] then Inr data
               else ebind (resolve_options lab loads db block data) (\<lambda>o1.
                 Inr (PDict (dset ''options'' (options_value o1) d)))
           | _ \<Rightarrow> Inr data)"

section \<open>Lemmas\<close>

lemma choices_dict:
  "dicts_of (map (\<lambda>(code, l). PDict [(''code'', PStr code), (''label'', PStr l)]) cs) =
    map (\<lambda>(code, l). [(''code'', PStr code), (''label'', PStr l)]) cs"
  by (induction cs) (auto simp: dicts_of_def)

definition good_choices :: "choice list \<Rightarrow> bool" where
  "good_choices cs \<longleftrightarrow> cs \<noteq> [] \<and> distinct (map fst cs) \<and>
     list_all (\<lambda>(code, l). strip code = code \<and> code \<noteq> [] \<and> strip l = l \<and> l \<noteq> []) cs"

lemma collect_again:
  "distinct (map fst cs) \<Longrightarrow> fst ` set cs \<inter> set seen = {} \<Longrightarrow>
    list_all (\<lambda>(code, l). strip code = code \<and> code \<noteq> [] \<and> strip l = l \<and> l \<noteq> []) cs \<Longrightarrow>
    collect_choices seen (map (\<lambda>(code, l). [(''code'', PStr code), (''label'', PStr l)]) cs) = cs"
proof (induction cs arbitrary: seen)
  case (Cons c cs)
  obtain code l where c: "c = (code, l)" by (cases c)
  have "collect_choices (code # seen) (map (\<lambda>(code, l). [(''code'', PStr code), (''label'', PStr l)]) cs) = cs"
    using Cons.prems c by (intro Cons.IH) auto
  then show ?case using Cons.prems c
    by (auto simp: choice_code_def choice_label_def or_else_def py_str_def dget_def Let_def)
qed simp

lemma collect_good:
  "distinct (map fst (collect_choices seen items)) \<and>
    fst ` set (collect_choices seen items) \<inter> set seen = {} \<and>
    list_all (\<lambda>(code, l). strip code = code \<and> code \<noteq> [] \<and> strip l = l \<and> l \<noteq> []) (collect_choices seen items)"
proof (induction items arbitrary: seen)
  case (Cons item items)
  show ?case
  proof (cases "choice_code item = [] \<or> choice_code item \<in> set seen")
    case True
    then show ?thesis using Cons.IH [of seen] by (simp add: Let_def)
  next
    case False
    have "choice_label item (choice_code item) \<noteq> []"
      "strip (choice_label item (choice_code item)) = choice_label item (choice_code item)"
      "strip (choice_code item) = choice_code item"
      using False by (simp_all add: choice_label_def choice_code_def Let_def)
    then show ?thesis using False Cons.IH [of "choice_code item # seen"]
      by (auto simp: Let_def)
  qed
qed simp

lemma choices_again:
  "good_choices cs \<Longrightarrow>
    choices (PList (map (\<lambda>(code, l). PDict [(''code'', PStr code), (''label'', PStr l)]) cs)) d = cs"
  by (simp add: choices_def good_choices_def choices_dict collect_again Let_def)

lemma choices_good: "good_choices d \<Longrightarrow> good_choices (choices raw d)"
  using collect_good [of "[]" "dicts_of _"]
  by (auto simp: choices_def good_choices_def Let_def split: pyval.splits)

lemma choice_of_good: "good_choices d \<Longrightarrow> good_choices (co_choices (choice_of raw key d))"
  by (auto simp: choice_of_def choices_good split: option.splits pyval.splits)

lemma option_on_flag: "option_on (PDict raw) key = flag_option raw key"
  by (simp add: option_on_def flag_option_def split: option.splits pyval.splits)

lemma option_on_choice: "option_on (PDict raw) key = co_enabled (choice_of raw key d)"
  by (simp add: option_on_def choice_of_def split: option.splits pyval.splits)

definition good_options :: "eval_options \<Rightarrow> bool" where
  "good_options o1 \<longleftrightarrow> good_choices (co_choices (eo_impact_scope o1)) \<and> good_choices (co_choices (eo_traits o1))"

lemma normalize_again:
  assumes "good_options o1"
  shows "normalize_options lab (PDict [(''options'', options_value o1)]) = o1"
proof -
  obtain m a g i t where o1: "o1 = \<lparr>eo_mitigation = m, eo_attachments = a, eo_agent_risk_grade = g,
      eo_impact_scope = i, eo_traits = t\<rparr>" by (cases o1)
  show ?thesis using assms
    by (cases i; cases t)
      (simp add: o1 normalize_options_def options_value_def choice_value_def flag_option_def
        choice_of_def dget_def dget_or_def good_options_def choices_again)
qed

lemma normalize_good:
  assumes "good_choices (default_choices lab IMPACT_SCOPE_CODES)" "good_choices (default_choices lab TRAIT_CODES)"
  shows "good_options (normalize_options lab data)"
  using assms
  by (auto simp: normalize_options_def good_options_def FULL_OPTIONS_def choice_of_good
      split: pyval.splits)

section \<open>Properties\<close>

text \<open>The two readings of an evaluation form's options agree: whatever value stands under
  \<open>options\<close>, each optional item is on in the full shape exactly when the filled-in check takes
  it as on. With default labels that are trimmed texts, the full shape is stable: normalising
  what was stored gives it back.\<close>

lemma options_parity_and_stability:
  assumes "good_choices (default_choices lab IMPACT_SCOPE_CODES)"
    and "good_choices (default_choices lab TRAIT_CODES)"
  shows "eo_mitigation (normalize_options lab (PDict d)) = option_on (dget d ''options'') ''mitigation'' \<and>
    eo_attachments (normalize_options lab (PDict d)) = option_on (dget d ''options'') ''attachments'' \<and>
    eo_agent_risk_grade (normalize_options lab (PDict d)) = option_on (dget d ''options'') ''agent_risk_grade'' \<and>
    co_enabled (eo_impact_scope (normalize_options lab (PDict d))) = option_on (dget d ''options'') ''impact_scope'' \<and>
    co_enabled (eo_traits (normalize_options lab (PDict d))) = option_on (dget d ''options'') ''traits'' \<and>
    normalize_options lab (PDict [(''options'', options_value (normalize_options lab (PDict d)))]) =
      normalize_options lab (PDict d)"
proof -
  have stable: "normalize_options lab (PDict [(''options'', options_value (normalize_options lab (PDict d)))]) =
      normalize_options lab (PDict d)"
    by (rule normalize_again [OF normalize_good [OF assms]])
  show ?thesis
  proof (cases "dget d ''options''")
    case (PDict raw)
    show ?thesis
      using stable
      by (simp add: normalize_options_def PDict flip: option_on_flag option_on_choice)
  qed (use stable in \<open>simp_all add: normalize_options_def option_on_def FULL_OPTIONS_def\<close>)
qed

lemma options_parity_and_stability_witness:
  "eo_mitigation (normalize_options (\<lambda>c. c) (PDict [(''options'', PDict [(''mitigation'', PNone)])])) = False"
proof -
  have g: "good_choices (default_choices (\<lambda>c. c) IMPACT_SCOPE_CODES)"
    "good_choices (default_choices (\<lambda>c. c) TRAIT_CODES)" by code_simp+
  have "option_on (PDict [(''mitigation'', PNone)]) ''mitigation'' = False" by code_simp
  then show ?thesis
    using options_parity_and_stability [OF g, of "[(''options'', PDict [(''mitigation'', PNone)])]"]
    by (simp add: dget_def)
qed

text \<open>The server decides the options: what a caller writes under \<open>options\<close> of an evaluation value
  changes nothing in what is stored, and where the block fixes a form, a value that names a
  version is only accepted when that version belongs to the form the block resolves to.\<close>

lemma server_decides_options:
  assumes "normalize_block_type (dget block ''block_type'') = EVALUATION" and "d \<noteq> []"
  shows "with_server_options lab loads db block (PDict (dset ''options'' sent d)) =
      with_server_options lab loads db block (PDict d) \<and>
    (\<forall>o1 row t. resolve_options lab loads db block (PDict d) = Inr o1 \<longrightarrow>
      has_policy_id (dget d ''policy_id'') \<longrightarrow>
      read_version loads db block d = Some (Some row, Some t) \<longrightarrow> row_template row = t)"
proof -
  have other: "dget (dset ''options'' sent d) k = dget d k" if "k \<noteq> ''options''" for k
    using that by (simp add: dget_def)
  have r: "resolve_options lab loads db block (PDict (dset ''options'' sent d)) =
      resolve_options lab loads db block (PDict d)"
  proof -
    have rv: "read_version loads db block (dset ''options'' sent d) = read_version loads db block d"
      by (simp add: read_version_def other Let_def)
    have pid: "dget (dset ''options'' sent d) ''policy_id'' = dget d ''policy_id''"
      by (simp add: other)
    show ?thesis unfolding resolve_options_def Let_def pyval.case rv pid by (rule refl)
  qed
  have twice: "dset ''options'' x (dset ''options'' sent d) = dset ''options'' x d" for x
    by (induction d) auto
  then have "with_server_options lab loads db block (PDict (dset ''options'' sent d)) =
      with_server_options lab loads db block (PDict d)"
    using assms by (simp add: with_server_options_def r twice)
  then show ?thesis by (auto simp: resolve_options_def Let_def split: if_splits)
qed

lemma server_decides_options_witness:
  "with_server_options (\<lambda>c. c) (\<lambda>_. None) \<lparr>db_templates = Some [], db_policies = Some []\<rparr>
     [(''block_type'', PStr ''risk_assessment'')]
     (PDict (dset ''options'' (PDict [(''impact_scope'', PBool False)]) [(''risk_level'', PStr ''LOW'')])) =
   with_server_options (\<lambda>c. c) (\<lambda>_. None) \<lparr>db_templates = Some [], db_policies = Some []\<rparr>
     [(''block_type'', PStr ''risk_assessment'')] (PDict [(''risk_level'', PStr ''LOW'')])"
proof -
  have "normalize_block_type (dget [(''block_type'', PStr ''risk_assessment'')] ''block_type'') = EVALUATION"
    by code_simp
  from server_decides_options [OF this, of "[(''risk_level'', PStr ''LOW'')]"] show ?thesis by blast
qed

end
