(* ===== verification/ApprovalDocument.thy ===== *)
theory ApprovalDocument
  imports ApprovalLedger ApprovalForms ApprovalEvaluation
begin

text \<open>
  \<open>src/xgen_sdk/approval/store.py\<close>, the life of a document: submission with a snapshot of the
  line and the form, filling fields, and all operations of the ledger on a document with
  fields. Texts for people (title, reason, names) are checked where the code checks them and
  not kept. Requests with follow-up lines are decided elsewhere; here their configuration is
  only recorded at submission.
\<close>

datatype doc_error =
    DocRule approval_error
  | TitleNeeded
  | UnregisteredAction string
  | NotSubmittable string
  | AlreadyInProgress int
  | EmptyLineTemplate
  | OpenSlotsLeft
  | LineNeeded
  | SelfApproval
  | FormNeeds int
  | OnlyDraftFields
  | UnknownField
  | EvaluationRefused eval_error
  | ValueRefused data_error
  | FieldNotFound
  | FieldRetired
  | AlreadyFinished
  | NotDrafter
  | DraftFrozen
  | NotOfThisStep
  | NotYet

definition doc_rule :: "approval_error + 'a \<Rightarrow> doc_error + 'a" where
  "doc_rule r = (case r of Inl x \<Rightarrow> Inl (DocRule x) | Inr v \<Rightarrow> Inr v)"

text \<open>What the operations read besides the ledger.\<close>

record world =
  w_services_of :: services
  w_tables :: tables
  w_evaluation :: evaluation_db
  w_labels :: "string \<Rightarrow> string"

section \<open>Submitting\<close>

record submission =
  sb_requester :: int
  sb_title :: string
  sb_action :: string
  sb_payload :: pyval
  sb_line :: "int option"
  sb_steps :: "pydict list"
  sb_target :: "string option"
  sb_values :: "pydict list"
  sb_via_user_api :: bool

definition slot_dict :: "slot \<Rightarrow> pydict" where
  "slot_dict s = [(''step_order'', PInt (slot_order s)),
     (''approver_id'', (case slot_approver s of None \<Rightarrow> PNone | Some a \<Rightarrow> PInt a))]"

definition target_of :: "submission \<Rightarrow> string" where
  "target_of sub = (case sb_target sub of None \<Rightarrow> [] | Some t \<Rightarrow> take 200 (strip t))"

text \<open>The specs of the line: the ones sent, or those of the template.\<close>

definition line_given :: "submission \<Rightarrow> int option" where
  "line_given sub = (case sb_line sub of Some k \<Rightarrow> if k = 0 then None else Some k | None \<Rightarrow> None)"

definition specs_for :: "tables \<Rightarrow> submission \<Rightarrow> doc_error + pydict list" where
  "specs_for t sub =
     (if sb_steps sub \<noteq> [] then Inr (sb_steps sub)
      else case line_given sub of
        None \<Rightarrow> Inl LineNeeded
      | Some k \<Rightarrow>
          (let specs = (case line_of t k of None \<Rightarrow> [] | Some l \<Rightarrow> map slot_dict (ln_steps l))
           in if specs = [] then Inl EmptyLineTemplate
              else if list_ex is_open_slot specs then Inl OpenSlotsLeft else Inr specs))"

definition line_form :: "tables \<Rightarrow> submission \<Rightarrow> (int \<times> form) option" where
  "line_form t sub = (case line_given sub of
       None \<Rightarrow> None
     | Some k \<Rightarrow> (case line_of t k of None \<Rightarrow> None
         | Some l \<Rightarrow> (case ln_form l of None \<Rightarrow> None
             | Some fid \<Rightarrow> (case form_of t fid of None \<Rightarrow> None | Some f \<Rightarrow> Some (fid, f)))))"

text \<open>\<open>followup.snapshot\<close>.\<close>

definition followup_snapshot :: "tables \<Rightarrow> submission \<Rightarrow> followup_config option" where
  "followup_snapshot t sub = (case line_given sub of
       None \<Rightarrow> None
     | Some k \<Rightarrow> (case line_of t k of None \<Rightarrow> None
         | Some l \<Rightarrow> (if \<not> ln_followup l then None
             else let ids = filter (\<lambda>i. i \<noteq> k) (rev (remdups (rev (ln_followup_ids l))))
               in if ids = [] then None
                  else Some \<lparr>fc_version = 2, fc_enabled = True, fc_required = False, fc_source = k,
                    fc_lines = ids\<rparr>)))"

definition int_or_zero :: "pyval \<Rightarrow> int" where
  "int_or_zero v = (case v of PInt n \<Rightarrow> n | _ \<Rightarrow> 0)"

text \<open>\<open>snapshot_form_blocks\<close>: the form's fields, in order, under the numbers \<open>start\<close> onwards.\<close>

definition snapshot_rows :: "int \<Rightarrow> form \<Rightarrow> pydict list" where
  "snapshot_rows start f =
     (let kept = filter (\<lambda>b. \<not> is_retired (dget b ''block_type''))
            (sort_key (\<lambda>b. (int_or_zero (dget b ''step_index''), int_or_zero (dget b ''sort_order''))) (fm_blocks f))
      in map (\<lambda>(i, b).
           [(''id'', PInt (start + int i)), (''step_order'', dget b ''step_index''),
            (''block_type'', PStr (normalize_block_type (dget b ''block_type''))),
            (''label'', dget b ''label''), (''config'', dget b ''config''),
            (''required'', dget b ''required''), (''sort_order'', dget b ''sort_order''),
            (''data'', PNone), (''filled_by'', PNone), (''filled_at'', PNone)])
         (zip [0..<length kept] kept))"

definition checked_value :: "world \<Rightarrow> pydict \<Rightarrow> pyval \<Rightarrow> doc_error + pyval" where
  "checked_value w block data =
     (case with_server_options (w_labels w) (sv_loads (w_services_of w)) (w_evaluation w) block data of
        Inl x \<Rightarrow> Inl (EvaluationRefused x)
      | Inr v \<Rightarrow> (case validate_data (sv_loads (w_services_of w)) block v of
            Inl x \<Rightarrow> Inl (ValueRefused x)
          | Inr _ \<Rightarrow> Inr v))"

definition with_value :: "world \<Rightarrow> pyval \<Rightarrow> int \<Rightarrow> time \<Rightarrow> pydict \<Rightarrow> pydict" where
  "with_value w data actor now b =
     dset ''filled_at'' (PInt now) (dset ''filled_by'' (PInt actor)
       (dset ''data'' (if data = PNone then PNone else PStr (sv_dumps (w_services_of w) data)) b))"

definition put_value :: "world \<Rightarrow> int \<Rightarrow> pyval \<Rightarrow> int \<Rightarrow> time \<Rightarrow> entry \<Rightarrow> entry" where
  "put_value w block_id data actor now e = e\<lparr>en_blocks := map (\<lambda>b.
     if dget b ''id'' = PInt block_id then with_value w data actor now b else b) (en_blocks e)\<rparr>"

text \<open>\<open>_apply_draft_values\<close>: values for the fields of the draft, named by their number.\<close>

definition draft_field :: "entry \<Rightarrow> int \<Rightarrow> pydict option" where
  "draft_field e n = find (\<lambda>b. int_or_zero (dget b ''sort_order'') = n)
     (rev (filter (\<lambda>b. int_or_zero (dget b ''step_order'') = 0) (list_request_blocks e)))"

fun apply_draft_values ::
  "world \<Rightarrow> int \<Rightarrow> time \<Rightarrow> (int \<Rightarrow> pydict option) \<Rightarrow> pydict list \<Rightarrow> (entry, doc_error, unit) act" where
  "apply_draft_values w requester now snapped [] = areturn ()"
| "apply_draft_values w requester now snapped (v # vs) =
     abind (alift (doc_rule (lift_py (step_index v)))) (\<lambda>step.
     abind (acheck (step = 0) OnlyDraftFields) (\<lambda>_.
     abind (alift (doc_rule (lift_py (sort_order v)))) (\<lambda>key.
     case snapped key of
       None \<Rightarrow> araise UnknownField
     | Some block \<Rightarrow>
         abind (alift (checked_value w block (dget v ''data''))) (\<lambda>data.
         abind (awrite (put_value w (int_or_zero (dget block ''id'')) data requester now)) (\<lambda>_.
         apply_draft_values w requester now snapped vs)))))"

record ledger =
  lg_rows :: ledger_db
  lg_next :: int
  lg_next_block :: int

text \<open>An operation on one entry, run in the table.\<close>

definition on_entry :: "int \<Rightarrow> (entry, 'e, 'a) act \<Rightarrow> 'e \<Rightarrow> (ledger, 'e, 'a) act" where
  "on_entry k m missing l = (case map_of (lg_rows l) k of
       None \<Rightarrow> (Inl missing, l)
     | Some e \<Rightarrow> (case m e of (r, e') \<Rightarrow>
         (r, l\<lparr>lg_rows := map (\<lambda>(j, x). (j, if j = k then e' else x)) (lg_rows l)\<rparr>)))"

definition insert_entry :: "entry \<Rightarrow> (ledger, doc_error, int) act" where
  "insert_entry e = abind (aread lg_next) (\<lambda>k.
     abind (awrite (\<lambda>l. l\<lparr>lg_rows := lg_rows l @ [(k, e)], lg_next := k + 1\<rparr>)) (\<lambda>_. areturn k))"

definition insert_blocks :: "int \<Rightarrow> form option \<Rightarrow> (ledger, doc_error, unit) act" where
  "insert_blocks k f = (case f of
       None \<Rightarrow> areturn ()
     | Some fm \<Rightarrow> abind (aread lg_next_block) (\<lambda>start.
         abind (awrite (\<lambda>l. l\<lparr>lg_next_block := start + int (length (snapshot_rows start fm))\<rparr>)) (\<lambda>_.
         on_entry k (awrite (\<lambda>e. e\<lparr>en_blocks := snapshot_rows start fm\<rparr>)) FieldNotFound)))"

definition new_entry :: "submission \<Rightarrow> step list \<Rightarrow> followup_config option \<Rightarrow> entry" where
  "new_entry sub planned fc =
     \<lparr>en_request = \<lparr>requester_id = sb_requester sub, req_status = PENDING,
        current_step_order = Min (set (map step_order planned)), decided_at = None\<rparr>,
      en_steps = planned, en_blocks = [], en_action = sb_action sub,
      en_target = (if target_of sub = [] then None else Some (target_of sub)),
      en_payload = or_else (sb_payload sub) (PDict []), en_applied_at = None, en_claimed_at = None,
      en_apply_error = [], en_canceled_by = None, en_cancel_note = None, en_followup = fc,
      en_effects = []\<rparr>"

text \<open>Everything that is checked before the first write.\<close>

definition submit_guard :: "world \<Rightarrow> ledger_db \<Rightarrow> submission \<Rightarrow> doc_error + step list" where
  "submit_guard w db sub =
     (let reg = sv_actions (w_services_of w); t = w_tables w in
      if strip (sb_title sub) = [] then Inl TitleNeeded
      else if \<not> is_registered reg (sb_action sub) then Inl (UnregisteredAction (sb_action sub))
      else if sb_via_user_api sub \<and> \<not> is_user_submittable reg (sb_action sub)
        then Inl (NotSubmittable (sb_action sub))
      else case find_pending_for_target db (sb_action sub) (target_of sub) of
        Some k \<Rightarrow> Inl (AlreadyInProgress k)
      | None \<Rightarrow>
          ebind (specs_for t sub) (\<lambda>specs.
          ebind (doc_rule (ebind (plan_steps specs) open_steps)) (\<lambda>planned.
            if list_ex (\<lambda>s. approver_id s = sb_requester sub) planned then Inl SelfApproval
            else case line_form t sub of
              None \<Rightarrow> Inr planned
            | Some (_, f) \<Rightarrow> if int (length planned) < form_need f then Inl (FormNeeds (form_need f))
                             else Inr planned)))"

definition submit :: "world \<Rightarrow> time \<Rightarrow> submission \<Rightarrow> (ledger, doc_error, int) act" where
  "submit w now sub =
     abind (aread (\<lambda>l. submit_guard w (lg_rows l) sub)) (\<lambda>checked.
     abind (alift checked) (\<lambda>planned.
     abind (insert_entry (new_entry sub planned (followup_snapshot (w_tables w) sub))) (\<lambda>k.
     abind (insert_blocks k (map_option snd (line_form (w_tables w) sub))) (\<lambda>_.
     abind (if sb_values sub = [] then areturn ()
       else on_entry k (abind (aread draft_field) (\<lambda>snapped.
         apply_draft_values w (sb_requester sub) now snapped (sb_values sub))) FieldNotFound) (\<lambda>_.
     areturn k)))))"

section \<open>Filling a field\<close>

definition fill_guard :: "entry \<Rightarrow> pydict \<Rightarrow> int \<Rightarrow> doc_error + unit" where
  "fill_guard e row actor =
     (if is_retired (dget row ''block_type'') then Inl FieldRetired
      else if req_status (en_request e) \<noteq> PENDING then Inl AlreadyFinished
      else let step = int_or_zero (dget row ''step_order'') in
        if step = 0 then
          (if requester_id (en_request e) \<noteq> actor then Inl NotDrafter
           else if list_ex (\<lambda>s. step_status s = APPROVED) (en_steps e) then Inl DraftFrozen
           else Inr ())
        else case filter (\<lambda>s. step_order s = step \<and> approver_id s = actor) (en_steps e) of
               [] \<Rightarrow> Inl NotOfThisStep
             | s # _ \<Rightarrow> if step_status s \<noteq> PENDING then Inl NotYet else Inr ())"

definition block_of :: "pydict list \<Rightarrow> int \<Rightarrow> pydict option" where
  "block_of bs k = find (\<lambda>b. dget b ''id'' = PInt k) bs"

definition fill_block :: "world \<Rightarrow> time \<Rightarrow> int \<Rightarrow> int \<Rightarrow> pyval \<Rightarrow> entry \<Rightarrow> doc_error + entry" where
  "fill_block w now block_id actor data e = (case block_of (en_blocks e) block_id of
       None \<Rightarrow> Inl FieldNotFound
     | Some row \<Rightarrow> ebind (fill_guard e row actor) (\<lambda>_.
         ebind (case block_of (list_request_blocks e) block_id of
                  None \<Rightarrow> Inr data
                | Some full \<Rightarrow> checked_value w full data) (\<lambda>v.
           Inr (put_value w block_id v actor now e))))"

section \<open>A document\<close>

datatype doc_event =
    DocDecide clock int status string
  | DocCancel clock int
  | DocSystemCancel clock string
  | DocFill time int int pyval
  | DocSettle clock

fun doc_step :: "world \<Rightarrow> entry \<Rightarrow> doc_event \<Rightarrow> doc_error + entry" where
  "doc_step w e (DocDecide ck actor action nt) = doc_rule (store_decide (w_services_of w) ck e actor action nt)"
| "doc_step w e (DocCancel ck actor) = doc_rule (store_cancel (w_services_of w) ck e actor)"
| "doc_step w e (DocSystemCancel ck nt) = Inr (system_cancel (w_services_of w) ck nt e)"
| "doc_step w e (DocFill now block_id actor data) = fill_block w now block_id actor data e"
| "doc_step w e (DocSettle ck) = Inr (settle (w_services_of w) ck e)"

section \<open>Lemmas\<close>

lemma doc_rule_Inr [simp]: "doc_rule r = Inr v \<longleftrightarrow> r = Inr v"
  by (cases r) (auto simp: doc_rule_def)

text \<open>Fields as the tables keep them: numbered apart, each at a step that somebody of the line
  reaches.\<close>

definition fields_ok :: "entry \<Rightarrow> bool" where
  "fields_ok e \<longleftrightarrow> distinct (map (\<lambda>b. dget b ''id'') (en_blocks e)) \<and>
     (\<forall>b\<in>set (en_blocks e). \<exists>k. dget b ''step_order'' = PInt k \<and> 0 \<le> k \<and>
        (\<exists>s\<in>set (en_steps e). k \<le> step_order s))"

definition doc_ok :: "world \<Rightarrow> entry \<Rightarrow> bool" where
  "doc_ok w e \<longleftrightarrow> fields_ok e \<and> backed (sv_loads (w_services_of w)) (list_request_blocks e) (view e) \<and>
     (req_status (en_request e) = PENDING \<and> entry_ok e \<or>
      req_status (en_request e) \<in> {APPROVED, REJECTED, CANCELED} \<and>
      (req_status (en_request e) = APPROVED \<longrightarrow> (\<forall>s\<in>set (en_steps e). step_status s = APPROVED)))"

lemma dget_dset: "dget (dset k v d) j = (if j = k then v else dget d j)"
  by (simp add: dget_def)

lemma map_of_dget: "dget d k = PInt n \<Longrightarrow> map_of d k = Some (PInt n)"
  by (auto simp: dget_def split: option.splits)

lemma normalized_keeps [simp]:
  "dget (normalized b) ''step_order'' = dget b ''step_order''" "dget (normalized b) ''id'' = dget b ''id''"
  by (simp_all add: normalized_def Let_def dget_dset)

lemma block_step_int: "dget b ''step_order'' = PInt k \<Longrightarrow> block_step b = Inr (Some k)"
  by (simp add: block_step_def dget_or_def map_of_dget)

lemma put_value_simps [simp]:
  "en_request (put_value w k v a t e) = en_request e" "en_steps (put_value w k v a t e) = en_steps e"
  by (simp_all add: put_value_def)

lemma with_value_keeps [simp]:
  "dget (with_value w v a t b) ''id'' = dget b ''id''"
  "dget (with_value w v a t b) ''step_order'' = dget b ''step_order''"
  by (simp_all add: with_value_def dget_dset)

lemma put_value_fields: "fields_ok e \<Longrightarrow> fields_ok (put_value w k v a t e)"
proof -
  assume f: "fields_ok e"
  have g: "dget (if P then with_value w v a t b else b) ''id'' = dget b ''id''" for P b
    by simp
  have "map (\<lambda>b. dget b ''id'') (en_blocks (put_value w k v a t e)) = map (\<lambda>b. dget b ''id'') (en_blocks e)"
    unfolding put_value_def by (simp add: comp_def g)
  moreover have "\<exists>b'\<in>set (en_blocks e). dget b ''step_order'' = dget b' ''step_order''"
    if "b \<in> set (en_blocks (put_value w k v a t e))" for b
    using that unfolding put_value_def by (auto split: if_splits)
  ultimately show ?thesis using f by (fastforce simp: fields_ok_def)
qed

text \<open>Writing a field of a later step does not change the check of an earlier one.\<close>

lemma put_value_upto:
  assumes f: "fields_ok e" and later: "\<And>b j. b \<in> set (en_blocks e) \<Longrightarrow> dget b ''id'' = PInt k \<Longrightarrow>
      dget b ''step_order'' = PInt j \<Longrightarrow> n < j"
  shows "unfilled_upto loads (list_request_blocks (put_value w k v a t e)) n = Inr [] \<longleftrightarrow>
    unfilled_upto loads (list_request_blocks e) n = Inr []"
proof -
  let ?ok = "\<lambda>b. countable_step b \<and> \<not> missing_at loads (\<lambda>s. s \<le> n) b"
  have "?ok (normalized (if dget b ''id'' = PInt k then with_value w v a t b else b)) \<longleftrightarrow> ?ok (normalized b)"
    if b: "b \<in> set (en_blocks e)" for b
  proof (cases "dget b ''id'' = PInt k")
    case True
    obtain j where j: "dget b ''step_order'' = PInt j" using f b by (auto simp: fields_ok_def)
    then have "n < j" using later [OF b True] by blast
    moreover have "block_step (normalized (with_value w v a t b)) = Inr (Some j)"
      "block_step (normalized b) = Inr (Some j)"
      using j by (auto intro!: block_step_int)
    ultimately show ?thesis using True by (simp add: countable_step_def missing_at_def)
  qed simp
  then show ?thesis
    by (simp add: unfilled_upto_def unfilled_Nil_iff list_request_blocks_def put_value_def list_all_iff)
qed

lemma block_of_Some: "block_of bs k = Some b \<Longrightarrow> b \<in> set bs \<and> dget b ''id'' = PInt k"
  by (auto simp: block_of_def find_Some_iff)

text \<open>A field that may be filled belongs to a step nobody has passed.\<close>

lemma fill_guard_free:
  assumes ok: "entry_ok e" and g: "fill_guard e row actor = Inr ()"
    and s: "s \<in> set (en_steps e)" "step_status s = APPROVED"
  shows "step_order s < int_or_zero (dget row ''step_order'')"
proof -
  let ?k = "int_or_zero (dget row ''step_order'')"
  have p: "req_status (en_request e) = PENDING" using g by (auto simp: fill_guard_def split: if_splits)
  have l: "ledger_ok (en_request e, en_steps e)" using ok by (simp add: entry_ok_def view_def)
  have "?k \<noteq> 0" using g s by (auto simp: fill_guard_def list_ex_iff Let_def split: if_splits)
  then obtain t ts where first: "filter (\<lambda>s. step_order s = ?k \<and> approver_id s = actor) (en_steps e) = t # ts"
    and t: "step_status t = PENDING"
    using g by (auto simp: fill_guard_def Let_def split: if_splits list.splits)
  have "t \<in> set (filter (\<lambda>s. step_order s = ?k \<and> approver_id s = actor) (en_steps e))"
    unfolding first by simp
  then have "t \<in> set (en_steps e)" "step_order t = ?k" by simp_all
  then have "?k = current_step_order (en_request e)"
    using l p t by (auto simp: list_all_iff split: if_splits)
  then show ?thesis using l p s by (auto simp: list_all_iff split: if_splits)
qed

lemma same_fields:
  assumes "fields_ok e" "en_blocks e' = en_blocks e" "map step_order (en_steps e') = map step_order (en_steps e)"
  shows "fields_ok e'"
proof -
  have "step_order ` set (en_steps e') = step_order ` set (en_steps e)"
    using arg_cong [OF assms(3), of set] by simp
  then have "(\<exists>s\<in>set (en_steps e'). k \<le> step_order s) \<longleftrightarrow> (\<exists>s\<in>set (en_steps e). k \<le> step_order s)" for k
    by (metis (no_types, lifting) image_iff)
  then show ?thesis using assms(1,2) by (simp add: fields_ok_def)
qed

lemma decide_orders:
  assumes "decide loads rq steps actor action nt now blocks = Inr (rq', steps')"
  shows "map step_order steps' = map step_order steps"
  using assms
proof (cases rule: decide_Inr)
  case (1 i)
  then have "map who steps' = map who steps"
    using who_pass_on [of rq steps i action nt now] by (simp add: prod_eq_iff)
  from arg_cong [OF this, of "map snd"] show ?thesis by (simp add: who_def comp_def)
qed

lemma normalized_block_of:
  assumes "fields_ok e" "block_of (en_blocks e) k = Some row" "b \<in> set (en_blocks e)" "dget b ''id'' = PInt k"
  shows "b = row"
proof -
  have "distinct (map (\<lambda>b. dget b ''id'') (en_blocks e))" using assms(1) by (simp add: fields_ok_def)
  then show ?thesis using block_of_Some [OF assms(2)] assms(3,4) by (auto simp: distinct_map inj_on_def)
qed

text \<open>Every operation keeps the document good.\<close>

lemma doc_step_fill:
  assumes ok: "doc_ok w e" and f: "fill_block w now k actor data e = Inr e'"
  shows "doc_ok w e'"
proof -
  obtain row v where row: "block_of (en_blocks e) k = Some row" "fill_guard e row actor = Inr ()"
    and e': "e' = put_value w k v actor now e"
    using f by (auto simp: fill_block_def ebind_Inr split: option.splits)
  have fo: "fields_ok e" using ok by (simp add: doc_ok_def)
  have p: "req_status (en_request e) = PENDING" "entry_ok e"
    using row(2) ok by (auto simp: fill_guard_def doc_ok_def split: if_splits)
  have "unfilled_upto (sv_loads (w_services_of w)) (list_request_blocks e') (step_order s) = Inr []"
    if s: "s \<in> set (en_steps e)" "step_status s = APPROVED" for s
  proof -
    have lt: "step_order s < int_or_zero (dget row ''step_order'')"
      by (rule fill_guard_free [OF p(2) row(2) s])
    have "unfilled_upto (sv_loads (w_services_of w)) (list_request_blocks e) (step_order s) = Inr []"
      using ok s by (auto simp: doc_ok_def backed_def view_def)
    then show ?thesis unfolding e'
    proof (subst put_value_upto [OF fo])
      fix b j assume "b \<in> set (en_blocks e)" "dget b ''id'' = PInt k" "dget b ''step_order'' = PInt j"
      with normalized_block_of [OF fo row(1)] lt show "step_order s < j" by (auto simp: int_or_zero_def)
    qed
  qed
  then show ?thesis using p put_value_fields [OF fo]
    by (simp add: e' doc_ok_def backed_def view_def entry_ok_def)
qed

text \<open>A decision by the rules leaves a good document, however its rows are written.\<close>

lemma decided_ok:
  assumes ok: "doc_ok w e"
    and d: "decide (sv_loads (w_services_of w)) (en_request e) (en_steps e) actor action nt now
      (list_request_blocks e) = Inr (view e')"
    and same: "en_blocks e' = en_blocks e"
  shows "doc_ok w e'" "req_status (en_request e) = PENDING" "entry_ok e"
proof -
  let ?l = "sv_loads (w_services_of w)"
  show p: "req_status (en_request e) = PENDING" using ok d by (auto simp: doc_ok_def elim: decide_Inr)
  then show eo: "entry_ok e" using ok by (auto simp: doc_ok_def)
  have es: "engine_step ?l (view e) (Decide actor action nt now (list_request_blocks e)) = Inr (view e')"
    using d by (simp add: view_def)
  have lo: "ledger_ok (view e')" using engine_step_ok [OF _ es] eo by (simp add: entry_ok_def)
  have blocks: "list_request_blocks e' = list_request_blocks e" using same by (simp add: list_request_blocks_def)
  have "backed ?l (list_request_blocks e') (view e')"
    using backed_step [OF _ es] ok by (simp add: blocks doc_ok_def)
  moreover have "fields_ok e'"
    using ok decide_orders [of ?l "en_request e"] d
    by (intro same_fields [OF _ same]) (auto simp: doc_ok_def view_def)
  moreover have "req_status (en_request e') = PENDING \<Longrightarrow> decided_at (en_request e') = None"
    using d eo p by (auto simp: view_def entry_ok_def pass_on_def elim!: decide_Inr split: list.splits if_splits)
  moreover have "req_status (en_request e') \<in> {PENDING, APPROVED, REJECTED, CANCELED}"
    "req_status (en_request e') = APPROVED \<longrightarrow> (\<forall>s\<in>set (en_steps e'). step_status s = APPROVED)"
    using lo by (auto simp: view_def list_all_iff)
  ultimately show "doc_ok w e'" using lo by (auto simp: doc_ok_def entry_ok_def)
qed

lemma doc_step_decide:
  assumes ok: "doc_ok w e" and d: "store_decide (w_services_of w) ck e actor action nt = Inr e'"
  shows "doc_ok w e'"
proof -
  let ?sv = "w_services_of w"
  obtain st where "decide (sv_loads ?sv) (en_request e) (en_steps e) actor action nt (t_now ck)
      (list_request_blocks e) = Inr st"
    using d by (auto simp: store_decide_def ebind_Inr Let_def)
  then have "entry_ok e" using ok by (auto simp: doc_ok_def elim: decide_Inr)
  from store_decide_view [OF this, of ?sv ck actor action nt] d
  show ?thesis by (intro decided_ok(1) [OF ok _ store_decide_blocks [OF d]]) simp
qed

lemma canceled_ok:
  assumes ok: "doc_ok w e" and st: "en_steps e' = map skip_open (en_steps e)"
    "req_status (en_request e') = CANCELED" and same: "en_blocks e' = en_blocks e"
  shows "doc_ok w e'"
proof -
  have blocks: "list_request_blocks e' = list_request_blocks e" by (simp add: list_request_blocks_def same)
  have "fields_ok e'"
    using ok by (intro same_fields [OF _ same]) (auto simp: doc_ok_def st comp_def)
  moreover have "backed (sv_loads (w_services_of w)) (list_request_blocks e') (view e')"
    using ok by (auto simp: blocks doc_ok_def backed_def view_def st split: if_splits)
  ultimately show ?thesis using st by (simp add: doc_ok_def)
qed

lemma closed_as_canceled_ok:
  "doc_ok w e \<Longrightarrow> req_status (en_request e) = PENDING \<Longrightarrow> doc_ok w (close_as_canceled sv ck by nt e)"
  by (rule canceled_ok [OF _ _ _ close_as_canceled_blocks])
    (simp_all add: close_as_canceled_def close_request_def skip_rows_def Let_def)

lemma settle_ok: "doc_ok w e \<Longrightarrow> doc_ok w (settle sv ck e)"
  using settle_view [of sv ck e] settle_blocks [of sv ck e] same_fields [of e "settle sv ck e"]
  by (auto simp: doc_ok_def view_def list_request_blocks_def entry_ok_def)

lemma doc_step_ok: "doc_ok w e \<Longrightarrow> doc_step w e ev = Inr e' \<Longrightarrow> doc_ok w e'"
proof (cases ev)
  case (DocCancel ck actor)
  assume ok: "doc_ok w e" and "doc_step w e ev = Inr e'"
  then have c: "cancel (en_request e) (en_steps e) actor (t_now ck) = Inr z \<Longrightarrow>
      req_status (en_request e) = PENDING" for z
    by (auto simp: doc_ok_def cancel_Inr)
  show "doc_ok w e'"
    using \<open>doc_step w e ev = Inr e'\<close> DocCancel c closed_as_canceled_ok [OF ok]
    by (auto simp: store_cancel_def ebind_Inr)
qed (auto intro: doc_step_decide doc_step_fill closed_as_canceled_ok settle_ok simp: system_cancel_def)

interpretation document: guarded "doc_step w" "doc_ok w" for w
  by unfold_locales (rule doc_step_ok)

text \<open>What a submission writes.\<close>

definition forms_shaped :: "tables \<Rightarrow> bool" where
  "forms_shaped t \<longleftrightarrow> (\<forall>(k, f)\<in>set (t_forms t). \<forall>b\<in>set (fm_blocks f).
     is_retired (dget b ''block_type'') \<or>
     (\<exists>j. dget b ''step_index'' = PInt j \<and> 0 \<le> j \<and> j \<le> form_need f))"

definition fresh :: "ledger \<Rightarrow> bool" where
  "fresh l \<longleftrightarrow> lg_next l \<notin> fst ` set (lg_rows l)"

lemma snapshot_ids: "map (\<lambda>b. dget b ''id'') (snapshot_rows start f) =
    map (\<lambda>i. PInt (start + int i)) [0..<length (snapshot_rows start f)]"
  by (rule nth_equalityI) (simp_all add: snapshot_rows_def Let_def dget_def)

lemma snapshot_steps:
  assumes "forms_shaped t" "form_of t fid = Some f" "b \<in> set (snapshot_rows start f)"
  shows "\<exists>j. dget b ''step_order'' = PInt j \<and> 0 \<le> j \<and> j \<le> form_need f"
proof -
  obtain c where c: "c \<in> set (fm_blocks f)" "\<not> is_retired (dget c ''block_type'')"
    "dget b ''step_order'' = dget c ''step_index''"
    using assms(3) by (auto simp: snapshot_rows_def Let_def dget_def dest!: set_zip_rightD)
  have "(fid, f) \<in> set (t_forms t)" using assms(2) by (simp add: form_of_def map_of_SomeD)
  then show ?thesis using assms(1) c by (fastforce simp: forms_shaped_def)
qed

definition same_entry :: "entry \<Rightarrow> entry \<Rightarrow> bool" where
  "same_entry e e' \<longleftrightarrow> en_request e' = en_request e \<and> en_steps e' = en_steps e \<and>
     (fields_ok e \<longrightarrow> fields_ok e') \<and> en_action e' = en_action e \<and> en_target e' = en_target e"

lemma same_entry_refl [simp]: "same_entry e e"
  by (simp add: same_entry_def)

lemma same_entry_put: "same_entry (put_value w k v a t e) e' \<Longrightarrow> same_entry e e'"
  using put_value_fields [of e w k v a t] by (auto simp: same_entry_def put_value_def)

lemma draft_values_keep:
  "apply_draft_values w r now snapped vs e = (x, e') \<Longrightarrow> same_entry e e'"
proof (induction vs arbitrary: e)
  case (Cons v vs)
  show ?case
  proof (cases "step_index v")
    case (Inr step)
    show ?thesis
    proof (cases "step = 0")
      case True
      show ?thesis
      proof (cases "sort_order v")
        case (Inr key)
        show ?thesis
        proof (cases "snapped key")
          case (Some block)
          then show ?thesis
            using Cons \<open>step_index v = Inr step\<close> True Inr
            by (cases "checked_value w block (dget v ''data'')")
              (auto simp: abind_def doc_rule_def acheck_def intro: same_entry_put)
        qed (use Cons.prems \<open>step_index v = Inr step\<close> True Inr in \<open>simp add: abind_def doc_rule_def acheck_def\<close>)
      qed (use Cons.prems Inr True in \<open>simp add: abind_def doc_rule_def acheck_def\<close>)
    qed (use Cons.prems Inr in \<open>simp add: abind_def doc_rule_def acheck_def\<close>)
  qed (use Cons.prems in \<open>simp add: abind_def doc_rule_def\<close>)
qed simp

lemma on_entry_new:
  assumes "map_of rows k = None" "on_entry k m missing (l\<lparr>lg_rows := rows @ [(k, e)]\<rparr>) = (x, l')"
  shows "\<exists>e'. m e = (x, e') \<and> l' = l\<lparr>lg_rows := rows @ [(k, e')]\<rparr>"
proof -
  have "k \<notin> fst ` set rows" using assms(1) by (simp add: map_of_eq_None_iff)
  then have "map (\<lambda>(j, x). (j, if j = k then y else x)) rows = rows" for y :: entry
    by (intro map_idI) force
  then show ?thesis using assms by (auto simp: on_entry_def map_add_def split: prod.splits)
qed

text \<open>The row right before the draft values.\<close>

definition inserted :: "world \<Rightarrow> submission \<Rightarrow> ledger \<Rightarrow> step list \<Rightarrow> entry" where
  "inserted w sub l planned = (new_entry sub planned (followup_snapshot (w_tables w) sub))
     \<lparr>en_blocks := (case line_form (w_tables w) sub of None \<Rightarrow> []
        | Some (fid, f) \<Rightarrow> snapshot_rows (lg_next_block l) f)\<rparr>"

lemma submit_written:
  assumes s: "submit w now sub l = (x, l')" and f: "fresh l"
    and g: "submit_guard w (lg_rows l) sub = Inr planned"
  shows "\<exists>e. lg_rows l' = lg_rows l @ [(lg_next l, e)] \<and> same_entry (inserted w sub l planned) e \<and>
    (\<forall>k. x = Inr k \<longrightarrow> k = lg_next l)"
proof -
  let ?k = "lg_next l" and ?e = "inserted w sub l planned"
  have n: "map_of (lg_rows l) ?k = None" using f by (simp add: fresh_def map_of_eq_None_iff)
  define l1 where "l1 = l\<lparr>lg_next := ?k + 1, lg_next_block := (case line_form (w_tables w) sub of None \<Rightarrow> lg_next_block l
     | Some (fid, f) \<Rightarrow> lg_next_block l + int (length (snapshot_rows (lg_next_block l) f)))\<rparr>"
  have other: "map (\<lambda>(j, x). (j, if j = ?k then y else x)) (lg_rows l) = lg_rows l" for y :: entry
    using f by (intro map_idI) (force simp: fresh_def)
  have blocks: "insert_blocks ?k (map_option snd (line_form (w_tables w) sub))
      (l\<lparr>lg_rows := lg_rows l @ [(?k, new_entry sub planned (followup_snapshot (w_tables w) sub))], lg_next := ?k + 1\<rparr>) =
      (Inr (), l1\<lparr>lg_rows := lg_rows l @ [(?k, ?e)]\<rparr>)"
    using n other
    by (auto simp: insert_blocks_def on_entry_def map_add_def l1_def inserted_def new_entry_def abind_def
        split: option.split prod.split)
  let ?m = "if sb_values sub = [] then areturn ()
      else on_entry ?k (abind (aread draft_field) (\<lambda>snapped.
        apply_draft_values w (sb_requester sub) now snapped (sb_values sub))) FieldNotFound"
  have sub: "submit w now sub l =
      abind ?m (\<lambda>_. areturn ?k) (l1\<lparr>lg_rows := lg_rows l @ [(?k, ?e)]\<rparr>)"
    using g blocks by (simp add: submit_def insert_entry_def abind_def)
  show ?thesis
  proof (cases "sb_values sub = []")
    case True
    then show ?thesis using s sub by (auto simp: abind_def)
  next
    case False
    obtain y l2 where m: "on_entry ?k (abind (aread draft_field) (\<lambda>snapped.
        apply_draft_values w (sb_requester sub) now snapped (sb_values sub))) FieldNotFound
        (l1\<lparr>lg_rows := lg_rows l @ [(?k, ?e)]\<rparr>) = (y, l2)" by fastforce
    from on_entry_new [OF n m] obtain e' where
      e': "apply_draft_values w (sb_requester sub) now (draft_field ?e) (sb_values sub) ?e = (y, e')"
      "l2 = l1\<lparr>lg_rows := lg_rows l @ [(?k, e')]\<rparr>" by (auto simp: abind_def)
    from s sub m False have "l' = l2" "\<forall>k. x = Inr k \<longrightarrow> k = ?k"
      by (auto simp: abind_def split: sum.splits)
    then show ?thesis using e' draft_values_keep [OF e'(1)] by auto
  qed
qed

lemma submit_refused:
  "submit w now sub l = (x, l') \<Longrightarrow> submit_guard w (lg_rows l) sub = Inl e \<Longrightarrow> x = Inl e \<and> l' = l"
  by (simp add: submit_def abind_def)

lemma guard_Inr:
  assumes "submit_guard w db sub = Inr planned"
  obtains specs ps where "plan_steps specs = Inr ps" "open_steps ps = Inr planned"
    "\<And>fid f. line_form (w_tables w) sub = Some (fid, f) \<Longrightarrow> form_need f \<le> int (length planned)"
  using assms by (auto simp: submit_guard_def Let_def ebind_Inr split: if_splits option.splits)

lemma line_form_Some: "line_form t sub = Some (fid, f) \<Longrightarrow> form_of t fid = Some f"
  by (auto simp: line_form_def split: option.splits)

lemma inserted_ok:
  assumes g: "submit_guard w db sub = Inr planned" and sh: "forms_shaped (w_tables w)"
  shows "fields_ok (inserted w sub l planned) \<and> entry_ok (inserted w sub l planned) \<and>
    (\<forall>s\<in>set planned. step_status s \<noteq> APPROVED)"
proof -
  obtain specs ps where ps: "plan_steps specs = Inr ps" "open_steps ps = Inr planned"
    and need: "\<And>fid f. line_form (w_tables w) sub = Some (fid, f) \<Longrightarrow> form_need f \<le> int (length planned)"
    by (rule guard_Inr [OF g]) blast
  let ?e = "inserted w sub l planned"
  have o: "map step_order planned = map plan_order ps" and st: "\<forall>s\<in>set planned. step_status s \<noteq> APPROVED"
    using ps(2) by (auto simp: open_steps_def Let_def comp_def split: if_splits)
  have n: "map step_order planned = map (\<lambda>n. int n + 1) [0..<length planned]" "planned \<noteq> []"
  proof -
    obtain os :: "(int \<times> nat \<times> int) list" where os: "os \<noteq> []" "length os = length specs"
      "map plan_order ps = map (\<lambda>n. int n + 1) [0..<length specs]"
      by (rule plan_steps_Inr [OF ps(1)]) blast
    have "length planned = length specs" using arg_cong [OF o, of length] arg_cong [OF os(3), of length] by simp
    then show "map step_order planned = map (\<lambda>n. int n + 1) [0..<length planned]" "planned \<noteq> []"
      using o os by auto
  qed
  have orders: "step_order ` set planned = (\<lambda>n. int n + 1) ` {0..<length planned}"
    using arg_cong [OF n(1), of set] by (simp only: set_map set_upt)
  have one: "Min (set (map step_order planned)) = 1"
    unfolding set_map orders using n(2) by (intro Min_eqI) (auto intro: image_eqI [of _ _ 0])
  have "ledger_ok (\<lparr>requester_id = sb_requester sub, req_status = PENDING, current_step_order = 1,
      decided_at = None\<rparr>, planned)" by (rule open_steps_ok [OF ps])
  then have "entry_ok ?e" using one by (simp add: inserted_def new_entry_def entry_ok_def view_def)
  moreover have "fields_ok ?e"
  proof (cases "line_form (w_tables w) sub")
    case None
    then show ?thesis by (simp add: inserted_def new_entry_def fields_ok_def)
  next
    case (Some p)
    obtain fid f where p: "p = (fid, f)" by (cases p)
    then have nf: "form_need f \<le> int (length planned)" using need Some by simp
    have "int (length planned) \<in> step_order ` set planned"
      unfolding orders using n(2) by (intro image_eqI [of _ _ "length planned - 1"]) (auto simp: of_nat_diff Suc_le_eq)
    then obtain s where s: "s \<in> set planned" "step_order s = int (length planned)" by auto
    have "\<exists>k. dget b ''step_order'' = PInt k \<and> 0 \<le> k \<and> (\<exists>s\<in>set planned. k \<le> step_order s)"
      if b: "b \<in> set (snapshot_rows (lg_next_block l) f)" for b
    proof -
      have "line_form (w_tables w) sub = Some (fid, f)" using Some p by simp
      from snapshot_steps [OF sh line_form_Some [OF this] b] obtain j
        where j: "dget b ''step_order'' = PInt j" "0 \<le> j" "j \<le> form_need f" by blast
      then have "j \<le> step_order s" using nf s(2) by simp
      then show ?thesis using j(1,2) s(1) by blast
    qed
    moreover have "distinct (map (\<lambda>b. dget b ''id'') (snapshot_rows (lg_next_block l) f))"
      unfolding snapshot_ids by (simp add: distinct_map inj_on_def)
    ultimately show ?thesis using Some p by (simp add: inserted_def new_entry_def fields_ok_def)
  qed
  ultimately show ?thesis using st by blast
qed

section \<open>Properties\<close>

lemma approved_fields_filled:
  assumes ok: "doc_ok w e" and a: "req_status (en_request e) = APPROVED"
  shows "\<forall>s\<in>set (en_steps e). step_status s = APPROVED"
    "\<forall>b\<in>set (list_request_blocks e). truthy (dget b ''required'') \<longrightarrow> is_filled (sv_loads (w_services_of w)) b"
proof -
  let ?l = "sv_loads (w_services_of w)"
  show all: "\<forall>s\<in>set (en_steps e). step_status s = APPROVED" using assms by (auto simp: doc_ok_def)
  have "is_filled ?l (normalized b)" if b: "b \<in> set (en_blocks e)" "truthy (dget (normalized b) ''required'')" for b
  proof -
    obtain k s where k: "dget b ''step_order'' = PInt k" "s \<in> set (en_steps e)" "k \<le> step_order s"
      using ok b(1) by (auto simp: doc_ok_def fields_ok_def)
    have "unfilled_upto ?l (list_request_blocks e) (step_order s) = Inr []"
      using ok all k(2) by (auto simp: doc_ok_def backed_def view_def)
    then have "\<not> missing_at ?l (\<lambda>j. j \<le> step_order s) (normalized b)"
      using b(1) by (auto simp: unfilled_upto_def unfilled_Nil_iff list_all_iff list_request_blocks_def)
    moreover have "block_step (normalized b) = Inr (Some k)" by (rule block_step_int) (simp add: k(1))
    ultimately show ?thesis using k(3) b(2) by (simp add: missing_at_def)
  qed
  then show "\<forall>b\<in>set (list_request_blocks e). truthy (dget b ''required'') \<longrightarrow> is_filled ?l b"
    by (auto simp: list_request_blocks_def)
qed

text \<open>C13. An approved document is complete: starting from a good document, along every history of
  decisions, withdrawals, fillings of fields by anyone and settlements, whenever the request is
  approved every step is signed and every required field of the document, at whatever step it
  stands, is filled, as the fields are then.\<close>

theorem approved_document_is_complete:
  assumes "doc_ok w e" and "req_status (en_request (history (doc_step w) e evs)) = APPROVED"
  shows "list_all (\<lambda>s. step_status s = APPROVED) (en_steps (history (doc_step w) e evs)) \<and>
    list_all (\<lambda>b. truthy (dget b ''required'') \<longrightarrow> is_filled (sv_loads (w_services_of w)) b)
      (list_request_blocks (history (doc_step w) e evs))"
  using approved_fields_filled [OF document.history_inv [OF assms(1)] assms(2)] by (simp add: list_all_iff)

definition w_world :: world where
  "w_world = \<lparr>w_services_of = w_services\<lparr>sv_loads := (\<lambda>s. Some (PStr s)), sv_dumps := (\<lambda>v. str_or_empty v),
       sv_actions := [(''generic'', no_action)]\<rparr>,
     w_tables = \<lparr>t_lines = [], t_forms = [], t_policies = [], next_line = 1, next_form = 1\<rparr>,
     w_evaluation = \<lparr>db_templates = None, db_policies = None\<rparr>, w_labels = (\<lambda>c. c)\<rparr>"

definition w_field :: pydict where
  "w_field = [(''id'', PInt 5), (''step_order'', PInt 1), (''block_type'', PStr ''text''),
     (''required'', PBool True), (''data'', PNone)]"

definition w_document :: entry where
  "w_document = w_entry\<lparr>en_blocks := [w_field]\<rparr>"

lemma w_document_ok [simp]: "doc_ok w_world w_document"
  using w_entry_ok
  by (simp add: doc_ok_def w_document_def entry_ok_def view_def fields_ok_def backed_def w_entry_def
      w_line_def w_request_def w_step_def w_field_def dget_def)

theorem approved_document_is_complete_witness:
  "list_all (\<lambda>b. truthy (dget b ''required'') \<longrightarrow> is_filled (\<lambda>s. Some (PStr s)) b)
     (list_request_blocks (history (doc_step w_world) w_document
       [DocDecide w_clock 7 APPROVED [], DocFill 1 5 7 (PStr ''ok''),
        DocDecide w_clock 7 APPROVED [], DocFill 2 5 7 PNone, DocDecide w_clock 12 APPROVED []]))"
proof -
  let ?evs = "[DocDecide w_clock 7 APPROVED [], DocFill 1 5 7 (PStr ''ok''),
        DocDecide w_clock 7 APPROVED [], DocFill 2 5 7 PNone, DocDecide w_clock 12 APPROVED []]"
  have a: "req_status (en_request (history (doc_step w_world) w_document ?evs)) = APPROVED" by code_simp
  show ?thesis using approved_document_is_complete [OF w_document_ok a] by (simp add: w_world_def)
qed

text \<open>C14. What was signed cannot be rewritten: once a step is approved, every attempt to fill a field
  of that step or of an earlier one, the draft included, is refused, whoever makes it.\<close>

theorem signed_fields_are_frozen:
  assumes "entry_ok e" and "s \<in> set (en_steps e)" and "step_status s = APPROVED"
    and "block_of (en_blocks e) k = Some row" and "int_or_zero (dget row ''step_order'') \<le> step_order s"
  shows "\<exists>x. fill_block w now k actor data e = Inl x"
proof -
  have "fill_guard e row actor \<noteq> Inr ()"
    using fill_guard_free [OF assms(1) _ assms(2,3)] assms(5) by fastforce
  then show ?thesis using assms(4) by (cases "fill_guard e row actor") (auto simp: fill_block_def)
qed

theorem signed_fields_are_frozen_witness:
  "\<exists>x. fill_block w_world 3 5 7 (PStr ''late'')
     (w_document\<lparr>en_request := w_request\<lparr>current_step_order := 2\<rparr>,
       en_steps := [w_step 7 1 APPROVED, w_step 12 2 PENDING]\<rparr>) = Inl x"
proof (rule signed_fields_are_frozen [of _ "w_step 7 1 APPROVED" _ w_field])
  show "entry_ok (w_document\<lparr>en_request := w_request\<lparr>current_step_order := 2\<rparr>,
       en_steps := [w_step 7 1 APPROVED, w_step 12 2 PENDING]\<rparr>)"
    by (simp add: entry_ok_def view_def w_request_def w_step_def)
qed (simp_all add: w_step_def w_document_def w_entry_def w_field_def block_of_def dget_def int_or_zero_def)

text \<open>C15. A submission that returns gives a good document: with forms whose fields stand on their
  steps, the new row is pending, its line is a good ledger, nothing in it is signed and every
  field of the form stands at a step somebody of the line reaches, so that everything above
  holds of it.\<close>

theorem submitted_document_is_good:
  assumes "submit w now sub l = (Inr k, l')" and "fresh l" and "forms_shaped (w_tables w)"
  shows "\<exists>e. map_of (lg_rows l') k = Some e \<and> doc_ok w e \<and> req_status (en_request e) = PENDING \<and>
    requester_id (en_request e) = sb_requester sub \<and> length (lg_rows l') = length (lg_rows l) + 1"
proof (cases "submit_guard w (lg_rows l) sub")
  case (Inl x)
  with submit_refused [OF assms(1)] show ?thesis by simp
next
  case (Inr planned)
  from submit_written [OF assms(1,2) Inr] obtain e where
    e: "lg_rows l' = lg_rows l @ [(lg_next l, e)]" "same_entry (inserted w sub l planned) e" "k = lg_next l"
    by auto
  note i = inserted_ok [OF Inr assms(3), of l]
  have v: "en_request e = en_request (inserted w sub l planned)" "en_steps e = planned" "fields_ok e"
    using e(2) i by (simp_all add: same_entry_def inserted_def new_entry_def)
  have "entry_ok e" using i v by (simp add: entry_ok_def view_def inserted_def new_entry_def)
  moreover have "backed (sv_loads (w_services_of w)) (list_request_blocks e) (view e)"
    using i v by (simp add: backed_def view_def)
  moreover have "map_of (lg_rows l') k = Some e"
  proof -
    have "map_of (lg_rows l) (lg_next l) = None" using assms(2) by (simp add: fresh_def map_of_eq_None_iff)
    then show ?thesis by (simp add: e map_add_def)
  qed
  ultimately show ?thesis using v e by (simp add: doc_ok_def inserted_def new_entry_def)
qed

definition w_submission :: submission where
  "w_submission = \<lparr>sb_requester = 3, sb_title = ''t'', sb_action = ''generic'', sb_payload = PNone,
     sb_line = None, sb_steps = [[(''approver_id'', PInt 7)]], sb_target = Some ''doc:1'', sb_values = [],
     sb_via_user_api = False\<rparr>"

definition w_ledger :: ledger where
  "w_ledger = \<lparr>lg_rows = [], lg_next = 1, lg_next_block = 1\<rparr>"

theorem submitted_document_is_good_witness:
  "\<exists>l' e. submit w_world 2 w_submission w_ledger = (Inr 1, l') \<and> map_of (lg_rows l') 1 = Some e \<and>
     doc_ok w_world e"
proof -
  have "fst (submit w_world 2 w_submission w_ledger) = Inr 1" by code_simp
  then obtain l' where s: "submit w_world 2 w_submission w_ledger = (Inr 1, l')"
    by (cases "submit w_world 2 w_submission w_ledger") simp
  have f: "fresh w_ledger" "forms_shaped (w_tables w_world)"
    by (simp_all add: fresh_def w_ledger_def forms_shaped_def w_world_def)
  show ?thesis using submitted_document_is_good [OF s f] s by blast
qed

text \<open>A submission refused for a value of a draft field leaves its request behind: when a value
  names a field the form does not have, the caller gets the error, but the request is already
  in the ledger, pending, and a corrected submission for the same target is refused because
  of it.\<close>

lemma refused_values_leave_a_pending_request:
  assumes "submit w now sub l = (Inl UnknownField, l')" and "fresh l" and "target_of sub \<noteq> []"
  shows "\<exists>e. map_of (lg_rows l') (lg_next l) = Some e \<and> req_status (en_request e) = PENDING \<and>
    fst (submit w now' (sub\<lparr>sb_values := vs\<rparr>) l') = Inl (AlreadyInProgress (lg_next l))"
proof (cases "submit_guard w (lg_rows l) sub")
  case (Inl x)
  with submit_refused [OF assms(1)] have "x = UnknownField" by simp
  with Inl show ?thesis
    by (auto simp: submit_guard_def Let_def specs_for_def doc_rule_def ebind_Inl ebind_Inr
        split: if_splits option.splits sum.splits)
next
  case (Inr planned)
  from submit_written [OF assms(1,2) Inr] obtain e where
    e: "lg_rows l' = lg_rows l @ [(lg_next l, e)]" "same_entry (inserted w sub l planned) e" by auto
  have v: "req_status (en_request e) = PENDING" "en_action e = sb_action sub" "en_target e = Some (target_of sub)"
    using e(2) assms(3) by (simp_all add: same_entry_def inserted_def new_entry_def)
  have dup: "find_pending_for_target (lg_rows l') (sb_action sub) (target_of sub) = Some (lg_next l)"
    using v assms(3) by (simp add: find_pending_for_target_def e(1))
  have "strip (sb_title sub) \<noteq> []" "is_registered (sv_actions (w_services_of w)) (sb_action sub)"
    "\<not> (sb_via_user_api sub \<and> \<not> is_user_submittable (sv_actions (w_services_of w)) (sb_action sub))"
    using Inr by (auto simp: submit_guard_def Let_def split: if_splits)
  moreover have "target_of (sub\<lparr>sb_values := vs\<rparr>) = target_of sub" by (simp add: target_of_def)
  ultimately have "submit_guard w (lg_rows l') (sub\<lparr>sb_values := vs\<rparr>) = Inl (AlreadyInProgress (lg_next l))"
    using dup by (auto simp: submit_guard_def Let_def)
  then have "fst (submit w now' (sub\<lparr>sb_values := vs\<rparr>) l') = Inl (AlreadyInProgress (lg_next l))"
    by (simp add: submit_def abind_def)
  moreover have "map_of (lg_rows l') (lg_next l) = Some e"
  proof -
    have "map_of (lg_rows l) (lg_next l) = None" using assms(2) by (simp add: fresh_def map_of_eq_None_iff)
    then show ?thesis by (simp add: e(1) map_add_def)
  qed
  ultimately show ?thesis using v by blast
qed

lemma refused_values_leave_a_pending_request_witness:
  "\<exists>l'. submit w_world 2 (w_submission\<lparr>sb_values := [[(''sort_order'', PInt 1)]]\<rparr>) w_ledger = (Inl UnknownField, l') \<and>
     fst (submit w_world 3 (w_submission\<lparr>sb_values := []\<rparr>) l') = Inl (AlreadyInProgress 1)"
proof -
  let ?sub = "w_submission\<lparr>sb_values := [[(''sort_order'', PInt 1)]]\<rparr>"
  have "fst (submit w_world 2 ?sub w_ledger) = Inl UnknownField" by code_simp
  then obtain l' where s: "submit w_world 2 ?sub w_ledger = (Inl UnknownField, l')"
    by (cases "submit w_world 2 ?sub w_ledger") simp
  have f: "fresh w_ledger" and t: "target_of ?sub \<noteq> []" by code_simp+
  show ?thesis using refused_values_leave_a_pending_request [OF s f t, of 3 "[]"] s
    by (auto simp: w_ledger_def)
qed

end
