(* ===== verification/FollowupLines.thy ===== *)
theory FollowupLines
  imports ApprovalDocument
begin

text \<open>
  \<open>src/xgen_sdk/approval/followup.py\<close>, the configuration: which lines of approvers may follow another
  one, checked when a line is saved (\<open>save_line\<close>, in one transaction with the tables locked) and
  again when a line is connected.
\<close>

section \<open>Candidates\<close>

record candidate =
  cd_id :: int
  cd_line :: line
  cd_form :: "form option"

datatype candidate_problem =
  SelfLine | NotShared | HasFollowup | NoApprovers | FormInactive | FormTooLong | RequiredDraft

definition candidate_error :: "candidate \<Rightarrow> int option \<Rightarrow> candidate_problem option" where
  "candidate_error c source =
     (let l = cd_line c in
      if source = Some (cd_id c) then Some SelfLine
      else if \<not> ln_active l \<or> \<not> ln_shared l then Some NotShared
      else if ln_followup l then Some HasFollowup
      else if ln_steps l = [] then Some NoApprovers
      else case cd_form c of
        None \<Rightarrow> None
      | Some f \<Rightarrow>
          if \<not> fm_active f then Some FormInactive
          else if int (length (ln_steps l)) < form_need f then Some FormTooLong
          else if list_ex (\<lambda>b. int_or_zero (dget b ''step_index'') = 0 \<and> truthy (dget b ''required''))
            (shown_blocks f) then Some RequiredDraft
          else None)"

definition load_candidate :: "tables \<Rightarrow> int \<Rightarrow> candidate option" where
  "load_candidate t k = (case line_of t k of
       None \<Rightarrow> None
     | Some l \<Rightarrow> Some \<lparr>cd_id = k, cd_line = l,
         cd_form = (case ln_form l of None \<Rightarrow> None | Some fid \<Rightarrow> form_of t fid)\<rparr>)"

section \<open>Saving a line with its candidates\<close>

datatype save_error =
    ConfigFailed config_error
  | NoCandidates
  | SelfFollowup
  | CandidateNotFound
  | BadCandidate candidate_problem
  | UsedAsCandidate

definition without_repeats :: "int list \<Rightarrow> int list" where
  "without_repeats ids = rev (remdups (rev ids))"

fun check_candidates :: "tables \<Rightarrow> int option \<Rightarrow> int list \<Rightarrow> int list \<Rightarrow> save_error + unit" where
  "check_candidates t source kept [] = Inr ()"
| "check_candidates t source kept (k # ks) =
     (if source = Some k then Inl SelfFollowup
      else if k \<in> set kept then check_candidates t source kept ks
      else case load_candidate t k of
        None \<Rightarrow> Inl CandidateNotFound
      | Some c \<Rightarrow> (case candidate_error c source of
          Some p \<Rightarrow> Inl (BadCandidate p)
        | None \<Rightarrow> check_candidates t source kept ks))"

definition used_by_other :: "tables \<Rightarrow> int \<Rightarrow> bool" where
  "used_by_other t k \<longleftrightarrow> list_ex (\<lambda>(j, l). ln_followup l \<and> j \<noteq> k \<and> k \<in> set (ln_followup_ids l)) (t_lines t)"

definition validate_config ::
  "tables \<Rightarrow> int option \<Rightarrow> bool \<Rightarrow> int list \<Rightarrow> int list \<Rightarrow> save_error + int list" where
  "validate_config t source required ids kept =
     (if \<not> required then Inr []
      else if without_repeats ids = [] then Inl NoCandidates
      else ebind (check_candidates t source kept (without_repeats ids)) (\<lambda>_.
        if (case source of None \<Rightarrow> False | Some k \<Rightarrow> used_by_other t k) then Inl UsedAsCandidate
        else Inr (without_repeats ids)))"

text \<open>What \<open>save_line\<close> hands to \<open>create_line\<close> or \<open>update_line\<close>.\<close>

datatype line_write =
    NewLine string string int bool "pydict list"
  | ChangeLine int line_patch

type_synonym 'a saving = "(tables, save_error, 'a) act"

definition configuring :: "'a config \<Rightarrow> 'a saving" where
  "configuring m t = (case m t of (Inl x, t') \<Rightarrow> (Inl (ConfigFailed x), t') | (Inr v, t') \<Rightarrow> (Inr v, t'))"

definition source_of :: "line_write \<Rightarrow> int option" where
  "source_of wr = (case wr of NewLine _ _ _ _ _ \<Rightarrow> None | ChangeLine k _ \<Rightarrow> Some k)"

definition write_line :: "line_write \<Rightarrow> int saving" where
  "write_line wr = (case wr of
       NewLine name description owner shared steps \<Rightarrow>
         configuring (create_line name description owner shared steps)
     | ChangeLine k p \<Rightarrow> abind (configuring (update_line k p)) (\<lambda>_. areturn k))"

definition save_line :: "line_write \<Rightarrow> bool option \<Rightarrow> int list option \<Rightarrow> int saving" where
  "save_line wr followup_required followup_line_ids = atomically (
     abind (aread (\<lambda>t. case source_of wr of None \<Rightarrow> None | Some k \<Rightarrow> line_of t k)) (\<lambda>old.
     let required = option_or followup_required (case old of None \<Rightarrow> False | Some l \<Rightarrow> ln_followup l);
         ids = option_or followup_line_ids (case old of None \<Rightarrow> [] | Some l \<Rightarrow> ln_followup_ids l);
         kept = (case old of None \<Rightarrow> [] | Some l \<Rightarrow> if ln_followup l then ln_followup_ids l else [])
     in abind (aread (\<lambda>t. validate_config t (source_of wr) required ids kept)) (\<lambda>checked.
        abind (alift checked) (\<lambda>allowed.
        abind (write_line wr) (\<lambda>k.
        abind (awrite (set_line k (\<lambda>l. l\<lparr>ln_followup := required, ln_followup_ids := allowed\<rparr>))) (\<lambda>_.
        areturn k))))))"

section \<open>Lemmas\<close>

text \<open>No line that is followed up is followed up by a line that is followed up: a document passes
  through two lines at most.\<close>

definition chainless :: "tables \<Rightarrow> bool" where
  "chainless t \<longleftrightarrow> (\<forall>k l. line_of t k = Some l \<longrightarrow> ln_followup l \<longrightarrow> k \<notin> set (ln_followup_ids l) \<and>
     (\<forall>j\<in>set (ln_followup_ids l). j < next_line t \<and> (\<forall>m. line_of t j = Some m \<longrightarrow> \<not> ln_followup m)))"

lemma chainlessD:
  "chainless t \<Longrightarrow> line_of t k = Some l \<Longrightarrow> ln_followup l \<Longrightarrow> j \<in> set (ln_followup_ids l) \<Longrightarrow>
    j \<noteq> k \<and> j < next_line t \<and> (line_of t j = Some m \<longrightarrow> \<not> ln_followup m)"
  unfolding chainless_def by blast

lemma chainlessI:
  assumes "\<And>k l j m. line_of t k = Some l \<Longrightarrow> ln_followup l \<Longrightarrow> j \<in> set (ln_followup_ids l) \<Longrightarrow>
    j \<noteq> k \<and> j < next_line t \<and> (line_of t j = Some m \<longrightarrow> \<not> ln_followup m)"
  shows "chainless t"
  using assms unfolding chainless_def by blast

lemma line_of_set_line: "line_of (set_line k g t) j =
    (if j = k then map_option g (line_of t j) else line_of t j)"
proof -
  have "map_of (map (\<lambda>(j, l). (j, if j = k then g l else l)) ls) j =
      (if j = k then map_option g (map_of ls j) else map_of ls j)" for ls
    by (induction ls) auto
  then show ?thesis by (simp add: line_of_def set_line_def)
qed

lemma set_line_next [simp]: "next_line (set_line k g t) = next_line t"
  by (simp add: set_line_def)

lemma chainless_same:
  "(\<And>t. t_lines (f t) = t_lines t \<and> next_line (f t) = next_line t) \<Longrightarrow> keeps chainless (awrite f)"
  by (rule keepsI) (simp add: chainless_def line_of_def)

lemma chainless_set_line:
  "(\<And>l. ln_followup (g l) = ln_followup l \<and> ln_followup_ids (g l) = ln_followup_ids l) \<Longrightarrow>
    chainless t \<Longrightarrow> chainless (set_line k g t)"
proof -
  assume g: "\<And>l. ln_followup (g l) = ln_followup l \<and> ln_followup_ids (g l) = ln_followup_ids l"
  have old: "\<exists>l'. line_of t j = Some l' \<and> ln_followup l' = ln_followup l \<and> ln_followup_ids l' = ln_followup_ids l"
    if "line_of (set_line k g t) j = Some l" for j l
    using that g by (auto simp: line_of_set_line split: if_splits)
  assume c: "chainless t"
  show "chainless (set_line k g t)"
  proof (rule chainlessI)
    fix j l i m assume l: "line_of (set_line k g t) j = Some l" "ln_followup l" "i \<in> set (ln_followup_ids l)"
    obtain l' where l': "line_of t j = Some l'" "ln_followup l'" "i \<in> set (ln_followup_ids l')"
      using old [OF l(1)] l(2,3) by auto
    note d = chainlessD [OF c l']
    show "i \<noteq> j \<and> i < next_line (set_line k g t) \<and> (line_of (set_line k g t) i = Some m \<longrightarrow> \<not> ln_followup m)"
    proof (intro conjI impI)
      assume "line_of (set_line k g t) i = Some m"
      from old [OF this] obtain m' where "line_of t i = Some m'" "ln_followup m' = ln_followup m" by blast
      then show "\<not> ln_followup m" using d [of m'] by simp
    qed (use d in simp_all)
  qed
qed

lemma keeps_set_line:
  "(\<And>l. ln_followup (g l) = ln_followup l \<and> ln_followup_ids (g l) = ln_followup_ids l) \<Longrightarrow>
    keeps chainless (awrite (set_line k g))"
  by (rule keepsI) (simp add: chainless_set_line)

lemma keeps_set_form: "keeps chainless (awrite (set_form k g))"
  by (rule chainless_same) (simp add: set_form_def)

lemmas chainless_intros = keeps_bind keeps_pure keeps_set_form

lemma chainless_create_form: "keeps chainless (create_form tx name description owner steps blocks notice b)"
  unfolding create_form_def insert_form_def by (intro chainless_intros chainless_same) simp

lemma chainless_forms:
  "keeps chainless (update_form tx k p)" "keeps chainless (copy_form tx k name owner)"
  "keeps chainless (delete_form k)"
proof -
  have "keeps chainless (awrite (\<lambda>t. t\<lparr>t_forms := g (t_forms t)\<rparr>))" for g
    by (rule chainless_same) simp
  then show "keeps chainless (update_form tx k p)" "keeps chainless (copy_form tx k name owner)"
    "keeps chainless (delete_form k)"
    unfolding update_form_def copy_form_def delete_form_def guard_lines_still_fit_def Let_def
    by (auto intro!: chainless_intros chainless_create_form split: option.split)
qed

lemma chainless_create_line: "keeps chainless (create_line name description owner shared steps)"
proof (rule keepsI)
  fix t assume c: "chainless t"
  have new: "chainless (t\<lparr>t_lines := t_lines t @ [(next_line t, l)], next_line := next_line t + 1\<rparr>)"
    if "\<not> ln_followup l" for l
  proof -
    let ?t = "t\<lparr>t_lines := t_lines t @ [(next_line t, l)], next_line := next_line t + 1\<rparr>"
    have line: "line_of t k = Some m" if "line_of ?t k = Some m" "ln_followup m" for k m
      using that \<open>\<not> ln_followup l\<close> by (auto simp: line_of_def map_add_def split: option.splits if_splits)
    show ?thesis
    proof (rule chainlessI)
      fix k m j x assume m: "line_of ?t k = Some m" "ln_followup m" "j \<in> set (ln_followup_ids m)"
      note d = chainlessD [OF c line [OF m(1,2)] m(2,3)]
      show "j \<noteq> k \<and> j < next_line ?t \<and> (line_of ?t j = Some x \<longrightarrow> \<not> ln_followup x)"
        using d [of x] line [of j x] by auto
    qed
  qed
  show "chainless (snd (create_line name description owner shared steps t))"
    using c new by (cases "plan_line_slots steps") (simp_all add: create_line_def abind_def rule_def)
qed

lemma chainless_lines:
  "keeps chainless (update_line k lp)" "keeps chainless (delete_line k actor su force)"
  "keeps chainless (set_line_form k form_id)"
proof -
  have "keeps chainless (awrite (\<lambda>t. t\<lparr>t_policies := g (t_policies t)\<rparr>))" for g
    by (rule chainless_same) simp
  then show "keeps chainless (update_line k lp)" "keeps chainless (delete_line k actor su force)"
    "keeps chainless (set_line_form k form_id)"
    unfolding update_line_def delete_line_def set_line_form_def guard_form_still_fits_def
    by (auto intro!: chainless_intros keeps_set_line split: option.split simp: line_columns_def)
qed

text \<open>What the checks of a saved line give.\<close>

lemma without_repeats_set [simp]: "set (without_repeats ids) = set ids"
  by (simp add: without_repeats_def)

lemma check_candidates_Inr:
  "check_candidates t source kept ks = Inr u \<Longrightarrow> k \<in> set ks \<Longrightarrow> source \<noteq> Some k \<and>
    (k \<in> set kept \<or> (\<exists>l. line_of t k = Some l \<and> \<not> ln_followup l))"
proof (induction ks)
  case (Cons j ks)
  then show ?case
    by (auto simp: load_candidate_def candidate_error_def Let_def split: if_splits option.splits)
qed simp

lemma validate_config_Inr:
  assumes "validate_config t source required ids kept = Inr allowed" "required" "k \<in> set allowed"
  shows "source \<noteq> Some k" "k \<in> set kept \<or> (\<exists>l. line_of t k = Some l \<and> \<not> ln_followup l)"
  using assms check_candidates_Inr
  by (fastforce simp: validate_config_def ebind_Inr split: if_splits)+

lemma validate_config_used:
  "validate_config t (Some s) True ids kept = Inr allowed \<Longrightarrow> line_of t k = Some l \<Longrightarrow> k \<noteq> s \<Longrightarrow>
    ln_followup l \<Longrightarrow> s \<notin> set (ln_followup_ids l)"
  by (fastforce simp: validate_config_def ebind_Inr used_by_other_def line_of_def list_ex_iff
      dest: map_of_SomeD split: if_splits)

lemma keeps_configuring: "keeps I m \<Longrightarrow> keeps I (configuring m)"
  by (fastforce simp: keeps_def configuring_def split: prod.splits sum.splits)

lemma configuring_Inr: "configuring m t = (Inr v, t') \<longleftrightarrow> m t = (Inr v, t')"
  by (cases "m t"; cases "fst (m t)") (auto simp: configuring_def)

lemma keeps_write_line: "keeps fits (write_line wr)" "keeps chainless (write_line wr)"
  unfolding write_line_def
  by (auto intro!: keeps_bind keeps_pure keeps_configuring keeps_lines chainless_lines chainless_create_line
      split: line_write.split)

text \<open>Which lines a write leaves, as far as their candidates are concerned.\<close>

lemma write_line_Inr:
  assumes "write_line wr t = (Inr k, t')"
  shows "next_line t \<le> next_line t'" "source_of wr = None \<Longrightarrow> k = next_line t"
    "source_of wr = Some j \<Longrightarrow> k = j"
    "line_of t' j = Some m \<Longrightarrow> ln_followup m \<Longrightarrow>
      \<exists>l. line_of t j = Some l \<and> ln_followup l \<and> ln_followup_ids l = ln_followup_ids m"
    "line_of t j = Some l \<Longrightarrow> \<not> ln_followup l \<Longrightarrow> line_of t' j = Some m \<Longrightarrow> \<not> ln_followup m"
proof -
  let ?fs = "\<lambda>t j. map_option (\<lambda>l. (ln_followup l, ln_followup_ids l)) (line_of t j)"
  have upd: "next_line t' = next_line t \<and> (\<forall>j. ?fs t' j = ?fs t j)"
    if "update_line i p t = (Inr u, t')" for i p u
  proof -
    let ?I = "\<lambda>t'. next_line t' = next_line t \<and> (\<forall>j. ?fs t' j = ?fs t j)"
    have set: "keeps ?I (awrite (set_line i g))"
      if "\<And>l. ln_followup (g l) = ln_followup l \<and> ln_followup_ids (g l) = ln_followup_ids l" for g
      by (rule keepsI) (simp add: line_of_set_line that option.map_comp comp_def)
    have "keeps ?I (update_line i p)"
      unfolding update_line_def guard_form_still_fits_def
      by (auto intro!: keeps_bind keeps_pure set split: option.split simp: line_columns_def)
    from keepsD [OF this, of t] that show ?thesis by simp
  qed
  have new: "next_line t' = next_line t + 1 \<and> k = next_line t \<and>
      (\<forall>j. ?fs t' j = (case ?fs t j of None \<Rightarrow> if j = k then Some (False, []) else None | r \<Rightarrow> r))"
    if "create_line name description owner shared steps t = (Inr k, t')" for name description owner shared steps
    using that by (auto simp: create_line_def abind_Inr line_of_def map_add_def split: option.splits)
  consider i p u where "wr = ChangeLine i p" "update_line i p t = (Inr u, t')" "k = i"
    | name description owner shared steps where "wr = NewLine name description owner shared steps"
      "create_line name description owner shared steps t = (Inr k, t')"
  proof (cases wr)
    case (NewLine name description owner shared steps)
    then have "create_line name description owner shared steps t = (Inr k, t')"
      using assms by (simp add: write_line_def configuring_Inr)
    with NewLine show thesis by (rule that(2))
  next
    case (ChangeLine i p)
    have "\<exists>u. update_line i p t = (Inr u, t') \<and> k = i"
      using assms unfolding ChangeLine write_line_def line_write.case abind_Inr configuring_Inr
      by (simp only: act_simps prod.inject sum.inject) blast
    with ChangeLine that(1) show thesis by blast
  qed
  then have "next_line t \<le> next_line t' \<and> (source_of wr = None \<longrightarrow> k = next_line t) \<and>
      (\<forall>j. source_of wr = Some j \<longrightarrow> k = j) \<and> (\<forall>j f ids. ?fs t' j = Some (f, ids) \<longrightarrow>
        ?fs t j = Some (f, ids) \<or> ?fs t j = None \<and> \<not> f)"
  proof cases
    case 1
    then show ?thesis using upd [OF 1(2)] by (simp add: source_of_def)
  next
    case 2
    then show ?thesis using new [OF 2(2)] by (auto simp: source_of_def split: option.splits)
  qed
  then show "next_line t \<le> next_line t'" "source_of wr = None \<Longrightarrow> k = next_line t"
    "source_of wr = Some j \<Longrightarrow> k = j"
    "line_of t' j = Some m \<Longrightarrow> ln_followup m \<Longrightarrow>
      \<exists>l. line_of t j = Some l \<and> ln_followup l \<and> ln_followup_ids l = ln_followup_ids m"
    "line_of t j = Some l \<Longrightarrow> \<not> ln_followup l \<Longrightarrow> line_of t' j = Some m \<Longrightarrow> \<not> ln_followup m"
    by (fastforce dest: spec [of _ j])+
qed

lemma fits_line: "fits t \<Longrightarrow> line_of t k = Some l \<Longrightarrow> k < next_line t"
  by (force simp: fits_def line_of_def dest: map_of_SomeD)

lemma save_line_chainless:
  assumes f: "fits t" and c: "chainless t" and w: "write_line wr t = (Inr k, t')"
    and old: "old = (case source_of wr of None \<Rightarrow> None | Some k \<Rightarrow> line_of t k)"
    and kept: "kept = (case old of None \<Rightarrow> [] | Some l \<Rightarrow> if ln_followup l then ln_followup_ids l else [])"
    and v: "validate_config t (source_of wr) required ids kept = Inr allowed"
  shows "chainless (set_line k (\<lambda>l. l\<lparr>ln_followup := required, ln_followup_ids := allowed\<rparr>) t')"
proof (rule chainlessI)
  let ?t = "set_line k (\<lambda>l. l\<lparr>ln_followup := required, ln_followup_ids := allowed\<rparr>) t'"
  fix i l j m assume l: "line_of ?t i = Some l" "ln_followup l" "j \<in> set (ln_followup_ids l)"
  note written = write_line_Inr [OF w]
  show "j \<noteq> i \<and> j < next_line ?t \<and> (line_of ?t j = Some m \<longrightarrow> \<not> ln_followup m)"
  proof (cases "i = k")
    case True
    then have r: "required" "j \<in> set allowed" using l by (auto simp: line_of_set_line)
    note valid = validate_config_Inr [OF v r]
    have known: "(\<exists>n. line_of t j = Some n \<and> \<not> ln_followup n) \<or>
        (\<exists>s n. source_of wr = Some s \<and> line_of t s = Some n \<and> ln_followup n \<and> j \<in> set (ln_followup_ids n))"
      using valid(2) by (auto simp: kept old split: option.splits if_splits)
    have j: "j < next_line t \<and> (line_of t j = Some n \<longrightarrow> \<not> ln_followup n)" for n
      using known
    proof
      assume "\<exists>n. line_of t j = Some n \<and> \<not> ln_followup n"
      then show ?thesis using fits_line [OF f] by auto
    next
      assume "\<exists>s n. source_of wr = Some s \<and> line_of t s = Some n \<and> ln_followup n \<and> j \<in> set (ln_followup_ids n)"
      then obtain s n' where "line_of t s = Some n'" "ln_followup n'" "j \<in> set (ln_followup_ids n')" by blast
      from chainlessD [OF c this] show ?thesis by simp
    qed
    have "j \<noteq> k" using valid(1) written(2,3) j by (cases "source_of wr") auto
    moreover have "\<not> ln_followup m" if "line_of ?t j = Some m"
      using that \<open>j \<noteq> k\<close> written(4) [of j m] j by (auto simp: line_of_set_line)
    ultimately show ?thesis using True j [of m] written(1) by auto
  next
    case False
    then obtain n where n: "line_of t i = Some n" "ln_followup n" "ln_followup_ids n = ln_followup_ids l"
      using l(1,2) written(4) by (auto simp: line_of_set_line)
    then have j: "j \<in> set (ln_followup_ids n)" using l(3) by simp
    note d = chainlessD [OF c n(1,2) j]
    have "\<not> ln_followup m" if "line_of ?t j = Some m"
    proof (cases "j = k")
      case True
      have "\<not> required"
      proof
        assume r: required
        show False
        proof (cases "source_of wr")
          case None
          then show False using written(2) d True by simp
        next
          case (Some s)
          then have "s = k" using written(3) by simp
          then show False using validate_config_used [of t s ids kept allowed i n] v Some n(1,2) False r j True by simp
        qed
      qed
      then show ?thesis using that True by (auto simp: line_of_set_line)
    next
      case False
      then show ?thesis using that written(4) [of j m] d by (auto simp: line_of_set_line)
    qed
    then show ?thesis using d [of m] written(1) by auto
  qed
qed

lemma keeps_save_line: "keeps (\<lambda>t. fits t \<and> chainless t) (save_line wr required ids)"
proof (rule keepsI)
  fix t assume t: "fits t \<and> chainless t"
  have fits: "fits (set_line k (\<lambda>l. l\<lparr>ln_followup := r, ln_followup_ids := a\<rparr>) t')" if "fits t'" for k r a t'
    by (rule fits_set_line [OF that]) (auto simp: line_of_def dest!: map_of_SomeD dest: fitsD [OF that])
  let ?r = "save_line wr required ids t"
  show "fits (snd ?r) \<and> chainless (snd ?r)"
  proof (cases "fst ?r")
    case (Inl x)
    then have "snd ?r = t" by (auto simp: save_line_def atomically_def split: prod.splits sum.splits)
    then show ?thesis using t by simp
  next
    case (Inr k)
    then have "?r = (Inr k, snd ?r)" by (simp add: prod_eq_iff)
    then obtain t' req wanted allowed old kept where w: "write_line wr t = (Inr k, t')"
      and old: "old = (case source_of wr of None \<Rightarrow> None | Some k \<Rightarrow> line_of t k)"
      and kept: "kept = (case old of None \<Rightarrow> [] | Some l \<Rightarrow> if ln_followup l then ln_followup_ids l else [])"
      and v: "validate_config t (source_of wr) req wanted kept = Inr allowed"
      and r: "snd ?r = set_line k (\<lambda>l. l\<lparr>ln_followup := req, ln_followup_ids := allowed\<rparr>) t'"
      by (fastforce simp: save_line_def atomically_def abind_Inr Let_def split: prod.splits sum.splits)
    have "fits t'" using keepsD [OF keeps_write_line(1), of t wr] t w by simp
    then show ?thesis using save_line_chainless [OF _ _ w old kept v] t fits by (simp add: r)
  qed
qed

section \<open>Properties\<close>

text \<open>C36. A document passes through two lines at most: no operation on lines and forms, saving lines
  with candidates included, makes a line a candidate of another while it has candidates of its
  own, or a candidate of itself, whoever saves first.\<close>

theorem followups_do_not_chain:
  "keeps (\<lambda>t. fits t \<and> chainless t) (save_line wr required ids) \<and>
   keeps chainless (create_form tx name description owner steps blocks notice builtin) \<and>
   keeps chainless (update_form tx fid fp) \<and> keeps chainless (copy_form tx fid name owner) \<and>
   keeps chainless (delete_form fid) \<and> keeps chainless (create_line name description lowner shared steps) \<and>
   keeps chainless (update_line lid lp) \<and> keeps chainless (delete_line lid actor su force) \<and>
   keeps chainless (set_line_form lid form_id)"
  by (simp add: keeps_save_line chainless_create_form chainless_forms chainless_create_line chainless_lines)

end
