(* ===== verification/ApprovalFollowup.thy ===== *)
theory ApprovalFollowup
  imports FollowupLines
begin

text \<open>
  \<open>src/xgen_sdk/approval/followup.py\<close>: a second line of approvers on the same document. A line
  may name the lines that can follow it; the last approver of the first line chooses one of them,
  or ends the document where that is allowed. The chosen line is read when it is connected: its
  steps are appended to the document, its form's fields are copied behind them, and the approval
  of the last step then passes the document on to the first appended step.

  A decision and a withdrawal run in one transaction that locks the request and its steps, so each
  is one function of the document, which raises or returns the document as it is committed. The
  hooks run after the commit. \<open>revision\<close>, the digest of what the approver was shown, is a parameter,
  and so is which people are active. Numbers of fields come from a sequence that all documents
  share (\<open>fd_next_block\<close>).
\<close>

section \<open>The document\<close>

record selection =
  sl_line :: int
  sl_name :: string
  sl_start :: int
  sl_by :: int
  sl_at :: time
  sl_note :: string
  sl_form :: "form option"
  sl_steps :: "plan_step list"
  sl_revision :: string
  sl_template :: "slot list"

record completion =
  cp_step :: int
  cp_by :: int
  cp_at :: time
  cp_note :: string

datatype transition = Connected selection | Finalized completion

record followup_doc =
  fd_entry :: entry
  fd_selection :: "selection option"
  fd_completion :: "completion option"
  fd_transitions :: "transition list"
  fd_next_block :: int

text \<open>What the caller sends beside the decision, and what the database holds at that moment.\<close>

record line_choice =
  ch_line :: "int option"
  ch_picks :: "pydict list option"
  ch_revision :: "string option"
  ch_action :: "string option"

record surroundings =
  sr_tables :: tables
  sr_active :: "int \<Rightarrow> bool"
  sr_revision :: "candidate \<Rightarrow> string"

datatype followup_error =
    FollowupRule approval_error
  | FieldFailure doc_error
  | StepMoved
  | UnknownChoice
  | NoChoiceHere
  | MustConnect
  | EndAndConnect
  | ChoiceNeeded bool
  | NotAllowed
  | FollowupChanged
  | RequesterStands
  | PeopleLeft
  | OnlyFinalReviewer

definition followup_rule :: "approval_error + 'a \<Rightarrow> followup_error + 'a" where
  "followup_rule r = (case r of Inl x \<Rightarrow> Inl (FollowupRule x) | Inr v \<Rightarrow> Inr v)"

definition allowed_ids :: "followup_config \<Rightarrow> int list" where
  "allowed_ids fc = fc_lines fc"

definition last_order :: "step list \<Rightarrow> int" where
  "last_order steps = Max (set (map step_order steps))"

definition needs_selection :: "followup_doc \<Rightarrow> bool" where
  "needs_selection d = (case en_followup (fd_entry d) of
       None \<Rightarrow> False
     | Some fc \<Rightarrow>
         req_status (en_request (fd_entry d)) = PENDING \<and> (fc_enabled fc \<or> fc_required fc) \<and>
         fd_selection d = None \<and> en_steps (fd_entry d) \<noteq> [] \<and>
         current_step_order (en_request (fd_entry d)) = last_order (en_steps (fd_entry d)))"

definition can_finalize :: "followup_config \<Rightarrow> bool" where
  "can_finalize fc \<longleftrightarrow> fc_version fc = 2 \<and> fc_enabled fc \<and> \<not> fc_required fc"

definition prepare_steps :: "request \<Rightarrow> candidate \<Rightarrow> pydict list option \<Rightarrow> followup_error + plan_step list" where
  "prepare_steps rq c picks =
     ebind (followup_rule (plan_line_slots (map slot_dict (ln_steps (cd_line c))))) (\<lambda>slots.
     ebind (followup_rule (case picks of
         Some ps \<Rightarrow> fill_open_slots (map slot_dict slots) ps
       | None \<Rightarrow> plan_steps (map slot_dict slots))) (\<lambda>chosen.
     if list_ex (\<lambda>s. plan_approver s = requester_id rq) chosen then Inl RequesterStands else Inr chosen))"

text \<open>\<open>availability\<close> on the people of a list of steps; an open slot has none.\<close>

definition availability :: "surroundings \<Rightarrow> request \<Rightarrow> int list \<Rightarrow> followup_error option" where
  "availability sr rq people =
     (let users = filter (\<lambda>a. a \<noteq> 0) people in
      if requester_id rq \<in> set users then Some RequesterStands
      else if list_ex (\<lambda>a. \<not> sr_active sr a) users then Some PeopleLeft else None)"

definition slot_people :: "candidate \<Rightarrow> int list" where
  "slot_people c = map (\<lambda>s. case slot_approver s of None \<Rightarrow> 0 | Some a \<Rightarrow> a) (ln_steps (cd_line c))"

text \<open>What the last approver of the first line may choose from.\<close>

fun offered :: "surroundings \<Rightarrow> request \<Rightarrow> followup_config \<Rightarrow> int list \<Rightarrow> (candidate \<times> string) list" where
  "offered sr rq fc [] = []"
| "offered sr rq fc (k # ks) = (case load_candidate (sr_tables sr) k of
       None \<Rightarrow> offered sr rq fc ks
     | Some c \<Rightarrow>
         if candidate_error c (Some (fc_source fc)) \<noteq> None \<or> availability sr rq (slot_people c) \<noteq> None
         then offered sr rq fc ks else (c, sr_revision sr c) # offered sr rq fc ks)"

definition candidates :: "surroundings \<Rightarrow> followup_doc \<Rightarrow> int \<Rightarrow> followup_error + (candidate \<times> string) list" where
  "candidates sr d actor = (case en_followup (fd_entry d) of
       None \<Rightarrow> Inl OnlyFinalReviewer
     | Some fc \<Rightarrow>
         if \<not> needs_selection d \<or>
           \<not> list_ex (\<lambda>s. approver_id s = actor \<and> step_status s = PENDING) (en_steps (fd_entry d))
         then Inl OnlyFinalReviewer
         else Inr (offered sr (en_request (fd_entry d)) fc (allowed_ids fc)))"

section \<open>Connecting\<close>

definition waiting_steps :: "int \<Rightarrow> plan_step list \<Rightarrow> step list" where
  "waiting_steps offset chosen = map (\<lambda>p. \<lparr>approver_id = plan_approver p,
     step_order = offset + plan_order p, step_status = WAITING, acted_at = None, step_note = None\<rparr>) chosen"

text \<open>The fields of the followup reviewers, as \<open>get_form\<close> orders them; the draft stays the
  original one.\<close>

definition review_blocks :: "form \<Rightarrow> pydict list" where
  "review_blocks f = filter (\<lambda>b. int_or_zero (dget b ''step_index'') \<noteq> 0)
     (sort_key (\<lambda>b. (int_or_zero (dget b ''step_index''), int_or_zero (dget b ''sort_order''))) (shown_blocks f))"

definition copied_config :: "services \<Rightarrow> pyval \<Rightarrow> pyval" where
  "copied_config sv cfg = (case cfg of PDict _ \<Rightarrow> PStr (sv_dumps sv cfg) | _ \<Rightarrow> cfg)"

definition copied_rows :: "services \<Rightarrow> int \<Rightarrow> int \<Rightarrow> form \<Rightarrow> pydict list" where
  "copied_rows sv start offset f = map (\<lambda>(i, b).
     [(''id'', PInt (start + int i)), (''step_order'', PInt (offset + int_or_zero (dget b ''step_index''))),
      (''block_type'', PStr (normalize_block_type (dget b ''block_type''))),
      (''label'', dget b ''label''), (''config'', copied_config sv (dget b ''config'')),
      (''required'', dget b ''required''), (''sort_order'', dget b ''sort_order''),
      (''data'', PNone), (''filled_by'', PNone), (''filled_at'', PNone)])
     (zip [0..<length (review_blocks f)] (review_blocks f))"

definition copied_blocks :: "services \<Rightarrow> int \<Rightarrow> int \<Rightarrow> candidate \<Rightarrow> pydict list" where
  "copied_blocks sv start offset c = (case cd_form c of None \<Rightarrow> [] | Some f \<Rightarrow> copied_rows sv start offset f)"

definition selection_of ::
  "candidate \<Rightarrow> plan_step list \<Rightarrow> int \<Rightarrow> int \<Rightarrow> time \<Rightarrow> string \<Rightarrow> string \<Rightarrow> selection" where
  "selection_of c chosen offset actor now nt digest =
     \<lparr>sl_line = cd_id c, sl_name = ln_name (cd_line c), sl_start = offset + 1, sl_by = actor, sl_at = now,
      sl_note = take 500 nt, sl_form = cd_form c, sl_steps = chosen, sl_revision = digest,
      sl_template = ln_steps (cd_line c)\<rparr>"

definition append_line ::
  "services \<Rightarrow> candidate \<Rightarrow> plan_step list \<Rightarrow> int \<Rightarrow> time \<Rightarrow> string \<Rightarrow> string \<Rightarrow> followup_doc \<Rightarrow> followup_doc" where
  "append_line sv c chosen actor now nt digest d =
     (let e = fd_entry d; offset = last_order (en_steps e);
          rows = copied_blocks sv (fd_next_block d) offset c;
          sel = selection_of c chosen offset actor now nt digest
      in d\<lparr>fd_entry := e\<lparr>en_steps := en_steps e @ waiting_steps offset chosen, en_blocks := en_blocks e @ rows\<rparr>,
           fd_selection := Some sel, fd_transitions := fd_transitions d @ [Connected sel],
           fd_next_block := fd_next_block d + int (length rows)\<rparr>)"

definition connect ::
  "services \<Rightarrow> surroundings \<Rightarrow> followup_config \<Rightarrow> int \<Rightarrow> time \<Rightarrow> string \<Rightarrow> line_choice \<Rightarrow> int \<Rightarrow> followup_doc \<Rightarrow>
    followup_error + followup_doc" where
  "connect sv sr fc actor now nt ch k d =
     (if k \<notin> set (allowed_ids fc) then Inl NotAllowed
      else case load_candidate (sr_tables sr) k of
        None \<Rightarrow> Inl FollowupChanged
      | Some c \<Rightarrow>
          if option_or (ch_revision ch) [] = [] \<or> sr_revision sr c \<noteq> option_or (ch_revision ch) [] \<or>
            candidate_error c (Some (fc_source fc)) \<noteq> None
          then Inl FollowupChanged
          else ebind (prepare_steps (en_request (fd_entry d)) c (ch_picks ch)) (\<lambda>chosen.
            case availability sr (en_request (fd_entry d)) (map plan_approver chosen) of
              Some x \<Rightarrow> Inl x
            | None \<Rightarrow> Inr (append_line sv c chosen actor now nt (sr_revision sr c) d)))"

definition finalize :: "int \<Rightarrow> time \<Rightarrow> string \<Rightarrow> followup_doc \<Rightarrow> followup_doc" where
  "finalize actor now nt d =
     (let done = \<lparr>cp_step = current_step_order (en_request (fd_entry d)), cp_by = actor, cp_at = now,
            cp_note = take 500 nt\<rparr>
      in d\<lparr>fd_completion := Some done, fd_transitions := fd_transitions d @ [Finalized done]\<rparr>)"

section \<open>Deciding and withdrawing\<close>

definition choice_given :: "line_choice \<Rightarrow> bool" where
  "choice_given ch \<longleftrightarrow> ch_line ch \<noteq> None \<or> ch_action ch \<noteq> None \<or> ch_picks ch \<noteq> None \<or> ch_revision ch \<noteq> None"

text \<open>What the choice does to the document before the decision is written.\<close>

definition take_choice ::
  "services \<Rightarrow> surroundings \<Rightarrow> int \<Rightarrow> status \<Rightarrow> time \<Rightarrow> string \<Rightarrow> line_choice \<Rightarrow> followup_doc \<Rightarrow>
    followup_error + followup_doc" where
  "take_choice sv sr actor action now nt ch d =
     (let needs = needs_selection d in
      if ch_action ch \<notin> {None, Some ''connect'', Some ''finalize''} then Inl UnknownChoice
      else if choice_given ch \<and> (\<not> needs \<or> action \<noteq> APPROVED) then Inl NoChoiceHere
      else if \<not> (needs \<and> action = APPROVED) then Inr d
      else case en_followup (fd_entry d) of
        None \<Rightarrow> Inr d
      | Some fc \<Rightarrow>
          if ch_action ch = Some ''finalize'' then
            (if \<not> can_finalize fc then Inl MustConnect
             else if ch_line ch \<noteq> None \<or> ch_picks ch \<noteq> None \<or> ch_revision ch \<noteq> None then Inl EndAndConnect
             else Inr (finalize actor now nt d))
          else case ch_line ch of
            None \<Rightarrow> Inl (ChoiceNeeded (can_finalize fc))
          | Some k \<Rightarrow> connect sv sr fc actor now nt ch k d)"

text \<open>The rows of the steps that changed are written by their number.\<close>

definition same_row :: "step \<Rightarrow> step \<Rightarrow> bool" where
  "same_row s r \<longleftrightarrow> step_status s = step_status r \<and> acted_at s = acted_at r \<and> step_note s = step_note r"

definition write_row :: "step list \<Rightarrow> step list \<Rightarrow> step \<Rightarrow> step list" where
  "write_row old rows s =
     (case map_of (rev (map (\<lambda>r. (step_order r, r)) old)) (step_order s) of
        Some r \<Rightarrow> if same_row s r then rows
          else map (\<lambda>r. if step_order r = step_order s then r\<lparr>step_status := step_status s,
            acted_at := acted_at s, step_note := step_note s\<rparr> else r) rows
      | None \<Rightarrow> rows)"

definition write_decision :: "request \<times> step list \<Rightarrow> entry \<Rightarrow> entry" where
  "write_decision next e =
     e\<lparr>en_steps := foldl (write_row (en_steps e)) (en_steps e) (snd next),
       en_request := (en_request e)\<lparr>req_status := req_status (fst next),
         current_step_order := current_step_order (fst next), decided_at := decided_at (fst next)\<rparr>\<rparr>"

definition settle_decided :: "services \<Rightarrow> clock \<Rightarrow> entry \<Rightarrow> entry" where
  "settle_decided sv ck e = (if req_status (en_request e) \<in> {APPROVED, REJECTED}
     then settle_hooks sv (t_claim ck) (t_stamp ck) e e else e)"

definition followup_decision ::
  "services \<Rightarrow> surroundings \<Rightarrow> clock \<Rightarrow> int \<Rightarrow> status \<Rightarrow> string \<Rightarrow> line_choice \<Rightarrow> int option \<Rightarrow> followup_doc \<Rightarrow>
    followup_error + followup_doc" where
  "followup_decision sv sr ck actor action nt ch expected_step d =
     (let now = t_now ck; e = fd_entry d in
      if expected_step \<noteq> Some (current_step_order (en_request e)) then Inl StepMoved
      else ebind (followup_rule (decide (sv_loads sv) (en_request e) (en_steps e) actor action nt now
          (list_request_blocks e))) (\<lambda>_.
        ebind (take_choice sv sr actor action now nt ch d) (\<lambda>d1.
          let e1 = fd_entry d1 in
          ebind (followup_rule (decide (sv_loads sv) (en_request e1) (en_steps e1) actor action nt now
              (list_request_blocks e1))) (\<lambda>next.
            Inr (d1\<lparr>fd_entry := settle_decided sv ck (write_decision next e1)\<rparr>)))))"

definition close_locked :: "time \<Rightarrow> string \<Rightarrow> string \<Rightarrow> entry \<Rightarrow> entry" where
  "close_locked now by nt e =
     (let e1 = skip_rows e
      in e1\<lparr>en_request := (en_request e1)\<lparr>req_status := CANCELED, decided_at := Some now\<rparr>,
            en_canceled_by := Some by, en_cancel_note := note_text nt\<rparr>)"

definition followup_cancel :: "services \<Rightarrow> clock \<Rightarrow> int option \<Rightarrow> string \<Rightarrow> entry \<Rightarrow> approval_error + entry" where
  "followup_cancel sv ck actor nt e =
     (let closed = (\<lambda>by. let e1 = close_locked (t_now ck) by nt e
        in settle_hooks sv (t_claim ck) (t_stamp ck) e1 e1)
      in case actor of
        Some a \<Rightarrow> ebind (cancel (en_request e) (en_steps e) a (t_now ck)) (\<lambda>_. Inr (closed ''requester''))
      | None \<Rightarrow> if req_status (en_request e) \<noteq> PENDING then Inr e else Inr (closed ''system''))"

text \<open>The life of a document with a follow-up; fields of other documents take numbers too.\<close>

datatype followup_event =
    FollowupDecide surroundings clock int status string line_choice "int option"
  | FollowupCancel clock int
  | FollowupSystemCancel clock string
  | FollowupFill time int int pyval
  | FollowupSettle clock
  | FieldsElsewhere nat

definition on_entry_of :: "followup_doc \<Rightarrow> 'e + entry \<Rightarrow> 'e + followup_doc" where
  "on_entry_of d r = (case r of Inl x \<Rightarrow> Inl x | Inr e \<Rightarrow> Inr (d\<lparr>fd_entry := e\<rparr>))"

fun followup_step :: "world \<Rightarrow> followup_doc \<Rightarrow> followup_event \<Rightarrow> followup_error + followup_doc" where
  "followup_step w d (FollowupDecide sr ck actor action nt ch expected_step) =
     followup_decision (w_services_of w) sr ck actor action nt ch expected_step d"
| "followup_step w d (FollowupCancel ck actor) =
     on_entry_of d (followup_rule (followup_cancel (w_services_of w) ck (Some actor) [] (fd_entry d)))"
| "followup_step w d (FollowupSystemCancel ck nt) =
     on_entry_of d (followup_rule (followup_cancel (w_services_of w) ck None nt (fd_entry d)))"
| "followup_step w d (FollowupFill now block_id actor data) =
     on_entry_of d (map_sum FieldFailure id (fill_block w now block_id actor data (fd_entry d)))"
| "followup_step w d (FollowupSettle ck) = Inr (d\<lparr>fd_entry := settle (w_services_of w) ck (fd_entry d)\<rparr>)"
| "followup_step w d (FieldsElsewhere n) = Inr (d\<lparr>fd_next_block := fd_next_block d + int n\<rparr>)"

section \<open>Lemmas\<close>

lemma followup_rule_Inr [simp]: "followup_rule r = Inr v \<longleftrightarrow> r = Inr v"
  by (cases r) (auto simp: followup_rule_def)

lemma on_entry_of_Inr [simp]: "on_entry_of d r = Inr d' \<longleftrightarrow> (\<exists>e. r = Inr e \<and> d' = d\<lparr>fd_entry := e\<rparr>)"
  by (cases r) (auto simp: on_entry_of_def)

text \<open>Writing only the rows that changed writes the decision.\<close>

lemma write_rows:
  assumes "map who news = map who olds" and "set olds \<subseteq> set old" and "distinct (map step_order old)"
    and "distinct (map step_order (done @ olds))"
  shows "foldl (write_row old) (done @ olds) news = done @ news"
  using assms
proof (induction news arbitrary: olds "done")
  case (Cons s news)
  then obtain r olds' where olds: "olds = r # olds'" and r: "who s = who r" and rest: "map who news = map who olds'"
    by (cases olds) auto
  have key: "map_of (rev (map (\<lambda>r. (step_order r, r)) old)) (step_order s) = Some r"
    using Cons.prems(2,3) r by (intro map_of_is_SomeI) (auto simp: olds who_def rev_map comp_def distinct_map inj_on_def)
  have other: "step_order x \<noteq> step_order s" if "x \<in> set done \<union> set olds'" for x
    using Cons.prems(4) r imageI [OF that, of step_order] by (auto simp: olds who_def)
  have s: "r\<lparr>step_status := step_status s, acted_at := acted_at s, step_note := step_note s\<rparr> = s"
    using r by (simp add: who_def)
  have here: "write_row old (done @ olds) s = (done @ [s]) @ olds'"
  proof (cases "same_row s r")
    case True
    then have "s = r" using s by (simp add: same_row_def)
    then show ?thesis using True key by (simp add: write_row_def olds)
  next
    case False
    have "map (\<lambda>r. if step_order r = step_order s then r\<lparr>step_status := step_status s,
        acted_at := acted_at s, step_note := step_note s\<rparr> else r) xs = xs" if "set xs \<subseteq> set done \<union> set olds'" for xs
      using that other by (auto intro!: map_idI)
    then show ?thesis using False key s r by (simp add: write_row_def olds who_def)
  qed
  have d: "distinct (map step_order ((done @ [s]) @ olds'))"
    using Cons.prems(4) r by (simp add: olds who_def)
  have sub: "set olds' \<subseteq> set old" using Cons.prems(2) by (simp add: olds)
  have "foldl (write_row old) (done @ olds) (s # news) = foldl (write_row old) ((done @ [s]) @ olds') news"
    by (simp only: foldl.simps here)
  then show ?case using Cons.IH [OF rest sub Cons.prems(3) d] by simp
qed simp

lemma decide_who:
  assumes "decide loads rq steps actor action nt now blocks = Inr (rq', steps')"
  shows "map who steps' = map who steps" "requester_id rq' = requester_id rq"
proof -
  from assms obtain i where p: "(rq', steps') = pass_on rq (steps[i := signed action nt now (steps ! i)]) action now"
    by (cases rule: decide_Inr) blast
  show "map who steps' = map who steps"
    using who_pass_on [of rq steps i action nt now] by (simp flip: p)
  show "requester_id rq' = requester_id rq"
    using p by (auto simp: pass_on_def split: if_splits list.splits)
qed

lemma write_decision_view:
  assumes ok: "ledger_ok (en_request e, en_steps e)"
    and d: "decide loads (en_request e) (en_steps e) actor action nt now blocks = Inr next"
  shows "view (write_decision next e) = next"
proof -
  obtain rq' steps' where n: "next = (rq', steps')" by (cases "next")
  note who = decide_who [OF d [unfolded n]]
  have "foldl (write_row (en_steps e)) ([] @ en_steps e) steps' = [] @ steps'"
    using ok by (intro write_rows who(1)) simp_all
  then show ?thesis using who(2) by (simp add: write_decision_def view_def n)
qed

lemma settle_hooks_followup [simp]: "en_followup (settle_hooks sv a b l e) = en_followup e"
  by (auto simp: settle_hooks_def finish_def claim_apply_def stamp_applied_def Let_def
      split: prod.splits option.splits bool.splits)

lemma settle_decided_simps [simp]:
  "en_request (settle_decided sv ck e) = en_request e" "en_steps (settle_decided sv ck e) = en_steps e"
  "en_blocks (settle_decided sv ck e) = en_blocks e" "en_followup (settle_decided sv ck e) = en_followup e"
  by (simp_all add: settle_decided_def)

lemma write_decision_simps [simp]:
  "en_blocks (write_decision next e) = en_blocks e" "en_followup (write_decision next e) = en_followup e"
  by (simp_all add: write_decision_def)

text \<open>What the chosen line looks like.\<close>

lemma order_slots_length: "order_slots idx seen specs = Inr os \<Longrightarrow> length os = length specs"
  by (induction specs arbitrary: idx seen os) (auto simp: ebind_Inr)

lemma plan_line_slots_length: "plan_line_slots specs = Inr slots \<Longrightarrow> length slots = length specs"
  by (auto simp: plan_line_slots_def ebind_Inr number_line_def order_slots_length split: if_splits)

lemma prepare_steps_Inr:
  assumes "prepare_steps rq c picks = Inr chosen"
  shows "length chosen = length (ln_steps (cd_line c))"
    "map plan_order chosen = map (\<lambda>n. int n + 1) [0..<length chosen]" "chosen \<noteq> []"
    "\<forall>p\<in>set chosen. plan_approver p \<noteq> requester_id rq"
proof -
  obtain slots specs where slots: "plan_line_slots (map slot_dict (ln_steps (cd_line c))) = Inr slots"
    and plan: "plan_steps specs = Inr chosen" "length chosen = length slots"
    and req: "\<forall>p\<in>set chosen. plan_approver p \<noteq> requester_id rq"
  proof -
    obtain slots where slots: "plan_line_slots (map slot_dict (ln_steps (cd_line c))) = Inr slots"
      and chosen: "(case picks of Some ps \<Rightarrow> fill_open_slots (map slot_dict slots) ps
        | None \<Rightarrow> plan_steps (map slot_dict slots)) = Inr chosen"
      and req: "\<forall>p\<in>set chosen. plan_approver p \<noteq> requester_id rq"
      using assms by (auto simp: prepare_steps_def ebind_Inr list_ex_iff split: if_splits)
    show thesis
    proof (cases picks)
      case None
      then have "plan_steps (map slot_dict slots) = Inr chosen" using chosen by simp
      moreover from this have "length chosen = length slots"
        by (rule plan_steps_Inr) (metis length_map map_eq_imp_length_eq length_upt minus_nat.diff_0)
      ultimately show thesis using that slots req by blast
    next
      case (Some ps)
      then obtain slots' where "plan_line_slots (map slot_dict slots) = Inr slots'" "plan_steps ps = Inr chosen"
        "length chosen = length slots'"
        using chosen by (auto simp: fill_open_slots_def ebind_Inr split: if_splits)
      then show thesis using that slots req plan_line_slots_length by fastforce
    qed
  qed
  obtain os :: "(int \<times> nat \<times> int) list" where os: "os \<noteq> []" "length os = length specs"
    "map plan_order chosen = map (\<lambda>n. int n + 1) [0..<length specs]"
    by (rule plan_steps_Inr [OF plan(1)]) blast
  have len: "length specs = length chosen" using arg_cong [OF os(3), of length] by simp
  show "length chosen = length (ln_steps (cd_line c))"
    using plan(2) plan_line_slots_length [OF slots] by simp
  show "map plan_order chosen = map (\<lambda>n. int n + 1) [0..<length chosen]" using os(3) by (simp add: len)
  show "chosen \<noteq> []" using os(1,2) len by auto
  show "\<forall>p\<in>set chosen. plan_approver p \<noteq> requester_id rq" by (rule req)
qed

lemma connect_Inr:
  assumes "connect sv sr fc actor now nt ch k d = Inr d'"
  obtains c chosen where "k \<in> set (allowed_ids fc)" "load_candidate (sr_tables sr) k = Some c"
    "ch_revision ch = Some (sr_revision sr c)" "candidate_error c (Some (fc_source fc)) = None"
    "prepare_steps (en_request (fd_entry d)) c (ch_picks ch) = Inr chosen"
    "availability sr (en_request (fd_entry d)) (map plan_approver chosen) = None"
    "d' = append_line sv c chosen actor now nt (sr_revision sr c) d"
  using assms
  by (auto simp: connect_def ebind_Inr option_or_def split: if_splits option.splits)

lemma take_choice_Inr:
  assumes "take_choice sv sr actor action now nt ch d = Inr d'" and "en_followup (fd_entry d) = Some fc"
  obtains "d' = d" "\<not> (needs_selection d \<and> action = APPROVED)"
    | "d' = finalize actor now nt d" "needs_selection d" "action = APPROVED" "can_finalize fc"
    | k where "ch_line ch = Some k" "connect sv sr fc actor now nt ch k d = Inr d'" "needs_selection d" "action = APPROVED"
  using assms by (auto simp: take_choice_def Let_def split: if_splits option.splits)

text \<open>Appending a line to a good document that stands at its last step.\<close>

definition fields_below :: "followup_doc \<Rightarrow> bool" where
  "fields_below d \<longleftrightarrow> (\<forall>b\<in>set (en_blocks (fd_entry d)). \<exists>n. dget b ''id'' = PInt n \<and> n < fd_next_block d)"

lemma copied_ids: "map (\<lambda>b. dget b ''id'') (copied_rows sv start offset f) =
    map (\<lambda>i. PInt (start + int i)) [0..<length (copied_rows sv start offset f)]"
  by (rule nth_equalityI) (simp_all add: copied_rows_def dget_def)

lemma copied_step:
  assumes "forms_shaped t" "form_of t fid = Some f" "b \<in> set (copied_rows sv start offset f)"
  shows "\<exists>j. dget b ''step_order'' = PInt (offset + j) \<and> 1 \<le> j \<and> j \<le> form_need f"
proof -
  obtain c where c: "c \<in> set (review_blocks f)"
    "dget b ''step_order'' = PInt (offset + int_or_zero (dget c ''step_index''))"
    using assms(3) by (auto simp: copied_rows_def dget_def dest!: set_zip_rightD)
  obtain c' where c': "c' \<in> set (fm_blocks f)" "\<not> is_retired (dget c' ''block_type'')"
    "dget c ''step_index'' = dget c' ''step_index''" "int_or_zero (dget c ''step_index'') \<noteq> 0"
    using c(1) by (auto simp: review_blocks_def shown_blocks_def dget_dset)
  have "(fid, f) \<in> set (t_forms t)" using assms(2) by (simp add: form_of_def map_of_SomeD)
  with assms(1) c'(1,2) obtain j where "dget c' ''step_index'' = PInt j" "0 \<le> j" "j \<le> form_need f"
    unfolding forms_shaped_def by fastforce
  then show ?thesis using c(2) c'(3,4) by (intro exI [of _ j]) (simp add: int_or_zero_def)
qed

lemma candidate_form:
  assumes "load_candidate t k = Some c" "candidate_error c src = None" "cd_form c = Some f"
  shows "\<exists>fid. form_of t fid = Some f" "form_need f \<le> int (length (ln_steps (cd_line c)))"
  using assms by (auto simp: load_candidate_def candidate_error_def Let_def split: option.splits if_splits)

lemma last_order_max: "s \<in> set steps \<Longrightarrow> step_order s \<le> last_order steps"
  by (simp add: last_order_def)

lemma append_simps:
  "en_request (fd_entry (append_line sv c chosen actor now nt r d)) = en_request (fd_entry d)"
  "en_steps (fd_entry (append_line sv c chosen actor now nt r d)) =
     en_steps (fd_entry d) @ waiting_steps (last_order (en_steps (fd_entry d))) chosen"
  "en_blocks (fd_entry (append_line sv c chosen actor now nt r d)) =
     en_blocks (fd_entry d) @ copied_blocks sv (fd_next_block d) (last_order (en_steps (fd_entry d))) c"
  "en_followup (fd_entry (append_line sv c chosen actor now nt r d)) = en_followup (fd_entry d)"
  "fd_selection (append_line sv c chosen actor now nt r d) =
     Some (selection_of c chosen (last_order (en_steps (fd_entry d))) actor now nt r)"
  "fd_completion (append_line sv c chosen actor now nt r d) = fd_completion d"
  "fd_transitions (append_line sv c chosen actor now nt r d) = fd_transitions d @
     [Connected (selection_of c chosen (last_order (en_steps (fd_entry d))) actor now nt r)]"
  by (simp_all add: append_line_def Let_def)

lemma append_below:
  assumes "fields_below d" and "distinct (map (\<lambda>b. dget b ''id'') (en_blocks (fd_entry d)))"
  shows "fields_below (append_line sv c chosen actor now nt r d)"
    "distinct (map (\<lambda>b. dget b ''id'') (en_blocks (fd_entry (append_line sv c chosen actor now nt r d))))"
proof -
  let ?rows = "copied_blocks sv (fd_next_block d) (last_order (en_steps (fd_entry d))) c"
  have ids: "map (\<lambda>b. dget b ''id'') ?rows = map (\<lambda>i. PInt (fd_next_block d + int i)) [0..<length ?rows]"
    by (cases "cd_form c") (simp_all add: copied_blocks_def copied_ids)
  have new: "\<exists>i<length ?rows. dget b ''id'' = PInt (fd_next_block d + int i)" if "b \<in> set ?rows" for b
  proof -
    have "dget b ''id'' \<in> set (map (\<lambda>b. dget b ''id'') ?rows)" using that by simp
    then show ?thesis unfolding ids by auto
  qed
  have next_id: "fd_next_block (append_line sv c chosen actor now nt r d) = fd_next_block d + int (length ?rows)"
    by (simp add: append_line_def Let_def)
  show "fields_below (append_line sv c chosen actor now nt r d)"
    unfolding fields_below_def append_simps next_id
  proof
    fix b assume "b \<in> set (en_blocks (fd_entry d) @ ?rows)"
    then consider "b \<in> set (en_blocks (fd_entry d))" | "b \<in> set ?rows" by auto
    then show "\<exists>n. dget b ''id'' = PInt n \<and> n < fd_next_block d + int (length ?rows)"
      by cases (use assms(1) new in \<open>fastforce simp: fields_below_def\<close>)+
  qed
  have "distinct (map (\<lambda>b. dget b ''id'') ?rows)" unfolding ids by (simp add: distinct_map inj_on_def)
  moreover have "dget b ''id'' \<noteq> dget b' ''id''" if "b \<in> set (en_blocks (fd_entry d))" "b' \<in> set ?rows" for b b'
    using assms(1) that(1) new [OF that(2)] by (fastforce simp: fields_below_def)
  ultimately show "distinct (map (\<lambda>b. dget b ''id'') (en_blocks (fd_entry (append_line sv c chosen actor now nt r d))))"
    using assms(2) by (auto simp: append_simps)
qed

lemma append_ok:
  assumes ok: "doc_ok w (fd_entry d)" and below: "fields_below d" and needs: "needs_selection d"
    and c: "load_candidate t k = Some c" "candidate_error c src = None" "forms_shaped t"
    and chosen: "prepare_steps rq c picks = Inr chosen"
  shows "doc_ok w (fd_entry (append_line sv c chosen actor now nt r d))"
proof -
  let ?e = "fd_entry d" and ?d = "append_line sv c chosen actor now nt r d"
  let ?n = "last_order (en_steps ?e)" and ?l = "sv_loads (w_services_of w)"
  let ?new = "waiting_steps ?n chosen" and ?rows = "copied_blocks sv (fd_next_block d) ?n c"
  have p: "req_status (en_request ?e) = PENDING" "current_step_order (en_request ?e) = ?n"
    using needs by (auto simp: needs_selection_def split: option.splits)
  then have eo: "entry_ok ?e" using ok by (auto simp: doc_ok_def)
  then have lo: "ledger_ok (en_request ?e, en_steps ?e)" by (simp add: entry_ok_def view_def)
  note shape = prepare_steps_Inr [OF chosen]
  have orders: "map step_order ?new = map (\<lambda>i. ?n + int i + 1) [0..<length chosen]"
  proof -
    have "map step_order ?new = map (\<lambda>k. ?n + k) (map plan_order chosen)" by (simp add: waiting_steps_def comp_def)
    then show ?thesis by (simp only: shape(2)) (simp add: comp_def add.assoc)
  qed
  have new: "step_status s = WAITING" "?n < step_order s" if "s \<in> set ?new" for s
  proof -
    show "step_status s = WAITING" using that by (auto simp: waiting_steps_def)
    have "step_order s \<in> set (map step_order ?new)" using that by simp
    then show "?n < step_order s" unfolding orders by auto
  qed
  have one: "1 \<le> ?n" using lo p by (auto simp: list_all_iff list_ex_iff)
  have "distinct (map step_order ?new)" unfolding orders by (simp add: distinct_map inj_on_def)
  moreover have "step_order s \<noteq> step_order s'" if "s \<in> set (en_steps ?e)" "s' \<in> set ?new" for s s'
    using last_order_max [OF that(1)] new(2) [OF that(2)] by simp
  ultimately have ledger: "ledger_ok (en_request ?e, en_steps ?e @ ?new)"
    using lo p one by (auto simp: list_all_iff list_ex_iff dest: new)
  have top_step: "\<exists>s\<in>set ?new. step_order s = ?n + int (length chosen)"
  proof -
    have "?n + int (length chosen) \<in> set (map step_order ?new)"
      unfolding orders using shape(3) by (auto intro!: image_eqI [of _ _ "length chosen - 1"] simp: of_nat_diff Suc_le_eq)
    then show ?thesis by auto
  qed
  have rows: "\<exists>j. dget b ''step_order'' = PInt (?n + j) \<and> 1 \<le> j \<and> j \<le> int (length chosen)" if b: "b \<in> set ?rows" for b
  proof -
    obtain f where f: "cd_form c = Some f" using b by (cases "cd_form c") (auto simp: copied_blocks_def)
    obtain fid where fid: "form_of t fid = Some f" using candidate_form(1) [OF c(1,2) f] by blast
    from b f have "b \<in> set (copied_rows sv (fd_next_block d) ?n f)" by (simp add: copied_blocks_def)
    from copied_step [OF c(3) fid this] obtain j where "dget b ''step_order'' = PInt (?n + j)" "1 \<le> j"
      "j \<le> form_need f" by blast
    then show ?thesis using candidate_form(2) [OF c(1,2) f] shape(1) by auto
  qed
  have fo: "fields_ok ?e" using ok by (simp add: doc_ok_def)
  have "fields_ok (fd_entry ?d)"
    unfolding fields_ok_def
  proof (intro conjI ballI)
    show "distinct (map (\<lambda>b. dget b ''id'') (en_blocks (fd_entry ?d)))"
      by (rule append_below(2) [OF below]) (use fo in \<open>simp add: fields_ok_def\<close>)
    fix b assume "b \<in> set (en_blocks (fd_entry ?d))"
    then consider "b \<in> set (en_blocks ?e)" | "b \<in> set ?rows" by (auto simp: append_simps)
    then show "\<exists>k. dget b ''step_order'' = PInt k \<and> 0 \<le> k \<and> (\<exists>s\<in>set (en_steps (fd_entry ?d)). k \<le> step_order s)"
    proof cases
      case 1
      with fo obtain k s where "dget b ''step_order'' = PInt k" "0 \<le> k" "s \<in> set (en_steps ?e)" "k \<le> step_order s"
        unfolding fields_ok_def by blast
      then show ?thesis by (auto simp: append_simps)
    next
      case 2
      from rows [OF this] obtain j where j: "dget b ''step_order'' = PInt (?n + j)" "1 \<le> j" "j \<le> int (length chosen)" by blast
      obtain s where "s \<in> set ?new" "step_order s = ?n + int (length chosen)" using top_step by blast
      with j one show ?thesis by (auto simp: append_simps intro!: bexI [of _ s])
    qed
  qed
  moreover have "backed ?l (list_request_blocks (fd_entry ?d)) (view (fd_entry ?d))"
    unfolding backed_def
  proof (intro ballI impI)
    fix s assume "s \<in> set (snd (view (fd_entry ?d)))" and a: "step_status s = APPROVED"
    then have s: "s \<in> set (en_steps ?e)" by (auto simp: view_def append_simps dest: new(1))
    have "countable_step (normalized b) \<and> \<not> missing_at ?l (\<lambda>k. k \<le> step_order s) (normalized b)"
      if "b \<in> set ?rows" for b
    proof -
      from rows [OF that] obtain j where j: "dget b ''step_order'' = PInt (?n + j)" "1 \<le> j" by blast
      have "block_step (normalized b) = Inr (Some (?n + j))" by (rule block_step_int) (simp add: j(1))
      then show ?thesis using last_order_max [OF s] j(2) by (simp add: countable_step_def missing_at_def)
    qed
    moreover have "unfilled_upto ?l (list_request_blocks ?e) (step_order s) = Inr []"
      using ok s a by (auto simp: doc_ok_def backed_def view_def)
    ultimately show "unfilled_upto ?l (list_request_blocks (fd_entry ?d)) (step_order s) = Inr []"
      by (auto simp: unfilled_upto_def unfilled_Nil_iff list_all_iff list_request_blocks_def append_simps)
  qed
  moreover have "entry_ok (fd_entry ?d)"
    using ledger eo by (simp add: entry_ok_def view_def append_simps)
  ultimately show ?thesis using p by (simp add: doc_ok_def append_simps)
qed

text \<open>What a history from an opened document can reach.\<close>

definition line_connected :: "followup_config \<Rightarrow> followup_doc \<Rightarrow> bool" where
  "line_connected fc d \<longleftrightarrow> (case fd_selection d of
       None \<Rightarrow> True
     | Some s \<Rightarrow> sl_line s \<in> set (allowed_ids fc) \<and> fd_completion d = None \<and> sl_steps s \<noteq> [] \<and>
         filter (\<lambda>(_, k). sl_start s \<le> k) (map who (en_steps (fd_entry d))) =
           map (\<lambda>p. (plan_approver p, sl_start s - 1 + plan_order p)) (sl_steps s))"

definition ended_well :: "followup_config \<Rightarrow> followup_doc \<Rightarrow> bool" where
  "ended_well fc d \<longleftrightarrow>
     fd_transitions d = (case fd_selection d of
         Some s \<Rightarrow> [Connected s]
       | None \<Rightarrow> (case fd_completion d of None \<Rightarrow> [] | Some c \<Rightarrow> [Finalized c])) \<and>
     (fd_completion d \<noteq> None \<longrightarrow> can_finalize fc \<and> req_status (en_request (fd_entry d)) = APPROVED) \<and>
     (req_status (en_request (fd_entry d)) = APPROVED \<longrightarrow> fc_enabled fc \<or> fc_required fc \<longrightarrow>
        fd_selection d \<noteq> None \<or> fd_completion d \<noteq> None)"

definition followup_ok :: "world \<Rightarrow> followup_config \<Rightarrow> followup_doc \<Rightarrow> bool" where
  "followup_ok w fc d \<longleftrightarrow> doc_ok w (fd_entry d) \<and> en_followup (fd_entry d) = Some fc \<and> fields_below d \<and>
     line_connected fc d \<and> ended_well fc d"

text \<open>An operation that only touches the entry, and leaves who stands where.\<close>

lemma followup_ok_entry:
  assumes ok: "followup_ok w fc d" and e: "doc_ok w e" and same: "en_followup e = en_followup (fd_entry d)"
    "map who (en_steps e) = map who (en_steps (fd_entry d))"
    "map (\<lambda>b. dget b ''id'') (en_blocks e) = map (\<lambda>b. dget b ''id'') (en_blocks (fd_entry d))"
    and status: "req_status (en_request e) = APPROVED \<or> fd_completion d \<noteq> None \<Longrightarrow>
      req_status (en_request e) = req_status (en_request (fd_entry d))"
  shows "followup_ok w fc (d\<lparr>fd_entry := e\<rparr>)"
proof -
  have "\<exists>c\<in>set (en_blocks (fd_entry d)). dget b ''id'' = dget c ''id''" if "b \<in> set (en_blocks e)" for b
  proof -
    have "dget b ''id'' \<in> set (map (\<lambda>b. dget b ''id'') (en_blocks e))" using that by simp
    then show ?thesis unfolding same(3) by auto
  qed
  then have "fields_below (d\<lparr>fd_entry := e\<rparr>)"
    using ok unfolding followup_ok_def fields_below_def by fastforce
  moreover have "line_connected fc (d\<lparr>fd_entry := e\<rparr>)"
    using ok same(2) by (simp add: followup_ok_def line_connected_def split: option.splits)
  moreover have "ended_well fc (d\<lparr>fd_entry := e\<rparr>)"
    using ok status unfolding followup_ok_def ended_well_def
    by (cases "fd_selection d"; cases "fd_completion d") auto
  ultimately show ?thesis using ok e same(1) by (simp add: followup_ok_def)
qed

lemma decide_approves:
  assumes "ledger_ok (rq, steps)" "decide loads rq steps actor action nt now blocks = Inr (rq', steps')"
  shows "req_status rq' = APPROVED \<longleftrightarrow> action = APPROVED \<and> current_step_order rq = last_order steps"
  using assms(2)
proof (cases rule: decide_Inr)
  case (1 i)
  note pend = pending_order [OF assms(1) 1(1,3,5)]
  let ?out = "steps[i := signed action nt now (steps ! i)]"
  have o: "map step_order ?out = map step_order steps" by (simp add: orders_update)
  have orders: "step_order ` set ?out = step_order ` set steps" using arg_cong [OF o, of set] by simp
  have cur: "current_step_order rq \<in> step_order ` set steps" using pend(2) 1(1) by (auto intro!: image_eqI [of _ _ "steps ! i"])
  have "later_orders ?out (current_step_order rq) = [] \<longleftrightarrow> (\<forall>k\<in>step_order ` set steps. k \<le> current_step_order rq)"
    unfolding later_Nil orders [symmetric] by simp
  also have "\<dots> \<longleftrightarrow> current_step_order rq = last_order steps"
  proof -
    have "Max (step_order ` set steps) = current_step_order rq \<longleftrightarrow>
        (\<forall>k\<in>step_order ` set steps. k \<le> current_step_order rq)"
      using cur by (subst Max_eq_iff) auto
    then show ?thesis by (auto simp: last_order_def)
  qed
  finally show ?thesis using 1(4,7) pend by (auto simp: pass_on_def split: list.splits if_splits)
qed

lemma decided_entry:
  assumes ok: "doc_ok w e"
    and d: "decide (sv_loads (w_services_of w)) (en_request e) (en_steps e) actor action nt now
      (list_request_blocks e) = Inr next"
  shows "view (settle_decided sv ck (write_decision next e)) = next"
    "doc_ok w (settle_decided sv ck (write_decision next e))" "map who (snd next) = map who (en_steps e)"
    "req_status (fst next) = APPROVED \<longleftrightarrow>
      action = APPROVED \<and> current_step_order (en_request e) = last_order (en_steps e)"
    "req_status (en_request e) = PENDING"
proof -
  obtain rq' steps' where n: "next = (rq', steps')" by (cases "next")
  have "req_status (en_request e) = PENDING" using ok d by (auto simp: doc_ok_def elim: decide_Inr)
  then have lo: "ledger_ok (en_request e, en_steps e)" using ok by (auto simp: doc_ok_def entry_ok_def view_def)
  have v: "view (settle_decided sv ck (write_decision next e)) = next"
    using write_decision_view [OF lo d] by (simp add: view_def)
  show "view (settle_decided sv ck (write_decision next e)) = next" by (rule v)
  have dv: "decide (sv_loads (w_services_of w)) (en_request e) (en_steps e) actor action nt now
      (list_request_blocks e) = Inr (view (settle_decided sv ck (write_decision next e)))"
    unfolding v by (rule d)
  note good = decided_ok [OF ok dv]
  show "doc_ok w (settle_decided sv ck (write_decision next e))" by (rule good(1)) simp
  show "req_status (en_request e) = PENDING" by (rule good(2)) simp
  show "map who (snd next) = map who (en_steps e)" using decide_who(1) [OF d [unfolded n]] by (simp add: n)
  show "req_status (fst next) = APPROVED \<longleftrightarrow>
      action = APPROVED \<and> current_step_order (en_request e) = last_order (en_steps e)"
    using decide_approves [OF lo d [unfolded n]] by (simp add: n)
qed

definition recorded :: "followup_doc \<Rightarrow> transition list" where
  "recorded d = (case fd_selection d of
       Some s \<Rightarrow> [Connected s]
     | None \<Rightarrow> (case fd_completion d of None \<Rightarrow> [] | Some c \<Rightarrow> [Finalized c]))"

lemma recorded_same [simp]: "recorded (d\<lparr>fd_entry := e\<rparr>) = recorded d"
  by (simp add: recorded_def split: option.split)

lemma decided_followup:
  assumes ok: "doc_ok w (fd_entry d)" and base: "en_followup (fd_entry d) = Some fc" "fields_below d"
    "line_connected fc d" "fd_transitions d = recorded d"
    and d: "decide (sv_loads (w_services_of w)) (en_request (fd_entry d)) (en_steps (fd_entry d)) actor action nt now
      (list_request_blocks (fd_entry d)) = Inr next"
    and ended: "req_status (fst next) = APPROVED \<Longrightarrow> fc_enabled fc \<or> fc_required fc \<Longrightarrow>
      fd_selection d \<noteq> None \<or> fd_completion d \<noteq> None"
      "fd_completion d \<noteq> None \<Longrightarrow> can_finalize fc \<and> req_status (fst next) = APPROVED"
  shows "followup_ok w fc (d\<lparr>fd_entry := settle_decided sv ck (write_decision next (fd_entry d))\<rparr>)"
proof -
  let ?e = "settle_decided sv ck (write_decision next (fd_entry d))"
  note e = decided_entry(1,2) [OF ok d, of sv ck] decided_entry(3) [OF ok d]
  have v: "en_request ?e = fst next" "en_steps ?e = snd next"
    using arg_cong [OF e(1), of fst] arg_cong [OF e(1), of snd] by (simp_all add: view_def)
  have "fields_below (d\<lparr>fd_entry := ?e\<rparr>)" using base(2) by (simp add: fields_below_def)
  moreover have "line_connected fc (d\<lparr>fd_entry := ?e\<rparr>)"
    using base(3) v e(3) by (simp add: line_connected_def split: option.splits)
  moreover have "ended_well fc (d\<lparr>fd_entry := ?e\<rparr>)"
    unfolding ended_well_def recorded_def [symmetric] recorded_same
    using base(4) ended v by auto
  ultimately show ?thesis using e(2) base(1) by (simp add: followup_ok_def)
qed

text \<open>A choice leaves a document on which the decision is the same one.\<close>

lemma needs_selection_state:
  "needs_selection d \<Longrightarrow> req_status (en_request (fd_entry d)) = PENDING \<and> fd_selection d = None \<and>
    current_step_order (en_request (fd_entry d)) = last_order (en_steps (fd_entry d))"
  by (auto simp: needs_selection_def split: option.splits)

lemma append_connected:
  assumes "k \<in> set (allowed_ids fc)" "cd_id c = k" "fd_completion d = None"
    and chosen: "prepare_steps rq c picks = Inr chosen"
  shows "line_connected fc (append_line sv c chosen actor now nt r d)"
proof -
  let ?n = "last_order (en_steps (fd_entry d))" and ?d = "append_line sv c chosen actor now nt r d"
  have pos: "1 \<le> plan_order p" if "p \<in> set chosen" for p
  proof -
    have "plan_order p \<in> set (map plan_order chosen)" using that by simp
    then show ?thesis unfolding prepare_steps_Inr(2) [OF chosen] by auto
  qed
  have sel: "sl_start (selection_of c chosen ?n actor now nt r) = ?n + 1"
    "sl_steps (selection_of c chosen ?n actor now nt r) = chosen"
    "sl_line (selection_of c chosen ?n actor now nt r) = cd_id c"
    by (simp_all add: selection_of_def)
  have "filter (\<lambda>(_, k). ?n + 1 \<le> k) (map who (en_steps (fd_entry d))) = []"
    using last_order_max [of _ "en_steps (fd_entry d)"] by (fastforce simp: filter_empty_conv who_def)
  moreover have "filter (\<lambda>(_, k). ?n + 1 \<le> k) (map who (waiting_steps ?n chosen)) =
      map (\<lambda>p. (plan_approver p, ?n + plan_order p)) chosen"
    using pos by (simp add: waiting_steps_def who_def comp_def filter_id_conv)
  ultimately show ?thesis
    using assms(1-3) prepare_steps_Inr(3) [OF chosen] unfolding line_connected_def append_simps
    by (simp add: sel)
qed

lemma followup_decision_ok:
  assumes ok: "followup_ok w fc d" and shaped: "forms_shaped (sr_tables sr)"
    and d: "followup_decision (w_services_of w) sr ck actor action nt ch x d = Inr d'"
  shows "followup_ok w fc d'"
proof -
  let ?sv = "w_services_of w"
  obtain st d1 nxt where first: "decide (sv_loads ?sv) (en_request (fd_entry d)) (en_steps (fd_entry d)) actor action nt
      (t_now ck) (list_request_blocks (fd_entry d)) = Inr st"
    and choice: "take_choice ?sv sr actor action (t_now ck) nt ch d = Inr d1"
    and second: "decide (sv_loads ?sv) (en_request (fd_entry d1)) (en_steps (fd_entry d1)) actor action nt
      (t_now ck) (list_request_blocks (fd_entry d1)) = Inr nxt"
    and d': "d' = d1\<lparr>fd_entry := settle_decided ?sv ck (write_decision nxt (fd_entry d1))\<rparr>"
    using d by (auto simp: followup_decision_def Let_def ebind_Inr split: if_splits)
  have doc: "doc_ok w (fd_entry d)" and fc: "en_followup (fd_entry d) = Some fc" and below: "fields_below d"
    and conn: "line_connected fc d" and ended: "ended_well fc d"
    using ok by (simp_all add: followup_ok_def)
  note p = decided_entry(5) [OF doc first]
  have open_doc: "fd_completion d = None" "fd_transitions d = recorded d"
    using ended p by (auto simp: ended_well_def recorded_def split: option.splits)
  show ?thesis
    using choice fc
  proof (cases rule: take_choice_Inr)
    case 1
    have "fd_selection d \<noteq> None" if "req_status (fst nxt) = APPROVED" "fc_enabled fc \<or> fc_required fc"
    proof -
      have a: "action = APPROVED \<and> current_step_order (en_request (fd_entry d)) = last_order (en_steps (fd_entry d))"
        using decided_entry(4) [OF doc second [unfolded 1]] that(1) by simp
      have "en_steps (fd_entry d) \<noteq> []" using first by (auto elim!: decide_Inr)
      then show ?thesis using 1(2) a that(2) p fc by (auto simp: needs_selection_def)
    qed
    then show ?thesis unfolding d' 1(1)
      using second [unfolded 1(1)] open_doc by (intro decided_followup [OF doc fc below conn]) auto
  next
    case 2
    have same: "fd_entry d1 = fd_entry d" "fd_selection d1 = fd_selection d" "fd_next_block d1 = fd_next_block d"
      "fd_completion d1 \<noteq> None" "fd_transitions d1 = recorded d1"
      using open_doc needs_selection_state [OF 2(2)]
      by (simp_all add: 2(1) finalize_def Let_def recorded_def)
    have "req_status (fst nxt) = APPROVED"
      using decided_entry(4) [OF doc second [unfolded same(1)]] 2(3) needs_selection_state [OF 2(2)] by simp
    moreover have "line_connected fc d1"
      using needs_selection_state [OF 2(2)] same(2) by (simp add: line_connected_def)
    ultimately show ?thesis unfolding d'
      using second doc fc below 2(4) same by (intro decided_followup) (auto simp: fields_below_def)
  next
    case (3 k)
    obtain c chosen where c: "k \<in> set (allowed_ids fc)" "load_candidate (sr_tables sr) k = Some c"
      "candidate_error c (Some (fc_source fc)) = None"
      and chosen: "prepare_steps (en_request (fd_entry d)) c (ch_picks ch) = Inr chosen"
      and d1: "d1 = append_line ?sv c chosen actor (t_now ck) nt (sr_revision sr c) d"
      using 3(2) by (elim connect_Inr) blast
    have id: "cd_id c = k" using c(2) by (auto simp: load_candidate_def split: option.splits)
    have new: "doc_ok w (fd_entry d1)"
      unfolding d1 by (rule append_ok [OF doc below 3(3) c(2,3) shaped chosen])
    have "distinct (map (\<lambda>b. dget b ''id'') (en_blocks (fd_entry d)))" using doc by (simp add: doc_ok_def fields_ok_def)
    then have "fields_below d1" unfolding d1 by (rule append_below(1) [OF below])
    moreover have "line_connected fc d1"
      unfolding d1 by (rule append_connected [OF c(1) id open_doc(1) chosen])
    moreover have "fd_transitions d1 = recorded d1" "fd_selection d1 \<noteq> None" "fd_completion d1 = None"
      "en_followup (fd_entry d1) = Some fc"
      using open_doc needs_selection_state [OF 3(3)] fc unfolding d1
      by (simp_all add: append_simps recorded_def)
    ultimately show ?thesis unfolding d' using second by (intro decided_followup [OF new]) auto
  qed
qed

lemma followup_cancel_ok:
  assumes ok: "followup_ok w fc d" and c: "followup_cancel sv ck actor nt (fd_entry d) = Inr e"
  shows "followup_ok w fc (d\<lparr>fd_entry := e\<rparr>)"
proof -
  let ?e = "fd_entry d"
  have doc: "doc_ok w ?e" using ok by (simp add: followup_ok_def)
  consider "e = ?e" | closer where "req_status (en_request ?e) = PENDING"
      "e = settle_hooks sv (t_claim ck) (t_stamp ck) (close_locked (t_now ck) closer nt ?e)
        (close_locked (t_now ck) closer nt ?e)"
  proof (cases actor)
    case None
    then show thesis using c that by (auto simp: followup_cancel_def Let_def split: if_splits)
  next
    case (Some a)
    then obtain st where st: "cancel (en_request ?e) (en_steps ?e) a (t_now ck) = Inr st"
      and e: "e = settle_hooks sv (t_claim ck) (t_stamp ck) (close_locked (t_now ck) ''requester'' nt ?e)
        (close_locked (t_now ck) ''requester'' nt ?e)"
      using c by (auto simp: followup_cancel_def Let_def ebind_Inr)
    have "req_status (en_request ?e) = PENDING" using st doc by (auto simp: cancel_Inr doc_ok_def)
    then show thesis using that(2) e by blast
  qed
  then show ?thesis
  proof cases
    case 1
    then show ?thesis using ok by simp
  next
    case (2 closer)
    have st: "en_steps e = map skip_open (en_steps ?e)" "req_status (en_request e) = CANCELED"
      "en_blocks e = en_blocks ?e" "en_followup e = en_followup ?e"
      by (simp_all add: 2(2) close_locked_def skip_rows_def Let_def)
    have "fd_completion d = None" using ok 2(1) by (auto simp: followup_ok_def ended_well_def)
    then show ?thesis
      using st canceled_ok [OF doc st(1,2,3)]
      by (intro followup_ok_entry [OF ok]) (auto simp: who_def)
  qed
qed

fun shaped_event :: "followup_event \<Rightarrow> bool" where
  "shaped_event (FollowupDecide sr ck actor action nt ch x) = forms_shaped (sr_tables sr)"
| "shaped_event e = True"

lemma followup_step_ok:
  assumes ok: "followup_ok w fc d" and s: "followup_step w d ev = Inr d'" and e: "shaped_event ev"
  shows "followup_ok w fc d'"
proof (cases ev)
  case (FollowupDecide sr ck actor action nt ch x)
  then show ?thesis using followup_decision_ok [OF ok] s e by simp
next
  case (FollowupCancel ck actor)
  then show ?thesis using followup_cancel_ok [OF ok] s by auto
next
  case (FollowupSystemCancel ck nt)
  then show ?thesis using followup_cancel_ok [OF ok] s by auto
next
  case (FollowupFill now k actor data)
  obtain e where f: "fill_block w now k actor data (fd_entry d) = Inr e" and d': "d' = d\<lparr>fd_entry := e\<rparr>"
    using s FollowupFill by (cases "fill_block w now k actor data (fd_entry d)") auto
  obtain v where v: "e = put_value w k v actor now (fd_entry d)"
    using f by (auto simp: fill_block_def ebind_Inr split: option.splits)
  have "doc_ok w e" using ok doc_step_fill [OF _ f] by (simp add: followup_ok_def)
  moreover have "dget (if P then with_value w v actor now b else b) ''id'' = dget b ''id''" for P b by simp
  ultimately show ?thesis unfolding d'
    by (intro followup_ok_entry [OF ok]) (simp_all add: v put_value_def comp_def)
next
  case (FollowupSettle ck)
  let ?e = "settle (w_services_of w) ck (fd_entry d)"
  have d': "d' = d\<lparr>fd_entry := ?e\<rparr>" using FollowupSettle s by simp
  have "doc_ok w ?e" using ok by (simp add: followup_ok_def settle_ok)
  moreover have "en_followup ?e = en_followup (fd_entry d)"
    by (auto simp: settle_def finish_def claim_apply_def stamp_applied_def Let_def
        split: prod.splits option.splits bool.splits)
  moreover have "en_request ?e = en_request (fd_entry d)" "en_steps ?e = en_steps (fd_entry d)"
    using settle_view [of "w_services_of w" ck "fd_entry d"] by (simp_all add: view_def)
  ultimately show ?thesis unfolding d'
    by (intro followup_ok_entry [OF ok]) (simp_all add: settle_blocks)
next
  case (FieldsElsewhere n)
  then have d': "d' = d\<lparr>fd_next_block := fd_next_block d + int n\<rparr>" using s by simp
  have "\<exists>i. dget b ''id'' = PInt i \<and> i < fd_next_block d + int n" if "b \<in> set (en_blocks (fd_entry d))" for b
  proof -
    from ok that obtain i where "dget b ''id'' = PInt i" "i < fd_next_block d"
      unfolding followup_ok_def fields_below_def by blast
    then show ?thesis by simp
  qed
  then have "fields_below d'" by (simp add: fields_below_def d')
  moreover have "line_connected fc d' = line_connected fc d" "ended_well fc d' = ended_well fc d"
    by (simp_all add: line_connected_def ended_well_def d' split: option.split)
  ultimately show ?thesis using ok by (simp add: followup_ok_def d')
qed

lemma followup_history_ok:
  "followup_ok w fc d \<Longrightarrow> list_all shaped_event evs \<Longrightarrow> followup_ok w fc (history (followup_step w) d evs)"
proof (induction evs arbitrary: d)
  case (Cons ev evs)
  have "followup_ok w fc (attempt (followup_step w) d ev)"
    by (cases rule: attempt_cases [of "followup_step w" d ev]) (use Cons.prems followup_step_ok in auto)
  with Cons show ?case by simp
qed simp

section \<open>Properties\<close>

text \<open>A document as it is submitted: no choice has been made.\<close>

definition opened :: "entry \<Rightarrow> int \<Rightarrow> followup_doc" where
  "opened e n = \<lparr>fd_entry = e, fd_selection = None, fd_completion = None, fd_transitions = [], fd_next_block = n\<rparr>"

lemma opened_ok:
  assumes "doc_ok w e" "req_status (en_request e) = PENDING" "en_followup e = Some fc"
    "\<forall>b\<in>set (en_blocks e). \<exists>i<n. dget b ''id'' = PInt i"
  shows "followup_ok w fc (opened e n)"
  using assms by (auto simp: followup_ok_def opened_def fields_below_def line_connected_def ended_well_def)

text \<open>C34. A document whose line has a follow-up is never approved by the first line alone: along every
  history of decisions, choices, withdrawals, fillings and settlements, whatever the tables hold
  at each decision, once it is approved every step is signed, every required field of both lines
  is filled and exactly one choice is on record: either one of the lines fixed at submission was
  connected and every person it named has signed behind the first line, or the last approver
  ended the document, which only a submission that allows it admits.\<close>

theorem followup_line_has_signed:
  assumes "doc_ok w e" and "req_status (en_request e) = PENDING" and "en_followup e = Some fc"
    and "fc_enabled fc \<or> fc_required fc" and "\<forall>b\<in>set (en_blocks e). \<exists>i<n. dget b ''id'' = PInt i"
    and "list_all shaped_event evs" and "d = history (followup_step w) (opened e n) evs"
    and "req_status (en_request (fd_entry d)) = APPROVED"
  shows "(\<forall>s\<in>set (en_steps (fd_entry d)). step_status s = APPROVED) \<and>
    (\<forall>b\<in>set (list_request_blocks (fd_entry d)). truthy (dget b ''required'') \<longrightarrow>
      is_filled (sv_loads (w_services_of w)) b) \<and>
    length (fd_transitions d) = 1 \<and>
    ((\<exists>s. fd_selection d = Some s \<and> sl_line s \<in> set (fc_lines fc) \<and> sl_steps s \<noteq> [] \<and>
        (\<forall>p\<in>set (sl_steps s). \<exists>x\<in>set (en_steps (fd_entry d)). approver_id x = plan_approver p \<and>
           sl_start s \<le> step_order x \<and> step_status x = APPROVED)) \<or>
     (can_finalize fc \<and> fd_completion d \<noteq> None))"
proof -
  have ok: "followup_ok w fc d"
    unfolding assms(7) by (rule followup_history_ok [OF opened_ok [OF assms(1-3,5)] assms(6)])
  then have doc: "doc_ok w (fd_entry d)" and conn: "line_connected fc d" and ended: "ended_well fc d"
    by (simp_all add: followup_ok_def)
  note all = approved_fields_filled [OF doc assms(8)]
  have "length (fd_transitions d) = 1 \<and>
    ((\<exists>s. fd_selection d = Some s \<and> sl_line s \<in> set (fc_lines fc) \<and> sl_steps s \<noteq> [] \<and>
        (\<forall>p\<in>set (sl_steps s). \<exists>x\<in>set (en_steps (fd_entry d)). approver_id x = plan_approver p \<and>
           sl_start s \<le> step_order x \<and> step_status x = APPROVED)) \<or>
     (can_finalize fc \<and> fd_completion d \<noteq> None))"
  proof (cases "fd_selection d")
    case None
    then show ?thesis using ended assms(4,8) by (auto simp: ended_well_def)
  next
    case (Some s)
    have "\<exists>x\<in>set (en_steps (fd_entry d)). approver_id x = plan_approver p \<and> sl_start s \<le> step_order x"
      if p: "p \<in> set (sl_steps s)" for p
    proof -
      have "(plan_approver p, sl_start s - 1 + plan_order p) \<in>
          set (filter (\<lambda>(_, k). sl_start s \<le> k) (map who (en_steps (fd_entry d))))"
        using conn p by (auto simp: line_connected_def Some)
      then show ?thesis by (auto simp: who_def)
    qed
    then show ?thesis using conn ended all(1) by (fastforce simp: line_connected_def ended_well_def Some allowed_ids_def)
  qed
  then show ?thesis using all by blast
qed

definition w_config :: followup_config where
  "w_config = \<lparr>fc_version = 2, fc_enabled = True, fc_required = False, fc_source = 1, fc_lines = [2]\<rparr>"

definition w_with_followup :: entry where
  "w_with_followup = w_document\<lparr>en_followup := Some w_config\<rparr>"

text \<open>A shared line of one person, whose form asks that person for a field.\<close>

definition w_surroundings :: surroundings where
  "w_surroundings = \<lparr>sr_tables = \<lparr>t_lines = [(2, \<lparr>ln_name = ''second'', ln_description = None, ln_owner = 1,
       ln_shared = True, ln_active = True, ln_form = Some 9, ln_followup = False, ln_followup_ids = [],
       ln_steps = [\<lparr>slot_approver = Some 20, slot_order = 1\<rparr>]\<rparr>)],
     t_forms = [(9, \<lparr>fm_name = ''review'', fm_description = None, fm_notice = None, fm_builtin = False,
       fm_owner = None, fm_active = True,
       fm_steps = [\<lparr>fs_index = 0, fs_title = [], fs_guide = None\<rparr>, \<lparr>fs_index = 1, fs_title = [], fs_guide = None\<rparr>],
       fm_blocks = [[(''step_index'', PInt 1), (''block_type'', PStr ''text''), (''label'', PStr ''why''),
         (''required'', PBool True), (''sort_order'', PInt 1)]]\<rparr>)],
     t_policies = [], next_line = 3, next_form = 10\<rparr>,
     sr_active = (\<lambda>_. True), sr_revision = (\<lambda>c. ''r1'')\<rparr>"

definition w_no_choice :: line_choice where
  "w_no_choice = \<lparr>ch_line = None, ch_picks = None, ch_revision = None, ch_action = None\<rparr>"

definition w_choice :: line_choice where
  "w_choice = \<lparr>ch_line = Some 2, ch_picks = None, ch_revision = Some ''r1'', ch_action = Some ''connect''\<rparr>"

definition w_followup_history :: "followup_event list" where
  "w_followup_history =
    [FollowupFill 1 5 7 (PStr ''ok''),
     FollowupDecide w_surroundings w_clock 7 APPROVED [] w_no_choice (Some 1),
     FollowupDecide w_surroundings w_clock 12 APPROVED [] w_no_choice (Some 2),
     FollowupDecide w_surroundings w_clock 12 APPROVED [] w_choice (Some 2),
     FollowupDecide w_surroundings w_clock 20 APPROVED [] w_no_choice (Some 3),
     FollowupFill 2 6 20 (PStr ''fine''),
     FollowupDecide w_surroundings w_clock 20 APPROVED [] w_no_choice (Some 3)]"

lemma w_opened_ok: "doc_ok w_world w_with_followup" "req_status (en_request w_with_followup) = PENDING"
  "en_followup w_with_followup = Some w_config"
  "\<forall>b\<in>set (en_blocks w_with_followup). \<exists>i<6. dget b ''id'' = PInt i"
proof -
  have same: "fields_ok (w_document\<lparr>en_followup := f\<rparr>) = fields_ok w_document"
    "entry_ok (w_document\<lparr>en_followup := f\<rparr>) = entry_ok w_document"
    "list_request_blocks (w_document\<lparr>en_followup := f\<rparr>) = list_request_blocks w_document"
    "view (w_document\<lparr>en_followup := f\<rparr>) = view w_document" for f
    by (simp_all add: fields_ok_def entry_ok_def view_def list_request_blocks_def)
  show "doc_ok w_world w_with_followup"
    using w_document_ok unfolding doc_ok_def w_with_followup_def same by simp
qed (simp_all add: w_with_followup_def w_document_def w_entry_def w_line_def w_request_def w_field_def dget_def)

lemma w_shaped: "forms_shaped (sr_tables w_surroundings)"
  by (simp add: forms_shaped_def w_surroundings_def dget_def form_need_def)

theorem followup_line_has_signed_witness:
  "\<exists>d s. d = history (followup_step w_world) (opened w_with_followup 6) w_followup_history \<and>
    length (fd_transitions d) = 1 \<and> fd_selection d = Some s \<and> sl_line s = 2 \<and>
    (\<forall>y\<in>set (en_steps (fd_entry d)). step_status y = APPROVED)"
proof -
  let ?d = "history (followup_step w_world) (opened w_with_followup 6) w_followup_history"
  have a: "req_status (en_request (fd_entry ?d)) = APPROVED" by code_simp
  have f: "fd_completion ?d = None" by code_simp
  have e: "fc_enabled w_config \<or> fc_required w_config" by (simp add: w_config_def)
  have s: "list_all shaped_event w_followup_history" by (simp add: w_followup_history_def w_shaped)
  show ?thesis
    using followup_line_has_signed [OF w_opened_ok(1-3) e w_opened_ok(4) s refl a] f
    by (auto simp: w_config_def)
qed

lemma update_by_order:
  assumes "distinct (map step_order steps)" "i < length steps"
  shows "steps[i := f (steps ! i)] = map (\<lambda>s. if step_order s = step_order (steps ! i) then f s else s) steps"
  using assms by (intro nth_equalityI) (auto simp: nth_list_update distinct_conv_nth)

lemma passes_to_appended:
  assumes lo: "ledger_ok (rq, old @ waiting_steps n chosen)" and n: "n = last_order old"
    and cur: "current_step_order rq = n" and p: "req_status rq = PENDING"
    and orders: "map plan_order chosen = map (\<lambda>n. int n + 1) [0..<length chosen]" "chosen \<noteq> []"
    and dec: "decide loads rq (old @ waiting_steps n chosen) actor APPROVED nt now bs = Inr nxt"
  shows "nxt = (rq\<lparr>current_step_order := n + 1\<rparr>,
    map (\<lambda>y. if step_order y = n then signed APPROVED nt now y else y) old @
    map (\<lambda>p. \<lparr>approver_id = plan_approver p, step_order = n + plan_order p,
      step_status = (if plan_order p = 1 then PENDING else WAITING), acted_at = None, step_note = None\<rparr>) chosen)"
proof -
  let ?steps = "old @ waiting_steps n chosen"
  let ?sign = "\<lambda>y. if step_order y = n then signed APPROVED nt now y else y"
  obtain i where i: "i < length ?steps" "step_status (?steps ! i) = PENDING"
    and live: "req_status rq \<notin> {APPROVED, REJECTED, CANCELED}"
    and nxt: "nxt = pass_on rq (?steps[i := signed APPROVED nt now (?steps ! i)]) APPROVED now"
    using dec by (cases rule: decide_Inr) blast
  note pend = pending_order [OF lo i live]
  have at: "step_order (?steps ! i) = n" using pend(2) cur by simp
  have d: "distinct (map step_order ?steps)" using lo by simp
  have out: "?steps[i := signed APPROVED nt now (?steps ! i)] = map ?sign ?steps"
    using update_by_order [OF d i(1), of "signed APPROVED nt now"] by (simp only: at)
  have set: "plan_order ` set chosen = (\<lambda>n. int n + 1) ` {0..<length chosen}"
    using arg_cong [OF orders(1), of set] by (simp only: set_map set_upt)
  then have pos: "1 \<le> plan_order p" if "p \<in> set chosen" for p using imageI [OF that, of plan_order] by auto
  have "1 \<in> plan_order ` set chosen" unfolding set using orders(2) by (intro image_eqI [of _ _ 0]) simp_all
  then obtain p where p1: "p \<in> set chosen" "plan_order p = 1" by auto
  let ?first = "\<lparr>approver_id = plan_approver p, step_order = n + 1, step_status = WAITING, acted_at = None, step_note = None\<rparr>"
  have first: "?first \<in> set (waiting_steps n chosen)" using p1 by (auto simp: waiting_steps_def intro!: image_eqI [of _ _ p])
  obtain r where r: "later_orders (map ?sign ?steps) n = (n + 1) # r"
  proof (cases "later_orders (map ?sign ?steps) n")
    case Nil
    then show thesis using first by (auto simp: later_Nil dest!: bspec [of _ _ ?first])
  next
    case (Cons m r)
    note least = later_Cons [OF Cons]
    have "?first \<in> set (map ?sign ?steps)" using first by (auto intro!: image_eqI [of _ _ ?first])
    then have "m \<le> n + 1" using least(3) [of ?first] by simp
    then show thesis using least(2) Cons that by auto
  qed
  have old: "step_order y \<noteq> n + 1" if "y \<in> set old" for y
    using last_order_max [OF that] n by simp
  have "nxt = (rq\<lparr>current_step_order := n + 1\<rparr>,
      map (\<lambda>y. if step_order y = n + 1 then y\<lparr>step_status := PENDING\<rparr> else y) (map ?sign ?steps))"
    using nxt r pend(3) cur unfolding out by (simp add: pass_on_def)
  then show ?thesis using old pos by (fastforce simp: waiting_steps_def)
qed

text \<open>C35. Connecting a line extends the document and applies nothing: the decision was an approval of
  the last step, by the revision the approver was shown of a line that was allowed at submission
  and is still fit, none of whose people asked for the approval or has left; that step is signed
  and every other step of the first line is as it was; the chosen people follow, the first of them
  in turn, with the fields of their form behind those of the document; the document stays pending
  and no hook of any service runs.\<close>

theorem connection_extends_the_document:
  assumes "followup_ok w fc d" and "forms_shaped (sr_tables sr)"
    and "followup_decision (w_services_of w) sr ck actor action nt ch x d = Inr d'"
    and "fd_selection d = None" and "fd_selection d' = Some s"
  shows "action = APPROVED \<and> sl_start s = last_order (en_steps (fd_entry d)) + 1 \<and>
    req_status (en_request (fd_entry d')) = PENDING \<and>
    current_step_order (en_request (fd_entry d')) = sl_start s \<and>
    en_effects (fd_entry d') = en_effects (fd_entry d) \<and>
    en_steps (fd_entry d') =
      map (\<lambda>y. if step_order y = sl_start s - 1 then signed APPROVED nt (t_now ck) y else y)
        (en_steps (fd_entry d)) @
      map (\<lambda>p. \<lparr>approver_id = plan_approver p, step_order = sl_start s - 1 + plan_order p,
        step_status = (if plan_order p = 1 then PENDING else WAITING), acted_at = None, step_note = None\<rparr>)
        (sl_steps s) \<and>
    (\<exists>c. load_candidate (sr_tables sr) (sl_line s) = Some c \<and> ch_revision ch = Some (sr_revision sr c) \<and>
      candidate_error c (Some (fc_source fc)) = None \<and> sl_line s \<in> set (fc_lines fc) \<and>
      en_blocks (fd_entry d') = en_blocks (fd_entry d) @
        copied_blocks (w_services_of w) (fd_next_block d) (sl_start s - 1) c) \<and>
    (\<forall>p\<in>set (sl_steps s). plan_approver p \<noteq> requester_id (en_request (fd_entry d)) \<and>
      (plan_approver p = 0 \<or> sr_active sr (plan_approver p)))"
proof -
  let ?sv = "w_services_of w" and ?e = "fd_entry d" and ?n = "last_order (en_steps (fd_entry d))"
  obtain st d1 nxt where first: "decide (sv_loads ?sv) (en_request ?e) (en_steps ?e) actor action nt
      (t_now ck) (list_request_blocks ?e) = Inr st"
    and choice: "take_choice ?sv sr actor action (t_now ck) nt ch d = Inr d1"
    and second: "decide (sv_loads ?sv) (en_request (fd_entry d1)) (en_steps (fd_entry d1)) actor action nt
      (t_now ck) (list_request_blocks (fd_entry d1)) = Inr nxt"
    and d': "d' = d1\<lparr>fd_entry := settle_decided ?sv ck (write_decision nxt (fd_entry d1))\<rparr>"
    using assms(3) by (auto simp: followup_decision_def Let_def ebind_Inr split: if_splits)
  have doc: "doc_ok w ?e" and fc: "en_followup ?e = Some fc" and below: "fields_below d"
    using assms(1) by (simp_all add: followup_ok_def)
  obtain k where conn: "connect ?sv sr fc actor (t_now ck) nt ch k d = Inr d1" and needs: "needs_selection d"
    and a: "action = APPROVED"
    using choice fc assms(4,5) by (cases rule: take_choice_Inr) (auto simp: d' finalize_def Let_def)
  obtain c chosen where c: "k \<in> set (allowed_ids fc)" "load_candidate (sr_tables sr) k = Some c"
      "ch_revision ch = Some (sr_revision sr c)" "candidate_error c (Some (fc_source fc)) = None"
    and chosen: "prepare_steps (en_request ?e) c (ch_picks ch) = Inr chosen"
    and avail: "availability sr (en_request ?e) (map plan_approver chosen) = None"
    and d1: "d1 = append_line ?sv c chosen actor (t_now ck) nt (sr_revision sr c) d"
    using conn by (elim connect_Inr) blast
  have id: "cd_id c = k" using c(2) by (auto simp: load_candidate_def split: option.splits)
  have s: "s = selection_of c chosen ?n actor (t_now ck) nt (sr_revision sr c)"
    using assms(5) by (simp add: d' d1 append_simps)
  then have sel: "sl_start s = ?n + 1" "sl_steps s = chosen" "sl_line s = k"
    by (simp_all add: selection_of_def id)
  note state = needs_selection_state [OF needs]
  note shape = prepare_steps_Inr [OF chosen]
  have new: "doc_ok w (fd_entry d1)"
    unfolding d1 by (rule append_ok [OF doc below needs c(2,4) assms(2) chosen])
  note e = decided_entry(1,2) [OF new second, of ?sv ck] decided_entry(4,5) [OF new second]
  have v: "en_request (fd_entry d') = fst nxt" "en_steps (fd_entry d') = snd nxt"
    using arg_cong [OF e(1), of fst] arg_cong [OF e(1), of snd] by (simp_all add: view_def d')
  have dec: "decide (sv_loads ?sv) (en_request ?e) (en_steps ?e @ waiting_steps ?n chosen) actor APPROVED nt (t_now ck)
      (list_request_blocks (fd_entry d1)) = Inr nxt"
    using second by (simp add: d1 append_simps a)
  have "entry_ok (fd_entry d1)" using new e(4) by (auto simp: doc_ok_def)
  then have lo: "ledger_ok (en_request ?e, en_steps ?e @ waiting_steps ?n chosen)"
    unfolding entry_ok_def by (simp only: view_def d1 append_simps)
  have nxt: "nxt = ((en_request ?e)\<lparr>current_step_order := ?n + 1\<rparr>,
      map (\<lambda>y. if step_order y = ?n then signed APPROVED nt (t_now ck) y else y) (en_steps ?e) @
      map (\<lambda>p. \<lparr>approver_id = plan_approver p, step_order = ?n + plan_order p,
        step_status = (if plan_order p = 1 then PENDING else WAITING), acted_at = None, step_note = None\<rparr>) chosen)"
    by (rule passes_to_appended [OF lo refl _ _ shape(2,3) dec]) (use state in simp_all)
  have "en_blocks (fd_entry d') = en_blocks ?e @ copied_blocks ?sv (fd_next_block d) ?n c"
    by (simp add: d' d1 append_simps)
  moreover have "en_effects (fd_entry d') = en_effects ?e"
    using v(1) state by (simp add: d' settle_decided_def nxt) (simp add: write_decision_def d1 append_line_def Let_def nxt)
  moreover have "plan_approver p \<noteq> requester_id (en_request ?e) \<and> (plan_approver p = 0 \<or> sr_active sr (plan_approver p))"
    if "p \<in> set chosen" for p
    using avail shape(4) that by (auto simp: availability_def Let_def list_ex_iff split: if_splits)
  ultimately show ?thesis
    using a state v c by (simp add: sel nxt allowed_ids_def)
qed

theorem connection_extends_the_document_witness:
  "\<exists>d d'. followup_decision (w_services_of w_world) w_surroundings w_clock 12 APPROVED [] w_choice (Some 2) d = Inr d' \<and>
    req_status (en_request (fd_entry d')) = PENDING \<and> current_step_order (en_request (fd_entry d')) = 3 \<and>
    en_effects (fd_entry d') = en_effects (fd_entry d)"
proof -
  let ?d = "history (followup_step w_world) (opened w_with_followup 6) (take 2 w_followup_history)"
  let ?r = "followup_decision (w_services_of w_world) w_surroundings w_clock 12 APPROVED [] w_choice (Some 2) ?d"
  have "case ?r of Inr d' \<Rightarrow> map_option sl_start (fd_selection d') = Some 3 | _ \<Rightarrow> False" by code_simp
  then obtain d' s where r: "?r = Inr d'" "fd_selection d' = Some s" "sl_start s = 3"
    by (auto split: sum.splits)
  have none: "fd_selection ?d = None" by code_simp
  have "followup_ok w_world w_config ?d"
    by (rule followup_history_ok [OF opened_ok [OF w_opened_ok]]) (simp add: w_followup_history_def w_shaped)
  from connection_extends_the_document [OF this w_shaped r(1) none r(2)] r(1,3) show ?thesis by auto
qed

end
