(* ===== verification/ApprovalPolicy.thy ===== *)
theory ApprovalPolicy
  imports ApprovalDocument ApprovalRegistry
begin

text \<open>
  \<open>src/xgen_sdk/approval/policy.py\<close>: which actions need an approval, with which line of
  approvers, and whether the requester may choose another.

  The texts written to the history and the times are parameters; names of people and lines
  that the lists join in for the screens are left out.
\<close>

section \<open>State\<close>

record policy_change =
  pc_target :: string
  pc_before :: "string option"
  pc_after :: "string option"
  pc_changed_by :: "int option"

record policy_db =
  pd_tables :: tables
  pd_history :: "policy_change list"

record policy_texts =
  pt_required :: string
  pt_not_required :: string
  pt_no_line :: string
  pt_locked :: string
  pt_free :: string

datatype policy_error =
    UnknownAction
  | NotGated string
  | BadLineId py_exc
  | NothingToLock
  | ForeignKey int

definition TRUE_TEXTS :: "string list" where
  "TRUE_TEXTS = [''1'', ''true'', ''yes'', ''on'', ''t'', ''y'']"

definition superuser_exempt :: "pyval \<Rightarrow> bool" where
  "superuser_exempt v = (case v of PNone \<Rightarrow> True | PBool b \<Rightarrow> b
     | _ \<Rightarrow> lower (strip (py_str v)) \<in> set TRUE_TEXTS)"

section \<open>Reading\<close>

definition no_policy :: action_policy where
  "no_policy = \<lparr>ap_required = False, ap_default_line = None, ap_locked = False,
     ap_updated_by = None, ap_updated_at = None\<rparr>"

text \<open>\<open>bool(default_line_id)\<close>.\<close>

definition line_set :: "int option \<Rightarrow> bool" where
  "line_set l = (case l of None \<Rightarrow> False | Some k \<Rightarrow> k \<noteq> 0)"

definition read_policy :: "action_policy \<Rightarrow> action_policy" where
  "read_policy p = p\<lparr>ap_locked := (ap_locked p \<and> line_set (ap_default_line p))\<rparr>"

definition get_policy :: "tables \<Rightarrow> string \<Rightarrow> action_policy" where
  "get_policy t a = (case map_of (t_policies t) a of None \<Rightarrow> no_policy | Some p \<Rightarrow> read_policy p)"

definition is_required :: "tables \<Rightarrow> string \<Rightarrow> bool" where
  "is_required t a = ap_required (get_policy t a)"

definition list_all_policies :: "tables \<Rightarrow> (action_spec \<times> action_policy) list" where
  "list_all_policies t = map (\<lambda>sp. (sp, get_policy t (spec_type sp))) gated_specs"

definition required_actions :: "tables \<Rightarrow> string list" where
  "required_actions t = map fst (filter (\<lambda>(a, p). ap_required p \<and> catalog_spec a \<noteq> None) (t_policies t))"

definition locked_lines :: "tables \<Rightarrow> (string \<times> int) list" where
  "locked_lines t = concat (map (\<lambda>(a, p). case ap_default_line p of
       None \<Rightarrow> [] | Some k \<Rightarrow> if ap_locked p then [(a, k)] else []) (t_policies t))"

definition required_for :: "tables \<Rightarrow> string list option \<Rightarrow> (string \<times> bool) list" where
  "required_for t given =
     (let wanted = (case given of Some (a # as) \<Rightarrow> a # as | _ \<Rightarrow> map spec_type gated_specs);
          switched_on = required_actions t
      in fold (\<lambda>a. dset a (a \<in> set switched_on)) wanted [])"

section \<open>Writing\<close>

text \<open>The history is written on a best-effort basis: \<open>accepts\<close> is whether the database takes
  the row. A change that cannot be recorded stays.\<close>

definition record_change ::
  "(policy_change \<Rightarrow> bool) \<Rightarrow> string \<Rightarrow> string option \<Rightarrow> string option \<Rightarrow> int option \<Rightarrow> policy_db \<Rightarrow> policy_db" where
  "record_change accepts target before after actor db =
     (let c = \<lparr>pc_target = take 64 target, pc_before = map_option (take 300) before,
            pc_after = map_option (take 300) after, pc_changed_by = actor\<rparr>
      in if accepts c then db\<lparr>pd_history := pd_history db @ [c]\<rparr> else db)"

definition history_rows :: "int \<Rightarrow> policy_db \<Rightarrow> policy_change list" where
  "history_rows limit db = take (nat (max 1 (min limit 1000))) (rev (pd_history db))"

text \<open>An argument that was not given is not the same as \<open>None\<close>.\<close>

datatype line_arg = NotGiven | Given pyval

definition new_line_of :: "line_arg \<Rightarrow> int option \<Rightarrow> policy_error + int option" where
  "new_line_of arg before = (case arg of
       NotGiven \<Rightarrow> Inr before
     | Given v \<Rightarrow> if truthy v then (case py_int v of Inl x \<Rightarrow> Inl (BadLineId x) | Inr k \<Rightarrow> Inr (Some k))
                 else Inr None)"

definition upsert_policy :: "string \<Rightarrow> action_policy \<Rightarrow> (policy_db, policy_error, unit) act" where
  "upsert_policy key p = abind (aread (\<lambda>db. line_of (pd_tables db))) (\<lambda>lines.
     abind (case ap_default_line p of
         None \<Rightarrow> areturn ()
       | Some k \<Rightarrow> acheck (lines k \<noteq> None) (ForeignKey k)) (\<lambda>_.
     awrite (\<lambda>db. db\<lparr>pd_tables := (pd_tables db)\<lparr>t_policies := dset key p (t_policies (pd_tables db))\<rparr>\<rparr>)))"

definition line_text :: "policy_texts \<Rightarrow> int option \<Rightarrow> string" where
  "line_text tx l = (if line_set l then int_str (the l) else pt_no_line tx)"

definition record_changes ::
  "policy_texts \<Rightarrow> (policy_change \<Rightarrow> bool) \<Rightarrow> string \<Rightarrow> action_policy \<Rightarrow> action_policy \<Rightarrow> int option \<Rightarrow>
    policy_db \<Rightarrow> policy_db" where
  "record_changes tx accepts key before after actor db =
     (let need = (\<lambda>b. Some (if b then pt_required tx else pt_not_required tx));
          lock = (\<lambda>b. Some (if b then pt_locked tx else pt_free tx));
          db = (if ap_required after \<noteq> ap_required before
            then record_change accepts key (need (ap_required before)) (need (ap_required after)) actor db else db);
          db = (if ap_default_line after \<noteq> ap_default_line before
            then record_change accepts (key @ '':default_line'') (Some (line_text tx (ap_default_line before)))
              (Some (line_text tx (ap_default_line after))) actor db else db)
      in if ap_locked after \<noteq> ap_locked before
         then record_change accepts (key @ '':line_locked'') (lock (ap_locked before)) (lock (ap_locked after)) actor db
         else db)"

definition set_policy ::
  "policy_texts \<Rightarrow> (policy_change \<Rightarrow> bool) \<Rightarrow> int \<Rightarrow> string \<Rightarrow> int option \<Rightarrow> bool option \<Rightarrow> line_arg \<Rightarrow>
    bool option \<Rightarrow> (policy_db, policy_error, action_policy) act" where
  "set_policy tx accepts now action_type actor required default_line line_locked =
     (let key = strip action_type in
      case catalog_spec key of
        None \<Rightarrow> araise UnknownAction
      | Some sp \<Rightarrow>
          abind (acheck (spec_gated sp) (NotGated key)) (\<lambda>_.
          abind (aread (\<lambda>db. get_policy (pd_tables db) key)) (\<lambda>before.
          abind (alift (new_line_of default_line (ap_default_line before))) (\<lambda>new_line.
          abind (acheck (line_set new_line \<or> line_locked \<noteq> Some True) NothingToLock) (\<lambda>_.
          let after = \<lparr>ap_required = option_or required (ap_required before), ap_default_line = new_line,
                ap_locked = (line_set new_line \<and> option_or line_locked (ap_locked before)),
                ap_updated_by = actor, ap_updated_at = Some now\<rparr> in
          abind (upsert_policy key after) (\<lambda>_.
          abind (awrite (record_changes tx accepts key before after actor)) (\<lambda>_.
          aread (\<lambda>db. get_policy (pd_tables db) key))))))))"

section \<open>Which line a request takes\<close>

datatype resolve_error =
    LineIsLocked
  | LineRequired "int option"
  | SlotRule approval_error

definition slots_of_line :: "tables \<Rightarrow> int \<Rightarrow> pydict list" where
  "slots_of_line t k = (case line_of t k of None \<Rightarrow> [] | Some l \<Rightarrow> map slot_dict (ln_steps l))"

datatype steps_taken = AsInLine | AsSent "pydict list" | AsFilled "plan_step list"

text \<open>The first of the request's line and the default one.\<close>

fun first_line :: "tables \<Rightarrow> int option list \<Rightarrow> resolve_error + (int option \<times> steps_taken)" where
  "first_line t [] = Inl (LineRequired None)"
| "first_line t (None # ks) = first_line t ks"
| "first_line t (Some k # ks) =
     (if k = 0 then first_line t ks
      else if list_ex is_open_slot (slots_of_line t k) then Inl (LineRequired (Some k))
      else Inr (Some k, AsInLine))"

text \<open>\<open>readable\<close>: the policy can be read; the code goes on without one when it cannot.\<close>

definition resolve_line ::
  "bool \<Rightarrow> tables \<Rightarrow> string \<Rightarrow> int option \<Rightarrow> pydict list \<Rightarrow> resolve_error + (int option \<times> steps_taken)" where
  "resolve_line readable t action_type line_id steps =
     (let pol = (if readable then get_policy t action_type else no_policy);
          default_line = ap_default_line pol in
      if ap_locked pol \<and> line_set default_line then
        (let k = the default_line; template = slots_of_line t k in
         if line_set line_id \<and> line_id \<noteq> default_line then Inl LineIsLocked
         else if \<not> list_ex is_open_slot template then
           (if steps \<noteq> [] then Inl LineIsLocked else Inr (default_line, AsInLine))
         else if steps = [] then Inl (LineRequired default_line)
         else (case fill_open_slots template steps of
             Inl x \<Rightarrow> Inl (SlotRule x) | Inr filled \<Rightarrow> Inr (default_line, AsFilled filled)))
      else if steps \<noteq> [] then
        Inr (if line_set line_id then line_id else if line_set default_line then default_line else None,
             AsSent steps)
      else first_line t [line_id, default_line])"

section \<open>Lemmas\<close>

definition policy_row_ok :: "tables \<Rightarrow> string \<times> action_policy \<Rightarrow> bool" where
  "policy_row_ok t r = (case r of (a, p) \<Rightarrow>
     (case catalog_spec a of None \<Rightarrow> False | Some sp \<Rightarrow> spec_gated sp) \<and>
     (case ap_default_line p of None \<Rightarrow> \<not> ap_locked p
      | Some k \<Rightarrow> k \<in> fst ` set (t_lines t) \<and> (ap_locked p \<longrightarrow> k \<noteq> 0)))"

definition policies_ok :: "tables \<Rightarrow> bool" where
  "policies_ok t = (distinct (map fst (t_policies t)) \<and> list_all (policy_row_ok t) (t_policies t))"

lemma line_of_dom: "line_of t k \<noteq> None \<longleftrightarrow> k \<in> fst ` set (t_lines t)"
  by (simp add: line_of_def map_of_eq_None_iff)

text \<open>Lines are never removed, so a row that was in order stays in order.\<close>

lemma policy_row_ok_mono:
  "policy_row_ok t r \<Longrightarrow> fst ` set (t_lines t) \<subseteq> fst ` set (t_lines t') \<Longrightarrow> policy_row_ok t' r"
  by (auto simp: policy_row_ok_def split: prod.splits option.splits)

lemma policies_ok_grow:
  "policies_ok t \<Longrightarrow> t_policies t' = t_policies t \<Longrightarrow> fst ` set (t_lines t) \<subseteq> fst ` set (t_lines t') \<Longrightarrow>
    policies_ok t'"
  by (auto simp: policies_ok_def list_all_iff intro: policy_row_ok_mono)

lemma set_line_dom [simp]: "fst ` set (t_lines (set_line k g t)) = fst ` set (t_lines t)"
  "t_policies (set_line k g t) = t_policies t"
  by (force simp: set_line_def image_iff)+

lemma policies_ok_set_line [simp]: "policies_ok (set_line k g t) = policies_ok t"
  using policies_ok_grow [of t "set_line k g t"] policies_ok_grow [of "set_line k g t" t] by auto

lemma keeps_policies_writes [wf_intros]: "keeps policies_ok (awrite (set_line k g))"
  by (rule keepsI) simp

lemma keeps_policies_create:
  "keeps policies_ok (create_line name description owner shared steps)"
proof (rule keepsI)
  fix t assume ok: "policies_ok t"
  show "policies_ok (snd (create_line name description owner shared steps t))"
    using ok by (cases "plan_line_slots steps")
      (simp_all add: create_line_def act_defs rule_def, rule policies_ok_grow [OF ok], auto)
qed

lemma keeps_option [wf_intros]:
  "keeps I m \<Longrightarrow> (\<And>x. keeps I (f x)) \<Longrightarrow> keeps I (case v of None \<Rightarrow> m | Some x \<Rightarrow> f x)"
  by (cases v) auto

lemma keeps_policies_update: "keeps policies_ok (update_line k p)"
  unfolding update_line_def guard_form_still_fits_def by (intro wf_intros)

lemma keeps_policies_form: "keeps policies_ok (set_line_form k form_id)"
  unfolding set_line_form_def by (intro wf_intros)

lemma keeps_policies_delete: "keeps policies_ok (delete_line k actor su force)"
proof -
  define cut where "cut = (\<lambda>(a :: string, p :: action_policy). (a, if ap_default_line p = Some k
      then p\<lparr>ap_default_line := None, ap_locked := False\<rparr> else p))"
  have fst_cut: "map fst (map cut ps) = map fst ps" for ps by (simp add: cut_def case_prod_unfold comp_def)
  have row: "policy_row_ok t r \<Longrightarrow> policy_row_ok (t\<lparr>t_policies := ps\<rparr>) (cut r)" for t r ps
    by (cases r) (auto simp: policy_row_ok_def cut_def split: option.splits)
  have "policies_ok t \<Longrightarrow> policies_ok (t\<lparr>t_policies := map cut (t_policies t)\<rparr>)" for t
    by (auto simp: policies_ok_def fst_cut list_all_iff simp del: map_map intro!: row)
  then have "keeps policies_ok (awrite (\<lambda>t. t\<lparr>t_policies := map cut (t_policies t)\<rparr>))"
    by (intro keepsI) simp
  note cuts = this [unfolded cut_def]
  show ?thesis unfolding delete_line_def by (intro wf_intros cuts)
qed

text \<open>What a change of a policy does when it is accepted.\<close>

definition set_policy_after ::
  "int \<Rightarrow> int option \<Rightarrow> bool option \<Rightarrow> int option \<Rightarrow> bool option \<Rightarrow> action_policy \<Rightarrow> action_policy" where
  "set_policy_after now actor required new_line line_locked before =
     \<lparr>ap_required = option_or required (ap_required before), ap_default_line = new_line,
      ap_locked = (line_set new_line \<and> option_or line_locked (ap_locked before)),
      ap_updated_by = actor, ap_updated_at = Some now\<rparr>"

lemma record_changes_tables [simp]: "pd_tables (record_changes tx accepts key b a actor db) = pd_tables db"
  by (simp add: record_changes_def record_change_def Let_def)

lemma set_policy_cases:
  fixes db action_type
  defines "key \<equiv> strip action_type" and "t \<equiv> pd_tables db"
  shows "(\<exists>x. set_policy tx accepts now action_type actor required dl ll db = (Inl x, db)) \<or>
    (\<exists>sp nl after t'. catalog_spec key = Some sp \<and> spec_gated sp \<and>
      new_line_of dl (ap_default_line (get_policy t key)) = Inr nl \<and>
      (nl = None \<or> line_of t (the nl) \<noteq> None) \<and> (line_set nl \<or> ll \<noteq> Some True) \<and>
      after = set_policy_after now actor required nl ll (get_policy t key) \<and>
      t' = t\<lparr>t_policies := dset key after (t_policies t)\<rparr> \<and>
      set_policy tx accepts now action_type actor required dl ll db =
        (Inr (get_policy t' key),
         record_changes tx accepts key (get_policy t key) after actor (db\<lparr>pd_tables := t'\<rparr>)))"
proof (cases "catalog_spec key")
  case None
  then show ?thesis by (simp add: set_policy_def key_def act_defs Let_def)
next
  case (Some sp)
  show ?thesis
  proof (cases "spec_gated sp")
    case gated: True
    show ?thesis
    proof (cases "new_line_of dl (ap_default_line (get_policy t key))")
      case (Inl x)
      then show ?thesis using Some gated by (simp add: set_policy_def key_def t_def act_defs Let_def)
    next
      case (Inr nl)
      then show ?thesis using Some gated
        by (cases nl) (auto simp: set_policy_def key_def t_def act_defs Let_def set_policy_after_def upsert_policy_def)
    qed
  qed (use Some in \<open>simp add: set_policy_def key_def act_defs Let_def\<close>)
qed

lemma keeps_policies_set:
  assumes "policies_ok (pd_tables db)"
  shows "policies_ok (pd_tables (snd (set_policy tx accepts now action_type actor required dl ll db)))"
proof -
  let ?key = "strip action_type" and ?t = "pd_tables db"
  have ok: "policies_ok (?t\<lparr>t_policies := dset ?key after (t_policies ?t)\<rparr>)"
    if row: "policy_row_ok ?t (?key, after)" for after
  proof -
    have "set (dset k v d) \<subseteq> insert (k, v) (set d)" for k :: string and v :: action_policy and d
      by (induction d) (auto split: if_splits)
    then have sub: "set (dset ?key after (t_policies ?t)) \<subseteq> insert (?key, after) (set (t_policies ?t))" .
    let ?t' = "?t\<lparr>t_policies := dset ?key after (t_policies ?t)\<rparr>"
    have "policy_row_ok ?t' r" if r: "r \<in> set (t_policies ?t')" for r
    proof -
      have "policy_row_ok ?t r" using r sub row assms by (auto simp: policies_ok_def list_all_iff)
      then show ?thesis by (rule policy_row_ok_mono) simp
    qed
    then show ?thesis using assms by (simp add: policies_ok_def list_all_iff distinct_dset)
  qed
  show ?thesis
    using set_policy_cases [of tx accepts now action_type actor required dl ll db] assms
    by (auto intro!: ok simp: policy_row_ok_def set_policy_after_def line_set_def line_of_dom [symmetric]
      split: option.splits)
qed

section \<open>Histories of settings\<close>

datatype policy_op =
    SetPolicy int string "int option" "bool option" line_arg "bool option"
  | CreateLine string string int bool "pydict list"
  | UpdateLine int line_patch
  | DeleteLine int int bool bool
  | SetLineForm int "int option"

definition on_tables :: "'a config \<Rightarrow> policy_db \<Rightarrow> policy_db" where
  "on_tables m db = db\<lparr>pd_tables := snd (m (pd_tables db))\<rparr>"

fun policy_step :: "policy_texts \<Rightarrow> (policy_change \<Rightarrow> bool) \<Rightarrow> policy_op \<Rightarrow> policy_db \<Rightarrow> policy_db" where
  "policy_step tx accepts (SetPolicy now a actor r dl ll) db = snd (set_policy tx accepts now a actor r dl ll db)"
| "policy_step tx accepts (CreateLine name d owner shared steps) db = on_tables (create_line name d owner shared steps) db"
| "policy_step tx accepts (UpdateLine k p) db = on_tables (update_line k p) db"
| "policy_step tx accepts (DeleteLine k actor su force) db = on_tables (delete_line k actor su force) db"
| "policy_step tx accepts (SetLineForm k form_id) db = on_tables (set_line_form k form_id) db"

lemma policy_step_ok:
  assumes "policies_ok (pd_tables db)"
  shows "policies_ok (pd_tables (policy_step tx accepts op db))"
  using assms
  by (cases op) (auto simp: on_tables_def keeps_policies_set
    intro: keepsD keeps_policies_create keeps_policies_update keeps_policies_delete keeps_policies_form)

lemma policy_steps_ok:
  "policies_ok (pd_tables db) \<Longrightarrow> policies_ok (pd_tables (fold (policy_step tx accepts) ops db))"
  by (induction ops arbitrary: db) (simp_all add: policy_step_ok)

lemma policies_okD:
  assumes "policies_ok t" and "map_of (t_policies t) a = Some p"
  shows "policy_row_ok t (a, p)"
  using assms by (auto simp: policies_ok_def list_all_iff dest: map_of_SomeD)

lemma read_policy_ok: "policy_row_ok t (a, p) \<Longrightarrow> read_policy p = p"
  by (cases p) (auto simp: policy_row_ok_def read_policy_def line_set_def split: option.splits)

lemma required_iff:
  assumes "policies_ok t"
  shows "is_required t a \<longleftrightarrow> a \<in> set (required_actions t)"
proof -
  have "distinct (map fst (t_policies t))" using assms by (simp add: policies_ok_def)
  then have mem: "(a, p) \<in> set (t_policies t) \<longleftrightarrow> map_of (t_policies t) a = Some p" for p
    by simp
  have "a \<in> set (required_actions t) \<longleftrightarrow>
      (\<exists>p. (a, p) \<in> set (t_policies t) \<and> ap_required p \<and> catalog_spec a \<noteq> None)"
    by (force simp: required_actions_def)
  also have "\<dots> \<longleftrightarrow> is_required t a"
    using policies_okD [OF assms, of a]
    by (auto simp: mem is_required_def get_policy_def read_policy_def no_policy_def policy_row_ok_def split: option.splits)
  finally show ?thesis by simp
qed

lemma locked_lines_map:
  assumes "policies_ok t"
  shows "map_of (locked_lines t) a = (if ap_locked (get_policy t a) then ap_default_line (get_policy t a) else None)"
proof -
  have "map_of (concat (map (\<lambda>(a, p). case ap_default_line p of None \<Rightarrow> []
        | Some k \<Rightarrow> if ap_locked p then [(a, k)] else []) ps)) a =
      (case map_of ps a of None \<Rightarrow> None | Some p \<Rightarrow> if ap_locked p then ap_default_line p else None)"
    if "distinct (map fst ps)" for ps
    using that
  proof (induction ps)
    case (Cons r ps)
    obtain b p where r: "r = (b, p)" by (cases r)
    have "map_of ps b = None" using Cons.prems by (simp add: r map_of_eq_None_iff)
    with Cons show ?case by (auto simp: r split: option.split)
  qed simp
  moreover have "distinct (map fst (t_policies t))" using assms by (simp add: policies_ok_def)
  ultimately have "map_of (locked_lines t) a = (case map_of (t_policies t) a of None \<Rightarrow> None
      | Some p \<Rightarrow> if ap_locked p then ap_default_line p else None)"
    by (simp add: locked_lines_def)
  then show ?thesis using read_policy_ok [OF policies_okD [OF assms, of a]]
    by (auto simp: get_policy_def no_policy_def split: option.split)
qed

section \<open>Properties\<close>

text \<open>C29. Whatever settings administrators write and whatever happens to the lines, the policies stay
  in order: only actions of the catalogue that may be gated are ever required, a locked line always
  exists, and the readings the screens use (\<open>required_actions\<close>, \<open>locked_lines\<close>) say for each
  action what the server's own check says.\<close>

theorem policies_stay_in_order:
  assumes "policies_ok (pd_tables db)"
  shows "let t = pd_tables (fold (policy_step tx accepts) ops db); p = get_policy t a in
    policies_ok t \<and>
    (is_required t a \<longrightarrow> (\<exists>sp. catalog_spec a = Some sp \<and> spec_gated sp)) \<and>
    (ap_locked p \<longrightarrow> (\<exists>k l. ap_default_line p = Some k \<and> line_of t k = Some l)) \<and>
    (is_required t a \<longleftrightarrow> a \<in> set (required_actions t)) \<and>
    map_of (locked_lines t) a = (if ap_locked p then ap_default_line p else None)"
proof -
  define t where "t = pd_tables (fold (policy_step tx accepts) ops db)"
  have ok: "policies_ok t" unfolding t_def by (rule policy_steps_ok [OF assms])
  have "(is_required t a \<longrightarrow> (\<exists>sp. catalog_spec a = Some sp \<and> spec_gated sp)) \<and>
      (ap_locked (get_policy t a) \<longrightarrow> (\<exists>k. ap_default_line (get_policy t a) = Some k \<and> line_of t k \<noteq> None))"
    using policies_okD [OF ok, of a]
    by (auto simp: is_required_def get_policy_def no_policy_def read_policy_def policy_row_ok_def line_of_dom
      simp del: not_None_eq split: option.splits)
  then show ?thesis using ok required_iff [OF ok, of a] locked_lines_map [OF ok, of a]
    by (auto simp: t_def [symmetric] Let_def)
qed

definition w_texts_policy :: policy_texts where
  "w_texts_policy = \<lparr>pt_required = ''required'', pt_not_required = ''free'', pt_no_line = ''none'',
     pt_locked = ''locked'', pt_free = ''open''\<rparr>"

definition w_policy_db :: policy_db where
  "w_policy_db = \<lparr>pd_tables = \<lparr>t_lines = [], t_forms = [], t_policies = [], next_line = 1, next_form = 1\<rparr>,
     pd_history = []\<rparr>"

definition w_policy_ops :: "policy_op list" where
  "w_policy_ops = [CreateLine ''L'' [] 1 True [[(''approver_id'', PInt 7)]],
     SetPolicy 5 ''db.create'' (Some 1) (Some True) (Given (PInt 1)) (Some True)]"

theorem policies_stay_in_order_witness:
  "let t = pd_tables (fold (policy_step w_texts_policy (\<lambda>_. True)) w_policy_ops w_policy_db) in
    ''db.create'' \<in> set (required_actions t) \<and> map_of (locked_lines t) ''db.create'' = Some 1"
proof -
  let ?t = "pd_tables (fold (policy_step w_texts_policy (\<lambda>_. True)) w_policy_ops w_policy_db)"
  have ok: "policies_ok (pd_tables w_policy_db)" by code_simp
  have "is_required ?t ''db.create''" "ap_locked (get_policy ?t ''db.create'')"
    "ap_default_line (get_policy ?t ''db.create'') = Some 1" by code_simp+
  then show ?thesis
    using policies_stay_in_order [OF ok, of w_texts_policy "\<lambda>_. True" w_policy_ops "''db.create''"]
    by (simp add: Let_def)
qed

text \<open>C28. A locked line is kept: when the policy of an action can be read and locks its line, a request
  that gets through goes to that line and to no other; the people of its fixed slots are kept in their
  places, and when the requester sent nobody, every slot has a person, so the submission is not
  stopped at an open slot. A policy that cannot be read counts as none and does not lock: see
  \<open>unreadable_policy_unlocks\<close> below.\<close>

theorem locked_line_wins:
  assumes "resolve_line True t a line_id steps = Inr (l, taken)" and "ap_locked (get_policy t a)"
    and "sb_line sub = l" and "sb_steps sub = []"
  shows "\<exists>k. l = Some k \<and> ap_default_line (get_policy t a) = Some k \<and> line_id \<in> {None, Some 0, Some k} \<and>
    (case taken of
       AsSent _ \<Rightarrow> False
     | AsInLine \<Rightarrow> steps = [] \<and> specs_for t sub \<in> {Inl EmptyLineTemplate, Inr (slots_of_line t k)}
     | AsFilled chosen \<Rightarrow> plan_steps steps = Inr chosen \<and>
         (\<exists>slots. plan_line_slots (slots_of_line t k) = Inr slots \<and> length chosen = length slots \<and>
           (\<forall>i<length slots. slot_approver (slots ! i) \<in> {None, Some (plan_approver (chosen ! i))})))"
proof -
  from assms(2) obtain k where k: "ap_default_line (get_policy t a) = Some k" "k \<noteq> 0"
    by (auto simp: get_policy_def no_policy_def read_policy_def line_set_def split: option.splits)
  have id: "line_id \<in> {None, Some 0, Some k}" and l: "l = Some k"
    and cases: "taken = AsInLine \<and> steps = [] \<and> \<not> list_ex is_open_slot (slots_of_line t k) \<or>
      (\<exists>chosen. taken = AsFilled chosen \<and> fill_open_slots (slots_of_line t k) steps = Inr chosen)"
    using assms(1,2) k
    by (auto simp: resolve_line_def Let_def line_set_def split: if_splits option.splits sum.splits)
  from cases show ?thesis
  proof (elim disjE conjE exE)
    assume "taken = AsInLine" "steps = []" "\<not> list_ex is_open_slot (slots_of_line t k)"
    then show ?thesis using k id l assms(3,4)
      by (auto simp: specs_for_def line_given_def slots_of_line_def Let_def split: option.splits)
  next
    fix chosen assume t: "taken = AsFilled chosen" and f: "fill_open_slots (slots_of_line t k) steps = Inr chosen"
    show ?thesis using fill_open_slots_keeps [OF f] k id l by (auto simp: t)
  qed
qed

definition w_policy_tables :: tables where
  "w_policy_tables = \<lparr>t_lines = [(1, \<lparr>ln_name = [], ln_description = None, ln_owner = 1, ln_shared = True,
        ln_active = True, ln_form = None, ln_followup = False, ln_followup_ids = [],
        ln_steps = [\<lparr>slot_approver = Some 7, slot_order = 1\<rparr>, \<lparr>slot_approver = None, slot_order = 2\<rparr>]\<rparr>)],
      t_forms = [], t_policies = [(''db.create'', \<lparr>ap_required = True, ap_default_line = Some 1,
        ap_locked = True, ap_updated_by = None, ap_updated_at = None\<rparr>)], next_line = 2, next_form = 1\<rparr>"

theorem locked_line_wins_witness:
  "resolve_line True w_policy_tables ''db.create'' None [[(''approver_id'', PInt 8)], [(''approver_id'', PInt 9)]]
     = Inl (SlotRule (FixedApproverChanged 1)) \<and>
   (\<exists>chosen. resolve_line True w_policy_tables ''db.create'' None
       [[(''approver_id'', PInt 7)], [(''approver_id'', PInt 9)]] = Inr (Some 1, AsFilled chosen) \<and>
     plan_steps [[(''approver_id'', PInt 7)], [(''approver_id'', PInt 9)]] = Inr chosen)"
proof -
  have r: "resolve_line True w_policy_tables ''db.create'' None
      [[(''approver_id'', PInt 7)], [(''approver_id'', PInt 9)]] =
    Inr (Some 1, AsFilled [\<lparr>plan_approver = 7, plan_order = 1\<rparr>, \<lparr>plan_approver = 9, plan_order = 2\<rparr>])"
    and b: "resolve_line True w_policy_tables ''db.create'' None
      [[(''approver_id'', PInt 8)], [(''approver_id'', PInt 9)]] = Inl (SlotRule (FixedApproverChanged 1))"
    and p: "ap_locked (get_policy w_policy_tables ''db.create'')"
    by code_simp+
  show ?thesis
    using locked_line_wins [OF r p, of "w_submission\<lparr>sb_line := Some 1, sb_steps := []\<rparr>"] r b by auto
qed

text \<open>A policy that cannot be read counts as none, so the line is not locked for that request.\<close>

lemma unreadable_policy_unlocks:
  "steps \<noteq> [] \<Longrightarrow> resolve_line False t a (Some k) steps = Inr (if k = 0 then None else Some k, AsSent steps)"
  by (simp add: resolve_line_def no_policy_def line_set_def)

end
