(* ===== verification/AgentShare.thy ===== *)
theory AgentShare
  imports Prelude "HOL-Library.Char_ord" "HOL-Library.List_Lexorder" "HOL-Library.Multiset"
begin

text \<open>
  \<open>src/xgen_sdk/agent_share.py\<close>: who may use a shared agent, and how far. The grants of a
  workflow row are read from its columns, compared, split into the part that takes effect at
  once and the part that needs an approval, and written back. The JSON decoder is the
  parameter \<open>loads\<close>; the row condition of the list query is \<open>sql_shared_with\<close>.
\<close>

section \<open>Values\<close>

datatype share_permission = READ | READ_WRITE

definition permission_text :: "share_permission \<Rightarrow> string" where
  "permission_text p = (case p of READ \<Rightarrow> ''read'' | READ_WRITE \<Rightarrow> ''read_write'')"

definition rank_of :: "share_permission option \<Rightarrow> nat" where
  "rank_of p = (case p of None \<Rightarrow> 0 | Some READ \<Rightarrow> 1 | Some READ_WRITE \<Rightarrow> 2)"

definition LEGACY_KEYS :: "string list" where
  "LEGACY_KEYS = [''_default'']"

type_synonym grant = "(string \<times> share_permission) list"

type_synonym grants = "grant \<times> grant"

definition normalize_permission :: "pyval \<Rightarrow> share_permission option" where
  "normalize_permission value =
     (let text = lower (strip (str_or_empty value)) in
      if text \<in> {''read'', ''read_only''} then Some READ
      else if text = ''read_write'' then Some READ_WRITE
      else None)"

definition as_mapping :: "(string \<Rightarrow> pyval option) \<Rightarrow> pyval \<Rightarrow> (string \<times> pyval) list" where
  "as_mapping loads value =
     (let v = (case value of
            PStr s \<Rightarrow> if strip s = [] then Some (PDict []) else loads s
          | _ \<Rightarrow> Some value)
      in case v of Some (PDict d) \<Rightarrow> d | _ \<Rightarrow> [])"

text \<open>\<open>int\<close> of a key; a key that \<open>isdigit\<close> lets through may still not be a number.\<close>

definition key_int :: "string \<Rightarrow> py_exc + int" where
  "key_int k = py_int (PStr k)"

fun user_grants :: "(string \<times> pyval) list \<Rightarrow> grant \<Rightarrow> py_exc + grant" where
  "user_grants [] out = Inr out"
| "user_grants ((key, perm) # rest) out =
     (let text = strip key in
      if text = [] \<or> \<not> list_all isdigit_char text then user_grants rest out
      else case normalize_permission perm of
             None \<Rightarrow> user_grants rest out
           | Some p \<Rightarrow> ebind (key_int text) (\<lambda>n. user_grants rest (dset (int_str n) p out)))"

definition parse_user_grants :: "(string \<Rightarrow> pyval option) \<Rightarrow> pyval \<Rightarrow> py_exc + grant" where
  "parse_user_grants loads value = user_grants (as_mapping loads value) []"

definition role_name_ok :: "string \<Rightarrow> bool" where
  "role_name_ok name \<longleftrightarrow> name \<noteq> [] \<and> name \<notin> set LEGACY_KEYS"

fun role_grants :: "(string \<times> pyval) list \<Rightarrow> grant \<Rightarrow> grant" where
  "role_grants [] out = out"
| "role_grants ((role, perm) # rest) out =
     (let name = strip role in
      case normalize_permission perm of
        Some p \<Rightarrow> role_grants rest (if role_name_ok name then dset name p out else out)
      | None \<Rightarrow> role_grants rest out)"

text \<open>Iterating over \<open>value or []\<close>: a list, the characters of a text, the keys of a dictionary.\<close>

definition iter_or_empty :: "pyval \<Rightarrow> py_exc + pyval list" where
  "iter_or_empty value = (if \<not> truthy value then Inr []
     else case value of
       PList xs \<Rightarrow> Inr xs
     | PStr s \<Rightarrow> Inr (map (\<lambda>c. PStr [c]) s)
     | PDict d \<Rightarrow> Inr (map (\<lambda>(k, _). PStr k) d)
     | _ \<Rightarrow> Inl TypeError)"

definition parse_role_grants ::
  "(string \<Rightarrow> pyval option) \<Rightarrow> pyval \<Rightarrow> pyval \<Rightarrow> py_exc + grant" where
  "parse_role_grants loads share_permissions share_roles =
     (let perms = as_mapping loads share_permissions in
      if perms \<noteq> [] then Inr (role_grants perms [])
      else ebind (iter_or_empty share_roles) (\<lambda>roles.
        Inr (fold (\<lambda>role out. let name = strip (str_or_empty role)
               in if role_name_ok name then dset name READ out else out) roles [])))"

definition grants_of :: "(string \<Rightarrow> pyval option) \<Rightarrow> (string \<times> pyval) list \<Rightarrow> py_exc + grants" where
  "grants_of loads row =
     (if map_of row ''is_shared'' \<noteq> None \<and> \<not> truthy (dget row ''is_shared'') then Inr ([], [])
      else ebind (parse_role_grants loads (dget row ''share_permissions'') (dget row ''share_roles''))
        (\<lambda>roles. ebind (parse_user_grants loads (dget row ''share_users'')) (\<lambda>users.
          Inr (roles, users))))"

definition has_targets :: "grants \<Rightarrow> bool" where
  "has_targets g = (case g of (roles, users) \<Rightarrow> roles \<noteq> [] \<or> users \<noteq> [])"

definition higher :: "share_permission option list \<Rightarrow> share_permission option" where
  "higher ps = fold (\<lambda>p best. if p \<noteq> None \<and> (best = None \<or> rank_of best < rank_of p) then p else best)
     ps None"

section \<open>Settings\<close>

definition POLICY_INDEPENDENT :: string where "POLICY_INDEPENDENT = ''INDEPENDENT''"
definition POLICY_DEPLOY_GATED :: string where "POLICY_DEPLOY_GATED = ''DEPLOY_GATED''"
definition PERM_READ_ONLY :: string where "PERM_READ_ONLY = ''READ_ONLY''"
definition PERM_READ_WRITE_ALLOWED :: string where "PERM_READ_WRITE_ALLOWED = ''READ_WRITE_ALLOWED''"
definition UNDEPLOY_SUSPEND :: string where "UNDEPLOY_SUSPEND = ''SUSPEND''"
definition UNDEPLOY_REVOKE :: string where "UNDEPLOY_REVOKE = ''REVOKE''"
definition UNDEPLOY_RETAIN :: string where "UNDEPLOY_RETAIN = ''RETAIN''"
definition STAGE_DEPLOYED :: string where "STAGE_DEPLOYED = ''deployed''"

lemmas share_names = POLICY_INDEPENDENT_def POLICY_DEPLOY_GATED_def PERM_READ_ONLY_def
  PERM_READ_WRITE_ALLOWED_def UNDEPLOY_SUSPEND_def UNDEPLOY_REVOKE_def UNDEPLOY_RETAIN_def
  STAGE_DEPLOYED_def

type_synonym share_settings = "(string \<times> string) list"

definition DEFAULT_SETTINGS :: share_settings where
  "DEFAULT_SETTINGS = [(''policy'', POLICY_INDEPENDENT), (''permission_mode'', PERM_READ_ONLY),
     (''on_undeploy'', UNDEPLOY_SUSPEND)]"

text \<open>\<open>str.upper\<close> on the letters a setting can have; other letters never make an allowed value.\<close>

definition upper :: "string \<Rightarrow> string" where
  "upper s = map (\<lambda>c. let n = (of_char c :: nat) in if 97 \<le> n \<and> n \<le> 122 then char_of (n - 32) else c) s"

text \<open>\<open>read name default\<close> is \<open>None\<close> where reading raises.\<close>

definition read_setting :: "(string \<Rightarrow> string \<Rightarrow> pyval option) \<Rightarrow> string \<Rightarrow> string \<Rightarrow> string list \<Rightarrow> string" where
  "read_setting read name dflt allowed =
     (let value = (case read name dflt of None \<Rightarrow> [] | Some v \<Rightarrow> upper (strip (str_or_empty v)))
      in if value \<in> set allowed then value else dflt)"

definition settings_from :: "(string \<Rightarrow> string \<Rightarrow> pyval option) \<Rightarrow> share_settings" where
  "settings_from read =
     [(''policy'', read_setting read ''SHARE_POLICY'' POLICY_INDEPENDENT
        [POLICY_INDEPENDENT, POLICY_DEPLOY_GATED]),
      (''permission_mode'', read_setting read ''SHARE_PERMISSION_MODE'' PERM_READ_ONLY
        [PERM_READ_ONLY, PERM_READ_WRITE_ALLOWED]),
      (''on_undeploy'', read_setting read ''SHARE_ON_UNDEPLOY'' UNDEPLOY_SUSPEND
        [UNDEPLOY_SUSPEND, UNDEPLOY_REVOKE, UNDEPLOY_RETAIN])]"

definition settings_or_default :: "share_settings option \<Rightarrow> share_settings" where
  "settings_or_default s = (case s of None \<Rightarrow> DEFAULT_SETTINGS
     | Some d \<Rightarrow> if d = [] then DEFAULT_SETTINGS else d)"

definition share_effect_gated :: "share_settings option \<Rightarrow> bool" where
  "share_effect_gated settings = (let s = settings_or_default settings in
     map_of s ''policy'' = Some POLICY_DEPLOY_GATED \<and> map_of s ''on_undeploy'' \<noteq> Some UNDEPLOY_RETAIN)"

definition is_share_effective :: "pyval \<Rightarrow> string option \<Rightarrow> share_settings option \<Rightarrow> bool" where
  "is_share_effective is_shared stage settings =
     (if \<not> truthy is_shared then False
      else if \<not> share_effect_gated settings then True
      else strip (case stage of None \<Rightarrow> [] | Some s \<Rightarrow> s) = STAGE_DEPLOYED)"

definition write_allowed :: "share_settings option \<Rightarrow> bool" where
  "write_allowed settings \<longleftrightarrow>
     map_of (settings_or_default settings) ''permission_mode'' = Some PERM_READ_WRITE_ALLOWED"

section \<open>Who may do what\<close>

definition user_permission :: "grant \<Rightarrow> pyval \<Rightarrow> share_permission option" where
  "user_permission users user_id =
     (if user_id = PNone \<or> user_id = PStr [] then None else map_of users (strip (py_str user_id)))"

definition effective_permission ::
  "(string \<Rightarrow> pyval option) \<Rightarrow> (string \<times> pyval) list \<Rightarrow> pyval \<Rightarrow> pyval list \<Rightarrow> string option \<Rightarrow>
    share_settings option \<Rightarrow> py_exc + share_permission option" where
  "effective_permission loads row user_id user_roles stage settings =
     (if \<not> is_share_effective (dget row ''is_shared'') stage settings then Inr None
      else ebind (grants_of loads row) (\<lambda>(roles, users).
        let best = fold (\<lambda>role best. higher [best, map_of roles role])
              (remdups (map py_str user_roles)) (user_permission users user_id)
        in Inr (if best = Some READ_WRITE \<and> \<not> write_allowed settings then Some READ else best)))"

text \<open>The row condition that \<open>sql_shared_with\<close> writes: the columns are the array
  \<open>share_roles\<close> and the JSON object \<open>share_users\<close>; \<open>stage\<close> is that of the owner's deployment.\<close>

definition sql_shared_with ::
  "(string \<times> pyval) list \<Rightarrow> string option \<Rightarrow> pyval \<Rightarrow> pyval list \<Rightarrow> bool \<Rightarrow> bool" where
  "sql_shared_with row stage user_id user_roles gated \<longleftrightarrow>
     dget row ''is_shared'' = PBool True \<and>
     ((case dget row ''share_roles'' of
         PList xs \<Rightarrow> list_ex (\<lambda>r. PStr (py_str r) \<in> set xs) user_roles | _ \<Rightarrow> False) \<or>
      (case dget row ''share_users'' of
         PDict d \<Rightarrow> py_str user_id \<in> fst ` set d | _ \<Rightarrow> False)) \<and>
     (gated \<longrightarrow> stage = Some STAGE_DEPLOYED)"

section \<open>Changing the grants\<close>

definition widened_part :: "grant \<Rightarrow> grant \<Rightarrow> grant" where
  "widened_part old new = filter (\<lambda>(key, p). rank_of (map_of old key) < rank_of (Some p)) new"

definition widened :: "grants \<Rightarrow> grants \<Rightarrow> grants" where
  "widened before after = (widened_part (fst before) (fst after), widened_part (snd before) (snd after))"

definition is_widening :: "grants \<Rightarrow> grants \<Rightarrow> bool" where
  "is_widening before after = has_targets (widened before after)"

fun narrowed_part :: "grant \<Rightarrow> grant \<Rightarrow> grant" where
  "narrowed_part old [] = []"
| "narrowed_part old ((key, p) # new) =
     (case map_of old key of
        None \<Rightarrow> narrowed_part old new
      | Some q \<Rightarrow> (key, if rank_of (Some p) \<le> rank_of (Some q) then p else q) # narrowed_part old new)"

definition narrowed :: "grants \<Rightarrow> grants \<Rightarrow> grants" where
  "narrowed before after = (narrowed_part (fst before) (fst after), narrowed_part (snd before) (snd after))"

definition grant_dict :: "grant \<Rightarrow> pyval" where
  "grant_dict g = PDict (map (\<lambda>(k, p). (k, PStr (permission_text p))) g)"

definition columns :: "grants \<Rightarrow> py_exc + (string \<times> pyval) list" where
  "columns g = (case g of (roles, users) \<Rightarrow>
     ebind (emap (\<lambda>(k, p). ebind (key_int k) (\<lambda>n. Inr (n, k, p))) users) (\<lambda>keyed.
       Inr [(''is_shared'', PBool (has_targets g)),
            (''share_roles'', PList (map PStr (sort (map fst roles)))),
            (''share_permissions'', grant_dict (sort_key fst roles)),
            (''share_users'', grant_dict (map snd (sort_key fst keyed)))]))"

datatype share_refusal = ReadOnlyMode | OwnerIsTarget | InactiveUsers "string list"

definition check_permissions :: "grants \<Rightarrow> share_settings option \<Rightarrow> share_refusal option" where
  "check_permissions g settings =
     (if write_allowed settings then None
      else if READ_WRITE \<in> snd ` set (fst g) \<or> READ_WRITE \<in> snd ` set (snd g) then Some ReadOnlyMode
      else None)"

text \<open>\<open>found\<close> are the ids of the rows of \<open>ACTIVE_USERS_SQL\<close>.\<close>

definition check_users :: "grant \<Rightarrow> pyval list \<Rightarrow> pyval \<Rightarrow> py_exc + share_refusal option" where
  "check_users users found owner_id =
     (if owner_id \<noteq> PNone \<and> py_str owner_id \<in> fst ` set users then Inr (Some OwnerIsTarget)
      else let active = map py_str found;
               missing = filter (\<lambda>k. k \<notin> set active) (map fst users)
           in ebind (emap (\<lambda>k. ebind (key_int k) (\<lambda>n. Inr (n, k))) missing) (\<lambda>keyed.
                Inr (if missing = [] then None
                     else Some (InactiveUsers (map snd (sort_key fst keyed))))))"

section \<open>Lemmas\<close>

text \<open>Grants as the parsers make them: one entry for each target, names and ids in their
  canonical form.\<close>

definition user_key :: "string \<Rightarrow> bool" where
  "user_key k \<longleftrightarrow> list_all is_digit k \<and> k \<noteq> [] \<and>
     (case parse_int k of None \<Rightarrow> False | Some n \<Rightarrow> int_str n = k)"

definition role_key :: "string \<Rightarrow> bool" where
  "role_key name \<longleftrightarrow> strip name = name \<and> role_name_ok name"

definition grants_ok :: "grants \<Rightarrow> bool" where
  "grants_ok g \<longleftrightarrow> distinct (map fst (fst g)) \<and> distinct (map fst (snd g)) \<and>
     list_all role_key (map fst (fst g)) \<and> list_all user_key (map fst (snd g))"

lemma permission_text_roundtrip [simp]: "normalize_permission (PStr (permission_text p)) = Some p"
  by (cases p) (simp_all add: permission_text_def normalize_permission_def Let_def
      strip_def is_space_def lower_def lower_char_def)

lemma rank_of_inj: "rank_of p = rank_of q \<longleftrightarrow> p = q"
  by (auto simp: rank_of_def split: option.splits share_permission.splits)

lemma rank_of_zero [simp]: "rank_of p = 0 \<longleftrightarrow> p = None" "0 < rank_of p \<longleftrightarrow> p \<noteq> None" "rank_of None = 0"
  by (auto simp: rank_of_def split: option.splits share_permission.splits)



lemma map_of_widened [simp]:
  assumes "distinct (map fst new)"
  shows "map_of (widened_part old new) k =
    (if rank_of (map_of old k) < rank_of (map_of new k) then map_of new k else None)"
  using assms by (induction new) (auto simp: widened_part_def map_of_None)

lemma map_of_narrowed:
  "map_of (narrowed_part old new) k =
    (if rank_of (map_of new k) \<le> rank_of (map_of old k) then map_of new k else map_of old k)"
proof (cases "map_of old k")
  case None
  then show ?thesis by (induction new) (auto split: option.splits)
next
  case (Some q)
  then show ?thesis by (induction new) (auto split: option.splits)
qed

lemma rank_narrowed:
  "rank_of (map_of (narrowed_part old new) k) = min (rank_of (map_of old k)) (rank_of (map_of new k))"
  by (simp add: map_of_narrowed)

lemma narrowed_then_widened:
  assumes "distinct (map fst new)"
  shows "map_of (narrowed_part old new) ++ map_of (widened_part old new) = map_of new"
proof
  fix k
  show "(map_of (narrowed_part old new) ++ map_of (widened_part old new)) k = map_of new k"
    using assms by (auto simp: map_add_def map_of_narrowed split: option.splits)
qed

lemma widened_part_Nil:
  assumes "distinct (map fst new)"
  shows "widened_part old new = [] \<longleftrightarrow> (\<forall>k. rank_of (map_of new k) \<le> rank_of (map_of old k))"
proof
  assume w: "widened_part old new = []"
  show "\<forall>k. rank_of (map_of new k) \<le> rank_of (map_of old k)"
  proof
    fix k
    show "rank_of (map_of new k) \<le> rank_of (map_of old k)"
      using map_of_widened [OF assms, of old k] w by (auto simp: not_less split: if_splits)
  qed
next
  assume r: "\<forall>k. rank_of (map_of new k) \<le> rank_of (map_of old k)"
  have "rank_of (Some p) \<le> rank_of (map_of old k)" if "(k, p) \<in> set new" for k p
    using r [rule_format, of k] map_of_is_SomeI [OF assms that] by simp
  then show "widened_part old new = []" by (fastforce simp: widened_part_def filter_empty_conv)
qed

lemma narrowed_keys: "map fst (narrowed_part old new) = filter (\<lambda>k. map_of old k \<noteq> None) (map fst new)"
  by (induction new) (auto split: option.splits)

lemma narrowed_distinct: "distinct (map fst new) \<Longrightarrow> distinct (map fst (narrowed_part old new))"
  by (simp add: narrowed_keys)

text \<open>The permission of a person is the highest of the person's own and those of the roles.\<close>

definition granted_rank :: "grants \<Rightarrow> pyval \<Rightarrow> pyval list \<Rightarrow> nat" where
  "granted_rank g user_id user_roles =
     Max (insert (rank_of (user_permission (snd g) user_id))
       ((\<lambda>r. rank_of (map_of (fst g) (py_str r))) ` set user_roles))"


text \<open>Reading back the columns that were written.\<close>

lemma role_grants_written:
  assumes "distinct (map fst out @ map fst g)" and "list_all role_key (map fst g)"
  shows "role_grants (map (\<lambda>(k, p). (k, PStr (permission_text p))) g) out = out @ g"
  using assms
proof (induction g arbitrary: out)
  case (Cons kp g)
  obtain k p where kp: "kp = (k, p)" by (cases kp)
  have "dset k p out = out @ [(k, p)]" if "k \<notin> fst ` set out" using that by (induction out) auto
  then show ?case using Cons kp by (simp add: role_key_def)
qed simp

lemma user_grants_written:
  assumes "distinct (map fst out @ map fst g)" and "list_all user_key (map fst g)"
  shows "user_grants (map (\<lambda>(k, p). (k, PStr (permission_text p))) g) out = Inr (out @ g)"
  using assms
proof (induction g arbitrary: out)
  case (Cons kp g)
  obtain k p where kp: "kp = (k, p)" by (cases kp)
  have d: "dset k p out = out @ [(k, p)]" if "k \<notin> fst ` set out" using that by (induction out) auto
  have "user_key k" using Cons.prems kp by simp
  then obtain n where n: "parse_int k = Some n" "int_str n = k" "list_all is_digit k" "k \<noteq> []"
    by (auto simp: user_key_def split: option.splits)
  have "strip k = k" "list_all isdigit_char k"
    using n(3) by (auto intro!: strip_no_space simp: list_all_iff digit_no_space isdigit_char_def)
  then show ?case using Cons kp n d by (simp add: key_int_def)
qed simp

lemma emap_keyed:
  assumes "list_all user_key (map fst g)"
  shows "emap (\<lambda>(k, p). ebind (key_int k) (\<lambda>n. Inr (n, k, p))) g =
    Inr (map (\<lambda>(k, p). (the (parse_int k), k, p)) g)"
  using assms by (induction g) (auto simp: user_key_def key_int_def split: option.splits)

lemma sort_keyed_set:
  "set (map snd (sort_key fst (map (\<lambda>(k, p). (h k, k, p)) g))) = set g"
  "distinct (map fst g) \<Longrightarrow> distinct (map fst (map snd (sort_key fst (map (\<lambda>(k, p). (h k, k, p)) g))))"
proof -
  let ?s = "sort_key fst (map (\<lambda>(k, p). (h k, k, p)) g)"
  show "set (map snd ?s) = set g" by force
  have m: "mset (map fst (map snd ?s)) = mset (map fst g)"
    by (simp add: image_mset.compositionality comp_def case_prod_unfold)
  show "distinct (map fst (map snd ?s))" if "distinct (map fst g)"
    using mset_eq_imp_distinct_iff [OF m] that by blast
qed

text \<open>What the parsers return is in canonical form.\<close>

definition keys_ok :: "(string \<Rightarrow> bool) \<Rightarrow> grant \<Rightarrow> bool" where
  "keys_ok P g \<longleftrightarrow> distinct (map fst g) \<and> list_all P (map fst g)"

lemma keys_ok_Nil [simp]: "keys_ok P []"
  by (simp add: keys_ok_def)

lemma keys_ok_dset [simp]: "keys_ok P g \<Longrightarrow> P k \<Longrightarrow> keys_ok P (dset k v g)"
  using keys_dset [of k v g] by (auto simp: keys_ok_def distinct_dset list_all_iff)

lemma role_key_strip: "role_name_ok (strip name) \<Longrightarrow> role_key (strip name)"
  by (simp add: role_key_def)

lemma role_grants_ok: "keys_ok role_key out \<Longrightarrow> keys_ok role_key (role_grants d out)"
  by (induction d out rule: role_grants.induct)
    (simp_all add: Let_def role_key_strip split: option.split)

lemma digits_key: "user_key (int_str n)"
  if t: "list_all isdigit_char (strip t)" and n: "key_int (strip t) = Inr n"
proof -
  have n: "parse_int (strip t) = Some n" using n by (auto simp: key_int_def split: option.splits)
  have "strip t \<noteq> CHR ''-'' # ds" for ds using t by (auto simp: isdigit_char_def is_digit_def Let_def)
  then have "0 \<le> n" using n
    by (auto simp: parse_int_def Let_def split: list.splits option.splits if_splits prod.splits)
  then show ?thesis using parse_int_digits [OF n] by (simp add: user_key_def int_str_def nat_digits_digits)
qed

lemma user_grants_ok: "user_grants d out = Inr g \<Longrightarrow> keys_ok user_key out \<Longrightarrow> keys_ok user_key g"
proof (induction d out rule: user_grants.induct)
  case (2 key perm rest out)
  show ?case
  proof (cases "strip key = [] \<or> \<not> list_all isdigit_char (strip key) \<or> normalize_permission perm = None")
    case True
    then show ?thesis using 2 by (auto simp: Let_def split: if_splits)
  next
    case False
    then obtain p where p: "normalize_permission perm = Some p" by auto
    then obtain n where n: "key_int (strip key) = Inr n" "user_grants rest (dset (int_str n) p out) = Inr g"
      using 2(4) False by (auto simp: Let_def ebind_Inr)
    have "user_key (int_str n)" using digits_key [OF _ n(1)] False by simp
    then show ?thesis using 2(3) [OF refl _ p n(2)] 2(5) False by simp
  qed
qed simp

lemma fold_role_names_ok:
  "keys_ok role_key out \<Longrightarrow> keys_ok role_key (fold (\<lambda>role out. let name = strip (str_or_empty role)
      in if role_name_ok name then dset name READ out else out) roles out)"
  by (induction roles arbitrary: out) (simp_all add: Let_def role_key_strip)

lemma grants_ok_keys: "grants_ok g \<longleftrightarrow> keys_ok role_key (fst g) \<and> keys_ok user_key (snd g)"
  by (auto simp: grants_ok_def keys_ok_def)

lemma grants_of_ok:
  assumes "grants_of loads row = Inr g"
  shows "grants_ok g"
proof (cases "map_of row ''is_shared'' \<noteq> None \<and> \<not> truthy (dget row ''is_shared'')")
  case True
  then show ?thesis using assms by (auto simp: grants_of_def grants_ok_keys)
next
  case False
  with assms obtain r u where g: "g = (r, u)"
    and r: "parse_role_grants loads (dget row ''share_permissions'') (dget row ''share_roles'') = Inr r"
    and u: "parse_user_grants loads (dget row ''share_users'') = Inr u"
    by (auto simp: grants_of_def ebind_Inr)
  have "keys_ok role_key r" using r role_grants_ok [of "[]"] fold_role_names_ok [of "[]"]
    unfolding parse_role_grants_def Let_def by (auto simp: ebind_Inr split: if_splits)
  moreover have "keys_ok user_key u" using u user_grants_ok [of _ "[]"]
    unfolding parse_user_grants_def by simp
  ultimately show ?thesis by (simp add: g grants_ok_keys)
qed

lemma columns_read_back:
  assumes ok: "grants_ok g"
  obtains row g' where "columns g = Inr row" "grants_of loads row = Inr g'"
    "map_of (fst g') = map_of (fst g)" "map_of (snd g') = map_of (snd g)"
proof -
  obtain roles users where g: "g = (roles, users)" by (cases g)
  let ?rs = "sort_key fst roles"
  let ?us = "map snd (sort_key fst (map (\<lambda>(k, p). (the (parse_int k), k, p)) users))"
  let ?row = "[(''is_shared'', PBool (has_targets g)), (''share_roles'', PList (map PStr (sort (map fst roles)))),
    (''share_permissions'', grant_dict ?rs), (''share_users'', grant_dict ?us)]"
  have c: "columns g = Inr ?row" using ok by (simp add: columns_def g grants_ok_def emap_keyed)
  have du: "distinct (map fst users)" "list_all user_key (map fst users)"
    and dr: "distinct (map fst roles)" "list_all role_key (map fst roles)"
    using ok by (simp_all add: grants_ok_def g)
  note us = sort_keyed_set [where h = "\<lambda>k. the (parse_int k)" and g = users]
  have mr: "mset (map fst ?rs) = mset (map fst roles)" by simp
  have rs: "distinct (map fst ?rs)" "list_all role_key (map fst ?rs)"
    using mset_eq_imp_distinct_iff [OF mr] dr by (auto simp: list_all_iff)
  have eqr: "map_of ?rs = map_of roles" using rs dr by (simp add: map_of_inject_set)
  have equ: "map_of ?us = map_of users" using us du by (simp add: map_of_inject_set)
  have "list_all user_key (map fst ?us)" 
    using du(2) arg_cong [OF us(1), of "image fst"] by (simp only: list_all_iff set_map)
  then have pu: "user_grants (map (\<lambda>(k, p). (k, PStr (permission_text p))) ?us) [] = Inr ?us"
    using user_grants_written [of "[]" ?us] us(2) du(1) by simp
  have pr: "role_grants (map (\<lambda>(k, p). (k, PStr (permission_text p))) ?rs) [] = ?rs"
    using role_grants_written [of "[]" ?rs] rs by simp
  show ?thesis
  proof (cases "has_targets g")
    case False
    then show ?thesis using that [OF c, of "([], [])"]
      by (simp add: grants_of_def dget_def has_targets_def g)
  next
    case True
    have "parse_role_grants loads (grant_dict ?rs) (PList (map PStr (sort (map fst roles)))) = Inr ?rs"
    proof (cases "roles = []")
      case False
      have "length ?rs = length roles" by simp
      then have "?rs \<noteq> []" using False by (metis length_0_conv)
      then show ?thesis using pr by (simp add: parse_role_grants_def as_mapping_def grant_dict_def)
    qed (simp add: parse_role_grants_def as_mapping_def grant_dict_def iter_or_empty_def)
    moreover have "parse_user_grants loads (grant_dict ?us) = Inr ?us"
      using pu by (simp add: parse_user_grants_def as_mapping_def grant_dict_def)
    ultimately have "grants_of loads ?row = Inr (?rs, ?us)" using True
      by (simp add: grants_of_def dget_def)
    then show ?thesis using that [OF c] eqr equ by (simp add: g)
  qed
qed

lemma no_widening: "grants_ok b \<Longrightarrow> \<not> is_widening a b \<longleftrightarrow>
    (\<forall>k. rank_of (map_of (fst b) k) \<le> rank_of (map_of (fst a) k)) \<and>
    (\<forall>k. rank_of (map_of (snd b) k) \<le> rank_of (map_of (snd a) k))"
  by (simp add: is_widening_def has_targets_def widened_def widened_part_Nil grants_ok_def)

lemma narrowed_ok: "grants_ok after \<Longrightarrow> grants_ok (narrowed before after)"
  by (auto simp: grants_ok_def narrowed_def narrowed_keys list_all_iff narrowed_distinct)

lemma granted_rank_mono:
  assumes "\<And>k. rank_of (map_of (fst a) k) \<le> rank_of (map_of (fst b) k)"
    and "\<And>k. rank_of (map_of (snd a) k) \<le> rank_of (map_of (snd b) k)"
  shows "granted_rank a u rs \<le> granted_rank b u rs"
proof -
  have "rank_of (user_permission (snd a) u) \<le> rank_of (user_permission (snd b) u)"
    using assms(2) by (simp add: user_permission_def)
  also have "\<dots> \<le> granted_rank b u rs" by (simp add: granted_rank_def)
  finally have u: "rank_of (user_permission (snd a) u) \<le> granted_rank b u rs" .
  have "rank_of (map_of (fst a) (py_str r)) \<le> granted_rank b u rs" if "r \<in> set rs" for r
  proof -
    have "rank_of (map_of (fst b) (py_str r)) \<le> granted_rank b u rs"
      using that by (auto simp: granted_rank_def intro: Max_ge)
    then show ?thesis using assms(1) order.trans by blast
  qed
  then show ?thesis using u by (simp add: granted_rank_def [of a])
qed

lemma split_change:
  assumes "grants_ok before" and "grants_ok after"
  shows "(\<forall>part\<in>{fst, snd}. \<forall>k.
      map_of (part (narrowed before after)) k =
        (if rank_of (map_of (part after) k) \<le> rank_of (map_of (part before) k)
         then map_of (part after) k else map_of (part before) k) \<and>
      map_of (part (widened before after)) k =
        (if rank_of (map_of (part before) k) < rank_of (map_of (part after) k)
         then map_of (part after) k else None) \<and>
      (map_of (part (narrowed before after)) ++ map_of (part (widened before after))) k = map_of (part after) k) \<and>
    granted_rank (narrowed before after) u rs = Max (insert
      (min (rank_of (user_permission (snd before) u)) (rank_of (user_permission (snd after) u)))
      ((\<lambda>r. min (rank_of (map_of (fst before) (py_str r))) (rank_of (map_of (fst after) (py_str r)))) ` set rs)) \<and>
    \<not> is_widening before (narrowed before after) \<and> \<not> is_widening after (narrowed before after) \<and>
    (\<not> is_widening before after \<longleftrightarrow>
      map_of (fst (narrowed before after)) = map_of (fst after) \<and>
      map_of (snd (narrowed before after)) = map_of (snd after))"
proof -
  have r: "rank_of (map_of (fst (narrowed before after)) k) =
      min (rank_of (map_of (fst before) k)) (rank_of (map_of (fst after) k))"
    "rank_of (map_of (snd (narrowed before after)) k) =
      min (rank_of (map_of (snd before) k)) (rank_of (map_of (snd after) k))" for k
    by (simp_all add: narrowed_def rank_narrowed)
  have m: "min a b = b \<longleftrightarrow> b \<le> a" for a b :: nat by auto
  have eq: "map_of (fst (narrowed before after)) = map_of (fst after) \<longleftrightarrow>
      (\<forall>k. rank_of (map_of (fst after) k) \<le> rank_of (map_of (fst before) k))"
    "map_of (snd (narrowed before after)) = map_of (snd after) \<longleftrightarrow>
      (\<forall>k. rank_of (map_of (snd after) k) \<le> rank_of (map_of (snd before) k))"
    unfolding fun_eq_iff rank_of_inj [symmetric] r m by blast+
  have d: "distinct (map fst (fst after))" "distinct (map fst (snd after))"
    using assms(2) by (simp_all add: grants_ok_def)
  have parts: "\<forall>part\<in>{fst, snd}. \<forall>k.
      map_of (part (narrowed before after)) k =
        (if rank_of (map_of (part after) k) \<le> rank_of (map_of (part before) k)
         then map_of (part after) k else map_of (part before) k) \<and>
      map_of (part (widened before after)) k =
        (if rank_of (map_of (part before) k) < rank_of (map_of (part after) k)
         then map_of (part after) k else None) \<and>
      (map_of (part (narrowed before after)) ++ map_of (part (widened before after))) k = map_of (part after) k"
    using d by (simp add: narrowed_def widened_def map_of_narrowed narrowed_then_widened)
  have u: "rank_of (user_permission (snd (narrowed before after)) u) =
      min (rank_of (user_permission (snd before) u)) (rank_of (user_permission (snd after) u))"
    by (simp add: user_permission_def r)
  have g: "granted_rank (narrowed before after) u rs = Max (insert
      (min (rank_of (user_permission (snd before) u)) (rank_of (user_permission (snd after) u)))
      ((\<lambda>r. min (rank_of (map_of (fst before) (py_str r))) (rank_of (map_of (fst after) (py_str r)))) ` set rs))"
    unfolding granted_rank_def u r ..
  show ?thesis using parts g assms narrowed_ok [OF assms(2), of before] by (simp add: no_widening r eq)
qed



section \<open>Properties\<close>

text \<open>C23. A change of the grants splits cleanly. What takes effect at once gives each role and each
  person the lower of the permissions before and asked, so a target that is to be raised keeps
  what it has; what is left for the approval names exactly the targets to be raised, with what was
  asked, and written over the first part gives what was asked. A viewer's right in between is
  the highest, over the person and the person's roles, of these lower permissions. The first part
  widens neither what was nor what was asked, and the change needs no approval exactly when the
  first part is already what was asked.\<close>

theorem share_change_splits:
  assumes "grants_ok before" and "grants_ok after"
  shows "(\<forall>part\<in>{fst, snd}. \<forall>k.
      map_of (part (narrowed before after)) k =
        (if rank_of (map_of (part after) k) \<le> rank_of (map_of (part before) k)
         then map_of (part after) k else map_of (part before) k) \<and>
      map_of (part (widened before after)) k =
        (if rank_of (map_of (part before) k) < rank_of (map_of (part after) k)
         then map_of (part after) k else None) \<and>
      (map_of (part (narrowed before after)) ++ map_of (part (widened before after))) k = map_of (part after) k) \<and>
    granted_rank (narrowed before after) u rs = Max (insert
      (min (rank_of (user_permission (snd before) u)) (rank_of (user_permission (snd after) u)))
      ((\<lambda>r. min (rank_of (map_of (fst before) (py_str r))) (rank_of (map_of (fst after) (py_str r)))) ` set rs)) \<and>
    \<not> is_widening before (narrowed before after) \<and> \<not> is_widening after (narrowed before after) \<and>
    (\<not> is_widening before after \<longleftrightarrow>
      map_of (fst (narrowed before after)) = map_of (fst after) \<and>
      map_of (snd (narrowed before after)) = map_of (snd after))"
  by (rule split_change [OF assms])

theorem share_change_splits_witness:
  "map_of (snd (narrowed ([], [(''7'', READ)]) ([(''hr'', READ)], [(''7'', READ_WRITE)]))) ''7'' = Some READ \<and>
   granted_rank (narrowed ([], [(''7'', READ)]) ([(''hr'', READ)], [(''7'', READ_WRITE)])) (PInt 7) [PStr ''hr''] = 1"
proof -
  have a: "grants_ok ([], [(''7'', READ)])" "grants_ok ([(''hr'', READ)], [(''7'', READ_WRITE)])"
    by code_simp+
  have m: "rank_of (user_permission [(''7'', READ)] (PInt 7)) = 1" "rank_of (user_permission [(''7'', READ_WRITE)] (PInt 7)) = 2"
    "py_str (PStr ''hr'') = ''hr''" by code_simp+
  show ?thesis using share_change_splits [OF a, of "PInt 7" "[PStr ''hr'']"] m
    by (simp add: rank_of_def)
qed

text \<open>What is written is read back: the columns of grants in canonical form give the same grants
  again, whatever the decoder, and everything the parsers return from any row is in that form.\<close>

lemma share_columns_roundtrip:
  "if grants_ok g then
     (case columns g of Inl _ \<Rightarrow> False
      | Inr row \<Rightarrow> (case grants_of loads row of Inl _ \<Rightarrow> False
         | Inr g' \<Rightarrow> map_of (fst g') = map_of (fst g) \<and> map_of (snd g') = map_of (snd g)))
   else grants_of loads row \<noteq> Inr g"
proof (cases "grants_ok g")
  case True
  from columns_read_back [OF True, of loads] obtain row g' where "columns g = Inr row"
    "grants_of loads row = Inr g'" "map_of (fst g') = map_of (fst g)" "map_of (snd g') = map_of (snd g)"
    by blast
  with True show ?thesis by simp
next
  case False
  then show ?thesis using grants_of_ok [of loads row g] by auto
qed




text \<open>Rows of older versions can be listed and not opened: their columns may hold the name \<open>_default\<close>,
  which is no role where the grants are read, and which the list query compares like any other.\<close>

lemma legacy_row_listed_not_opened:
  assumes "dget row ''is_shared'' = PBool True" and "dget row ''share_roles'' = PList [PStr ''_default'']"
    and "dget row ''share_permissions'' = PDict [(''_default'', PStr ''read_write'')]" and "dget row ''share_users'' = PNone"
  shows "sql_shared_with row stage (PInt n) [PStr ''_default''] False \<and>
    effective_permission loads row (PInt n) [PStr ''_default''] stage None = Inr None"
proof
  show "sql_shared_with row stage (PInt n) [PStr ''_default''] False"
    using assms by (simp add: sql_shared_with_def py_str_def)
  have "role_grants [(''_default'', PStr ''read_write'')] [] = []" by code_simp
  then have "grants_of loads row = Inr ([], [])"
    using assms by (simp add: grants_of_def parse_role_grants_def as_mapping_def parse_user_grants_def)
  then show "effective_permission loads row (PInt n) [PStr ''_default''] stage None = Inr None"
    using assms by (simp add: effective_permission_def user_permission_def higher_def is_share_effective_def
      share_effect_gated_def settings_or_default_def DEFAULT_SETTINGS_def share_names)
qed

text \<open>A superscript digit passes the test for digits and then stops the reading of the whole row.\<close>

lemma superscript_id_raises:
  "parse_user_grants loads (PDict [([CHR 0xB2], PStr ''read''), (''7'', PStr ''read'')]) = Inl ValueError"
  by (simp add: parse_user_grants_def as_mapping_def key_int_def normalize_permission_def strip_def
      is_space_def isdigit_char_def is_digit_def lower_def lower_char_def parse_int_def)

end
