(* ===== verification/ControlRules.thy ===== *)
theory ControlRules
  imports Prelude "HOL-Library.Product_Lexorder" "HOL-Library.Multiset"
begin

text \<open>
  \<open>src/xgen_sdk/control_policy/rules.py\<close>: the masking rules of the control policies, applied to
  a text (\<open>apply_rules\<close>) and as spans of the original text for documents whose text lies in
  fragments (\<open>find_masked_spans\<close>).

  The regular expression engine is a parameter: a compiled pattern is what \<open>finditer\<close> returns
  on a text, each match with its bounds and the expansion of a template (\<open>None\<close> where it
  raises). \<open>finditer\<close> scans from left to right without overlaps; \<open>pattern_ok\<close> says so. \<open>sub\<close>
  replaces what \<open>finditer\<close> finds.
\<close>

section \<open>Patterns and rules\<close>

record match =
  m_start :: nat
  m_end :: nat
  m_expand :: "string \<Rightarrow> string option"

record pattern =
  pt_finditer :: "string \<Rightarrow> match list"
  pt_groups :: nat
  pt_groupindex :: "(string \<times> nat) list"
  pt_match_empty :: "match option"

definition group0 :: "string \<Rightarrow> match \<Rightarrow> string" where
  "group0 txt m = take (m_end m - m_start m) (drop (m_start m) txt)"

fun matches_ok :: "nat \<Rightarrow> nat \<Rightarrow> match list \<Rightarrow> bool" where
  "matches_ok pos len [] \<longleftrightarrow> pos \<le> len"
| "matches_ok pos len (m # ms) \<longleftrightarrow> pos \<le> m_start m \<and> m_start m \<le> m_end m \<and> matches_ok (m_end m) len ms"

definition pattern_ok :: "pattern \<Rightarrow> bool" where
  "pattern_ok pt \<longleftrightarrow> (\<forall>txt. matches_ok 0 (length txt) (pt_finditer pt txt))"

definition DEFAULT_MASK :: string where "DEFAULT_MASK = ''****''"
definition MASK_MODE_FULL :: string where "MASK_MODE_FULL = ''full''"
definition MASK_MODE_PARTIAL :: string where "MASK_MODE_PARTIAL = ''partial''"
definition SAMPLE_LIMIT :: nat where "SAMPLE_LIMIT = 3"

record masking_rule =
  mr_id :: pyval
  mr_name :: string
  mr_type :: string
  mr_pattern :: pattern
  mr_mask :: string
  mr_mode :: string
  mr_char :: string
  mr_prefix :: int
  mr_suffix :: int
  mr_preserve :: bool

text \<open>\<open>str.isalnum\<close> of a single character, on code points up to 255.\<close>

definition is_alnum :: "char \<Rightarrow> bool" where
  "is_alnum c = (let n = (of_char c :: nat) in
     48 \<le> n \<and> n \<le> 57 \<or> 65 \<le> n \<and> n \<le> 90 \<or> 97 \<le> n \<and> n \<le> 122 \<or> n \<in> {170, 178, 179, 181, 185, 186, 188, 189, 190} \<or>
     192 \<le> n \<and> n \<le> 255 \<and> n \<noteq> 215 \<and> n \<noteq> 247)"

definition partial_mask :: "string \<Rightarrow> string \<Rightarrow> int \<Rightarrow> int \<Rightarrow> bool \<Rightarrow> string" where
  "partial_mask matched mask_char keep_prefix keep_suffix preserve =
     (if matched = [] then matched
      else let ch = hd (if mask_char = [] then ''*'' else mask_char);
               keep_p = max 0 keep_prefix; keep_s = max 0 keep_suffix;
               n = int (length matched);
               (lo, hi) = (if n \<le> keep_p + keep_s then (0, n) else (keep_p, n - keep_s))
           in map (\<lambda>(i, c). if int i < lo \<or> hi \<le> int i \<or> preserve \<and> \<not> is_alnum c then c else ch)
                (enumerate 0 matched))"

definition rule_partial :: "masking_rule \<Rightarrow> string \<Rightarrow> string" where
  "rule_partial r matched = partial_mask matched (mr_char r) (mr_prefix r) (mr_suffix r) (mr_preserve r)"

definition replacement :: "masking_rule \<Rightarrow> string \<Rightarrow> match \<Rightarrow> string" where
  "replacement r txt m =
     (if m_end m = m_start m then []
      else if mr_mode r = MASK_MODE_PARTIAL then rule_partial r (group0 txt m)
      else case m_expand m (mr_mask r) of Some s \<Rightarrow> s | None \<Rightarrow> DEFAULT_MASK)"

fun re_sub :: "(match \<Rightarrow> string) \<Rightarrow> string \<Rightarrow> nat \<Rightarrow> match list \<Rightarrow> string" where
  "re_sub f txt pos [] = drop pos txt"
| "re_sub f txt pos (m # ms) =
     take (m_start m - pos) (drop pos txt) @ f m @ re_sub f txt (m_end m) ms"

definition substitute :: "masking_rule \<Rightarrow> string \<Rightarrow> string" where
  "substitute r txt = re_sub (replacement r txt) txt 0 (pt_finditer (mr_pattern r) txt)"

section \<open>Compiling rows\<close>

text \<open>A row of the policy table with the types of its columns; \<open>pr_preserve\<close> is
  \<open>bool(row.get("preserve_format", True))\<close>.\<close>

record policy_row =
  pr_id :: pyval
  pr_name :: "string option"
  pr_regex :: "string option"
  pr_masking :: bool
  pr_pattern :: "string option"
  pr_mode :: "string option"
  pr_char :: "string option"
  pr_prefix :: "int option"
  pr_suffix :: "int option"
  pr_preserve :: bool

definition text_or :: "string \<Rightarrow> string option \<Rightarrow> string" where
  "text_or dflt v = (case v of None \<Rightarrow> dflt | Some s \<Rightarrow> if s = [] then dflt else s)"

definition int_or_0 :: "int option \<Rightarrow> int" where
  "int_or_0 v = (case v of None \<Rightarrow> 0 | Some i \<Rightarrow> i)"

text \<open>The choice of what to do with rows that are not masked.\<close>

datatype unmasked = Skip | Default

definition compile_row ::
  "(string \<Rightarrow> pattern option) \<Rightarrow> string \<Rightarrow> unmasked \<Rightarrow> policy_row \<Rightarrow> masking_rule option" where
  "compile_row re_compile policy_type um row =
     (let masking = pr_masking row; regex = text_or [] (pr_regex row) in
      if \<not> masking \<and> um = Skip then None
      else if regex = [] then None
      else case re_compile regex of
             None \<Rightarrow> None
           | Some pt \<Rightarrow>
               (let mode = lower (strip (text_or MASK_MODE_FULL (pr_mode row)))
                in Some \<lparr>mr_id = pr_id row, mr_name = text_or [] (pr_name row), mr_type = policy_type,
                     mr_pattern = pt, mr_mask = text_or DEFAULT_MASK (if masking then pr_pattern row else None),
                     mr_mode = (if mode = MASK_MODE_PARTIAL \<and> masking then MASK_MODE_PARTIAL else MASK_MODE_FULL),
                     mr_char = text_or ''*'' (pr_char row), mr_prefix = int_or_0 (pr_prefix row),
                     mr_suffix = int_or_0 (pr_suffix row), mr_preserve = pr_preserve row\<rparr>))"

definition compile_rules ::
  "(string \<Rightarrow> pattern option) \<Rightarrow> policy_row list \<Rightarrow> string \<Rightarrow> unmasked \<Rightarrow> masking_rule list" where
  "compile_rules re_compile rows policy_type um = List.map_filter (compile_row re_compile policy_type um) rows"

text \<open>The strict compiler takes rows as they come. Type, value, index and pattern errors become
  \<open>PolicyInvalid\<close>; an overflow and a failed assertion pass through.\<close>

datatype strict_error = PolicyInvalid | Uncaught py_exc | AssertionError

definition invalid_or :: "py_exc \<Rightarrow> strict_error" where
  "invalid_or x = (if x = TypeError \<or> x = ValueError then PolicyInvalid else Uncaught x)"

definition strict_nonnegative_int :: "pyval \<Rightarrow> py_exc + int" where
  "strict_nonnegative_int value =
     (case value of
        PBool _ \<Rightarrow> Inl ValueError
      | _ \<Rightarrow> ebind (if truthy value then py_int value else Inr 0) (\<lambda>parsed.
          if parsed < 0 then Inl ValueError else Inr parsed))"

definition is_flag :: "pyval \<Rightarrow> bool" where
  "is_flag v = (case v of PBool _ \<Rightarrow> True | PInt i \<Rightarrow> i = 0 \<or> i = 1
     | PFloat (Finite q) _ \<Rightarrow> q = 0 \<or> q = 1 | _ \<Rightarrow> False)"

definition validator_pattern :: "pattern \<Rightarrow> string" where
  "validator_pattern pt = concat (map (\<lambda>i.
     case map_of (rev (map (\<lambda>(nm, k). (k, nm)) (pt_groupindex pt))) i of
       Some nm \<Rightarrow> ''(?P<'' @ nm @ ''>)'' | None \<Rightarrow> ''()'') [1..<Suc (pt_groups pt)])"

definition check_template :: "(string \<Rightarrow> pattern option) \<Rightarrow> pattern \<Rightarrow> string \<Rightarrow> strict_error + unit" where
  "check_template re_compile pt template =
     (case re_compile (validator_pattern pt) of
        None \<Rightarrow> Inl PolicyInvalid
      | Some v \<Rightarrow> (case pt_match_empty v of
            None \<Rightarrow> Inl AssertionError
          | Some m \<Rightarrow> (case m_expand m template of None \<Rightarrow> Inl PolicyInvalid | Some _ \<Rightarrow> Inr ())))"

definition strict_check :: "bool \<Rightarrow> strict_error + unit" where
  "strict_check ok = (if ok then Inr () else Inl PolicyInvalid)"

definition strict_int :: "pyval \<Rightarrow> strict_error + int" where
  "strict_int v = (case strict_nonnegative_int v of Inl x \<Rightarrow> Inl (invalid_or x) | Inr i \<Rightarrow> Inr i)"

definition text_of_val :: "pyval \<Rightarrow> string option" where
  "text_of_val v = (case v of PStr s \<Rightarrow> Some s | _ \<Rightarrow> None)"

definition strict_row :: "(string \<Rightarrow> pattern option) \<Rightarrow> pyval \<Rightarrow> strict_error + policy_row" where
  "strict_row re_compile v =
     (case v of
        PDict row \<Rightarrow>
          (let name = dget row ''policy_name''; regex = dget row ''regex_pattern'';
               masking = dget row ''masking''; template = dget row ''masking_pattern'';
               mode = lower (strip (if truthy (dget row ''masking_mode'')
                 then py_str (dget row ''masking_mode'') else MASK_MODE_FULL));
               preserve = (case map_of row ''preserve_format'' of None \<Rightarrow> PBool True | Some p \<Rightarrow> p);
               given = (case map_of row ''mask_char'' of None \<Rightarrow> PStr ''*'' | Some p \<Rightarrow> p);
               mask_char = (if truthy given then given else PStr ''*'')
           in ebind (strict_check (dget row ''id'' \<noteq> PNone)) (\<lambda>_.
              case (text_of_val name, text_of_val regex, masking) of
                (Some nm, Some rx, PBool masked) \<Rightarrow>
                  ebind (strict_check (strip nm \<noteq> [] \<and> strip rx \<noteq> [])) (\<lambda>_.
                  case re_compile rx of
                    None \<Rightarrow> Inl PolicyInvalid
                  | Some pt \<Rightarrow>
                      ebind (strict_check (mode \<in> {MASK_MODE_FULL, MASK_MODE_PARTIAL})) (\<lambda>_.
                      ebind (strict_int (dget row ''keep_prefix'')) (\<lambda>keep_prefix.
                      ebind (strict_int (dget row ''keep_suffix'')) (\<lambda>keep_suffix.
                      ebind (strict_check (is_flag preserve \<and> text_of_val mask_char \<noteq> None \<and>
                          (template = PNone \<or> text_of_val template \<noteq> None))) (\<lambda>_.
                      ebind (if masked then check_template re_compile pt
                              (text_or DEFAULT_MASK (text_of_val template)) else Inr ()) (\<lambda>_.
                        Inr \<lparr>pr_id = dget row ''id'', pr_name = Some nm, pr_regex = Some rx,
                            pr_masking = masked, pr_pattern = text_of_val template, pr_mode = Some mode,
                            pr_char = text_of_val mask_char, pr_prefix = Some keep_prefix,
                            pr_suffix = Some keep_suffix, pr_preserve = truthy preserve\<rparr>))))))
              | _ \<Rightarrow> Inl PolicyInvalid))
      | _ \<Rightarrow> Inl PolicyInvalid)"

definition list_of_val :: "pyval \<Rightarrow> py_exc + pyval list" where
  "list_of_val v = (case v of
       PList xs \<Rightarrow> Inr xs
     | PStr s \<Rightarrow> Inr (map (\<lambda>c. PStr [c]) s)
     | PDict d \<Rightarrow> Inr (map (\<lambda>(k, _). PStr k) d)
     | _ \<Rightarrow> Inl TypeError)"

definition compile_rules_strict ::
  "(string \<Rightarrow> pattern option) \<Rightarrow> pyval \<Rightarrow> string \<Rightarrow> unmasked \<Rightarrow> strict_error + masking_rule list" where
  "compile_rules_strict re_compile rows policy_type um =
     (case list_of_val rows of
        Inl _ \<Rightarrow> Inl PolicyInvalid
      | Inr materialized \<Rightarrow> ebind (emap (strict_row re_compile) materialized) (\<lambda>normalized.
          Inr (compile_rules re_compile normalized policy_type um)))"

section \<open>Applying rules\<close>

record detection =
  dt_id :: pyval
  dt_name :: string
  dt_type :: string
  dt_count :: nat
  dt_samples :: "(string \<times> string) list"

record masking_result =
  res_text :: string
  res_detections :: "detection list"
  res_total :: nat
  res_changed_ids :: "pyval list"
  res_changed_names :: "string list"
  res_policies_used :: nat

definition hits_of :: "masking_rule \<Rightarrow> string \<Rightarrow> match list" where
  "hits_of r txt = filter (\<lambda>m. m_start m < m_end m) (pt_finditer (mr_pattern r) txt)"

text \<open>At most \<open>SAMPLE_LIMIT\<close> samples, one for each text found.\<close>

fun samples_of :: "masking_rule \<Rightarrow> string \<Rightarrow> string list \<Rightarrow> nat \<Rightarrow> match list \<Rightarrow> (string \<times> string) list" where
  "samples_of r txt seen n [] = []"
| "samples_of r txt seen n (m # ms) =
     (let original = group0 txt m in
      if original \<in> set seen then samples_of r txt seen n ms
      else (original, replacement r txt m) #
        (if SAMPLE_LIMIT \<le> Suc n then [] else samples_of r txt (original # seen) (Suc n) ms))"

definition apply_rule :: "bool \<Rightarrow> masking_rule \<Rightarrow> masking_result \<Rightarrow> masking_result" where
  "apply_rule msk r res =
     (let hits = hits_of r (res_text res) in
      if hits = [] then res
      else let res = res\<lparr>res_detections := res_detections res @ [\<lparr>dt_id = mr_id r, dt_name = mr_name r,
                       dt_type = mr_type r, dt_count = length hits,
                       dt_samples = samples_of r (res_text res) [] 0 hits\<rparr>],
                     res_total := res_total res + length hits\<rparr>
           in if \<not> msk then res
              else let masked = substitute r (res_text res) in
                if masked = res_text res then res
                else res\<lparr>res_text := masked,
                       res_changed_ids := res_changed_ids res @ (if mr_id r \<noteq> PNone then [mr_id r] else []),
                       res_changed_names := res_changed_names res @ [mr_name r]\<rparr>)"

definition apply_rules :: "string \<Rightarrow> masking_rule list \<Rightarrow> bool \<Rightarrow> masking_result" where
  "apply_rules txt rules msk =
     (let res = \<lparr>res_text = txt, res_detections = [], res_total = 0, res_changed_ids = [],
        res_changed_names = [], res_policies_used = length rules\<rparr>
      in if txt = [] \<or> rules = [] then res else fold (apply_rule msk) rules res)"

definition by_type :: "masking_result \<Rightarrow> (string \<times> detection list) list" where
  "by_type res = fold (\<lambda>d out. dset (dt_type d)
     ((case map_of out (dt_type d) of None \<Rightarrow> [] | Some ds \<Rightarrow> ds) @ [d]) out) (res_detections res) []"

section \<open>Spans of the original text\<close>

text \<open>A piece of the current text: a replacement that belongs to a unit, or a slice of the
  original that starts at an offset (\<open>-1\<close> in the code is \<open>None\<close>).\<close>

type_synonym piece = "nat option \<times> nat \<times> string"

abbreviation body :: "piece \<Rightarrow> string" where "body p \<equiv> snd (snd p)"

text \<open>The representative of a unit, halving the path on the way.\<close>

partial_function (option) find_unit :: "nat list \<Rightarrow> nat \<Rightarrow> (nat \<times> nat list) option" where
  "find_unit parent unit =
     (if parent ! unit = unit then Some (unit, parent)
      else let parent' = parent[unit := parent ! (parent ! unit)]
           in find_unit parent' (parent' ! unit))"

declare find_unit.simps [code]

definition cut :: "piece \<Rightarrow> nat \<Rightarrow> nat \<Rightarrow> piece" where
  "cut p a b = (case p of (u, start, txt) \<Rightarrow>
     (u, if u = None then start + a else start, take (b - a) (drop a txt)))"

text \<open>Pieces before the match move to the output, the last of them cut at the match.\<close>

fun skip_pieces :: "nat \<Rightarrow> nat \<Rightarrow> piece list \<Rightarrow> piece list \<times> piece list" where
  "skip_pieces ms offset [] = ([], [])"
| "skip_pieces ms offset (p # queue) =
     (if offset + length (body p) \<le> ms then
        (let (out, rest) = skip_pieces ms (offset + length (body p)) queue in (p # out, rest))
      else if offset < ms then
        ([cut p 0 (ms - offset)], cut p (ms - offset) (length (body p)) # queue)
      else ([], p # queue))"

text \<open>What a match has eaten: the representatives of the units and the bounds of the slices.\<close>

record eaten =
  et_roots :: "nat list"
  et_first :: "nat option"
  et_last :: "nat option"
  et_parent :: "nat list"

definition min_with :: "nat option \<Rightarrow> nat \<Rightarrow> nat option" where
  "min_with b n = Some (case b of None \<Rightarrow> n | Some k \<Rightarrow> min k n)"

definition max_with :: "nat option \<Rightarrow> nat \<Rightarrow> nat option" where
  "max_with b n = Some (case b of None \<Rightarrow> n | Some k \<Rightarrow> max k n)"

definition eat_piece :: "piece \<Rightarrow> nat \<Rightarrow> eaten \<Rightarrow> eaten option" where
  "eat_piece p k e = (case p of
     (None, start, _) \<Rightarrow> Some (e\<lparr>et_first := min_with (et_first e) start,
       et_last := max_with (et_last e) (start + k)\<rparr>)
   | (Some u, _, _) \<Rightarrow> Option.bind (find_unit (et_parent e) u) (\<lambda>(rt, parent).
       Some (e\<lparr>et_roots := List.insert rt (et_roots e), et_parent := parent\<rparr>)))"

fun eat :: "nat \<Rightarrow> nat \<Rightarrow> piece list \<Rightarrow> eaten \<Rightarrow> (eaten \<times> nat \<times> piece list) option" where
  "eat me offset [] e = Some (e, offset, [])"
| "eat me offset (p # queue) e =
     (if offset < me then
        (let size = length (body p); k = min size (me - offset) in
         Option.bind (eat_piece p k e) (\<lambda>e.
           if k < size then Some (e, offset + k, cut p k size # queue) else eat me (offset + k) queue e))
      else Some (e, offset, p # queue))"

record span_state =
  sp_parent :: "nat list"
  sp_lo :: "nat list"
  sp_hi :: "nat list"
  sp_ghosts :: "nat list"

text \<open>\<open>min\<close> and \<open>max\<close> of the bounds; of no bounds they raise.\<close>

definition bounds :: "(nat \<Rightarrow> nat \<Rightarrow> nat) \<Rightarrow> nat list \<Rightarrow> nat option \<Rightarrow> nat option" where
  "bounds f xs b = (case xs @ (case b of None \<Rightarrow> [] | Some n \<Rightarrow> [n]) of
     [] \<Rightarrow> None | y # ys \<Rightarrow> Some (fold f ys y))"

text \<open>One match: the output grows by the skipped pieces and the replacement.\<close>

definition take_match :: "string \<Rightarrow> match \<Rightarrow> nat \<Rightarrow> piece list \<Rightarrow> span_state \<Rightarrow>
    (piece list \<times> nat \<times> piece list \<times> span_state) option" where
  "take_match rep m offset queue st =
     (let (skipped, queue) = skip_pieces (m_start m) offset queue;
          offset = offset + length (concat (map body skipped)) in
      Option.bind (eat (m_end m) offset queue
          \<lparr>et_roots = [], et_first = None, et_last = None, et_parent = sp_parent st\<rparr>) (\<lambda>(e, offset, rest).
      Option.bind (bounds min (map (nth (sp_lo st)) (et_roots e)) (et_first e)) (\<lambda>lo.
      Option.bind (bounds max (map (nth (sp_hi st)) (et_roots e)) (et_last e)) (\<lambda>hi.
        let unit = length (et_parent e);
            parent = fold (\<lambda>rt ps. ps[rt := unit]) (et_roots e) (et_parent e @ [unit])
        in Some (skipped @ (if rep = [] then [] else [(Some unit, 0, rep)]), offset, rest,
             \<lparr>sp_parent = parent, sp_lo = sp_lo st @ [lo], sp_hi = sp_hi st @ [hi],
              sp_ghosts = sp_ghosts st @ (if rep = [] then [unit] else [])\<rparr>)))))"

fun take_matches :: "masking_rule \<Rightarrow> string \<Rightarrow> match list \<Rightarrow> nat \<Rightarrow> piece list \<Rightarrow> span_state \<Rightarrow>
    (piece list \<times> span_state) option" where
  "take_matches r txt [] offset queue st = Some (queue, st)"
| "take_matches r txt (m # ms) offset queue st =
     Option.bind (take_match (replacement r txt m) m offset queue st) (\<lambda>(out, offset, queue, st).
       Option.bind (take_matches r txt ms offset queue st) (\<lambda>(rest, st). Some (out @ rest, st)))"

definition span_rule :: "masking_rule \<Rightarrow> piece list \<times> string \<times> span_state \<Rightarrow>
    (piece list \<times> string \<times> span_state) option" where
  "span_rule r s = (case s of (pieces, current, st) \<Rightarrow>
     (let hits = hits_of r current in
      if hits = [] then Some s
      else Option.bind (take_matches r current hits 0 pieces st) (\<lambda>(pieces, st).
        Some (pieces, concat (map body pieces), st))))"

fun span_rules :: "masking_rule list \<Rightarrow> piece list \<times> string \<times> span_state \<Rightarrow>
    (piece list \<times> string \<times> span_state) option" where
  "span_rules [] s = Some s"
| "span_rules (r # rs) s = Option.bind (span_rule r s) (span_rules rs)"

text \<open>The pieces that follow in the same unit.\<close>

fun span_run :: "nat list \<Rightarrow> nat \<Rightarrow> piece list \<Rightarrow> (string \<times> piece list \<times> nat list) option" where
  "span_run parent rt [] = Some ([], [], parent)"
| "span_run parent rt ((None, start, txt) # ps) = Some ([], (None, start, txt) # ps, parent)"
| "span_run parent rt ((Some u, start, txt) # ps) =
     Option.bind (find_unit parent u) (\<lambda>(r, parent).
       if r = rt then Option.bind (span_run parent rt ps) (\<lambda>(tail, rest, parent).
         Some (txt @ tail, rest, parent))
       else Some ([], (Some u, start, txt) # ps, parent))"

lemma span_run_shorter: "span_run parent rt ps = Some (out, rest, parent') \<Longrightarrow> length rest \<le> length ps"
proof (induction parent rt ps arbitrary: out rest parent' rule: span_run.induct)
  case (3 parent rt u start t ps)
  note IH = 3(1) and run = 3(2)
  show ?case using run by (auto simp: bind_eq_Some_conv split: if_splits dest!: IH)
qed auto

text \<open>The runs of a unit, with the unit's representative.\<close>

function runs :: "nat list \<Rightarrow> piece list \<Rightarrow> ((nat \<times> string) list \<times> nat list) option" where
  "runs parent [] = Some ([], parent)"
| "runs parent ((None, start, txt) # ps) = runs parent ps"
| "runs parent ((Some u, start, txt) # ps) =
     (case find_unit parent u of
        None \<Rightarrow> None
      | Some (rt, parent) \<Rightarrow>
          (case span_run parent rt ps of
             None \<Rightarrow> None
           | Some (tail, rest, parent) \<Rightarrow>
               (case runs parent rest of
                  None \<Rightarrow> None
                | Some (found, parent) \<Rightarrow> Some ((rt, txt @ tail) # found, parent))))"
  by pat_completeness auto
termination
  by (relation "measure (\<lambda>(_, ps). length ps)") (auto dest: span_run_shorter)

fun ghost_roots :: "nat list \<Rightarrow> nat list \<Rightarrow> nat list \<Rightarrow> (nat list \<times> nat list) option" where
  "ghost_roots parent seen [] = Some ([], parent)"
| "ghost_roots parent seen (u # us) =
     Option.bind (find_unit parent u) (\<lambda>(rt, parent).
       if rt \<in> set seen then ghost_roots parent seen us
       else Option.bind (ghost_roots parent (rt # seen) us) (\<lambda>(found, parent).
         Some (rt # found, parent)))"

type_synonym span = "nat \<times> nat \<times> string"

text \<open>Spans in order; one that starts inside the span before it is joined to it.\<close>

fun merge_spans :: "span list \<Rightarrow> span list \<Rightarrow> span list" where
  "merge_spans merged [] = rev merged"
| "merge_spans [] (s # ss) = merge_spans [s] ss"
| "merge_spans ((a, b, t) # merged) ((c, d, u) # ss) =
     (if c < b then merge_spans ((a, max b d, t @ u) # merged) ss
      else merge_spans ((c, d, u) # (a, b, t) # merged) ss)"

definition span_of :: "span_state \<Rightarrow> nat \<times> string \<Rightarrow> span" where
  "span_of st r = (sp_lo st ! fst r, sp_hi st ! fst r, snd r)"

definition collect_spans :: "piece list \<Rightarrow> span_state \<Rightarrow> span list option" where
  "collect_spans pieces st =
     Option.bind (runs (sp_parent st) pieces) (\<lambda>(found, parent).
     Option.bind (ghost_roots parent (map fst found) (sp_ghosts st)) (\<lambda>(ghosts, _).
       let spans = map (span_of st) found @ map (\<lambda>g. span_of st (g, [])) ghosts
       in Some (merge_spans [] (sort_key (\<lambda>(a, b, _). (a, b)) spans))))"

text \<open>\<open>None\<close>: the code does not return.\<close>

definition find_masked_spans :: "string \<Rightarrow> masking_rule list \<Rightarrow> span list option" where
  "find_masked_spans txt rules =
     (if txt = [] \<or> rules = [] then Some []
      else Option.bind (span_rules rules ([(None, 0, txt)], txt,
          \<lparr>sp_parent = [], sp_lo = [], sp_hi = [], sp_ghosts = []\<rparr>)) (\<lambda>(pieces, _, st).
        if sp_parent st = [] then Some [] else collect_spans pieces st))"

text \<open>Writing the spans back into the original.\<close>

fun put_back :: "string \<Rightarrow> nat \<Rightarrow> span list \<Rightarrow> string" where
  "put_back txt pos [] = drop pos txt"
| "put_back txt pos ((a, b, t) # ss) = take (a - pos) (drop pos txt) @ t @ put_back txt b ss"

section \<open>The strict compiler\<close>

definition row_masking :: "pyval \<Rightarrow> bool" where
  "row_masking v = (case v of PDict row \<Rightarrow> dget row ''masking'' = PBool True | _ \<Rightarrow> False)"

lemma strict_check_Inr [simp]: "strict_check b = Inr u \<longleftrightarrow> b"
  by (simp add: strict_check_def)

lemma strict_int_Inr: "strict_int v = Inr i \<Longrightarrow> 0 \<le> i"
  by (auto simp: strict_int_def strict_nonnegative_int_def ebind_Inr split: sum.splits pyval.splits if_splits)

lemma text_of_val_Some [simp]: "text_of_val v = Some s \<longleftrightarrow> v = PStr s"
  by (simp add: text_of_val_def split: pyval.split)

lemma text_of_val_PStr [simp]: "text_of_val (PStr s) = Some s"
  by simp

lemma strict_row_Inr:
  assumes "strict_row rc v = Inr r"
  obtains row nm rx pt m kp ks where "v = PDict row" "pr_masking r = row_masking v" "pr_regex r = Some rx"
    "pr_name r = Some nm" "strip nm \<noteq> []" "strip rx \<noteq> []" "rc rx = Some pt" "pr_mode r = Some m"
    "m = MASK_MODE_FULL \<or> m = MASK_MODE_PARTIAL" "pr_prefix r = Some kp" "0 \<le> kp" "pr_suffix r = Some ks" "0 \<le> ks"
proof -
  obtain row where v: "v = PDict row" using assms by (cases v) (simp_all add: strict_row_def)
  obtain nm rx b where t: "dget row ''policy_name'' = PStr nm" "dget row ''regex_pattern'' = PStr rx"
      "dget row ''masking'' = PBool b"
    using assms by (auto simp: v strict_row_def Let_def ebind_Inr split: prod.splits option.splits pyval.splits)
  obtain pt where pt: "rc rx = Some pt" using assms t
    by (auto simp: v strict_row_def Let_def ebind_Inr split: option.splits)
  define m where "m = lower (strip (if truthy (dget row ''masking_mode'') then py_str (dget row ''masking_mode'')
    else MASK_MODE_FULL))"
  obtain kp ks where r: "strip nm \<noteq> []" "strip rx \<noteq> []" "m \<in> {MASK_MODE_FULL, MASK_MODE_PARTIAL}"
      "strict_int (dget row ''keep_prefix'') = Inr kp" "strict_int (dget row ''keep_suffix'') = Inr ks"
      "pr_name r = Some nm" "pr_regex r = Some rx" "pr_masking r = b" "pr_mode r = Some m"
      "pr_prefix r = Some kp" "pr_suffix r = Some ks"
    using assms t pt unfolding v strict_row_def Let_def pyval.case m_def [symmetric]
    by (clarsimp simp: ebind_Inr simp del: insert_iff)
  show ?thesis
    by (rule that [OF v _ r(7,6,1,2) pt r(9) _ r(10) strict_int_Inr [OF r(4)] r(11) strict_int_Inr [OF r(5)]])
      (use r(3,8) t(3) in \<open>simp_all add: v row_masking_def\<close>)
qed

lemma compile_strict_row:
  assumes "strict_row rc v = Inr r"
  shows "(compile_row rc ty um r = None \<longleftrightarrow> \<not> row_masking v \<and> um = Skip) \<and>
    (\<forall>rule. compile_row rc ty um r = Some rule \<longrightarrow> mr_mode rule \<in> {MASK_MODE_FULL, MASK_MODE_PARTIAL} \<and>
      0 \<le> mr_prefix rule \<and> 0 \<le> mr_suffix rule \<and> mr_char rule \<noteq> [] \<and> mr_mask rule \<noteq> [] \<and>
      (\<exists>rx. rc rx = Some (mr_pattern rule)))"
proof -
  obtain row nm rx pt m kp ks where r: "pr_masking r = row_masking v" "pr_regex r = Some rx"
    "strip rx \<noteq> []" "rc rx = Some pt" "pr_prefix r = Some kp" "0 \<le> kp" "pr_suffix r = Some ks" "0 \<le> ks"
    by (rule strict_row_Inr [OF assms]) blast
  have "rx \<noteq> []" using r(3) by auto
  then show ?thesis using r
    by (auto simp: compile_row_def Let_def text_or_def int_or_0_def DEFAULT_MASK_def split: option.splits)
qed

lemma compile_strict_rows:
  "emap (strict_row rc) xs = Inr rs \<Longrightarrow>
    length (compile_rules rc rs ty um) = length (filter (\<lambda>v. row_masking v \<or> um = Default) xs) \<and>
    (\<forall>rule\<in>set (compile_rules rc rs ty um). mr_mode rule \<in> {MASK_MODE_FULL, MASK_MODE_PARTIAL} \<and>
      0 \<le> mr_prefix rule \<and> 0 \<le> mr_suffix rule \<and> mr_char rule \<noteq> [] \<and> mr_mask rule \<noteq> [] \<and>
      (\<exists>rx. rc rx = Some (mr_pattern rule)))"
proof (induction xs arbitrary: rs)
  case Nil
  then show ?case by (simp add: compile_rules_def)
next
  case (Cons v xs)
  then obtain r rs' where r: "strict_row rc v = Inr r" "emap (strict_row rc) xs = Inr rs'" "rs = r # rs'"
    by (auto simp: ebind_Inr)
  have um: "um = Default \<longleftrightarrow> um \<noteq> Skip" by (cases um) simp_all
  have "compile_rules rc rs ty um = (case compile_row rc ty um r of None \<Rightarrow> [] | Some x \<Rightarrow> [x]) @ compile_rules rc rs' ty um"
    by (simp add: compile_rules_def r(3) split: option.split)
  then show ?case using Cons.IH [OF r(2)] compile_strict_row [OF r(1), of ty um] um
    by (cases "compile_row rc ty um r") auto
qed

text \<open>The strict compiler never thins out the policies: when it returns, every row has become a rule
  (with \<open>Skip\<close>, every row that is masked), and each rule has a compiled pattern, one of the two
  modes, a mask, and lengths to keep that are not negative.\<close>

lemma strict_rows_all_become_rules:
  assumes "compile_rules_strict rc rows ty um = Inr rules"
  shows "\<exists>xs. list_of_val rows = Inr xs \<and>
    length rules = length (filter (\<lambda>v. row_masking v \<or> um = Default) xs) \<and>
    (\<forall>rule\<in>set rules. mr_mode rule \<in> {MASK_MODE_FULL, MASK_MODE_PARTIAL} \<and>
      0 \<le> mr_prefix rule \<and> 0 \<le> mr_suffix rule \<and> mr_char rule \<noteq> [] \<and> mr_mask rule \<noteq> [] \<and>
      (\<exists>rx. rc rx = Some (mr_pattern rule)))"
proof -
  obtain xs rs where x: "list_of_val rows = Inr xs" "emap (strict_row rc) xs = Inr rs"
      "rules = compile_rules rc rs ty um"
    using assms by (auto simp: compile_rules_strict_def ebind_Inr split: sum.splits)
  then show ?thesis using compile_strict_rows [OF x(2)] by blast
qed

definition w_engine :: "string \<Rightarrow> pattern option" where
  "w_engine rx = (if rx = ''('' then None else
     Some \<lparr>pt_finditer = (\<lambda>_. []), pt_groups = 0, pt_groupindex = [],
       pt_match_empty = Some \<lparr>m_start = 0, m_end = 0, m_expand = (\<lambda>t. Some t)\<rparr>\<rparr>)"

definition w_row :: pyval where
  "w_row = PDict [(''id'', PInt 1), (''policy_name'', PStr ''n''), (''regex_pattern'', PStr ''a''),
     (''masking'', PBool True)]"

lemma strict_rows_all_become_rules_witness:
  "\<exists>rules. compile_rules_strict w_engine (PList [w_row]) ''pii'' Skip = Inr rules \<and> length rules = 1"
proof -
  obtain rules where r: "compile_rules_strict w_engine (PList [w_row]) ''pii'' Skip = Inr rules"
    by (simp add: compile_rules_strict_def list_of_val_def strict_row_def w_row_def dget_def text_of_val_def
        strict_check_def w_engine_def strip_def is_space_def lower_def lower_char_def MASK_MODE_FULL_def
        strict_int_def strict_nonnegative_int_def is_flag_def check_template_def validator_pattern_def)
  from strict_rows_all_become_rules [OF r] show ?thesis using r
    by (auto simp: list_of_val_def row_masking_def w_row_def dget_def)
qed

text \<open>A length to keep that is an infinite float is not reported as an invalid policy.\<close>

lemma infinite_prefix_escapes: "strict_int (PFloat PosInf t) = Inl (Uncaught OverflowError)"
  by (simp add: strict_int_def strict_nonnegative_int_def invalid_or_def)

end
