(* ===== verification/ControlSpans.thy ===== *)
theory ControlSpans
  imports ControlRules
begin

text \<open>
  The spans of \<open>find_masked_spans\<close> say what \<open>apply_rules\<close> does: put back into the original they
  give the masked text. The proof reads the pieces as tiles of the original text: a slice, or
  a unit with the interval it covers and the pieces that are left of it.
\<close>

section \<open>Representatives\<close>

definition climbs :: "nat list \<Rightarrow> bool" where
  "climbs p \<longleftrightarrow> (\<forall>u<length p. u \<le> p ! u \<and> p ! u < length p)"

function rep :: "nat list \<Rightarrow> nat \<Rightarrow> nat" where
  "rep p u = (if u < p ! u \<and> p ! u < length p then rep p (p ! u) else u)"
  by auto
termination by (relation "measure (\<lambda>(p, u). length p - u)") auto

declare rep.simps [simp del]

lemma rep_fix: "p ! u = u \<Longrightarrow> rep p u = u"
  by (subst rep.simps) simp

lemma rep_step: "climbs p \<Longrightarrow> u < length p \<Longrightarrow> rep p (p ! u) = rep p u"
  using rep.simps [of p u] rep_fix [of p u] by (cases "p ! u = u") (auto simp: climbs_def le_less)

lemma rep_root: "climbs p \<Longrightarrow> u < length p \<Longrightarrow> u \<le> rep p u \<and> rep p u < length p \<and> p ! rep p u = rep p u"
proof (induction p u rule: rep.induct)
  case (1 p u)
  show ?case
  proof (cases "p ! u = u")
    case False
    then have "u < p ! u" "p ! u < length p" using 1(2,3) by (auto simp: climbs_def le_less)
    then show ?thesis using 1(1,2) rep_step [OF 1(2,3)] by auto
  qed (use 1 rep_fix in auto)
qed

lemma rep_rep [simp]: "climbs p \<Longrightarrow> u < length p \<Longrightarrow> rep p (rep p u) = rep p u"
  using rep_root rep_fix by blast

text \<open>The same classes with the same representatives.\<close>

definition same_reps :: "nat list \<Rightarrow> nat list \<Rightarrow> bool" where
  "same_reps p q \<longleftrightarrow> length q = length p \<and> climbs q \<and> (\<forall>u<length p. rep q u = rep p u)"

lemma same_reps_refl: "climbs p \<Longrightarrow> same_reps p p"
  by (simp add: same_reps_def)

lemma same_reps_trans: "same_reps p q \<Longrightarrow> same_reps q r \<Longrightarrow> same_reps p r"
  by (simp add: same_reps_def)

lemma halving:
  assumes c: "climbs p" and u: "u < length p"
  shows "same_reps p (p[u := p ! (p ! u)])"
proof -
  let ?q = "p[u := p ! (p ! u)]"
  have pu: "u \<le> p ! u" "p ! u < length p" "p ! u \<le> p ! (p ! u)" "p ! (p ! u) < length p"
    using c u by (auto simp: climbs_def)
  have cq: "climbs ?q" using c pu by (auto simp: climbs_def nth_list_update)
  have "rep ?q v = rep p v" if "v < length p" for v
    using that
  proof (induction "length p - v" arbitrary: v rule: less_induct)
    case less
    show ?case
    proof (cases "p ! v = v")
      case True
      then show ?thesis using less(2) by (cases "v = u") (simp_all add: rep_fix nth_list_update)
    next
      case False
      have q: "?q ! v = (if v = u then p ! (p ! v) else p ! v)" using less(2) by (simp add: nth_list_update)
      have v: "v < p ! v" "p ! v < length p" using c less(2) False by (auto simp: climbs_def le_less)
      then have w: "v < ?q ! v" "?q ! v < length p" using pu q by (auto split: if_splits)
      have "rep ?q v = rep ?q (?q ! v)" using rep_step [OF cq, of v] less(2) by simp
      also have "\<dots> = rep p (?q ! v)" using less(1) [of "?q ! v"] w by simp
      also have "\<dots> = rep p v" using rep_step [OF c] v less(2) q by (auto split: if_splits)
      finally show ?thesis .
    qed
  qed
  then show ?thesis using cq by (simp add: same_reps_def)
qed

lemma find_unit_rep:
  "climbs p \<Longrightarrow> u < length p \<Longrightarrow> \<exists>q. find_unit p u = Some (rep p u, q) \<and> same_reps p q"
proof (induction "length p - u" arbitrary: p u rule: less_induct)
  case less
  show ?case
  proof (cases "p ! u = u")
    case True
    then show ?thesis using less(2) by (subst find_unit.simps) (simp add: rep_fix same_reps_refl)
  next
    case False
    let ?q = "p[u := p ! (p ! u)]"
    have h: "same_reps p ?q" by (rule halving [OF less(2,3)])
    have pu: "u < p ! u" "p ! u < length p" "p ! u \<le> p ! (p ! u)" "p ! (p ! u) < length p"
      using less(2,3) False by (auto simp: climbs_def le_less)
    have qu: "?q ! u = p ! (p ! u)" using less(3) by simp
    obtain r where r: "find_unit ?q (?q ! u) = Some (rep ?q (?q ! u), r)" "same_reps ?q r"
    proof -
      have "length ?q - ?q ! u < length p - u" using pu qu by (simp add: diff_less_mono2)
      moreover have "climbs ?q" "?q ! u < length ?q" using h pu qu by (simp_all add: same_reps_def)
      ultimately show ?thesis using less(1) that by blast
    qed
    have "rep ?q (?q ! u) = rep p u"
      using h rep_step [of ?q u] less(3) by (simp add: same_reps_def)
    moreover have "find_unit p u = find_unit ?q (?q ! u)"
      using False by (subst find_unit.simps) (simp add: Let_def)
    ultimately show ?thesis using r same_reps_trans [OF h r(2)] by auto
  qed
qed

section \<open>Tiles\<close>

text \<open>A tile: its unit (\<open>None\<close> for a slice of the original), the interval of the original text it
  covers, and its pieces in the current text.\<close>

type_synonym tile = "nat option \<times> nat \<times> nat \<times> piece list"

abbreviation pieces_of :: "tile list \<Rightarrow> piece list" where
  "pieces_of ts \<equiv> concat (map (\<lambda>t. snd (snd (snd t))) ts)"

fun tiled :: "nat \<Rightarrow> nat \<Rightarrow> tile list \<Rightarrow> bool" where
  "tiled a n [] \<longleftrightarrow> a = n"
| "tiled a n ((r, c, d, ps) # ts) \<longleftrightarrow> c = a \<and> c < d \<and> tiled d n ts"

definition slice :: "string \<Rightarrow> nat \<Rightarrow> nat \<Rightarrow> string" where
  "slice s a b = take (b - a) (drop a s)"

definition tile_ok :: "string \<Rightarrow> span_state \<Rightarrow> tile \<Rightarrow> bool" where
  "tile_ok s st t = (case t of (r, a, b, ps) \<Rightarrow> a < b \<and> b \<le> length s \<and> list_all (\<lambda>p. body p \<noteq> []) ps \<and>
     (case r of None \<Rightarrow> ps = [(None, a, slice s a b)]
      | Some u \<Rightarrow> u < length (sp_parent st) \<and> rep (sp_parent st) u = u \<and>
          sp_lo st ! u = a \<and> sp_hi st ! u = b \<and>
          list_all (\<lambda>p. \<exists>v. fst p = Some v \<and> v < length (sp_parent st) \<and> rep (sp_parent st) v = u) ps))"

lemma tile_ok_None: "tile_ok s st (None, a, b, ps) \<longleftrightarrow>
    a < b \<and> b \<le> length s \<and> ps = [(None, a, slice s a b)]"
  by (auto simp: tile_ok_def slice_def)

definition in_unit :: "span_state \<Rightarrow> nat \<Rightarrow> piece \<Rightarrow> bool" where
  "in_unit st u p \<longleftrightarrow> body p \<noteq> [] \<and>
     (\<exists>v. fst p = Some v \<and> v < length (sp_parent st) \<and> rep (sp_parent st) v = u)"

lemma tile_ok_Some: "tile_ok s st (Some u, a, b, ps) \<longleftrightarrow> a < b \<and> b \<le> length s \<and>
    u < length (sp_parent st) \<and> rep (sp_parent st) u = u \<and> sp_lo st ! u = a \<and> sp_hi st ! u = b \<and>
    (\<forall>p\<in>set ps. in_unit st u p)"
  by (auto simp: tile_ok_def list_all_iff in_unit_def)

text \<open>A unit that lies inside a tile of units.\<close>

definition inside :: "span_state \<Rightarrow> nat \<Rightarrow> tile \<Rightarrow> bool" where
  "inside st u t = (case t of (r, a, b, ps) \<Rightarrow>
     r \<noteq> None \<and> a \<le> sp_lo st ! u \<and> sp_lo st ! u < sp_hi st ! u \<and> sp_hi st ! u \<le> b)"

definition state_ok :: "span_state \<Rightarrow> bool" where
  "state_ok st \<longleftrightarrow> climbs (sp_parent st) \<and> length (sp_lo st) = length (sp_parent st) \<and>
     length (sp_hi st) = length (sp_parent st) \<and>
     list_all (\<lambda>g. g < length (sp_parent st)) (sp_ghosts st)"

definition good :: "string \<Rightarrow> span_state \<Rightarrow> tile list \<Rightarrow> bool" where
  "good s st ts \<longleftrightarrow> state_ok st \<and> tiled 0 (length s) ts \<and> list_all (tile_ok s st) ts \<and>
     list_all (\<lambda>g. list_ex (inside st (rep (sp_parent st) g)) ts) (sp_ghosts st) \<and>
     list_all (\<lambda>(r, a, b, ps). ps = [] \<longrightarrow> r \<in> (Some \<circ> rep (sp_parent st)) ` set (sp_ghosts st)) ts"

lemma good_empty:
  assumes "good s st ts" and "(x, c, d, []) \<in> set ts"
  shows "\<exists>h\<in>set (sp_ghosts st). x = Some (rep (sp_parent st) h)"
proof -
  have "\<forall>(r, a, b, ps)\<in>set ts. ps = [] \<longrightarrow> r \<in> (Some \<circ> rep (sp_parent st)) ` set (sp_ghosts st)"
    using assms(1) by (simp add: good_def list_all_iff)
  from bspec [OF this assms(2)] show ?thesis by auto
qed

lemma good_ghost:
  "good s st ts \<Longrightarrow> h \<in> set (sp_ghosts st) \<Longrightarrow> \<exists>t\<in>set ts. inside st (rep (sp_parent st) h) t"
  by (simp add: good_def list_all_iff list_ex_iff)

lemma tiled_append: "tiled a n (ts @ us) \<longleftrightarrow> (\<exists>m. tiled a m ts \<and> tiled m n us)"
  by (induction a n ts rule: tiled.induct) auto

lemma tiled_le: "tiled a n ts \<Longrightarrow> a \<le> n"
  by (induction a n ts rule: tiled.induct) auto

section \<open>Cutting the pieces at a place\<close>

abbreviation text_of :: "piece list \<Rightarrow> string" where
  "text_of ps \<equiv> concat (map body ps)"

abbreviation filled :: "piece list \<Rightarrow> bool" where
  "filled ps \<equiv> list_all (\<lambda>p. body p \<noteq> []) ps"

fun cut_at :: "nat \<Rightarrow> piece list \<Rightarrow> piece list \<times> piece list" where
  "cut_at k [] = ([], [])"
| "cut_at k (p # ps) =
     (if k = 0 then ([], p # ps)
      else if length (body p) \<le> k then
        (let (l, r) = cut_at (k - length (body p)) ps in (p # l, r))
      else ([cut p 0 k], cut p k (length (body p)) # ps))"

lemma body_cut [simp]: "body (cut p a b) = take (b - a) (drop a (body p))" "fst (cut p a b) = fst p"
  by (simp_all add: cut_def split: prod.split)

lemma cut_at_0 [simp]: "cut_at 0 ps = ([], ps)"
  by (cases ps) simp_all

lemma cut_at_text:
  "text_of (fst (cut_at k ps)) = take k (text_of ps)" "text_of (snd (cut_at k ps)) = drop k (text_of ps)"
  by (induction k ps rule: cut_at.induct) (auto simp: Let_def case_prod_unfold)

lemma cut_at_filled: "filled ps \<Longrightarrow> filled (fst (cut_at k ps)) \<and> filled (snd (cut_at k ps))"
  by (induction k ps rule: cut_at.induct) (auto simp: Let_def case_prod_unfold)

lemma skip_pieces_cut: "filled ps \<Longrightarrow> offset \<le> ms \<Longrightarrow> skip_pieces ms offset ps = cut_at (ms - offset) ps"
proof (induction ms offset ps rule: skip_pieces.induct)
  case (2 ms offset p queue)
  have "length (body p) \<noteq> 0" using 2(2) by simp
  then show ?case using 2 by (auto simp: le_diff_conv2 add.commute)
qed simp

fun eat_list :: "piece list \<Rightarrow> eaten \<Rightarrow> eaten option" where
  "eat_list [] e = Some e"
| "eat_list (p # ps) e = Option.bind (eat_piece p (length (body p)) e) (eat_list ps)"

lemma eat_piece_cut: "k \<le> length (body p) \<Longrightarrow> eat_piece (cut p 0 k) k e = eat_piece p k e"
  by (auto simp: eat_piece_def cut_def split: prod.split option.split)

lemma eat_cut:
  "filled ps \<Longrightarrow> k \<le> length (text_of ps) \<Longrightarrow>
    eat (offset + k) offset ps e = Option.bind (eat_list (fst (cut_at k ps)) e)
      (\<lambda>e. Some (e, offset + k, snd (cut_at k ps)))"
proof (induction ps arbitrary: k offset e)
  case (Cons p ps)
  consider "k = 0" | "0 < k" "length (body p) \<le> k" | "0 < k" "k < length (body p)" by linarith
  then show ?case
  proof cases
    case 2
    define j where "j = k - length (body p)"
    have k: "k = length (body p) + j" using 2 by (simp add: j_def)
    have "eat (offset + k) (offset + length (body p)) ps e' = Option.bind (eat_list (fst (cut_at j ps)) e')
        (\<lambda>e. Some (e, offset + k, snd (cut_at j ps)))" for e'
      using Cons.IH [of j "offset + length (body p)" e'] Cons.prems k by (simp add: add.assoc)
    then show ?thesis using 2 k
      by (cases "eat_piece p (length (body p)) e") (simp_all add: Let_def case_prod_unfold)
  next
    case 3
    have c: "length (take k (body p)) = k" using 3 by simp
    show ?thesis using 3 c eat_piece_cut [of k p e]
      by (cases "eat_piece p k e") (simp_all add: Let_def min_def)
  qed simp
qed simp

text \<open>What eating a list of pieces gives.\<close>

definition is_least :: "nat option \<Rightarrow> nat set \<Rightarrow> bool" where
  "is_least b C \<longleftrightarrow> (case b of None \<Rightarrow> C = {} | Some n \<Rightarrow> n \<in> C \<and> (\<forall>x\<in>C. n \<le> x))"

definition is_greatest :: "nat option \<Rightarrow> nat set \<Rightarrow> bool" where
  "is_greatest b C \<longleftrightarrow> (case b of None \<Rightarrow> C = {} | Some n \<Rightarrow> n \<in> C \<and> (\<forall>x\<in>C. x \<le> n))"

definition starts :: "piece list \<Rightarrow> nat set" where
  "starts ps = {a. \<exists>t. (None, a, t) \<in> set ps}"

definition ends :: "piece list \<Rightarrow> nat set" where
  "ends ps = {a + length t | a t. (None, a, t) \<in> set ps}"

definition units :: "piece list \<Rightarrow> nat set" where
  "units ps = {u. \<exists>a t. (Some u, a, t) \<in> set ps}"

lemma piece_sets [simp]:
  "starts [] = {}" "ends [] = {}" "units [] = {}"
  "starts ((None, a, t) # ps) = insert a (starts ps)" "starts ((Some u, a, t) # ps) = starts ps"
  "ends ((None, a, t) # ps) = insert (a + length t) (ends ps)" "ends ((Some u, a, t) # ps) = ends ps"
  "units ((None, a, t) # ps) = units ps" "units ((Some u, a, t) # ps) = insert u (units ps)"
  by (auto simp: starts_def ends_def units_def)

lemma piece_mem:
  "(Some u, a, t) \<in> set ps \<Longrightarrow> u \<in> units ps" "(None, a, t) \<in> set ps \<Longrightarrow> a \<in> starts ps"
  "(None, a, t) \<in> set ps \<Longrightarrow> a + length t \<in> ends ps"
  by (auto simp: units_def starts_def ends_def)

lemma least_with: "is_least b C \<Longrightarrow> is_least (min_with b n) (insert n C)"
  by (auto simp: is_least_def min_with_def min_def split: option.splits)

lemma greatest_with: "is_greatest b C \<Longrightarrow> is_greatest (max_with b n) (insert n C)"
  by (auto simp: is_greatest_def max_with_def max_def split: option.splits)

lemma eat_list_spec:
  assumes "climbs (et_parent e)" and "\<forall>u\<in>units ps. u < length (et_parent e)"
    and "is_least (et_first e) C" and "is_greatest (et_last e) D"
  shows "\<exists>e'. eat_list ps e = Some e' \<and> same_reps (et_parent e) (et_parent e') \<and>
    set (et_roots e') = set (et_roots e) \<union> rep (et_parent e) ` units ps \<and>
    is_least (et_first e') (C \<union> starts ps) \<and> is_greatest (et_last e') (D \<union> ends ps)"
  using assms
proof (induction ps arbitrary: e C D)
  case Nil
  then show ?case by (simp add: same_reps_refl)
next
  case (Cons p ps)
  obtain u a t where p: "p = (u, a, t)" by (cases p)
  show ?case
  proof (cases u)
    case None
    let ?e = "e\<lparr>et_first := min_with (et_first e) a, et_last := max_with (et_last e) (a + length t)\<rparr>"
    have "is_least (et_first ?e) (insert a C)" "is_greatest (et_last ?e) (insert (a + length t) D)"
      using Cons.prems by (simp_all add: least_with greatest_with)
    then show ?thesis using Cons.IH [of ?e "insert a C" "insert (a + length t) D"] Cons.prems(1,2)
      by (simp add: p None eat_piece_def)
  next
    case (Some v)
    obtain q where q: "find_unit (et_parent e) v = Some (rep (et_parent e) v, q)" "same_reps (et_parent e) q"
      using find_unit_rep [OF Cons.prems(1), of v] Cons.prems(2) by (auto simp: p Some)
    let ?e = "e\<lparr>et_roots := List.insert (rep (et_parent e) v) (et_roots e), et_parent := q\<rparr>"
    have q': "climbs q" "length q = length (et_parent e)" "\<And>u. u < length (et_parent e) \<Longrightarrow> rep q u = rep (et_parent e) u"
      using q(2) by (simp_all add: same_reps_def)
    obtain e' where e': "eat_list ps ?e = Some e'" "same_reps q (et_parent e')"
      "set (et_roots e') = set (et_roots ?e) \<union> rep q ` units ps"
      "is_least (et_first e') (C \<union> starts ps)" "is_greatest (et_last e') (D \<union> ends ps)"
      using Cons.IH [of ?e C D] q' Cons.prems by (auto simp: p Some)
    have "rep q ` units ps = rep (et_parent e) ` units ps"
      using Cons.prems(2) q'(3) by (auto simp: p Some)
    then show ?thesis using e' q same_reps_trans [OF q(2) e'(2)]
      by (auto simp: p Some eat_piece_def)
  qed
qed

lemma is_least_Min: "is_least (Some (fold min ys y)) (insert y (set ys))"
proof -
  have "fold min ys y = Min (insert y (set ys))" using Min.set_eq_fold [of y ys] by simp
  then show ?thesis using Min_in [of "insert y (set ys)"] Min_le [of "insert y (set ys)"]
    by (simp only: is_least_def option.case) blast
qed

lemma is_greatest_Max: "is_greatest (Some (fold max ys y)) (insert y (set ys))"
proof -
  have "fold max ys y = Max (insert y (set ys))" using Max.set_eq_fold [of y ys] by simp
  then show ?thesis using Max_in [of "insert y (set ys)"] Max_ge [of "insert y (set ys)"]
    by (simp only: is_greatest_def option.case) blast
qed

lemma bounds_min:
  assumes "is_least b C"
  shows "is_least (bounds min xs b) (set xs \<union> C)"
proof (cases xs)
  case Nil
  then show ?thesis using assms by (cases b) (auto simp: bounds_def is_least_def)
next
  case (Cons y ys)
  show ?thesis
  proof (cases b)
    case None
    then show ?thesis using assms Cons is_least_Min [of ys y] by (simp add: bounds_def is_least_def)
  next
    case (Some n)
    then show ?thesis using assms Cons is_least_Min [of "ys @ [n]" y]
      by (auto simp: bounds_def is_least_def)
  qed
qed

lemma bounds_max:
  assumes "is_greatest b C"
  shows "is_greatest (bounds max xs b) (set xs \<union> C)"
proof (cases xs)
  case Nil
  then show ?thesis using assms by (cases b) (auto simp: bounds_def is_greatest_def)
next
  case (Cons y ys)
  show ?thesis
  proof (cases b)
    case None
    then show ?thesis using assms Cons is_greatest_Max [of ys y] by (simp add: bounds_def is_greatest_def)
  next
    case (Some n)
    then show ?thesis using assms Cons is_greatest_Max [of "ys @ [n]" y]
      by (auto simp: bounds_def is_greatest_def)
  qed
qed

section \<open>Cutting keeps the tiles\<close>

lemma concat_left:
  "concat xss = A @ Y \<Longrightarrow> Y \<noteq> [] \<Longrightarrow>
    \<exists>S x T L l. xss = S @ x # T \<and> x = L @ l \<and> l \<noteq> [] \<and> A = concat S @ L \<and> Y = l @ concat T"
proof (induction xss arbitrary: A)
  case (Cons x xss)
  show ?case
  proof (cases "length x \<le> length A")
    case True
    then obtain A' where A': "A = x @ A'" using Cons.prems(1)
      by (auto simp: append_eq_append_conv2)
    then have "concat xss = A' @ Y" using Cons.prems(1) by simp
    from Cons.IH [OF this Cons.prems(2)] obtain S z T L l where
      "xss = S @ z # T \<and> z = L @ l \<and> l \<noteq> [] \<and> A' = concat S @ L \<and> Y = l @ concat T" by blast
    then have "x # xss = (x # S) @ z # T \<and> z = L @ l \<and> l \<noteq> [] \<and> A = concat (x # S) @ L \<and> Y = l @ concat T"
      using A' by simp
    then show ?thesis by blast
  next
    case False
    then obtain l where l: "x = A @ l" "l \<noteq> []" using Cons.prems(1)
      by (auto simp: append_eq_append_conv2)
    then have "Y = l @ concat xss" using Cons.prems(1) by simp
    then have "x # xss = [] @ x # xss \<and> x = A @ l \<and> l \<noteq> [] \<and> A = concat [] @ A \<and> Y = l @ concat xss"
      using l by simp
    then show ?thesis by blast
  qed
qed simp

lemma concat_right:
  "concat xss = Y @ B \<Longrightarrow> Y \<noteq> [] \<Longrightarrow>
    \<exists>S x T r R. xss = S @ x # T \<and> x = r @ R \<and> r \<noteq> [] \<and> Y = concat S @ r \<and> B = R @ concat T"
proof (induction xss arbitrary: Y)
  case (Cons x xss)
  show ?case
  proof (cases "length x < length Y")
    case True
    then obtain Y' where Y': "Y = x @ Y'" "Y' \<noteq> []" using Cons.prems(1)
      by (auto simp: append_eq_append_conv2)
    then have "concat xss = Y' @ B" using Cons.prems(1) by simp
    from Cons.IH [OF this Y'(2)] obtain S z T r R where
      "xss = S @ z # T \<and> z = r @ R \<and> r \<noteq> [] \<and> Y' = concat S @ r \<and> B = R @ concat T" by blast
    then have "x # xss = (x # S) @ z # T \<and> z = r @ R \<and> r \<noteq> [] \<and> Y = concat (x # S) @ r \<and> B = R @ concat T"
      using Y' by simp
    then show ?thesis by blast
  next
    case False
    then obtain R where R: "x = Y @ R" using Cons.prems(1)
      by (auto simp: append_eq_append_conv2)
    then have "B = R @ concat xss" using Cons.prems(1) by simp
    then have "x # xss = [] @ x # xss \<and> x = Y @ R \<and> Y \<noteq> [] \<and> Y = concat [] @ Y \<and> B = R @ concat xss"
      using R Cons.prems(2) by simp
    then show ?thesis by blast
  qed
qed simp

text \<open>Slices.\<close>

lemma slice_length: "a \<le> b \<Longrightarrow> b \<le> length s \<Longrightarrow> length (slice s a b) = b - a"
  by (simp add: slice_def)

lemma take_slice: "k \<le> b - a \<Longrightarrow> take k (slice s a b) = slice s a (a + k)"
  by (simp add: slice_def min_def)

lemma drop_slice: "drop k (slice s a b) = slice s (a + k) b"
  by (simp add: slice_def drop_take add.commute)

lemma slice_append: "a \<le> b \<Longrightarrow> b \<le> c \<Longrightarrow> slice s a b @ slice s b c = slice s a c"
proof -
  assume ab: "a \<le> b" "b \<le> c"
  have "slice s a c = take (b - a) (slice s a c) @ drop (b - a) (slice s a c)" by simp
  then show ?thesis using ab by (simp add: take_slice drop_slice)
qed

lemma cut_tile:
  assumes g: "good s st ts" and p: "pieces_of ts = A @ p # B" and k: "0 < k" "k < length (body p)"
  shows "\<exists>ts'. good s st ts' \<and> pieces_of ts' = A @ cut p 0 k # cut p k (length (body p)) # B"
proof -
  obtain Ss x Ts L l where x: "map (\<lambda>t. snd (snd (snd t))) ts = Ss @ x # Ts" "x = L @ l" "l \<noteq> []"
      "A = concat Ss @ L" "p # B = l @ concat Ts"
    using concat_left [of _ A "p # B", OF p] by blast
  obtain S t T where t: "ts = S @ t # T" "map (\<lambda>t. snd (snd (snd t))) S = Ss" "snd (snd (snd t)) = x"
      "map (\<lambda>t. snd (snd (snd t))) T = Ts"
    using x(1) by (auto simp: map_eq_append_conv map_eq_Cons_conv)
  obtain r a b ps where tt: "t = (r, a, b, ps)" by (cases t)
  obtain R where R: "l = p # R" "B = R @ concat Ts" using x(3,5) by (cases l) auto
  have ps: "ps = L @ p # R" using t(3) tt x(2) R(1) by simp
  have ok: "tile_ok s st (r, a, b, ps)" using g t(1) tt by (simp add: good_def)
  let ?c = "[cut p 0 k, cut p k (length (body p))]"
  have fill: "body (cut p 0 k) \<noteq> []" "body (cut p k (length (body p))) \<noteq> []" using k by auto
  show ?thesis
  proof (cases r)
    case None
    then have p': "p = (None, a, slice s a b)" "L = []" "R = []" and ab: "a < b" "b \<le> length s"
      using ok ps by (auto simp: tile_ok_def Cons_eq_append_conv append_eq_Cons_conv)
    have len: "length (slice s a b) = b - a" using ab by (simp add: slice_length)
    then have kb: "k < b - a" using k p' by simp
    have c: "cut p 0 k = (None, a, slice s a (a + k))"
      "cut p k (length (body p)) = (None, a + k, slice s (a + k) b)"
      using kb len by (simp_all add: p' cut_def take_slice drop_slice slice_length)
    let ?ts = "S @ [(None, a, a + k, [cut p 0 k]), (None, a + k, b, [cut p k (length (body p))])] @ T"
    have "good s st ?ts" using g kb k ab fill unfolding t(1) tt None c
      by (auto simp: good_def tiled_append tile_ok_def inside_def slice_def)
    moreover have "pieces_of ?ts = A @ cut p 0 k # cut p k (length (body p)) # B"
      using x(4) R(2) t(2,4) p'(2,3) by simp
    ultimately show ?thesis by blast
  next
    case (Some u)
    let ?ts = "S @ (r, a, b, L @ ?c @ R) # T"
    have "good s st ?ts" using g fill ok ps unfolding t(1) tt Some
      by (auto simp: good_def tiled_append tile_ok_def inside_def)
    moreover have "pieces_of ?ts = A @ cut p 0 k # cut p k (length (body p)) # B"
      using x(4) R(2) t(2,4) by simp
    ultimately show ?thesis by blast
  qed
qed

lemma cut_at_tiles:
  "good s st ts \<Longrightarrow> pieces_of ts = A @ ps \<Longrightarrow> filled ps \<Longrightarrow>
    \<exists>ts'. good s st ts' \<and> pieces_of ts' = A @ fst (cut_at k ps) @ snd (cut_at k ps)"
proof (induction k ps arbitrary: A ts rule: cut_at.induct)
  case (2 k p ps)
  consider "k = 0" | "0 < k" "length (body p) \<le> k" | "0 < k" "k < length (body p)" by linarith
  then show ?case
  proof cases
    case 1
    then show ?thesis using 2(2,3) by auto
  next
    case 2
    then show ?thesis using "2.IH" [of ts "A @ [p]"] "2.prems" by (auto simp: Let_def case_prod_unfold)
  next
    case 3
    then show ?thesis using cut_tile [OF "2.prems"(1,2) 3] by simp
  qed
qed auto

section \<open>A match joins the tiles it meets\<close>

lemma fold_update:
  "length (fold (\<lambda>r ps. ps[r := v]) rs ps) = length ps"
  "i < length ps \<Longrightarrow> fold (\<lambda>r ps. ps[r := v]) rs ps ! i = (if i \<in> set rs then v else ps ! i)"
  by (induction rs arbitrary: ps) auto

lemma union_reps:
  assumes c: "climbs q" and rs: "\<forall>r\<in>set rs. r < length q \<and> rep q r = r"
  defines "p \<equiv> fold (\<lambda>r ps. ps[r := length q]) rs (q @ [length q])"
  shows "climbs p" "length p = Suc (length q)" "rep p (length q) = length q"
    "v < length q \<Longrightarrow> rep p v = (if rep q v \<in> set rs then length q else rep q v)"
proof -
  let ?U = "length q"
  show len: "length p = Suc ?U" by (simp add: p_def fold_update)
  have nth: "p ! i = (if i \<in> set rs then ?U else if i < ?U then q ! i else ?U)" if "i < Suc ?U" for i
    using that by (auto simp: p_def fold_update nth_append)
  have U: "p ! ?U = ?U" using rs by (simp add: nth)
  have cl: "i \<le> p ! i \<and> p ! i < Suc ?U" if "i < Suc ?U" for i
    using c that nth [OF that] by (cases "i < ?U") (auto simp: climbs_def less_Suc_eq)
  then show cp: "climbs p" by (simp add: climbs_def len)
  show rU: "rep p ?U = ?U" by (rule rep_fix [OF U])
  have "v < ?U \<Longrightarrow> rep p v = (if rep q v \<in> set rs then ?U else rep q v)" for v
  proof (induction "?U - v" arbitrary: v rule: less_induct)
    case less
    have step: "rep p (p ! v) = rep p v" using less(2) len by (intro rep_step [OF cp]) simp
    consider "v \<in> set rs" | "v \<notin> set rs" "q ! v = v" | "v \<notin> set rs" "v < q ! v" "q ! v < ?U"
      using c less(2) by (fastforce simp: climbs_def le_less)
    then show ?case
    proof cases
      case 1
      then show ?thesis using step nth [of v] less(2) rU rs by auto
    next
      case 2
      then have "rep q v = v" by (simp add: rep_fix)
      moreover have "p ! v = v" using 2 nth [of v] less(2) by simp
      ultimately show ?thesis using 2 rep_fix [of p v] by simp
    next
      case 3
      then have "rep p (q ! v) = (if rep q (q ! v) \<in> set rs then ?U else rep q (q ! v))"
        using less(1) [of "q ! v"] by simp
      moreover have "p ! v = q ! v" using 3 nth [of v] less(2) by simp
      ultimately show ?thesis using step rep_step [OF c less(2)] by (auto split: if_splits)
    qed
  qed
  then show "v < length q \<Longrightarrow> rep p v = (if rep q v \<in> set rs then length q else rep q v)" by simp
qed

text \<open>The tiles a list of pieces meets: the first and the last are met for certain.\<close>

lemma middle_tiles:
  assumes "pieces_of ts = A @ M @ B" and "M \<noteq> []"
  obtains S mid T L R l r where "ts = S @ mid @ T" "mid \<noteq> []" "A = pieces_of S @ L" "B = R @ pieces_of T"
    "pieces_of mid = L @ M @ R" "snd (snd (snd (hd mid))) = L @ l" "l \<noteq> []"
    "snd (snd (snd (last mid))) = r @ R" "r \<noteq> []" "hd M = hd l" "last M = last r"
proof -
  let ?f = "\<lambda>t. snd (snd (snd t))"
  obtain Ss x Ts L l where x: "map ?f ts = Ss @ x # Ts" "x = L @ l" "l \<noteq> []" "A = concat Ss @ L"
      "M @ B = l @ concat Ts"
    using concat_left [OF assms(1)] assms(2) by auto
  obtain S t T0 where t: "ts = S @ t # T0" "map ?f S = Ss" "?f t = x" "map ?f T0 = Ts"
    using x(1) by (auto simp: map_eq_append_conv map_eq_Cons_conv)
  have "concat (l # Ts) = M @ B" using x(5) by simp
  from concat_right [OF this assms(2)] obtain Ss' y Ts' r R where y: "l # Ts = Ss' @ y # Ts'" "y = r @ R"
      "r \<noteq> []" "M = concat Ss' @ r" "B = R @ concat Ts'" by auto
  from arg_cong [OF x(5), of hd] have hl: "hd M = hd l" using assms(2) x(3) by simp
  have lr: "last M = last r" using y(3,4) by simp
  show ?thesis
  proof (cases Ss')
    case Nil
    then have "?f t = L @ r @ R" "Ts' = Ts" using y(1,2) x(2) t(3) by auto
    then show ?thesis using that [of S "[t]" T0 L R l "L @ r"] t x y Nil hl lr by auto
  next
    case (Cons z Ss'')
    then have z: "z = l" "Ts = Ss'' @ y # Ts'" using y(1) by auto
    then obtain U u T where u: "T0 = U @ u # T" "map ?f U = Ss''" "?f u = y" "map ?f T = Ts'"
      using t(4) by (auto simp: map_eq_append_conv map_eq_Cons_conv)
    then show ?thesis using that [of S "t # U @ [u]" T L R l r] t x y Cons z hl lr by auto
  qed
qed

lemma tiled_mem: "tiled a n ts \<Longrightarrow> (r, c, d, ps) \<in> set ts \<Longrightarrow> a \<le> c \<and> c < d \<and> d \<le> n"
proof (induction a n ts rule: tiled.induct)
  case (2 a n r' c' d' ps' ts)
  then show ?case using tiled_le [of d' n ts] by fastforce
qed simp

lemma tiled_ends:
  "tiled a n ts \<Longrightarrow> ts \<noteq> [] \<Longrightarrow> fst (snd (hd ts)) = a \<and> fst (snd (snd (last ts))) = n"
  by (induction a n ts rule: tiled.induct) (auto split: if_splits)

text \<open>What a piece of a tile says of the tile.\<close>

lemma tile_piece:
  assumes "tile_ok s st (r, a, b, ps)" and "(x, c, t) \<in> set ps"
  shows "x = None \<Longrightarrow> r = None \<and> c = a \<and> c + length t = b"
    "x = Some v \<Longrightarrow> v < length (sp_parent st) \<and> r = Some (rep (sp_parent st) v) \<and>
      sp_lo st ! rep (sp_parent st) v = a \<and> sp_hi st ! rep (sp_parent st) v = b"
  using assms by (auto simp: tile_ok_def list_all_iff slice_length split: option.splits)

lemma met_bounds:
  assumes g: "good s st (S @ mid @ T)" and mid: "mid \<noteq> []" "pieces_of mid = L @ M @ R" and M: "M \<noteq> []"
    and l: "snd (snd (snd (hd mid))) = L @ l" "l \<noteq> []" and r: "snd (snd (snd (last mid))) = r @ R" "r \<noteq> []"
    and ends: "hd M = hd l" "last M = last r"
  obtains a b where "tiled 0 a S" "tiled a b mid" "tiled b (length s) T" "a < b"
    "is_least (Some a) (nth (sp_lo st) ` rep (sp_parent st) ` units M \<union> starts M)"
    "is_greatest (Some b) (nth (sp_hi st) ` rep (sp_parent st) ` units M \<union> ends M)"
proof -
  let ?rep = "rep (sp_parent st)"
  obtain a b where t: "tiled 0 a S" "tiled a b mid" "tiled b (length s) T"
    using g by (auto simp: good_def tiled_append)
  have ok: "tile_ok s st t" if "t \<in> set mid" for t using g that by (auto simp: good_def list_all_iff)
  have each: "(x = None \<longrightarrow> a \<le> c \<and> c + length t \<le> b) \<and>
      (\<forall>v. x = Some v \<longrightarrow> a \<le> sp_lo st ! ?rep v \<and> sp_hi st ! ?rep v \<le> b)" if xM: "(x, c, t) \<in> set M" for x c t
  proof -
    have "(x, c, t) \<in> set (pieces_of mid)" using xM mid(2) by simp
    then obtain r c' d ps where m: "(r, c', d, ps) \<in> set mid" "(x, c, t) \<in> set ps" by fastforce
    show ?thesis using tile_piece [OF ok [OF m(1)] m(2)] tiled_mem [OF t(2) m(1)] by auto
  qed
  obtain r1 a1 b1 ps1 where h: "hd mid = (r1, a1, b1, ps1)" by (cases "hd mid")
  obtain r2 a2 b2 ps2 where k: "last mid = (r2, a2, b2, ps2)" by (cases "last mid")
  have e: "a1 = a" "b2 = b" using tiled_ends [OF t(2) mid(1)] h k by simp_all
  have hk: "(r1, a1, b1, ps1) \<in> set mid" "(r2, a2, b2, ps2) \<in> set mid"
    using mid(1) h k hd_in_set [of mid] last_in_set [of mid] by simp_all
  have hM: "hd M \<in> set ps1" using l h hd_in_set [of l] ends by simp
  have lM: "last M \<in> set ps2" using r k last_in_set [of r] ends by simp
  obtain x c w where x: "hd M = (x, c, w)" by (cases "hd M")
  obtain y d v where y: "last M = (y, d, v)" by (cases "last M")
  have inM: "(x, c, w) \<in> set M" "(y, d, v) \<in> set M" using M x y hd_in_set [of M] last_in_set [of M] by simp_all
  have "a \<in> nth (sp_lo st) ` ?rep ` units M \<union> starts M"
  proof (cases x)
    case None
    then show ?thesis using tile_piece(1) [OF ok [OF hk(1)], of x c w] hM inM(1) x e piece_mem(2) by auto
  next
    case (Some u)
    then show ?thesis using tile_piece(2) [OF ok [OF hk(1)], of x c w u] hM inM(1) x e
        imageI [OF imageI [OF piece_mem(1)], of u c w M "nth (sp_lo st)" ?rep] by simp
  qed
  moreover have "b \<in> nth (sp_hi st) ` ?rep ` units M \<union> ends M"
  proof (cases y)
    case None
    then show ?thesis using tile_piece(1) [OF ok [OF hk(2)], of y d v] lM inM(2) y e piece_mem(3) [of d v M] by simp
  next
    case (Some u)
    then show ?thesis using tile_piece(2) [OF ok [OF hk(2)], of y d v u] lM inM(2) y e
        imageI [OF imageI [OF piece_mem(1)], of u d v M "nth (sp_hi st)" ?rep] by simp
  qed
  ultimately have "is_least (Some a) (nth (sp_lo st) ` ?rep ` units M \<union> starts M)"
    "is_greatest (Some b) (nth (sp_hi st) ` ?rep ` units M \<union> ends M)"
    using each by (force simp: is_least_def is_greatest_def units_def starts_def ends_def)+
  moreover have "a < b" using tiled_mem [OF t(2) hk(1)] e by simp
  ultimately show ?thesis using that t by blast
qed

definition joined :: "span_state \<Rightarrow> nat list \<Rightarrow> nat list \<Rightarrow> nat \<Rightarrow> nat \<Rightarrow> string \<Rightarrow> span_state" where
  "joined st q rs lo hi new = \<lparr>sp_parent = fold (\<lambda>r ps. ps[r := length q]) rs (q @ [length q]),
     sp_lo = sp_lo st @ [lo], sp_hi = sp_hi st @ [hi],
     sp_ghosts = sp_ghosts st @ (if new = [] then [length q] else [])\<rparr>"

lemma joined_reps:
  assumes st: "state_ok st" and q: "same_reps (sp_parent st) q"
    and rs: "set rs \<subseteq> rep (sp_parent st) ` {u. u < length (sp_parent st)}"
  shows "state_ok (joined st q rs lo hi new)" "length q = length (sp_parent st)"
    "rep (sp_parent (joined st q rs lo hi new)) (length q) = length q"
    "v < length q \<Longrightarrow> rep (sp_parent (joined st q rs lo hi new)) v =
      (if rep (sp_parent st) v \<in> set rs then length q else rep (sp_parent st) v)"
proof -
  have c: "climbs (sp_parent st)" "climbs q" "length q = length (sp_parent st)"
    "\<And>u. u < length q \<Longrightarrow> rep q u = rep (sp_parent st) u"
    using st q by (simp_all add: state_ok_def same_reps_def)
  have "r < length q \<and> rep q r = r" if r: "r \<in> set rs" for r
  proof -
    obtain u where u: "r = rep (sp_parent st) u" "u < length (sp_parent st)" using rs r by blast
    then have "r < length q" using rep_root [OF c(1) u(2)] c(3) by simp
    then show ?thesis using c(4) [of r] rep_rep [OF c(1) u(2)] u(1) by simp
  qed
  then have "\<forall>r\<in>set rs. r < length q \<and> rep q r = r" by blast
  note u = union_reps [OF c(2) this]
  show "length q = length (sp_parent st)" by (rule c(3))
  show "rep (sp_parent (joined st q rs lo hi new)) (length q) = length q"
    using u(3) by (simp add: joined_def)
  show "v < length q \<Longrightarrow> rep (sp_parent (joined st q rs lo hi new)) v =
      (if rep (sp_parent st) v \<in> set rs then length q else rep (sp_parent st) v)"
    using u(4) c(4) by (simp add: joined_def)
  show "state_ok (joined st q rs lo hi new)"
  proof -
    let ?J = "joined st q rs lo hi new"
    have p: "climbs (sp_parent ?J)" "length (sp_parent ?J) = Suc (length q)"
      using u(1,2) by (simp_all add: joined_def)
    have l: "sp_lo ?J = sp_lo st @ [lo]" "sp_hi ?J = sp_hi st @ [hi]"
      "sp_ghosts ?J = sp_ghosts st @ (if new = [] then [length q] else [])" by (simp_all add: joined_def)
    have "g < length (sp_parent ?J)" if "g \<in> set (sp_ghosts ?J)" for g
      using that st c(3) unfolding l p(2) by (auto simp: state_ok_def list_all_iff less_SucI split: if_splits)
    then show ?thesis using st c(3) p l(1,2) by (simp add: state_ok_def list_all_iff)
  qed
qed

lemma tile_outside:
  assumes ok: "tile_ok s st (r, c, d, ps)" and out: "d \<le> a \<or> b \<le> c"
    and st: "state_ok st" and len: "length (sp_parent st) < length (sp_parent st')"
    and lo: "\<And>u. u < length (sp_parent st) \<Longrightarrow> sp_lo st' ! u = sp_lo st ! u \<and> sp_hi st' ! u = sp_hi st ! u"
    and rs: "\<forall>u\<in>rs. a \<le> sp_lo st ! u \<and> sp_hi st ! u \<le> b"
    and R: "\<And>v. v < length (sp_parent st) \<Longrightarrow> rep (sp_parent st') v =
      (if rep (sp_parent st) v \<in> rs then U else rep (sp_parent st) v)"
  shows "tile_ok s st' (r, c, d, ps)" "r = Some u \<Longrightarrow> u \<notin> rs"
proof -
  have u: "u \<notin> rs" if "r = Some u" for u
    using ok out rs that by (auto simp: tile_ok_def)
  then show "r = Some u \<Longrightarrow> u \<notin> rs" .
  show "tile_ok s st' (r, c, d, ps)"
  proof (cases r)
    case None
    then show ?thesis using ok by (simp add: tile_ok_None)
  next
    case (Some w)
    have w: "w < length (sp_parent st)" "rep (sp_parent st) w = w" "w \<notin> rs"
      using ok u [OF Some] by (simp_all add: Some tile_ok_Some)
    have "in_unit st' w p" if "p \<in> set ps" for p
    proof -
      have "in_unit st w p" using ok that unfolding Some tile_ok_Some by blast
      then obtain v where v: "fst p = Some v" "v < length (sp_parent st)" "rep (sp_parent st) v = w" "body p \<noteq> []"
        unfolding in_unit_def by blast
      have "rep (sp_parent st') v = w" using R [OF v(2)] v(3) w(3) by simp
      moreover have "v < length (sp_parent st')" using v(2) len by simp
      ultimately show ?thesis using v(1,4) unfolding in_unit_def by blast
    qed
    moreover have "w < length (sp_parent st')" "rep (sp_parent st') w = w"
      using w R [OF w(1)] len by simp_all
    ultimately show ?thesis using ok lo [OF w(1)] unfolding Some tile_ok_Some by blast
  qed
qed

text \<open>The new tile.\<close>

lemma tile_joined:
  assumes ok: "\<And>t. t \<in> set mid \<Longrightarrow> tile_ok s st t" and mid: "mid \<noteq> []" "pieces_of mid = L @ M @ R"
    and l: "snd (snd (snd (hd mid))) = L @ l" "l \<noteq> []" and r: "snd (snd (snd (last mid))) = r @ R" "r \<noteq> []"
    and M: "hd l \<in> set M" "last r \<in> set M"
    and U: "U < length (sp_parent st')" "rep (sp_parent st') U = U" "sp_lo st' ! U = a" "sp_hi st' ! U = b"
    and ab: "a < b" "b \<le> length s" and len: "length (sp_parent st) \<le> length (sp_parent st')"
    and R: "\<And>v. v < length (sp_parent st) \<Longrightarrow> rep (sp_parent st) v \<in> rep (sp_parent st) ` units M \<Longrightarrow>
      rep (sp_parent st') v = U"
  shows "tile_ok s st' (Some U, a, b, L @ (if new = [] then [] else [(Some U, k, new)]) @ R)"
proof -
  have side: "in_unit st' U p"
    if p: "p \<in> set ps" "p' \<in> set ps" "1 < length ps" "p' \<in> set M" and t: "(x, c, d, ps) \<in> set mid" for p p' x c d ps
  proof -
    have t_ok: "tile_ok s st (x, c, d, ps)" using ok t by simp
    have "x \<noteq> None" using t_ok p(3) by (cases x) (auto simp: tile_ok_None)
    then obtain u where u: "x = Some u" by auto
    have "in_unit st u p" "in_unit st u p'" using t_ok p(1,2) unfolding u tile_ok_Some by blast+
    then obtain v v' where v: "fst p = Some v" "v < length (sp_parent st)" "rep (sp_parent st) v = u" "body p \<noteq> []"
      and v': "fst p' = Some v'" "rep (sp_parent st) v' = u"
      unfolding in_unit_def by blast
    have "v' \<in> units M" using v'(1) p(4) piece_mem(1) by (cases p') auto
    from imageI [OF this, of "rep (sp_parent st)"]
    have "rep (sp_parent st) v \<in> rep (sp_parent st) ` units M" using v(3) v'(2) by simp
    from R [OF v(2) this] show ?thesis using v(1,2,4) len unfolding in_unit_def by auto
  qed
  obtain x c d where h: "hd mid = (x, c, d, L @ l)" using l(1) by (cases "hd mid") auto
  obtain x' c' d' where k: "last mid = (x', c', d', r @ R)" using r(1) by (cases "last mid") auto
  have hk: "(x, c, d, L @ l) \<in> set mid" "(x', c', d', r @ R) \<in> set mid"
    using mid(1) h k hd_in_set [of mid] last_in_set [of mid] by simp_all
  have "1 < length (L @ l)" if "p \<in> set L" for p using that l(2) by (cases L; cases l) auto
  then have "in_unit st' U p" if "p \<in> set L" for p
    using side [OF _ _ _ M(1) hk(1), of p] that hd_in_set [OF l(2)] by simp
  moreover have "1 < length (r @ R)" if "p \<in> set R" for p using that r(2) by (cases R; cases r) auto
  then have "in_unit st' U p" if "p \<in> set R" for p
    using side [OF _ _ _ M(2) hk(2), of p] that last_in_set [OF r(2)] by simp
  moreover have "new \<noteq> [] \<Longrightarrow> in_unit st' U (Some U, k, new)" using U by (simp add: in_unit_def)
  ultimately show ?thesis using U ab by (auto simp: tile_ok_Some)
qed

lemma good_units:
  assumes g: "good s st ts" and u: "u \<in> units (pieces_of ts)"
  shows "u < length (sp_parent st)"
proof -
  obtain c w where "(Some u, c, w) \<in> set (pieces_of ts)" using u by (auto simp: units_def)
  then obtain x d e ps where "(x, d, e, ps) \<in> set ts" "(Some u, c, w) \<in> set ps" by fastforce
  then show ?thesis using tile_piece(2) [of s st x d e ps "Some u" c w u] g
    by (auto simp: good_def list_all_iff)
qed

lemma good_filled: "good s st ts \<Longrightarrow> filled (pieces_of ts)"
  by (fastforce simp: good_def list_all_iff tile_ok_def)

lemma join_tiles:
  assumes g: "good s st ts" and P: "pieces_of ts = A @ M @ B" and M: "M \<noteq> []"
    and q: "same_reps (sp_parent st) q" and rs: "set rs = rep (sp_parent st) ` units M"
    and lo: "is_least (Some lo) (nth (sp_lo st) ` set rs \<union> starts M)"
    and hi: "is_greatest (Some hi) (nth (sp_hi st) ` set rs \<union> ends M)"
  shows "\<exists>ts'. good s (joined st q rs lo hi new) ts' \<and>
    pieces_of ts' = A @ (if new = [] then [] else [(Some (length q), 0, new)]) @ B"
proof -
  obtain S mid T L R l r where m: "ts = S @ mid @ T" "mid \<noteq> []" "A = pieces_of S @ L" "B = R @ pieces_of T"
      "pieces_of mid = L @ M @ R" "snd (snd (snd (hd mid))) = L @ l" "l \<noteq> []"
      "snd (snd (snd (last mid))) = r @ R" "r \<noteq> []" "hd M = hd l" "last M = last r"
    by (rule middle_tiles [OF P M])
  obtain a b where t: "tiled 0 a S" "tiled a b mid" "tiled b (length s) T" "a < b"
      "is_least (Some a) (nth (sp_lo st) ` rep (sp_parent st) ` units M \<union> starts M)"
      "is_greatest (Some b) (nth (sp_hi st) ` rep (sp_parent st) ` units M \<union> ends M)"
    by (rule met_bounds [OF g [unfolded m(1)] m(2,5) M m(6-11)])
  have ab: "lo = a" "hi = b" using lo hi t(5,6) unfolding rs
    by (auto simp: is_least_def is_greatest_def intro: antisym)
  have rsb: "\<forall>u\<in>set rs. a \<le> sp_lo st ! u \<and> sp_hi st ! u \<le> b"
    using t(5,6) unfolding rs by (auto simp: is_least_def is_greatest_def)
  have sok: "state_ok st" and tok: "\<And>t. t \<in> set ts \<Longrightarrow> tile_ok s st t" using g by (auto simp: good_def list_all_iff)
  have units: "u < length (sp_parent st)" if u: "u \<in> units M" for u
    using good_units [OF g] u P by (auto simp: units_def)
  let ?J = "joined st q rs lo hi new" and ?U = "length q"
  have rsu: "set rs \<subseteq> rep (sp_parent st) ` {u. u < length (sp_parent st)}" using rs units by blast
  note J = joined_reps(1) [OF sok q rsu, where lo = lo and hi = hi and new = new] joined_reps(2) [OF sok q rsu]
    joined_reps(3,4) [OF sok q rsu, where lo = lo and hi = hi and new = new]
  have len: "length (sp_parent ?J) = Suc ?U" by (simp add: joined_def fold_update)
  have at: "u < ?U \<Longrightarrow> sp_lo ?J ! u = sp_lo st ! u \<and> sp_hi ?J ! u = sp_hi st ! u"
      "sp_lo ?J ! ?U = a" "sp_hi ?J ! ?U = b" for u
    using sok J(2) ab by (auto simp: joined_def state_ok_def nth_append)
  let ?N = "(Some ?U, a, b, L @ (if new = [] then [] else [(Some ?U, 0, new)]) @ R)"
  have bs: "b \<le> length s" using tiled_le [OF t(3)] .
  have newR: "rep (sp_parent ?J) v = ?U" if "v < length (sp_parent st)"
      "rep (sp_parent st) v \<in> rep (sp_parent st) ` units M" for v
    using J(4) [of v] that J(2) rs by simp
  have N: "tile_ok s ?J ?N"
  proof (rule tile_joined [OF _ m(2,5-9) _ _ _ J(3) at(2,3) t(4) bs _ newR])
    show "t \<in> set mid \<Longrightarrow> tile_ok s st t" for t using tok m(1) by simp
    show "hd l \<in> set M" "last r \<in> set M" using m(10,11) M hd_in_set [of M] last_in_set [of M] by simp_all
  qed (use len J(2) in simp_all)
  have out: "tile_ok s ?J t" "fst t = Some u \<Longrightarrow> u \<notin> set rs" if u: "t \<in> set S \<union> set T" for t u
  proof -
    obtain x c d ps where tt: "t = (x, c, d, ps)" by (cases t)
    have "tile_ok s st (x, c, d, ps)" using tok u m(1) tt by auto
    moreover have "d \<le> a \<or> b \<le> c" using u tt tiled_mem [OF t(1)] tiled_mem [OF t(3)] by blast
    ultimately have o: "tile_ok s ?J (x, c, d, ps)" "\<And>u. x = Some u \<Longrightarrow> u \<notin> set rs"
      using tile_outside [OF _ _ sok _ at(1) rsb J(4)] J(2) len by simp_all
    then show "tile_ok s ?J t" "fst t = Some u \<Longrightarrow> u \<notin> set rs" using tt by auto
  qed
  have ghost: "list_ex (inside ?J (rep (sp_parent ?J) h)) (S @ ?N # T)" if h: "h \<in> set (sp_ghosts st)" for h
  proof (cases "rep (sp_parent st) h \<in> set rs")
    case True
    then show ?thesis using J(4) [of h] h sok J(2) at(2,3) t(4)
      by (auto simp: state_ok_def list_all_iff inside_def)
  next
    case False
    have hl: "h < ?U" "rep (sp_parent st) h < ?U" using h sok J(2) rep_root [of "sp_parent st" h]
      by (auto simp: state_ok_def list_all_iff)
    then have h': "rep (sp_parent ?J) h = rep (sp_parent st) h" using J(4) [of h] False by simp
    obtain x c d ps where i: "(x, c, d, ps) \<in> set ts" "inside st (rep (sp_parent st) h) (x, c, d, ps)"
      using good_ghost [OF g h] by (metis prod_cases4)
    then consider "(x, c, d, ps) \<in> set S \<union> set T" | "(x, c, d, ps) \<in> set mid" using m(1) by auto
    then show ?thesis
    proof cases
      case 1
      then show ?thesis using i(2) at(1) [OF hl(2)] unfolding h' list_ex_iff by (force simp: inside_def)
    next
      case 2
      have "inside ?J (rep (sp_parent st) h) ?N"
        using i(2) tiled_mem [OF t(2) 2] at(1) [OF hl(2)] by (simp add: inside_def)
      then show ?thesis unfolding h' by simp
    qed
  qed
  have empties: "x \<in> (Some \<circ> rep (sp_parent ?J)) ` set (sp_ghosts ?J)"
    if x: "(x, c, d, []) \<in> set S \<union> set T" for x c d
  proof -
    obtain h where h: "h \<in> set (sp_ghosts st)" "x = Some (rep (sp_parent st) h)"
      using good_empty [OF g, of x c d] x m(1) by auto
    have "h < ?U" using h(1) sok J(2) by (auto simp: state_ok_def list_all_iff)
    then have "rep (sp_parent ?J) h = rep (sp_parent st) h" using J(4) [of h] out(2) [OF x] h(2) by simp
    moreover have "h \<in> set (sp_ghosts ?J)" using h(1) by (simp add: joined_def)
    from imageI [OF this, of "Some \<circ> rep (sp_parent ?J)"]
    have "Some (rep (sp_parent ?J) h) \<in> (Some \<circ> rep (sp_parent ?J)) ` set (sp_ghosts ?J)" by simp
    ultimately show ?thesis using h(2) by simp
  qed
  let ?ts = "S @ ?N # T"
  have gh: "set (sp_ghosts ?J) = set (sp_ghosts st) \<union> (if new = [] then {?U} else {})" by (simp add: joined_def)
  have "inside ?J (rep (sp_parent ?J) ?U) ?N" using J(3) at(2,3) t(4) by (simp add: inside_def)
  then have U: "list_ex (inside ?J (rep (sp_parent ?J) ?U)) ?ts" by simp
  have "list_ex (inside ?J (rep (sp_parent ?J) h)) ?ts" if "h \<in> set (sp_ghosts ?J)" for h
  proof (cases "h \<in> set (sp_ghosts st)")
    case False
    then have "h = ?U" using that unfolding gh by (auto split: if_splits)
    then show ?thesis using U by simp
  qed (rule ghost)
  then have "list_all (\<lambda>h. list_ex (inside ?J (rep (sp_parent ?J) h)) ?ts) (sp_ghosts ?J)"
    by (simp only: list_all_iff) blast
  moreover have "list_all (\<lambda>(x, c, d, ps). ps = [] \<longrightarrow> x \<in> (Some \<circ> rep (sp_parent ?J)) ` set (sp_ghosts ?J)) ?ts"
  proof -
    have "x \<in> (Some \<circ> rep (sp_parent ?J)) ` set (sp_ghosts ?J)" if x: "(x, c, d, []) \<in> set ?ts" for x c d
    proof (cases "(x, c, d, []) = ?N")
      case True
      then have "new = []" "x = Some ?U" by (auto split: if_splits)
      then have "?U \<in> set (sp_ghosts ?J)" by (simp add: joined_def)
      from imageI [OF this, of "Some \<circ> rep (sp_parent ?J)"] show ?thesis using J(3) \<open>x = Some ?U\<close> by simp
    next
      case False
      then have "(x, c, d, []) \<in> set S \<union> set T" using x unfolding set_append list.set by blast
      then show ?thesis by (rule empties)
    qed
    then show ?thesis unfolding list_all_iff by blast
  qed
  moreover have "list_all (tile_ok s ?J) ?ts" using out(1) N by (auto simp: list_all_iff)
  moreover have "tiled 0 (length s) ?ts" using t by (auto simp: tiled_append)
  ultimately have "good s ?J ?ts" using J(1) by (simp add: good_def)
  moreover have "pieces_of ?ts = A @ (if new = [] then [] else [(Some ?U, 0, new)]) @ B"
    using m(3,4) by simp
  ultimately show ?thesis by blast
qed

section \<open>The matches of a rule\<close>

lemma eat_all:
  assumes g: "good s st ts" and P: "pieces_of ts = A @ M @ B" and M: "M \<noteq> []"
  obtains e lo hi where
    "eat_list M \<lparr>et_roots = [], et_first = None, et_last = None, et_parent = sp_parent st\<rparr> = Some e"
    "same_reps (sp_parent st) (et_parent e)" "set (et_roots e) = rep (sp_parent st) ` units M"
    "bounds min (map (nth (sp_lo st)) (et_roots e)) (et_first e) = Some lo"
    "is_least (Some lo) (nth (sp_lo st) ` set (et_roots e) \<union> starts M)"
    "bounds max (map (nth (sp_hi st)) (et_roots e)) (et_last e) = Some hi"
    "is_greatest (Some hi) (nth (sp_hi st) ` set (et_roots e) \<union> ends M)"
proof -
  let ?e = "\<lparr>et_roots = [], et_first = None, et_last = None, et_parent = sp_parent st\<rparr>"
  have c: "climbs (sp_parent st)" using g by (simp add: good_def state_ok_def)
  have u: "\<forall>u\<in>units M. u < length (sp_parent st)" using good_units [OF g] P by (auto simp: units_def)
  obtain e where e: "eat_list M ?e = Some e" "same_reps (sp_parent st) (et_parent e)"
      "set (et_roots e) = rep (sp_parent st) ` units M" "is_least (et_first e) (starts M)"
      "is_greatest (et_last e) (ends M)"
    using eat_list_spec [of ?e M "{}" "{}"] c u by (auto simp: is_least_def is_greatest_def)
  note lo = bounds_min [OF e(4), of "map (nth (sp_lo st)) (et_roots e)"]
  note hi = bounds_max [OF e(5), of "map (nth (sp_hi st)) (et_roots e)"]
  obtain x c w M' where "M = (x, c, w) # M'" using M by (cases M) auto
  then have "units M \<noteq> {} \<or> starts M \<noteq> {} \<and> ends M \<noteq> {}" by (cases x) auto
  then obtain l h where "bounds min (map (nth (sp_lo st)) (et_roots e)) (et_first e) = Some l"
      "bounds max (map (nth (sp_hi st)) (et_roots e)) (et_last e) = Some h"
    using lo hi e(3) by (auto simp: is_least_def is_greatest_def split: option.splits)
  then show ?thesis using that [OF e(1-3)] lo hi by simp
qed

lemma take_match_step:
  assumes g: "good s st ts" and P: "pieces_of ts = A @ Q" and tx: "text_of Q = drop offset cur"
    and m: "offset \<le> m_start m" "m_start m < m_end m" "m_end m \<le> length cur"
  shows "\<exists>out Q' st' ts'. take_match new m offset Q st = Some (out, m_end m, Q', st') \<and> good s st' ts' \<and>
    pieces_of ts' = A @ out @ Q' \<and> text_of Q' = drop (m_end m) cur \<and>
    text_of out = take (m_start m - offset) (drop offset cur) @ new \<and> sp_parent st' \<noteq> []"
proof -
  define k where "k = m_end m - m_start m"
  have k: "m_end m = m_start m + k" "0 < k" using m by (simp_all add: k_def)
  have fQ: "filled Q" using good_filled [OF g] P by simp
  obtain sk Q1 where c1: "cut_at (m_start m - offset) Q = (sk, Q1)" by fastforce
  obtain M Q2 where c2: "cut_at k Q1 = (M, Q2)" by fastforce
  have t1: "text_of sk = take (m_start m - offset) (drop offset cur)" "text_of Q1 = drop (m_start m) cur"
    using cut_at_text [of "m_start m - offset" Q] c1 tx m by simp_all
  have t2: "text_of M = take k (drop (m_start m) cur)" "text_of Q2 = drop (m_end m) cur"
    using cut_at_text [of k Q1] c2 t1(2) k by (simp_all add: add.commute)
  have fQ1: "filled Q1" using cut_at_filled [OF fQ, of "m_start m - offset"] c1 by simp
  obtain ts1 where ts1: "good s st ts1" "pieces_of ts1 = (A @ sk) @ Q1"
    using cut_at_tiles [OF g P fQ, of "m_start m - offset"] c1 by auto
  obtain ts2 where ts2: "good s st ts2" "pieces_of ts2 = (A @ sk) @ M @ Q2"
    using cut_at_tiles [OF ts1 fQ1, of k] c2 by auto
  have "M \<noteq> []" using t2(1) k m by auto
  from eat_all [OF ts2 this] obtain e lo hi where
    e: "eat_list M \<lparr>et_roots = [], et_first = None, et_last = None, et_parent = sp_parent st\<rparr> = Some e"
    "same_reps (sp_parent st) (et_parent e)" "set (et_roots e) = rep (sp_parent st) ` units M"
    "bounds min (map (nth (sp_lo st)) (et_roots e)) (et_first e) = Some lo"
    "is_least (Some lo) (nth (sp_lo st) ` set (et_roots e) \<union> starts M)"
    "bounds max (map (nth (sp_hi st)) (et_roots e)) (et_last e) = Some hi"
    "is_greatest (Some hi) (nth (sp_hi st) ` set (et_roots e) \<union> ends M)" by blast
  obtain ts3 where ts3: "good s (joined st (et_parent e) (et_roots e) lo hi new) ts3"
    "pieces_of ts3 = (A @ sk) @ (if new = [] then [] else [(Some (length (et_parent e)), 0, new)]) @ Q2"
    using join_tiles [OF ts2 \<open>M \<noteq> []\<close> e(2,3,5,7), of new] by blast
  have skip: "skip_pieces (m_start m) offset Q = (sk, Q1)" using skip_pieces_cut [OF fQ m(1)] c1 by simp
  have o: "offset + length (text_of sk) = m_start m" using t1(1) m by simp
  have "k \<le> length (text_of Q1)" using t1(2) m k by simp
  then have eat: "eat (m_end m) (m_start m) Q1
      \<lparr>et_roots = [], et_first = None, et_last = None, et_parent = sp_parent st\<rparr> = Some (e, m_end m, Q2)"
    using eat_cut [OF fQ1, of k "m_start m"] e(1) c2 k by simp
  let ?out = "sk @ (if new = [] then [] else [(Some (length (et_parent e)), 0, new)])"
  have "take_match new m offset Q st = Some (?out, m_end m, Q2, joined st (et_parent e) (et_roots e) lo hi new)"
    unfolding take_match_def skip by (simp add: o eat e(4,6) joined_def Let_def del: length_concat)
  moreover have "sp_parent (joined st (et_parent e) (et_roots e) lo hi new) \<noteq> []"
    by (auto simp: joined_def fold_update simp flip: length_0_conv)
  ultimately show ?thesis using ts3 t1(1) t2(2) by auto
qed

lemma matches_ok_le: "matches_ok p n ms \<Longrightarrow> p \<le> n"
  by (induction p n ms rule: matches_ok.induct) auto

lemma matches_ok_weak: "matches_ok p n ms \<Longrightarrow> q \<le> p \<Longrightarrow> matches_ok q n ms"
  by (cases ms) auto

lemma matches_ok_filter: "matches_ok p n ms \<Longrightarrow> matches_ok p n (filter (\<lambda>m. m_start m < m_end m) ms)"
proof (induction p n ms rule: matches_ok.induct)
  case (2 p n m ms)
  then show ?case using matches_ok_weak [of "m_end m" n _ p] by auto
qed simp

lemma re_sub_from:
  assumes "pos \<le> e" "e \<le> length t" "matches_ok e (length t) ms"
  shows "re_sub f t pos ms = take (e - pos) (drop pos t) @ re_sub f t e ms"
proof (cases ms)
  case Nil
  then show ?thesis using assms append_take_drop_id [of "e - pos" "drop pos t"] by simp
next
  case (Cons m ms')
  have "take (m_start m - pos) (drop pos t) =
      take (e - pos) (drop pos t) @ take (m_start m - e) (drop e t)"
    using assms Cons slice_append [of pos e "m_start m" t] by (simp add: slice_def)
  then show ?thesis using Cons by simp
qed

lemma re_sub_nonempty:
  "matches_ok pos (length t) ms \<Longrightarrow> (\<And>m. m_end m = m_start m \<Longrightarrow> f m = []) \<Longrightarrow>
    re_sub f t pos ms = re_sub f t pos (filter (\<lambda>m. m_start m < m_end m) ms)"
proof (induction ms arbitrary: pos)
  case (Cons m ms)
  have ok: "matches_ok (m_end m) (length t) (filter (\<lambda>m. m_start m < m_end m) ms)"
    using Cons.prems(1) matches_ok_filter by simp
  show ?case
  proof (cases "m_start m < m_end m")
    case False
    then have e: "m_end m = m_start m" using Cons.prems(1) by simp
    have "f m = []" by (rule Cons.prems(2) [OF e])
    then show ?thesis using Cons e re_sub_from [OF _ _ ok, of pos] matches_ok_le [of "m_end m" "length t" ms] by simp
  qed (use Cons in simp)
qed simp

lemma take_matches_spec:
  assumes "good s st ts" and "pieces_of ts = A @ Q" and "text_of Q = drop offset cur"
    and "matches_ok offset (length cur) ms" and "\<forall>m\<in>set ms. m_start m < m_end m"
  shows "\<exists>out st' ts'. take_matches r cur ms offset Q st = Some (out, st') \<and> good s st' ts' \<and>
    pieces_of ts' = A @ out \<and> text_of out = re_sub (replacement r cur) cur offset ms \<and>
    (if ms = [] then out = Q \<and> st' = st else sp_parent st' \<noteq> [])"
  using assms
proof (induction ms arbitrary: offset Q st ts A)
  case Nil
  then show ?case by auto
next
  case (Cons m ms)
  have m: "offset \<le> m_start m" "m_start m < m_end m" "m_end m \<le> length cur"
    using Cons.prems(4,5) matches_ok_le by auto
  obtain out Q' st' ts' where a: "take_match (replacement r cur m) m offset Q st = Some (out, m_end m, Q', st')"
      "good s st' ts'" "pieces_of ts' = (A @ out) @ Q'" "text_of Q' = drop (m_end m) cur"
      "text_of out = take (m_start m - offset) (drop offset cur) @ replacement r cur m" "sp_parent st' \<noteq> []"
    using take_match_step [OF Cons.prems(1-3) m, of "replacement r cur m"] by auto
  obtain out2 st2 ts2 where b: "take_matches r cur ms (m_end m) Q' st' = Some (out2, st2)" "good s st2 ts2"
      "pieces_of ts2 = (A @ out) @ out2" "text_of out2 = re_sub (replacement r cur) cur (m_end m) ms"
      "if ms = [] then out2 = Q' \<and> st2 = st' else sp_parent st2 \<noteq> []"
    using Cons.IH [OF a(2-4)] Cons.prems(4,5) by auto
  then show ?case using a(1,5,6) by (auto split: if_splits)
qed

lemma hits_text:
  assumes "pattern_ok (mr_pattern r)"
  shows "re_sub (replacement r cur) cur 0 (hits_of r cur) = substitute r cur"
    "matches_ok 0 (length cur) (hits_of r cur)"
proof -
  have ok: "matches_ok 0 (length cur) (pt_finditer (mr_pattern r) cur)" using assms by (simp add: pattern_ok_def)
  show "re_sub (replacement r cur) cur 0 (hits_of r cur) = substitute r cur"
    unfolding hits_of_def substitute_def by (subst re_sub_nonempty [OF ok]) (simp_all add: replacement_def)
  show "matches_ok 0 (length cur) (hits_of r cur)" using matches_ok_filter [OF ok] by (simp add: hits_of_def)
qed

lemma apply_rule_text:
  "res_text (apply_rule True r res) = (if hits_of r (res_text res) = [] then res_text res
     else substitute r (res_text res))"
  by (auto simp: apply_rule_def Let_def)

definition spans_to :: "string \<Rightarrow> masking_rule list \<Rightarrow> string \<Rightarrow> span_state \<Rightarrow> tile list \<Rightarrow> string \<Rightarrow> bool" where
  "spans_to s rules cur st ts result \<longleftrightarrow>
     (\<exists>st' ts'. span_rules rules (pieces_of ts, cur, st) = Some (pieces_of ts', result, st') \<and>
       good s st' ts' \<and> text_of (pieces_of ts') = result \<and>
       (sp_parent st' = [] \<longrightarrow> result = cur \<and> sp_parent st = []))"

lemma span_rule_step:
  assumes p: "pattern_ok (mr_pattern r)" and g: "good s st ts" and cur: "cur = text_of (pieces_of ts)"
    and hits: "hits_of r cur \<noteq> []"
  obtains st' ts' where "span_rule r (pieces_of ts, cur, st) = Some (pieces_of ts', substitute r cur, st')"
    "good s st' ts'" "text_of (pieces_of ts') = substitute r cur" "sp_parent st' \<noteq> []"
proof -
  have h: "\<forall>m\<in>set (hits_of r cur). m_start m < m_end m" by (simp add: hits_of_def)
  have "pieces_of ts = [] @ pieces_of ts" "text_of (pieces_of ts) = drop 0 cur" by (simp_all add: cur)
  from take_matches_spec [OF g this hits_text(2) [OF p] h, of r] obtain out st' ts' where
    a: "take_matches r cur (hits_of r cur) 0 (pieces_of ts) st = Some (out, st')" "good s st' ts'"
      "pieces_of ts' = out" "text_of out = substitute r cur" "sp_parent st' \<noteq> []"
    using hits hits_text(1) [OF p] by auto
  have "span_rule r (pieces_of ts, cur, st) = Some (pieces_of ts', substitute r cur, st')"
    using a(1,3,4) hits by (simp add: span_rule_def)
  then have "span_rule r (pieces_of ts, cur, st) = Some (pieces_of ts', substitute r cur, st')"
    using a(3) by simp
  from that [OF this a(2)] show ?thesis using a(3-5) by simp
qed

lemma span_rules_spec:
  "list_all (\<lambda>r. pattern_ok (mr_pattern r)) rules \<Longrightarrow> good s st ts \<Longrightarrow> cur = text_of (pieces_of ts) \<Longrightarrow>
    res_text res = cur \<Longrightarrow> spans_to s rules cur st ts (res_text (fold (apply_rule True) rules res))"
proof (induction rules arbitrary: st ts cur res)
  case Nil
  then show ?case by (auto simp: spans_to_def)
next
  case (Cons r rules)
  have p: "pattern_ok (mr_pattern r)" and ps: "list_all (\<lambda>r. pattern_ok (mr_pattern r)) rules"
    using Cons.prems(1) by simp_all
  show ?case
  proof (cases "hits_of r cur = []")
    case True
    then have "span_rule r (pieces_of ts, cur, st) = Some (pieces_of ts, cur, st)"
      "res_text (apply_rule True r res) = cur"
      using Cons.prems(4) by (simp_all add: span_rule_def apply_rule_text)
    then show ?thesis using Cons.IH [OF ps Cons.prems(2,3)] by (simp add: spans_to_def)
  next
    case False
    obtain st' ts' where a: "span_rule r (pieces_of ts, cur, st) = Some (pieces_of ts', substitute r cur, st')"
        "good s st' ts'" "text_of (pieces_of ts') = substitute r cur" "sp_parent st' \<noteq> []"
      by (rule span_rule_step [OF p Cons.prems(2,3) False])
    have "res_text (apply_rule True r res) = substitute r cur"
      using False Cons.prems(4) by (simp add: apply_rule_text)
    from Cons.IH [OF ps a(2) a(3) [symmetric] this] show ?thesis using a(1,4) by (auto simp: spans_to_def)
  qed
qed

section \<open>Collecting the spans\<close>

text \<open>The runs of a list of tiles.\<close>

fun unit_runs :: "tile list \<Rightarrow> (nat \<times> string) list" where
  "unit_runs [] = []"
| "unit_runs ((Some u, a, b, p # ps) # ts) = (u, text_of (p # ps)) # unit_runs ts"
| "unit_runs (t # ts) = unit_runs ts"

lemma span_run_spec:
  assumes "climbs q" and "\<forall>p\<in>set ps. \<exists>v. fst p = Some v \<and> v < length q \<and> rep q v = u"
    and "\<And>v k w rest'. rest = (Some v, k, w) # rest' \<Longrightarrow> v < length q \<and> rep q v \<noteq> u"
  shows "\<exists>q'. span_run q u (ps @ rest) = Some (text_of ps, rest, q') \<and> same_reps q q'"
  using assms
proof (induction ps arbitrary: q)
  case Nil
  show ?case
  proof (cases rest)
    case (Cons p rest')
    obtain x k w where p: "p = (x, k, w)" by (cases p)
    show ?thesis
    proof (cases x)
      case (Some v)
      then have v: "v < length q" "rep q v \<noteq> u" using Nil(3) Cons p by auto
      obtain q' where "find_unit q v = Some (rep q v, q')" "same_reps q q'"
        using find_unit_rep [OF Nil(1) v(1)] by blast
      then show ?thesis using Cons p Some v by simp
    qed (use Nil Cons p same_reps_refl in simp)
  qed (use Nil same_reps_refl in simp)
next
  case (Cons p ps)
  obtain v k w where p: "p = (Some v, k, w)" "v < length q" "rep q v = u"
    using Cons.prems(2) by (cases p) auto
  obtain q1 where q1: "find_unit q v = Some (u, q1)" "same_reps q q1"
    using find_unit_rep [OF Cons.prems(1) p(2)] p(3) by auto
  have c1: "climbs q1" "length q1 = length q" "\<And>v. v < length q \<Longrightarrow> rep q1 v = rep q v"
    using q1(2) by (simp_all add: same_reps_def)
  have "\<forall>p\<in>set ps. \<exists>v. fst p = Some v \<and> v < length q1 \<and> rep q1 v = u"
    using Cons.prems(2) c1 by fastforce
  moreover have "v < length q1 \<and> rep q1 v \<noteq> u" if "rest = (Some v, k, w) # rest'" for v k w rest'
    using Cons.prems(3) [OF that] c1 by simp
  ultimately obtain q' where "span_run q1 u (ps @ rest) = Some (text_of ps, rest, q')" "same_reps q1 q'"
    using Cons.IH [OF c1(1)] by blast
  then show ?case using q1 same_reps_trans [OF q1(2)] by (auto simp: p(1))
qed

lemma pieces_head:
  assumes "list_all (tile_ok s st) ts" and "pieces_of ts = (Some v, k, w) # rest"
  shows "\<exists>u a b ps. (Some u, a, b, ps) \<in> set ts \<and> v < length (sp_parent st) \<and> rep (sp_parent st) v = u"
proof -
  have "(Some v, k, w) \<in> set (pieces_of ts)" using assms(2) by simp
  then obtain x a b ps where t: "(x, a, b, ps) \<in> set ts" "(Some v, k, w) \<in> set ps" by fastforce
  then show ?thesis using tile_piece(2) [of s st x a b ps "Some v" k w v] assms(1)
    by (auto simp: list_all_iff)
qed

lemma runs_spec:
  "list_all (tile_ok s st) ts \<Longrightarrow> tiled a n ts \<Longrightarrow> climbs (sp_parent st) \<Longrightarrow> same_reps (sp_parent st) q \<Longrightarrow>
    \<exists>q'. runs q (pieces_of ts) = Some (unit_runs ts, q') \<and> same_reps (sp_parent st) q'"
proof (induction ts arbitrary: a q)
  case Nil
  then show ?case by simp
next
  case (Cons t ts)
  obtain x c d ps where t: "t = (x, c, d, ps)" by (cases t)
  have tok: "tile_ok s st (x, c, d, ps)" and toks: "list_all (tile_ok s st) ts" and td: "c < d" "tiled d n ts"
    using Cons.prems(1,2) t by auto
  note IH = Cons.IH [OF toks td(2) Cons.prems(3)]
  show ?case
  proof (cases x)
    case None
    then have "ps = [(None, c, slice s c d)]" using tok by (simp add: tile_ok_None)
    then show ?thesis using IH [OF Cons.prems(4)] by (simp add: t None)
  next
    case (Some u)
    show ?thesis
    proof (cases ps)
      case Nil
      then show ?thesis using IH [OF Cons.prems(4)] by (simp add: t Some)
    next
      case (Cons p ps')
      have each: "\<exists>v. fst p = Some v \<and> v < length (sp_parent st) \<and> rep (sp_parent st) v = u" if "p \<in> set ps" for p
        using tok that unfolding Some tile_ok_Some in_unit_def by blast
      obtain v k w where p: "p = (Some v, k, w)" "v < length (sp_parent st)" "rep (sp_parent st) v = u"
        using each [of p] Cons by (cases p) auto
      have q: "climbs q" "length q = length (sp_parent st)" "\<And>v. v < length (sp_parent st) \<Longrightarrow> rep q v = rep (sp_parent st) v"
        using Cons.prems(4) by (simp_all add: same_reps_def)
      obtain q1 where q1: "find_unit q v = Some (u, q1)" "same_reps q q1"
        using find_unit_rep [OF q(1), of v] p(2,3) q by auto
      have s1: "same_reps (sp_parent st) q1" by (rule same_reps_trans [OF Cons.prems(4) q1(2)])
      then have c1: "climbs q1" "length q1 = length (sp_parent st)" "\<And>v. v < length (sp_parent st) \<Longrightarrow> rep q1 v = rep (sp_parent st) v"
        by (simp_all add: same_reps_def)
      have "\<forall>p\<in>set ps'. \<exists>v. fst p = Some v \<and> v < length q1 \<and> rep q1 v = u"
      proof
        fix p' assume "p' \<in> set ps'"
        then obtain v where "fst p' = Some v" "v < length (sp_parent st)" "rep (sp_parent st) v = u"
          using each [of p'] Cons by auto
        then show "\<exists>v. fst p' = Some v \<and> v < length q1 \<and> rep q1 v = u" using c1 by simp
      qed
      moreover have "v < length q1 \<and> rep q1 v \<noteq> u" if r: "pieces_of ts = (Some v, k, w) # rest" for v k w rest
      proof -
        obtain a' b' ps2 where h: "(Some (rep (sp_parent st) v), a', b', ps2) \<in> set ts" "v < length (sp_parent st)"
          using pieces_head [OF toks r] by blast
        have "sp_lo st ! rep (sp_parent st) v = a'" "d \<le> a'"
          using h(1) toks tiled_mem [OF td(2) h(1)] by (auto simp: list_all_iff tile_ok_def)
        moreover have "sp_lo st ! u = c" using tok by (simp add: Some tile_ok_Some)
        ultimately have "rep (sp_parent st) v \<noteq> u" using td(1) by auto
        then show ?thesis using h(2) c1 by simp
      qed
      ultimately obtain q2 where q2: "span_run q1 u (ps' @ pieces_of ts) = Some (text_of ps', pieces_of ts, q2)"
          "same_reps q1 q2"
        using span_run_spec [OF c1(1)] by blast
      obtain q3 where "runs q2 (pieces_of ts) = Some (unit_runs ts, q3)" "same_reps (sp_parent st) q3"
        using IH [OF same_reps_trans [OF s1 q2(2)]] by blast
      then show ?thesis using q1(1) q2(1) by (simp add: t Some Cons p(1))
    qed
  qed
qed

lemma ghost_roots_spec:
  "climbs q \<Longrightarrow> \<forall>g\<in>set gs. g < length q \<Longrightarrow>
    \<exists>found q'. ghost_roots q seen gs = Some (found, q') \<and> distinct found \<and> set found = rep q ` set gs - set seen"
proof (induction gs arbitrary: q seen)
  case (Cons g gs)
  obtain q1 where q1: "find_unit q g = Some (rep q g, q1)" "same_reps q q1"
    using find_unit_rep [OF Cons.prems(1), of g] Cons.prems(2) by auto
  have c1: "climbs q1" "length q1 = length q" "rep q1 ` set gs = rep q ` set gs"
    using q1(2) Cons.prems(2) by (auto simp: same_reps_def intro!: image_cong)
  then have b1: "\<forall>g\<in>set gs. g < length q1" using Cons.prems(2) by simp
  show ?case
  proof (cases "rep q g \<in> set seen")
    case True
    then show ?thesis using Cons.IH [OF c1(1) b1, of seen] q1(1) c1(3) by auto
  next
    case False
    obtain found q' where "ghost_roots q1 (rep q g # seen) gs = Some (found, q')" "distinct found"
        "set found = rep q1 ` set gs - set (rep q g # seen)"
      using Cons.IH [OF c1(1) b1] by blast
    then show ?thesis using False q1(1) c1(3) by auto
  qed
qed auto

section \<open>Merging the spans\<close>

abbreviation span_key :: "span \<Rightarrow> nat \<times> nat" where
  "span_key z \<equiv> (fst z, fst (snd z))"

lemma merge_absorb:
  "\<forall>z\<in>set Z. fst z < e \<Longrightarrow> merge_spans ((a, e, w) # acc) (Z @ X) =
    merge_spans ((a, fold max (map (fst \<circ> snd) Z) e, w @ concat (map (snd \<circ> snd) Z)) # acc) X"
proof (induction Z arbitrary: e w)
  case (Cons z Z)
  obtain c d u where z: "z = (c, d, u)" by (cases z)
  have "\<forall>y\<in>set Z. fst y < max e d" using Cons.prems by auto
  from Cons.IH [OF this, of "w @ u"] show ?case using Cons.prems by (simp add: z max.commute)
qed simp

lemma merge_push:
  "acc = [] \<or> fst (snd (hd acc)) \<le> fst z \<Longrightarrow> merge_spans acc (z # ss) = merge_spans (z # acc) ss"
  by (cases acc; cases z) (auto simp: not_less)

lemma fold_max_bound: "\<forall>x\<in>set xs. x \<le> b \<Longrightarrow> (e :: nat) \<le> b \<Longrightarrow> fold max xs e \<le> b"
  by (induction xs arbitrary: e) auto

lemma fold_max_ge: "(e :: nat) \<le> fold max xs e"
proof (induction xs arbitrary: e)
  case (Cons x xs)
  have "max x e \<le> fold max xs (max x e)" by (rule Cons.IH)
  then show ?case by simp
qed simp

lemma fold_max_mem: "x \<in> set xs \<Longrightarrow> x \<le> fold max xs (e :: nat)"
proof (induction xs arbitrary: e)
  case (Cons y ys)
  then show ?case using fold_max_ge [of "max y e" ys] by auto
qed simp

text \<open>One span and what lies inside it.\<close>

lemma merge_group:
  assumes s: "sorted (map span_key Y)" and m: "mset Y = add_mset (a, b, w) (mset D)" and ab: "a < b"
    and D: "\<forall>z\<in>set D. a \<le> fst z \<and> fst z < fst (snd z) \<and> fst (snd z) \<le> b \<and> snd (snd z) = []"
    and acc: "acc = [] \<or> fst (snd (hd acc)) \<le> a"
  shows "merge_spans acc (Y @ X) = merge_spans ((a, b, w) # acc) X"
proof -
  have mem: "set Y = insert (a, b, w) (set D)" using arg_cong [OF m, of set_mset] by simp
  then have "(a, b, w) \<in> set Y" by simp
  then obtain P Q where Y: "Y = P @ (a, b, w) # Q" by (meson split_list)
  have mPQ: "mset P + mset Q = mset D" using m unfolding Y by simp
  have PQ: "set P \<union> set Q = set D" using arg_cong [OF mPQ, of set_mset] by simp
  have each: "a \<le> fst z \<and> fst z < b \<and> fst (snd z) \<le> b \<and> snd (snd z) = []" if "z \<in> set P \<union> set Q" for z
  proof -
    have "z \<in> set D" using PQ that by blast
    with D have "a \<le> fst z \<and> fst z < fst (snd z) \<and> fst (snd z) \<le> b \<and> snd (snd z) = []" by blast
    then show ?thesis by simp
  qed
  have Pa: "fst z = a" if "z \<in> set P" for z
  proof -
    have "span_key z \<le> (a, b)" using s that by (auto simp: Y sorted_append)
    then have "fst z \<le> a" by auto
    then show ?thesis using each [of z] that by simp
  qed
  have absorb: "merge_spans ((a, b, v) # acc) (Q @ X) = merge_spans ((a, b, v) # acc) X" for v
  proof -
    have "\<forall>z\<in>set Q. fst z < b" using each by blast
    moreover have "fold max (map (fst \<circ> snd) Q) b = b"
      using each by (intro antisym fold_max_bound fold_max_ge) auto
    moreover have "concat (map (snd \<circ> snd) Q) = []" using each by auto
    ultimately show ?thesis using merge_absorb [of Q b a v acc X] by (simp del: concat_eq_Nil_conv)
  qed
  show ?thesis
  proof (cases P)
    case Nil
    then show ?thesis using absorb acc by (simp add: Y merge_push)
  next
    case (Cons z P')
    obtain e where z: "z = (a, e, [])" using Pa [of z] each [of z] Cons by (cases z) auto
    have "(a, e, []) \<in> set D" using PQ Cons z by auto
    from bspec [OF D this] have e: "a < e" "e \<le> b" by simp_all
    let ?Z = "P' @ [(a, b, w)]"
    have "\<forall>z\<in>set ?Z. fst z < e" using Pa Cons e by auto
    moreover have "fold max (map (fst \<circ> snd) ?Z) e = b"
    proof (rule antisym)
      show "fold max (map (fst \<circ> snd) ?Z) e \<le> b" using each Cons e by (intro fold_max_bound) auto
      show "b \<le> fold max (map (fst \<circ> snd) ?Z) e" by (rule fold_max_mem) simp
    qed
    moreover have "concat (map (snd \<circ> snd) ?Z) = w" using each Cons by auto
    ultimately have "merge_spans ((a, e, []) # acc) (?Z @ Q @ X) = merge_spans ((a, b, w) # acc) (Q @ X)"
      using merge_absorb [of ?Z e a "[]" acc "Q @ X"] by (simp only: append_Nil)
    then show ?thesis using absorb acc Cons z by (simp add: Y merge_push)
  qed
qed

lemma sorted_split:
  "sorted (map f Y) \<Longrightarrow> Y = filter (\<lambda>y. f y < b) Y @ filter (\<lambda>y. \<not> f y < (b :: nat)) Y"
proof (induction Y)
  case (Cons y Y)
  have "filter (\<lambda>y. f y < b) Y = []" if "\<not> f y < b"
    using Cons.prems that by (auto simp: filter_empty_conv)
  then show ?case using Cons by (cases "f y < b") auto
qed simp

lemma merge_nested:
  assumes "sorted (map span_key Y)" and "mset Y = mset T + mset D"
    and "sorted_wrt (\<lambda>s t. fst (snd s) \<le> fst t) T" and "\<forall>t\<in>set T. fst t < fst (snd t)"
    and "\<forall>z\<in>set D. snd (snd z) = [] \<and> fst z < fst (snd z) \<and>
      (\<exists>t\<in>set T. fst t \<le> fst z \<and> fst (snd z) \<le> fst (snd t))"
    and "acc = [] \<or> (\<forall>t\<in>set T. fst (snd (hd acc)) \<le> fst t)"
  shows "merge_spans acc Y = rev acc @ T"
  using assms
proof (induction T arbitrary: acc Y D)
  case Nil
  then have "D = []" by (cases D) auto
  then show ?case using Nil by simp
next
  case (Cons t T)
  obtain a b w where t: "t = (a, b, w)" by (cases t)
  let ?in = "\<lambda>z::span. fst z < b"
  have T: "b \<le> fst t'" if "t' \<in> set T" for t' using Cons.prems(3) that t by simp
  have inD: "a \<le> fst z \<and> fst (snd z) \<le> b" if "z \<in> set D" "?in z" for z
    using Cons.prems(5) that T t by fastforce
  have outD: "\<exists>t\<in>set T. fst t \<le> fst z \<and> fst (snd z) \<le> fst (snd t)" if "z \<in> set D" "\<not> ?in z" for z
    using Cons.prems(5) that t by fastforce
  have fT: "filter ?in T = []" "filter (\<lambda>z. \<not> ?in z) T = T"
    using T by (auto simp: filter_empty_conv filter_id_conv not_less)
  have ab: "a < b" using Cons.prems(4) t by simp
  have "mset (filter ?in Y) = filter_mset ?in (mset T + mset D + {#t#})" using Cons.prems(2) by simp
  also have "\<dots> = mset (filter ?in T) + mset (filter ?in D) + {#t#}" using ab t by simp
  finally have m1: "mset (filter ?in Y) = add_mset (a, b, w) (mset (filter ?in D))" using fT t by simp
  have "mset (filter (\<lambda>z. \<not> ?in z) Y) = filter_mset (\<lambda>z. \<not> ?in z) (mset T + mset D + {#t#})"
    using Cons.prems(2) by simp
  also have "\<dots> = mset (filter (\<lambda>z. \<not> ?in z) T) + mset (filter (\<lambda>z. \<not> ?in z) D)" using ab t by simp
  finally have m2: "mset (filter (\<lambda>z. \<not> ?in z) Y) = mset T + mset (filter (\<lambda>z. \<not> ?in z) D)" using fT by simp
  have sf: "sorted (map span_key (filter P Y))" for P using Cons.prems(1) by (rule sorted_filter)
  have "sorted (map fst Y)" using Cons.prems(1) by (induction Y) (auto simp: less_eq_prod_def)
  then have Y: "Y = filter ?in Y @ filter (\<lambda>z. \<not> ?in z) Y" by (rule sorted_split)
  have "merge_spans acc Y = merge_spans ((a, b, w) # acc) (filter (\<lambda>z. \<not> ?in z) Y)"
    by (subst Y, rule merge_group [OF sf m1 ab]) (use Cons.prems(5,6) inD t in auto)
  also have "\<dots> = rev ((a, b, w) # acc) @ T"
    by (rule Cons.IH [OF sf m2]) (use Cons.prems(3-5) T outD in auto)
  finally show ?case by (simp add: t)
qed

section \<open>The spans of the tiles\<close>

fun unit_spans :: "tile list \<Rightarrow> span list" where
  "unit_spans [] = []"
| "unit_spans ((Some u, a, b, ps) # ts) = (a, b, text_of ps) # unit_spans ts"
| "unit_spans ((None, a, b, ps) # ts) = unit_spans ts"

fun tile_units :: "tile list \<Rightarrow> nat list" where
  "tile_units [] = []"
| "tile_units ((Some u, a, b, ps) # ts) = u # tile_units ts"
| "tile_units ((None, a, b, ps) # ts) = tile_units ts"

fun empty_units :: "tile list \<Rightarrow> nat list" where
  "empty_units [] = []"
| "empty_units ((Some u, a, b, []) # ts) = u # empty_units ts"
| "empty_units (t # ts) = empty_units ts"

lemma unit_spans_mem: "z \<in> set (unit_spans ts) \<longleftrightarrow>
    (\<exists>u a b ps. (Some u, a, b, ps) \<in> set ts \<and> z = (a, b, text_of ps))"
  by (induction ts rule: unit_spans.induct) auto

lemma tile_units_mem: "u \<in> set (tile_units ts) \<longleftrightarrow> (\<exists>a b ps. (Some u, a, b, ps) \<in> set ts)"
  by (induction ts rule: tile_units.induct) auto

lemma empty_units_mem: "u \<in> set (empty_units ts) \<longleftrightarrow> (\<exists>a b. (Some u, a, b, []) \<in> set ts)"
  by (induction ts rule: empty_units.induct) auto

lemma unit_spans_order:
  assumes "tiled a n ts"
  shows "sorted_wrt (\<lambda>s t. fst (snd s) \<le> fst t) (unit_spans ts)"
    "\<forall>t\<in>set (unit_spans ts). a \<le> fst t \<and> fst t < fst (snd t) \<and> fst (snd t) \<le> n"
proof -
  show b: "\<forall>t\<in>set (unit_spans ts). a \<le> fst t \<and> fst t < fst (snd t) \<and> fst (snd t) \<le> n"
    using tiled_mem [OF assms] by (auto simp: unit_spans_mem)
  show "sorted_wrt (\<lambda>s t. fst (snd s) \<le> fst t) (unit_spans ts)"
    using assms
  proof (induction ts arbitrary: a rule: unit_spans.induct)
    case (2 u c d ps ts)
    then have "tiled d n ts" by simp
    then have "d \<le> fst t" if "t \<in> set (unit_spans ts)" for t
      using tiled_mem [of d n ts] that by (auto simp: unit_spans_mem)
    then show ?case using 2 by auto
  qed auto
qed

lemma tile_units_distinct: "tiled a n ts \<Longrightarrow> list_all (tile_ok s st) ts \<Longrightarrow> distinct (tile_units ts)"
proof (induction ts arbitrary: a rule: tile_units.induct)
  case (2 u c d ps ts)
  have "u \<notin> set (tile_units ts)"
  proof
    assume "u \<in> set (tile_units ts)"
    then obtain a' b' ps' where t: "(Some u, a', b', ps') \<in> set ts" by (auto simp: tile_units_mem)
    have "tiled d n ts" "c < d" using 2(2) by auto
    then have "c < a'" using tiled_mem [OF _ t] by fastforce
    moreover have "sp_lo st ! u = a'" "sp_lo st ! u = c"
      using 2(3) t by (auto simp: list_all_iff tile_ok_Some)
    ultimately show False by simp
  qed
  then show ?case using 2 by auto
qed auto

lemma tile_units_parts:
  "mset (tile_units ts) = mset (map fst (unit_runs ts)) + mset (empty_units ts)"
proof (induction ts)
  case (Cons t ts)
  obtain x a b ps where t: "t = (x, a, b, ps)" by (cases t)
  show ?case using Cons by (cases x; cases ps) (auto simp: t)
qed simp

lemma unit_spans_parts:
  "list_all (tile_ok s st) ts \<Longrightarrow> mset (unit_spans ts) =
    mset (map (span_of st) (unit_runs ts)) + mset (map (\<lambda>g. span_of st (g, [])) (empty_units ts))"
proof (induction ts)
  case (Cons t ts)
  obtain x a b ps where t: "t = (x, a, b, ps)" by (cases t)
  show ?case using Cons
    by (cases x; cases ps) (auto simp: t span_of_def tile_ok_Some)
qed simp

lemma collect_tiles:
  assumes g: "good s st ts"
  shows "collect_spans (pieces_of ts) st = Some (unit_spans ts)"
proof -
  have tok: "list_all (tile_ok s st) ts" and td: "tiled 0 (length s) ts" and c: "climbs (sp_parent st)"
    and gl: "\<forall>g\<in>set (sp_ghosts st). g < length (sp_parent st)"
    using g by (auto simp: good_def state_ok_def list_all_iff)
  obtain q where q: "runs (sp_parent st) (pieces_of ts) = Some (unit_runs ts, q)" "same_reps (sp_parent st) q"
    using runs_spec [OF tok td c same_reps_refl [OF c]] by blast
  have cq: "climbs q" "\<forall>g\<in>set (sp_ghosts st). g < length q"
      "rep q ` set (sp_ghosts st) = rep (sp_parent st) ` set (sp_ghosts st)"
    using q(2) gl by (auto simp: same_reps_def intro!: image_cong)
  let ?R = "map fst (unit_runs ts)" and ?E = "empty_units ts"
  obtain found q' where f: "ghost_roots q ?R (sp_ghosts st) = Some (found, q')" "distinct found"
      "set found = rep (sp_parent st) ` set (sp_ghosts st) - set ?R"
    using ghost_roots_spec [OF cq(1,2), of ?R] unfolding cq(3) by (elim exE conjE) (rule that)
  have "mset (tile_units ts) = mset (?R @ ?E)" by (simp add: tile_units_parts)
  from mset_eq_imp_distinct_iff [OF this] tile_units_distinct [OF td tok] have dist: "distinct (?R @ ?E)" by simp
  have "set ?E \<subseteq> rep (sp_parent st) ` set (sp_ghosts st)"
  proof
    fix u assume "u \<in> set ?E"
    then obtain a b where "(Some u, a, b, []) \<in> set ts" by (auto simp: empty_units_mem)
    from good_empty [OF g this] show "u \<in> rep (sp_parent st) ` set (sp_ghosts st)" by blast
  qed
  then have E: "set (filter (\<lambda>g. g \<in> set ?E) found) = set ?E" using f(3) dist by auto
  let ?D = "filter (\<lambda>g. g \<notin> set ?E) found" and ?sp = "\<lambda>g. span_of st (g, [])"
  have "mset (filter (\<lambda>g. g \<in> set ?E) found) = mset ?E"
    using E f(2) dist by (subst set_eq_iff_mset_eq_distinct [symmetric]) auto
  then have found: "mset found = mset ?E + mset ?D" by (metis mset_filter multiset_partition)
  let ?all = "map (span_of st) (unit_runs ts) @ map ?sp found"
  have "mset ?all = mset (map (span_of st) (unit_runs ts)) + image_mset ?sp (mset found)" by simp
  also have "\<dots> = mset (unit_spans ts) + mset (map ?sp ?D)"
    unfolding found unit_spans_parts [OF tok] by simp
  finally have all: "mset ?all = mset (unit_spans ts) + mset (map ?sp ?D)" .
  have nested: "snd (snd z) = [] \<and> fst z < fst (snd z) \<and>
      (\<exists>t\<in>set (unit_spans ts). fst t \<le> fst z \<and> fst (snd z) \<le> fst (snd t))" if z: "z \<in> set (map ?sp ?D)" for z
  proof -
    obtain h where h: "h \<in> set (sp_ghosts st)" "z = ?sp (rep (sp_parent st) h)" using z f(3) by auto
    obtain t where t: "t \<in> set ts" "inside st (rep (sp_parent st) h) t" using good_ghost [OF g h(1)] by blast
    obtain u a b ps where tt: "t = (Some u, a, b, ps)" using t(2) by (cases t) (auto simp: inside_def)
    have "(a, b, text_of ps) \<in> set (unit_spans ts)" using t(1) tt by (auto simp: unit_spans_mem)
    from bexI [OF _ this, of "\<lambda>t. fst t \<le> fst z \<and> fst (snd z) \<le> fst (snd t)"] show ?thesis
      using t(2) tt h(2) by (simp add: inside_def span_of_def)
  qed
  have key: "(\<lambda>(a, b, _). (a, b)) = (span_key :: span \<Rightarrow> nat \<times> nat)" by (simp add: fun_eq_iff)
  have "merge_spans [] (sort_key span_key ?all) = rev [] @ unit_spans ts"
    using unit_spans_order [OF td] nested
    by (intro merge_nested [where D = "map ?sp ?D"]) (simp_all only: mset_sort all sorted_sort_key, auto)
  then show ?thesis unfolding collect_spans_def key using q(1) f(1) by simp
qed

lemma put_back_from:
  "a \<le> b \<Longrightarrow> b \<le> length s \<Longrightarrow> (\<forall>z\<in>set zs. b \<le> fst z) \<Longrightarrow> put_back s a zs = slice s a b @ put_back s b zs"
proof (cases zs)
  case Nil
  then show "a \<le> b \<Longrightarrow> b \<le> length s \<Longrightarrow> ?thesis"
    using append_take_drop_id [of "b - a" "drop a s"] by (simp add: slice_def)
next
  case (Cons z zs')
  then show "a \<le> b \<Longrightarrow> b \<le> length s \<Longrightarrow> (\<forall>z\<in>set zs. b \<le> fst z) \<Longrightarrow> ?thesis"
    using slice_append [of a b "fst z" s] by (cases z) (auto simp: slice_def)
qed

lemma put_back_tiles:
  "tiled a (length s) ts \<Longrightarrow> list_all (tile_ok s st) ts \<Longrightarrow>
    put_back s a (unit_spans ts) = text_of (pieces_of ts)"
proof (induction ts arbitrary: a rule: unit_spans.induct)
  case (2 u c d ps ts)
  then show ?case by auto
next
  case (3 c d ps ts)
  then have t: "c = a" "a < d" "tiled d (length s) ts" and ok: "tile_ok s st (None, a, d, ps)" by auto
  have "\<forall>z\<in>set (unit_spans ts). d \<le> fst z" using unit_spans_order(2) [OF t(3)] by blast
  then have "put_back s a (unit_spans ts) = slice s a d @ put_back s d (unit_spans ts)"
    using put_back_from t(2) ok by (simp add: tile_ok_None)
  then show ?case using 3 t ok by (simp add: tile_ok_None)
qed simp

lemma no_match_text:
  assumes "sp_parent st = []" and "good s st ts"
  shows "text_of (pieces_of ts) = s"
proof -
  have tok: "list_all (tile_ok s st) ts" and td: "tiled 0 (length s) ts" using assms(2) by (auto simp: good_def)
  have "unit_spans ts = []"
    using tok assms(1) by (induction ts rule: unit_spans.induct) (auto simp: tile_ok_Some)
  then show ?thesis using put_back_tiles [OF td tok] by simp
qed

lemma spans_say_masks:
  assumes "list_all (\<lambda>r. pattern_ok (mr_pattern r)) rules"
  shows "\<exists>spans. find_masked_spans s rules = Some spans \<and>
    put_back s 0 spans = res_text (apply_rules s rules True) \<and>
    sorted_wrt (\<lambda>s t. fst (snd s) \<le> fst t) spans \<and>
    list_all (\<lambda>t. fst t < fst (snd t) \<and> fst (snd t) \<le> length s) spans"
proof (cases "s = [] \<or> rules = []")
  case True
  then show ?thesis by (auto simp: find_masked_spans_def apply_rules_def)
next
  case False
  let ?st = "\<lparr>sp_parent = [], sp_lo = [], sp_hi = [], sp_ghosts = []\<rparr>"
  let ?ts = "[(None, 0, length s, [(None, 0, s)])]"
  let ?res = "\<lparr>res_text = s, res_detections = [], res_total = 0, res_changed_ids = [],
        res_changed_names = [], res_policies_used = length rules\<rparr>"
  have g: "good s ?st ?ts" using False by (simp add: good_def state_ok_def climbs_def tile_ok_None slice_def)
  have r: "res_text (apply_rules s rules True) = res_text (fold (apply_rule True) rules ?res)"
    using False by (simp add: apply_rules_def)
  from span_rules_spec [OF assms g, of s ?res] obtain st' ts' where
    a: "span_rules rules ([(None, 0, s)], s, ?st) =
        Some (pieces_of ts', res_text (apply_rules s rules True), st')" "good s st' ts'"
      "text_of (pieces_of ts') = res_text (apply_rules s rules True)"
    unfolding r spans_to_def by auto
  have tok: "list_all (tile_ok s st') ts'" and td: "tiled 0 (length s) ts'" using a(2) by (auto simp: good_def)
  show ?thesis
  proof (cases "sp_parent st' = []")
    case True
    then have "find_masked_spans s rules = Some []" using a(1) False by (simp add: find_masked_spans_def)
    moreover have "res_text (apply_rules s rules True) = s" using no_match_text [OF True a(2)] a(3) by simp
    ultimately show ?thesis by simp
  next
    case nonempty: False
    have "find_masked_spans s rules = Some (unit_spans ts')"
      using a(1) False nonempty collect_tiles [OF a(2)] by (simp add: find_masked_spans_def)
    moreover have "put_back s 0 (unit_spans ts') = res_text (apply_rules s rules True)"
      using put_back_tiles [OF td tok] a(3) by simp
    ultimately show ?thesis using unit_spans_order [OF td] by (auto simp: list_all_iff)
  qed
qed

section \<open>Properties\<close>

text \<open>C25. Masking a document in fragments is masking its text: the spans say where the original is to be
  rewritten, in order, without overlaps and within the text, and written back they give exactly
  what applying the rules to the whole text gives, however the matches of later rules run into
  the masks of earlier ones; in particular the search for the unit of a piece always ends.\<close>

theorem spans_put_back_masked_text:
  assumes "list_all (\<lambda>r. pattern_ok (mr_pattern r)) rules"
  shows "\<exists>spans. find_masked_spans s rules = Some spans \<and>
    put_back s 0 spans = res_text (apply_rules s rules True) \<and>
    sorted_wrt (\<lambda>s t. fst (snd s) \<le> fst t) spans \<and>
    list_all (\<lambda>t. fst t < fst (snd t) \<and> fst (snd t) \<le> length s) spans"
  by (rule spans_say_masks [OF assms])

fun char_hits :: "char \<Rightarrow> nat \<Rightarrow> string \<Rightarrow> match list" where
  "char_hits c pos [] = []"
| "char_hits c pos (x # xs) = (if x = c
     then \<lparr>m_start = pos, m_end = pos + 1, m_expand = (\<lambda>t. Some t)\<rparr> # char_hits c (pos + 1) xs
     else char_hits c (pos + 1) xs)"

definition char_rule :: "char \<Rightarrow> string \<Rightarrow> masking_rule" where
  "char_rule c new = \<lparr>mr_id = PInt 1, mr_name = ''n'', mr_type = ''t'',
     mr_pattern = \<lparr>pt_finditer = char_hits c 0, pt_groups = 0, pt_groupindex = [], pt_match_empty = None\<rparr>,
     mr_mask = new, mr_mode = MASK_MODE_FULL, mr_char = ''*'', mr_prefix = 0, mr_suffix = 0,
     mr_preserve = True\<rparr>"

lemma char_rule_ok: "pattern_ok (mr_pattern (char_rule c new))"
proof -
  have "matches_ok pos (pos + length t) (char_hits c pos t)" for pos t
    by (induction c pos t rule: char_hits.induct) (auto intro: matches_ok_weak)
  from this [of 0] show ?thesis by (simp add: pattern_ok_def char_rule_def)
qed

theorem spans_put_back_masked_text_witness:
  "\<exists>spans. find_masked_spans ''abc'' [char_rule (CHR ''b'') ''xy'', char_rule (CHR ''y'') ''''] = Some spans \<and>
    put_back ''abc'' 0 spans = res_text (apply_rules ''abc'' [char_rule (CHR ''b'') ''xy'', char_rule (CHR ''y'') ''''] True)"
proof -
  have "list_all (\<lambda>r. pattern_ok (mr_pattern r)) [char_rule (CHR ''b'') ''xy'', char_rule (CHR ''y'') '''']"
    by (simp add: char_rule_ok)
  from spans_put_back_masked_text [OF this, of "''abc''"] show ?thesis by blast
qed

end
