(* ===== verification/ControlLoader.thy ===== *)
theory ControlLoader
  imports ControlRules
begin

text \<open>
  \<open>src/xgen_sdk/control_policy/settings.py\<close>, \<open>loader.py\<close>, \<open>outcome.py\<close> and \<open>errors.py\<close>: which kinds of
  policy are switched on at a place, and the rules read for it, once open by default (what cannot be
  read is empty) and once strictly (a failure is a result of its own).

  The database client and the client of the configuration are arguments that answer or raise; ids of
  policies are compared as values. Request ids are left out, and so are the labels for screens.
\<close>

section \<open>Failures and results\<close>

text \<open>\<open>PolicyUnavailableError\<close> and \<open>PolicyInvalidError\<close> with their codes; what escapes the loaders.\<close>

datatype control_error = StoreDown string | BadPolicy string

datatype load_failure = Policy control_error | Other strict_error

fun error_code :: "control_error \<Rightarrow> string" where
  "error_code (StoreDown c) = c"
| "error_code (BadPolicy c) = c"

definition is_safe_code :: "string \<Rightarrow> bool" where
  "is_safe_code s = (case s of
       [] \<Rightarrow> False
     | c # cs \<Rightarrow> (let n = of_char c :: nat in 97 \<le> n \<and> n \<le> 122) \<and> length cs \<le> 63 \<and>
         list_all (\<lambda>d. let n = of_char d :: nat in 97 \<le> n \<and> n \<le> 122 \<or> 48 \<le> n \<and> n \<le> 57 \<or>
           d \<in> {CHR ''_'', CHR ''.'', CHR ''-''}) cs)"

definition validate_error_code :: "string \<Rightarrow> py_exc + string" where
  "validate_error_code s = (if is_safe_code s then Inr s else Inl ValueError)"

datatype load_state = Disabled | Loaded | Unreachable | Malformed

record load_result =
  lr_state :: load_state
  lr_rules :: "masking_rule list"
  lr_revision :: "string option"
  lr_code :: "string option"
  lr_retryable :: bool

text \<open>\<open>PolicyLoadResult.__post_init__\<close>.\<close>

definition make_load_result ::
  "load_state \<Rightarrow> masking_rule list \<Rightarrow> string option \<Rightarrow> string option \<Rightarrow> bool \<Rightarrow> py_exc + load_result" where
  "make_load_result state rules revision code retryable =
     (let result = (\<lambda>c. \<lparr>lr_state = state, lr_rules = rules, lr_revision = revision, lr_code = c, lr_retryable = retryable\<rparr>)
      in if state \<in> {Unreachable, Malformed} then
           (if rules \<noteq> [] then Inl ValueError
            else case code of
              None \<Rightarrow> Inl ValueError
            | Some c \<Rightarrow> if c = [] then Inl ValueError else ebind (validate_error_code c) (\<lambda>c. Inr (result (Some c))))
         else if code \<noteq> None \<or> retryable then Inl ValueError
         else if state = Disabled \<and> rules \<noteq> [] then Inl ValueError
         else Inr (result None))"

definition is_failure :: "load_result \<Rightarrow> bool" where
  "is_failure r \<longleftrightarrow> lr_state r \<in> {Unreachable, Malformed}"

text \<open>Decisions that cross a service boundary.\<close>

datatype policy_decision = Allow | Deny | Error | NotApplicable

definition make_outcome :: "policy_decision \<Rightarrow> string option \<Rightarrow> string option \<Rightarrow> bool \<Rightarrow> py_exc + policy_decision \<times> string option" where
  "make_outcome d code request_id retryable =
     (if d = Error then (case code of
          None \<Rightarrow> Inl ValueError
        | Some c \<Rightarrow> if c = [] then Inl ValueError else ebind (validate_error_code c) (\<lambda>c. Inr (d, Some c)))
      else if code \<noteq> None \<or> request_id \<noteq> None \<or> retryable then Inl ValueError
      else Inr (d, None))"

section \<open>Switches\<close>

record policy_kind =
  pk_type :: string
  pk_table :: string
  pk_flag :: string
  pk_prefix :: string

definition KINDS :: "policy_kind list" where
  "KINDS = [\<lparr>pk_type = ''pii'', pk_table = ''piis'', pk_flag = ''IS_AVAILABLE_PIIS'', pk_prefix = ''PII''\<rparr>,
     \<lparr>pk_type = ''forbidden_word'', pk_table = ''forbidden_words'', pk_flag = ''IS_AVAILABLE_FORBIDDEN_WORDS'',
       pk_prefix = ''FORBIDDEN_WORDS''\<rparr>]"

definition SCOPE_DEFAULTS :: "(string \<times> bool) list" where
  "SCOPE_DEFAULTS = [(''BLOCK_CHAT_INPUT'', False), (''BLOCK_MODEL_INPUT'', True), (''STRIP_CHAT_UPLOAD'', False),
     (''STRIP_FILESTORE_UPLOAD'', False)]"

definition kind_of :: "string \<Rightarrow> policy_kind option" where
  "kind_of policy_type = List.find (\<lambda>k. pk_type k = policy_type) KINDS"

definition scope_key :: "policy_kind \<Rightarrow> string \<Rightarrow> py_exc + string" where
  "scope_key k scope = (if map_of SCOPE_DEFAULTS scope = None then Inl ValueError else Inr (pk_prefix k @ ''_'' @ scope))"

definition scope_settings :: "(string \<times> string \<times> bool) list" where
  "scope_settings = concat (map (\<lambda>k. map (\<lambda>(scope, dflt).
     (pk_prefix k @ ''_'' @ scope, ''guarder.'' @ pk_table k @ ''.'' @ lower scope, dflt)) SCOPE_DEFAULTS) KINDS)"

definition SWITCH_ON :: "string list" where "SWITCH_ON = [''1'', ''true'', ''yes'', ''on'']"
definition SWITCH_OFF :: "string list" where "SWITCH_OFF = [''0'', ''false'', ''no'', ''off'']"

definition as_bool :: "pyval \<Rightarrow> bool \<Rightarrow> bool" where
  "as_bool v dflt = (case v of
       PBool b \<Rightarrow> b
     | PNone \<Rightarrow> dflt
     | _ \<Rightarrow> (let text = lower (strip (py_str v))
         in if text \<in> set SWITCH_ON then True else if text \<in> set SWITCH_OFF then False else dflt))"

text \<open>A stored value of the configuration, or an exception; the client may be missing.\<close>

datatype reading = Reads pyval | Raises

type_synonym config = "(string \<Rightarrow> reading) option"
type_synonym environment = "string \<Rightarrow> string option"

definition or_environment :: "environment \<Rightarrow> string \<Rightarrow> pyval \<Rightarrow> pyval" where
  "or_environment env name v =
     (if v = PNone \<or> (case v of PStr s \<Rightarrow> strip s = [] | _ \<Rightarrow> False)
      then (case env name of None \<Rightarrow> PNone | Some s \<Rightarrow> PStr s) else v)"

definition config_flag :: "config \<Rightarrow> environment \<Rightarrow> string \<Rightarrow> bool \<Rightarrow> bool" where
  "config_flag cfg env name dflt =
     as_bool (or_environment env name (case cfg of
         None \<Rightarrow> PNone
       | Some get \<Rightarrow> (case get name of Raises \<Rightarrow> PNone | Reads v \<Rightarrow> v))) dflt"

definition strict_bool :: "pyval \<Rightarrow> control_error + bool" where
  "strict_bool v = (case v of
       PBool b \<Rightarrow> Inr b
     | PNone \<Rightarrow> Inl (StoreDown ''policy_config_unavailable'')
     | _ \<Rightarrow> (let text = lower (strip (py_str v))
         in if text \<in> set SWITCH_ON then Inr True else if text \<in> set SWITCH_OFF then Inr False
            else Inl (BadPolicy ''policy_config_invalid'')))"

definition config_flag_strict :: "config \<Rightarrow> environment \<Rightarrow> string \<Rightarrow> control_error + bool" where
  "config_flag_strict cfg env name = (case cfg of
       None \<Rightarrow> Inl (StoreDown ''policy_config_unavailable'')
     | Some get \<Rightarrow> (case get name of
         Raises \<Rightarrow> Inl (StoreDown ''policy_config_unavailable'')
       | Reads v \<Rightarrow> strict_bool (or_environment env name v)))"

text \<open>Readers: the caller's own or the configuration. The strict reader checks what the caller's returns.\<close>

type_synonym flag_reader = "string \<Rightarrow> bool \<Rightarrow> reading"

definition strict_reader :: "flag_reader option \<Rightarrow> config \<Rightarrow> environment \<Rightarrow> string \<Rightarrow> bool \<Rightarrow> control_error + bool" where
  "strict_reader flag cfg env name dflt = (case flag of
       None \<Rightarrow> config_flag_strict cfg env name
     | Some read \<Rightarrow> (case read name dflt of
         Raises \<Rightarrow> Inl (StoreDown ''policy_config_unavailable'')
       | Reads v \<Rightarrow> strict_bool v))"

definition scope_on :: "(string \<Rightarrow> bool \<Rightarrow> bool) \<Rightarrow> string \<Rightarrow> policy_kind \<Rightarrow> py_exc + bool" where
  "scope_on read scope k =
     (if \<not> read (pk_flag k) False then Inr False
      else ebind (scope_key k scope) (\<lambda>key. Inr (read key (the (map_of SCOPE_DEFAULTS scope)))))"

definition kinds_on :: "(string \<Rightarrow> bool \<Rightarrow> bool) \<Rightarrow> string \<Rightarrow> py_exc + policy_kind list" where
  "kinds_on read scope = ebind (emap (\<lambda>k. ebind (scope_on read scope k) (\<lambda>b. Inr (k, b))) KINDS)
     (\<lambda>ks. Inr (map fst (filter snd ks)))"

definition scope_on_strict :: "(string \<Rightarrow> bool \<Rightarrow> control_error + bool) \<Rightarrow> string \<Rightarrow> policy_kind \<Rightarrow> control_error + bool" where
  "scope_on_strict read scope k = (case map_of SCOPE_DEFAULTS scope of
       None \<Rightarrow> Inl (BadPolicy ''policy_scope_invalid'')
     | Some dflt \<Rightarrow> ebind (read (pk_flag k) False) (\<lambda>enabled.
         if \<not> enabled then Inr False else read (pk_prefix k @ ''_'' @ scope) dflt))"

definition kinds_on_strict :: "(string \<Rightarrow> bool \<Rightarrow> control_error + bool) \<Rightarrow> string \<Rightarrow> control_error + policy_kind list" where
  "kinds_on_strict read scope = ebind (emap (\<lambda>k. ebind (scope_on_strict read scope k) (\<lambda>b. Inr (k, b))) KINDS)
     (\<lambda>ks. Inr (map fst (filter snd ks)))"

section \<open>Reading policies\<close>

text \<open>\<open>find_records_by_condition\<close> on a table with its conditions; a client without it is \<open>None\<close>.\<close>

type_synonym policy_db = "(string \<Rightarrow> (string \<times> pyval) list \<Rightarrow> reading) option"

definition EXCEPTIONS_TABLE :: string where
  "EXCEPTIONS_TABLE = ''agent_applied_policies''"

definition hashable :: "pyval \<Rightarrow> bool" where
  "hashable v = (case v of PList _ \<Rightarrow> False | PDict _ \<Rightarrow> False | _ \<Rightarrow> True)"

text \<open>\<open>for row in rows or []\<close> with \<open>row.get\<close>.\<close>

fun as_dicts :: "pyval list \<Rightarrow> py_exc + pydict list" where
  "as_dicts [] = Inr []"
| "as_dicts (PDict d # vs) = ebind (as_dicts vs) (\<lambda>ds. Inr (d # ds))"
| "as_dicts (_ # vs) = Inl AttributeError"

definition dict_rows :: "pyval \<Rightarrow> py_exc + pydict list" where
  "dict_rows v = (if \<not> truthy v then Inr [] else case v of
       PList vs \<Rightarrow> as_dicts vs
     | PStr _ \<Rightarrow> Inl AttributeError
     | PDict _ \<Rightarrow> Inl AttributeError
     | _ \<Rightarrow> Inl TypeError)"

definition exception_conditions :: "string \<Rightarrow> string \<Rightarrow> (string \<times> pyval) list" where
  "exception_conditions workflow policy_type = [(''workflow_id'', PStr workflow), (''policy_type'', PStr policy_type)]"

definition excepted_policy_ids :: "policy_db \<Rightarrow> string option \<Rightarrow> string \<Rightarrow> py_exc + pyval list" where
  "excepted_policy_ids db workflow_id policy_type = (case workflow_id of
       None \<Rightarrow> Inr []
     | Some w \<Rightarrow> if w = [] then Inr [] else (case db of
         None \<Rightarrow> Inr []
       | Some look \<Rightarrow> (case look EXCEPTIONS_TABLE (exception_conditions w policy_type) of
           Raises \<Rightarrow> Inr []
         | Reads v \<Rightarrow> ebind (dict_rows v) (\<lambda>rows.
             let ids = map (\<lambda>r. dget r ''policy_id'') (filter (\<lambda>r. dget r ''is_applied'' = PBool False) rows)
             in if list_all hashable ids then Inr ids else Inl TypeError))))"

text \<open>A row of a policy table read with the types its columns have in the schema.\<close>

definition int_column :: "pyval \<Rightarrow> int option" where
  "int_column v = (case v of PInt i \<Rightarrow> Some i | _ \<Rightarrow> None)"

definition row_of_dict :: "pydict \<Rightarrow> policy_row" where
  "row_of_dict d = \<lparr>pr_id = dget d ''id'', pr_name = text_of_val (dget d ''policy_name''),
     pr_regex = text_of_val (dget d ''regex_pattern''), pr_masking = truthy (dget d ''masking''),
     pr_pattern = text_of_val (dget d ''masking_pattern''), pr_mode = text_of_val (dget d ''masking_mode''),
     pr_char = text_of_val (dget d ''mask_char''), pr_prefix = int_column (dget d ''keep_prefix''),
     pr_suffix = int_column (dget d ''keep_suffix''),
     pr_preserve = (case map_of d ''preserve_format'' of None \<Rightarrow> True | Some v \<Rightarrow> truthy v)\<rparr>"

definition has_column_types :: "pydict \<Rightarrow> bool" where
  "has_column_types d \<longleftrightarrow>
     list_all (\<lambda>k. case dget d k of PStr _ \<Rightarrow> True | PNone \<Rightarrow> True | _ \<Rightarrow> False)
       [''policy_name'', ''regex_pattern'', ''masking_pattern'', ''masking_mode'', ''mask_char''] \<and>
     list_all (\<lambda>k. case dget d k of PInt _ \<Rightarrow> True | PNone \<Rightarrow> True | _ \<Rightarrow> False) [''keep_prefix'', ''keep_suffix'']"

definition load_rules ::
  "(string \<Rightarrow> pattern option) \<Rightarrow> policy_db \<Rightarrow> policy_kind \<Rightarrow> string option \<Rightarrow> unmasked \<Rightarrow> py_exc + masking_rule list" where
  "load_rules re_compile db k workflow_id um = (case db of
       None \<Rightarrow> Inr []
     | Some look \<Rightarrow> (case look (pk_table k) [(''is_active'', PBool True)] of
         Raises \<Rightarrow> Inr []
       | Reads v \<Rightarrow>
           ebind (excepted_policy_ids db workflow_id (pk_type k)) (\<lambda>excepted.
           ebind (dict_rows v) (\<lambda>rows.
           if excepted \<noteq> [] \<and> \<not> list_all (\<lambda>r. hashable (dget r ''id'')) rows then Inl TypeError
           else Inr (compile_rules re_compile (map row_of_dict (filter (\<lambda>r. dget r ''id'' \<notin> set excepted) rows))
             (pk_type k) um)))))"

definition load_scope_rules ::
  "(string \<Rightarrow> pattern option) \<Rightarrow> policy_db \<Rightarrow> string \<Rightarrow> string option \<Rightarrow> (string \<Rightarrow> bool \<Rightarrow> bool) \<Rightarrow>
    py_exc + masking_rule list" where
  "load_scope_rules re_compile db scope workflow_id read =
     ebind (kinds_on read scope) (\<lambda>ks. ebind (emap (\<lambda>k. load_rules re_compile db k workflow_id Skip) ks) (\<lambda>rs. Inr (concat rs)))"

section \<open>Strict reading\<close>

fun exception_rows :: "pyval list \<Rightarrow> load_failure + pyval list" where
  "exception_rows [] = Inr []"
| "exception_rows (PDict row # rows) =
     (let pid = dget row ''policy_id''; applied = dget row ''is_applied''
      in if pid = PNone \<or> (applied \<noteq> PBool True \<and> applied \<noteq> PBool False)
         then Inl (Policy (BadPolicy ''policy_exceptions_invalid''))
         else if applied = PBool False \<and> \<not> hashable pid then Inl (Other (Uncaught TypeError))
         else ebind (exception_rows rows) (\<lambda>ids. Inr (if applied = PBool False then pid # ids else ids)))"
| "exception_rows (_ # rows) = Inl (Policy (BadPolicy ''policy_exceptions_invalid''))"

definition excepted_policy_ids_strict :: "policy_db \<Rightarrow> string option \<Rightarrow> string \<Rightarrow> load_failure + pyval list" where
  "excepted_policy_ids_strict db workflow_id policy_type = (case workflow_id of
       None \<Rightarrow> Inr []
     | Some w \<Rightarrow> if w = [] then Inr [] else (case db of
         None \<Rightarrow> Inl (Policy (StoreDown ''policy_store_unavailable''))
       | Some look \<Rightarrow> (case look EXCEPTIONS_TABLE (exception_conditions w policy_type) of
           Raises \<Rightarrow> Inl (Policy (StoreDown ''policy_exceptions_unavailable''))
         | Reads v \<Rightarrow> (case v of
             PNone \<Rightarrow> Inl (Policy (StoreDown ''policy_exceptions_unavailable''))
           | PList rows \<Rightarrow> exception_rows rows
           | _ \<Rightarrow> Inl (Policy (BadPolicy ''policy_exceptions_invalid''))))))"

definition row_dict :: "pyval \<Rightarrow> pydict" where
  "row_dict v = (case v of PDict d \<Rightarrow> d | _ \<Rightarrow> [])"

definition revision_value :: "pydict \<Rightarrow> pyval option" where
  "revision_value d = List.find (\<lambda>v. v \<noteq> PNone) (map (dget d) [''revision'', ''version'', ''updated_at''])"

definition revision_from_rows :: "pyval list \<Rightarrow> string option" where
  "revision_from_rows rows =
     (let revisions = List.map_filter (\<lambda>v. map_option (\<lambda>r. py_str (dget (row_dict v) ''id'') @ '':'' @ py_str r)
        (revision_value (row_dict v))) rows
      in if revisions = [] then None else Some (join ''|'' revisions))"

definition strict_rules ::
  "(string \<Rightarrow> pattern option) \<Rightarrow> policy_db \<Rightarrow> policy_kind \<Rightarrow> string option \<Rightarrow> unmasked \<Rightarrow>
    load_failure + masking_rule list \<times> string option" where
  "strict_rules re_compile db k workflow_id um = (case db of
       None \<Rightarrow> Inl (Policy (StoreDown ''policy_store_unavailable''))
     | Some look \<Rightarrow> (case look (pk_table k) [(''is_active'', PBool True)] of
         Raises \<Rightarrow> Inl (Policy (StoreDown ''policy_store_unavailable''))
       | Reads v \<Rightarrow> (case v of
           PNone \<Rightarrow> Inl (Policy (StoreDown ''policy_store_unavailable''))
         | PList rows \<Rightarrow>
             ebind (excepted_policy_ids_strict db workflow_id (pk_type k)) (\<lambda>excluded.
             case compile_rules_strict re_compile v (pk_type k) um of
               Inl PolicyInvalid \<Rightarrow> Inl (Policy (BadPolicy ''policy_data_invalid''))
             | Inl x \<Rightarrow> Inl (Other x)
             | Inr compiled \<Rightarrow>
                 if \<not> list_all (\<lambda>r. hashable (mr_id r)) compiled then Inl (Other (Uncaught TypeError))
                 else Inr (filter (\<lambda>r. mr_id r \<notin> set excluded) compiled, revision_from_rows rows))
         | _ \<Rightarrow> Inl (Policy (BadPolicy ''policy_data_invalid'')))))"

definition as_uncaught :: "py_exc + 'a \<Rightarrow> strict_error + 'a" where
  "as_uncaught r = (case r of Inl x \<Rightarrow> Inl (Uncaught x) | Inr v \<Rightarrow> Inr v)"

definition failed :: "control_error \<Rightarrow> strict_error + load_result" where
  "failed x = as_uncaught (case x of
       BadPolicy c \<Rightarrow> make_load_result Malformed [] None (Some c) False
     | StoreDown c \<Rightarrow> make_load_result Unreachable [] None (Some c) True)"

definition load_rules_strict ::
  "(string \<Rightarrow> pattern option) \<Rightarrow> policy_db \<Rightarrow> policy_kind \<Rightarrow> string option \<Rightarrow> unmasked \<Rightarrow> string option \<Rightarrow>
    strict_error + load_result" where
  "load_rules_strict re_compile db k workflow_id um revision = (case strict_rules re_compile db k workflow_id um of
       Inl (Policy x) \<Rightarrow> failed x
     | Inl (Other x) \<Rightarrow> Inl x
     | Inr (rules, found) \<Rightarrow>
         as_uncaught (make_load_result Loaded rules (case revision of None \<Rightarrow> found | Some r \<Rightarrow> Some r) None False))"

text \<open>The loop over the kinds: it stops at the first failure and returns that.\<close>

fun load_kinds ::
  "(string \<Rightarrow> pattern option) \<Rightarrow> policy_db \<Rightarrow> string option \<Rightarrow> policy_kind list \<Rightarrow> masking_rule list \<Rightarrow> string list \<Rightarrow>
    strict_error + load_result" where
  "load_kinds re_compile db workflow_id [] rules revisions =
     as_uncaught (make_load_result Loaded rules (if revisions = [] then None else Some (join ''|'' revisions)) None False)"
| "load_kinds re_compile db workflow_id (k # ks) rules revisions =
     ebind (load_rules_strict re_compile db k workflow_id Skip None) (\<lambda>r.
       if is_failure r then Inr r
       else load_kinds re_compile db workflow_id ks (rules @ lr_rules r)
         (case lr_revision r of None \<Rightarrow> revisions | Some v \<Rightarrow> if v = [] then revisions
            else revisions @ [pk_type k @ '':'' @ v]))"

definition load_scope_rules_strict ::
  "(string \<Rightarrow> pattern option) \<Rightarrow> policy_db \<Rightarrow> string \<Rightarrow> string option \<Rightarrow> (string \<Rightarrow> bool \<Rightarrow> control_error + bool) \<Rightarrow>
    strict_error + load_result" where
  "load_scope_rules_strict re_compile db scope workflow_id read = (case kinds_on_strict read scope of
       Inl x \<Rightarrow> failed x
     | Inr [] \<Rightarrow> as_uncaught (make_load_result Disabled [] None None False)
     | Inr ks \<Rightarrow> load_kinds re_compile db workflow_id ks [] [])"

section \<open>Lemmas\<close>

lemma make_load_result_simps [simp]:
  "make_load_result Loaded rules revision None False =
    Inr \<lparr>lr_state = Loaded, lr_rules = rules, lr_revision = revision, lr_code = None, lr_retryable = False\<rparr>"
  "make_load_result Disabled [] None None False =
    Inr \<lparr>lr_state = Disabled, lr_rules = [], lr_revision = None, lr_code = None, lr_retryable = False\<rparr>"
  by (simp_all add: make_load_result_def)

lemma as_uncaught_simps [simp]: "as_uncaught (Inl x) = Inl (Uncaught x)" "as_uncaught (Inr v) = Inr v"
  by (simp_all add: as_uncaught_def)

lemma failed_Inr: "failed x = Inr r \<Longrightarrow> is_failure r \<and> lr_rules r = [] \<and> lr_code r = Some (error_code x)"
  by (cases x) (auto simp: failed_def as_uncaught_def make_load_result_def is_failure_def validate_error_code_def
    split: if_splits sum.splits)

text \<open>The rows of a kind and the exceptions, both read without failure.\<close>

definition policies_read :: "policy_db \<Rightarrow> string option \<Rightarrow> policy_kind \<Rightarrow> pyval list \<Rightarrow> pyval list \<Rightarrow> bool" where
  "policies_read db workflow_id k rows excepted \<longleftrightarrow>
     (\<exists>look. db = Some look \<and> look (pk_table k) [(''is_active'', PBool True)] = Reads (PList rows)) \<and>
     excepted_policy_ids_strict db workflow_id (pk_type k) = Inr excepted"

definition policy_id_of :: "pyval \<Rightarrow> pyval" where
  "policy_id_of v = dget (row_dict v) ''id''"

lemma strict_row_parts:
  assumes "strict_row rc v = Inr r"
  shows "\<exists>d nm rx m kp ks mc p. v = PDict d \<and> dget d ''policy_name'' = PStr nm \<and> dget d ''regex_pattern'' = PStr rx \<and>
    strict_int (dget d ''keep_prefix'') = Inr kp \<and> strict_int (dget d ''keep_suffix'') = Inr ks \<and>
    m = lower (strip (if truthy (dget d ''masking_mode'') then py_str (dget d ''masking_mode'') else MASK_MODE_FULL)) \<and>
    mc = (case map_of d ''mask_char'' of None \<Rightarrow> PStr ''*'' | Some c \<Rightarrow> if truthy c then c else PStr ''*'') \<and>
    p = (case map_of d ''preserve_format'' of None \<Rightarrow> PBool True | Some p \<Rightarrow> p) \<and>
    m \<in> {MASK_MODE_FULL, MASK_MODE_PARTIAL} \<and> (\<exists>b. dget d ''masking'' = PBool b \<and>
    r = \<lparr>pr_id = dget d ''id'', pr_name = Some nm, pr_regex = Some rx, pr_masking = b,
      pr_pattern = text_of_val (dget d ''masking_pattern''), pr_mode = Some m, pr_char = text_of_val mc,
      pr_prefix = Some kp, pr_suffix = Some ks, pr_preserve = truthy p\<rparr>)"
proof -
  obtain d where v: "v = PDict d" using assms by (cases v) (simp_all add: strict_row_def)
  obtain nm rx b where t: "dget d ''policy_name'' = PStr nm" "dget d ''regex_pattern'' = PStr rx" "dget d ''masking'' = PBool b"
    using assms by (auto simp: v strict_row_def Let_def ebind_Inr split: prod.splits option.splits pyval.splits)
  obtain pt where pt: "rc rx = Some pt" using assms t
    by (auto simp: v strict_row_def Let_def ebind_Inr split: option.splits)
  define m where "m = lower (strip (if truthy (dget d ''masking_mode'') then py_str (dget d ''masking_mode'')
    else MASK_MODE_FULL))"
  define p where "p = (case map_of d ''preserve_format'' of None \<Rightarrow> PBool True | Some p \<Rightarrow> p)"
  define given where "given = (case map_of d ''mask_char'' of None \<Rightarrow> PStr ''*'' | Some c \<Rightarrow> c)"
  define mc where "mc = (if truthy given then given else PStr ''*'')"
  have mc: "mc = (case map_of d ''mask_char'' of None \<Rightarrow> PStr ''*'' | Some c \<Rightarrow> if truthy c then c else PStr ''*'')"
    by (simp add: mc_def given_def split: option.split)
  obtain kp ks where r: "m \<in> {MASK_MODE_FULL, MASK_MODE_PARTIAL}"
      "strict_int (dget d ''keep_prefix'') = Inr kp" "strict_int (dget d ''keep_suffix'') = Inr ks"
      "r = \<lparr>pr_id = dget d ''id'', pr_name = Some nm, pr_regex = Some rx, pr_masking = b,
        pr_pattern = text_of_val (dget d ''masking_pattern''), pr_mode = Some m, pr_char = text_of_val mc,
        pr_prefix = Some kp, pr_suffix = Some ks, pr_preserve = truthy p\<rparr>"
    using assms t pt unfolding v strict_row_def Let_def pyval.case m_def [symmetric] p_def [symmetric]
      given_def [symmetric] mc_def [symmetric]
    by (clarsimp simp: ebind_Inr simp del: insert_iff)
  show ?thesis using v t r mc unfolding m_def p_def by blast
qed

lemma strict_row_id: "strict_row rc v = Inr r \<Longrightarrow> pr_id r = policy_id_of v"
  by (drule strict_row_parts) (auto simp: policy_id_of_def row_dict_def)

lemma compile_row_id: "compile_row rc ty um r = Some rule \<Longrightarrow> mr_id rule = pr_id r"
  by (auto simp: compile_row_def Let_def split: if_splits option.splits)

lemma compiled_ids:
  "emap (strict_row rc) xs = Inr rs \<Longrightarrow>
    map mr_id (compile_rules rc rs ty Skip) = map policy_id_of (filter row_masking xs)"
proof (induction xs arbitrary: rs)
  case Nil
  then show ?case by (simp add: compile_rules_def)
next
  case (Cons v xs)
  then obtain r rs' where r: "strict_row rc v = Inr r" "emap (strict_row rc) xs = Inr rs'" "rs = r # rs'"
    by (auto simp: ebind_Inr)
  have "compile_rules rc rs ty Skip = (case compile_row rc ty Skip r of None \<Rightarrow> [] | Some x \<Rightarrow> [x]) @ compile_rules rc rs' ty Skip"
    by (simp add: compile_rules_def r(3) split: option.split)
  then show ?case
    using Cons.IH [OF r(2)] compile_strict_row [OF r(1), of ty Skip] strict_row_id [OF r(1)] compile_row_id [of rc ty Skip r]
    by (cases "compile_row rc ty Skip r") auto
qed

lemma strict_rules_Inr:
  assumes "strict_rules rc db k wid Skip = Inr (rules, found)"
  shows "\<exists>rows excepted rs. policies_read db wid k rows excepted \<and> emap (strict_row rc) rows = Inr rs \<and>
    rules = filter (\<lambda>r. mr_id r \<notin> set excepted) (compile_rules rc rs (pk_type k) Skip)"
proof -
  obtain look v where look: "db = Some look" "look (pk_table k) [(''is_active'', PBool True)] = Reads v"
    using assms by (auto simp: strict_rules_def split: option.splits reading.splits)
  obtain rows where rows: "v = PList rows" using assms look by (cases v) (simp_all add: strict_rules_def)
  obtain excepted where e: "excepted_policy_ids_strict db wid (pk_type k) = Inr excepted"
    using assms look rows by (auto simp: strict_rules_def ebind_Inr)
  obtain rs where rs: "emap (strict_row rc) rows = Inr rs"
    using assms look rows e by (cases "emap (strict_row rc) rows")
      (auto simp: strict_rules_def compile_rules_strict_def list_of_val_def split: strict_error.splits)
  then have "rules = filter (\<lambda>r. mr_id r \<notin> set excepted) (compile_rules rc rs (pk_type k) Skip)"
    using assms look rows e by (simp add: strict_rules_def compile_rules_strict_def list_of_val_def split: if_splits)
  then show ?thesis using look rows e rs by (auto simp: policies_read_def)
qed

lemma load_rules_strict_Inr:
  assumes "load_rules_strict rc db k wid Skip None = Inr r"
  shows "is_failure r \<and> lr_rules r = [] \<and> lr_code r \<noteq> None \<or>
    \<not> is_failure r \<and> lr_state r = Loaded \<and> (\<exists>found. strict_rules rc db k wid Skip = Inr (lr_rules r, found))"
  using assms by (auto simp: load_rules_strict_def is_failure_def split: sum.splits load_failure.splits prod.splits
    dest!: failed_Inr)

lemma load_kinds_Inr:
  "load_kinds rc db wid ks rules revisions = Inr r \<Longrightarrow>
    is_failure r \<and> lr_rules r = [] \<and> lr_code r \<noteq> None \<or>
    lr_state r = Loaded \<and> (\<exists>rss. list_all2 (\<lambda>k rs. \<exists>found. strict_rules rc db k wid Skip = Inr (rs, found)) ks rss \<and>
      lr_rules r = rules @ concat rss)"
proof (induction ks arbitrary: rules revisions)
  case Nil
  then show ?case by auto
next
  case (Cons k ks)
  then obtain r1 where r1: "load_rules_strict rc db k wid Skip None = Inr r1" by (auto simp: ebind_Inr)
  show ?case
  proof (cases "is_failure r1")
    case True
    then show ?thesis using Cons.prems r1 load_rules_strict_Inr [OF r1] by auto
  next
    case False
    then obtain found where f: "strict_rules rc db k wid Skip = Inr (lr_rules r1, found)"
      using load_rules_strict_Inr [OF r1] by blast
    have rest: "load_kinds rc db wid ks (rules @ lr_rules r1) (case lr_revision r1 of None \<Rightarrow> revisions
        | Some v \<Rightarrow> if v = [] then revisions else revisions @ [pk_type k @ '':'' @ v]) = Inr r"
      using Cons.prems r1 False by simp
    from Cons.IH [OF rest] show ?thesis
    proof
      assume "lr_state r = Loaded \<and> (\<exists>rss. list_all2 (\<lambda>k rs. \<exists>found. strict_rules rc db k wid Skip = Inr (rs, found)) ks rss \<and>
        lr_rules r = (rules @ lr_rules r1) @ concat rss)"
      then obtain rss where "lr_state r = Loaded" "lr_rules r = (rules @ lr_rules r1) @ concat rss"
        "list_all2 (\<lambda>k rs. \<exists>found. strict_rules rc db k wid Skip = Inr (rs, found)) ks rss" by blast
      then show ?thesis using f by (intro disjI2 conjI exI [of _ "lr_rules r1 # rss"]) auto
    qed blast
  qed
qed

section \<open>Strict and open reading agree\<close>

definition id_column :: "pydict \<Rightarrow> bool" where
  "id_column d \<longleftrightarrow> hashable (dget d ''id'')"

lemma mode_idem: "m \<in> {MASK_MODE_FULL, MASK_MODE_PARTIAL} \<Longrightarrow> lower (strip m) = m \<and> m \<noteq> []"
proof -
  have "lower (strip MASK_MODE_FULL) = MASK_MODE_FULL" "lower (strip MASK_MODE_PARTIAL) = MASK_MODE_PARTIAL"
    "MASK_MODE_FULL \<noteq> []" "MASK_MODE_PARTIAL \<noteq> []" by code_simp+
  then show "m \<in> {MASK_MODE_FULL, MASK_MODE_PARTIAL} \<Longrightarrow> lower (strip m) = m \<and> m \<noteq> []" by auto
qed

lemma strict_int_column:
  "strict_int v = Inr i \<Longrightarrow> (case v of PInt _ \<Rightarrow> True | PNone \<Rightarrow> True | _ \<Rightarrow> False) \<Longrightarrow> int_or_0 (int_column v) = i"
  by (cases v) (auto simp: strict_int_def strict_nonnegative_int_def int_or_0_def int_column_def split: if_splits)

lemma compile_row_cong:
  assumes "pr_masking r = pr_masking q" and "text_or [] (pr_regex r) = text_or [] (pr_regex q)" and "pr_id r = pr_id q"
    and "text_or [] (pr_name r) = text_or [] (pr_name q)"
    and "lower (strip (text_or MASK_MODE_FULL (pr_mode r))) = lower (strip (text_or MASK_MODE_FULL (pr_mode q)))"
    and "pr_pattern r = pr_pattern q" and "text_or ''*'' (pr_char r) = text_or ''*'' (pr_char q)"
    and "int_or_0 (pr_prefix r) = int_or_0 (pr_prefix q)" and "int_or_0 (pr_suffix r) = int_or_0 (pr_suffix q)"
    and "pr_preserve r = pr_preserve q"
  shows "compile_row rc ty um r = compile_row rc ty um q"
  unfolding compile_row_def Let_def assms ..

text \<open>What the strict compiler normalizes, the open one reads from the columns itself.\<close>

lemma strict_row_agrees:
  assumes "strict_row rc (PDict d) = Inr r" and "has_column_types d"
  shows "compile_row rc ty um r = compile_row rc ty um (row_of_dict d)"
proof -
  obtain nm rx m kp ks mc p b where t: "dget d ''policy_name'' = PStr nm" "dget d ''regex_pattern'' = PStr rx"
    "strict_int (dget d ''keep_prefix'') = Inr kp" "strict_int (dget d ''keep_suffix'') = Inr ks"
    "m = lower (strip (if truthy (dget d ''masking_mode'') then py_str (dget d ''masking_mode'') else MASK_MODE_FULL))"
    "mc = (case map_of d ''mask_char'' of None \<Rightarrow> PStr ''*'' | Some c \<Rightarrow> if truthy c then c else PStr ''*'')"
    "p = (case map_of d ''preserve_format'' of None \<Rightarrow> PBool True | Some p \<Rightarrow> p)"
    "m \<in> {MASK_MODE_FULL, MASK_MODE_PARTIAL}" "dget d ''masking'' = PBool b"
    "r = \<lparr>pr_id = dget d ''id'', pr_name = Some nm, pr_regex = Some rx, pr_masking = b,
      pr_pattern = text_of_val (dget d ''masking_pattern''), pr_mode = Some m, pr_char = text_of_val mc,
      pr_prefix = Some kp, pr_suffix = Some ks, pr_preserve = truthy p\<rparr>"
    using strict_row_parts [OF assms(1)] by auto
  have types: "(case dget d k of PStr _ \<Rightarrow> True | PNone \<Rightarrow> True | _ \<Rightarrow> False)"
    if "k \<in> {''masking_pattern'', ''masking_mode'', ''mask_char''}" for k
    using assms(2) that by (auto simp: has_column_types_def)
  have ints: "int_or_0 (int_column (dget d ''keep_prefix'')) = kp" "int_or_0 (int_column (dget d ''keep_suffix'')) = ks"
    using assms(2) t(3,4) by (auto intro!: strict_int_column simp: has_column_types_def)
  have mode: "lower (strip (text_or MASK_MODE_FULL (text_of_val (dget d ''masking_mode'')))) = m"
    using types [of "''masking_mode''"] unfolding t(5)
    by (cases "dget d ''masking_mode''") (simp_all add: text_of_val_def text_or_def py_str_def)
  have chars: "text_or ''*'' (text_of_val mc) = text_or ''*'' (text_of_val (dget d ''mask_char''))"
    using types [of "''mask_char''"] unfolding t(6)
    by (cases "map_of d ''mask_char''")
      (auto simp: dget_def text_of_val_def text_or_def split: pyval.splits)
  have preserve: "truthy p = (case map_of d ''preserve_format'' of None \<Rightarrow> True | Some v \<Rightarrow> truthy v)"
    unfolding t(7) by (simp split: option.split)
  have idem: "lower (strip (text_or MASK_MODE_FULL (Some m))) = m" using mode_idem [OF t(8)] by (simp add: text_or_def)
  show ?thesis
    by (rule compile_row_cong)
      (use mode idem chars preserve ints t(1,2,9) in \<open>simp_all add: t(10) row_of_dict_def text_of_val_PStr int_or_0_def [of "Some _"]\<close>)
qed

lemma strict_rows_are_dicts: "emap (strict_row rc) rows = Inr rs \<Longrightarrow> \<exists>ds. rows = map PDict ds"
proof (induction rows arbitrary: rs)
  case (Cons v rows)
  then obtain r rs' where "strict_row rc v = Inr r" "emap (strict_row rc) rows = Inr rs'" by (auto simp: ebind_Inr)
  then show ?case using Cons.IH strict_row_parts [of rc v r] by (metis list.simps(9))
qed simp

lemma compile_rows_agree:
  "emap (strict_row rc) (map PDict ds) = Inr rs \<Longrightarrow> \<forall>d\<in>set ds. has_column_types d \<Longrightarrow>
    filter (\<lambda>r. mr_id r \<notin> E) (compile_rules rc rs ty um) =
      compile_rules rc (map row_of_dict (filter (\<lambda>d. dget d ''id'' \<notin> E) ds)) ty um"
proof (induction ds arbitrary: rs)
  case Nil
  then show ?case by (simp add: compile_rules_def)
next
  case (Cons d ds)
  then obtain r rs' where r: "strict_row rc (PDict d) = Inr r" "emap (strict_row rc) (map PDict ds) = Inr rs'" "rs = r # rs'"
    by (auto simp: ebind_Inr)
  have step: "compile_rules rc (x # xs) ty um = (case compile_row rc ty um x of None \<Rightarrow> [] | Some y \<Rightarrow> [y]) @ compile_rules rc xs ty um"
    for x xs by (simp add: compile_rules_def split: option.split)
  have row: "compile_row rc ty um r = compile_row rc ty um (row_of_dict d)"
    using strict_row_agrees [OF r(1)] Cons.prems(2) by simp
  have "pr_id r = dget d ''id''" using strict_row_id [OF r(1)] by (simp add: policy_id_of_def row_dict_def)
  then have "mr_id rule = dget d ''id''" if "compile_row rc ty um (row_of_dict d) = Some rule" for rule
    using compile_row_id that row by metis
  then show ?case using Cons.IH [OF r(2)] Cons.prems(2) row
    by (cases "compile_row rc ty um (row_of_dict d)") (simp_all add: r(3) step)
qed

lemma as_dicts_map: "as_dicts (map PDict ds) = Inr ds"
  by (induction ds) simp_all

lemma exception_rows_agree:
  "exception_rows rows = Inr ids \<Longrightarrow> \<exists>ds. rows = map PDict ds \<and> list_all hashable ids \<and>
    ids = map (\<lambda>r. dget r ''policy_id'') (filter (\<lambda>r. dget r ''is_applied'' = PBool False) ds)"
proof (induction rows arbitrary: ids rule: exception_rows.induct)
  case (2 row rows)
  then obtain ids' where i: "exception_rows rows = Inr ids'"
    "ids = (if dget row ''is_applied'' = PBool False then dget row ''policy_id'' # ids' else ids')"
    "dget row ''is_applied'' = PBool False \<longrightarrow> hashable (dget row ''policy_id'')"
    by (auto simp: Let_def ebind_Inr split: if_splits)
  have "\<not> (dget row ''policy_id'' = PNone \<or> dget row ''is_applied'' \<noteq> PBool True \<and> dget row ''is_applied'' \<noteq> PBool False)"
    "\<not> (dget row ''is_applied'' = PBool False \<and> \<not> hashable (dget row ''policy_id''))"
    using "2.prems" by (auto simp: Let_def split: if_splits)
  from "2.IH" [OF refl refl this i(1)] obtain ds where "rows = map PDict ds" "list_all hashable ids'"
    "ids' = map (\<lambda>r. dget r ''policy_id'') (filter (\<lambda>r. dget r ''is_applied'' = PBool False) ds)" by blast
  then show ?case using i(2,3) by (intro exI [of _ "row # ds"]) simp
qed simp_all

lemma dict_rows_list: "dict_rows (PList (map PDict ds)) = Inr ds"
  by (simp add: dict_rows_def as_dicts_map)

lemma excepted_agree:
  assumes "excepted_policy_ids_strict db wid ty = Inr ids"
  shows "excepted_policy_ids db wid ty = Inr ids"
proof (cases "wid = None \<or> wid = Some []")
  case True
  then show ?thesis using assms by (auto simp: excepted_policy_ids_strict_def excepted_policy_ids_def)
next
  case False
  then obtain w look v where w: "wid = Some w" "w \<noteq> []" "db = Some look"
    "look EXCEPTIONS_TABLE (exception_conditions w ty) = Reads v"
    using assms by (auto simp: excepted_policy_ids_strict_def split: option.splits reading.splits)
  then obtain rows where rows: "v = PList rows" "exception_rows rows = Inr ids"
    using assms by (cases v) (simp_all add: excepted_policy_ids_strict_def)
  then show ?thesis using exception_rows_agree [OF rows(2)] w
    by (auto simp: excepted_policy_ids_def dict_rows_list)
qed

definition columns_ok :: "policy_db \<Rightarrow> bool" where
  "columns_ok db \<longleftrightarrow> (\<forall>look k rows d. db = Some look \<longrightarrow> k \<in> set KINDS \<longrightarrow>
     look (pk_table k) [(''is_active'', PBool True)] = Reads (PList rows) \<longrightarrow> PDict d \<in> set rows \<longrightarrow>
     has_column_types d \<and> id_column d)"

lemma kind_rules_agree:
  assumes "strict_rules rc db k wid Skip = Inr (rules, found)" and "columns_ok db" and "k \<in> set KINDS"
  shows "load_rules rc db k wid Skip = Inr rules"
proof -
  obtain rows excepted rs where s: "policies_read db wid k rows excepted" "emap (strict_row rc) rows = Inr rs"
    "rules = filter (\<lambda>r. mr_id r \<notin> set excepted) (compile_rules rc rs (pk_type k) Skip)"
    using strict_rules_Inr [OF assms(1)] by blast
  obtain ds where ds: "rows = map PDict ds" using strict_rows_are_dicts [OF s(2)] by blast
  obtain look where look: "db = Some look" "look (pk_table k) [(''is_active'', PBool True)] = Reads (PList rows)"
    using s(1) by (auto simp: policies_read_def)
  have cols: "\<forall>d\<in>set ds. has_column_types d \<and> id_column d"
    using assms(2,3) look by (auto simp: columns_ok_def ds)
  have "excepted_policy_ids (Some look) wid (pk_type k) = Inr excepted"
    using excepted_agree s(1) look(1) by (auto simp: policies_read_def)
  moreover have "rules = compile_rules rc (map row_of_dict (filter (\<lambda>d. dget d ''id'' \<notin> set excepted) ds)) (pk_type k) Skip"
    unfolding s(3) using s(2) cols unfolding ds by (intro compile_rows_agree) auto
  ultimately show ?thesis using cols look
    by (auto simp: load_rules_def ds dict_rows_list id_column_def list_all_iff)
qed

lemma flag_agrees: "config_flag_strict cfg env n = Inr b \<Longrightarrow> config_flag cfg env n dflt = b"
  by (auto simp: config_flag_strict_def config_flag_def strict_bool_def as_bool_def Let_def
    split: option.splits reading.splits pyval.splits if_splits)

lemma scope_agrees:
  "scope_on_strict (strict_reader None cfg env) scope k = Inr b \<Longrightarrow> scope_on (config_flag cfg env) scope k = Inr b"
  by (auto simp: scope_on_strict_def scope_on_def scope_key_def strict_reader_def ebind_Inr flag_agrees
    split: option.splits if_splits)

lemma kinds_agree:
  assumes "kinds_on_strict (strict_reader None cfg env) scope = Inr ks"
  shows "kinds_on (config_flag cfg env) scope = Inr ks \<and> set ks \<subseteq> set KINDS"
proof -
  have each: "emap (\<lambda>k. ebind (scope_on_strict (strict_reader None cfg env) scope k) (\<lambda>b. Inr (k, b))) ys = Inr zs \<Longrightarrow>
      emap (\<lambda>k. ebind (scope_on (config_flag cfg env) scope k) (\<lambda>b. Inr (k, b))) ys = Inr zs \<and> map fst zs = ys" for ys zs
    by (induction ys arbitrary: zs) (auto simp: ebind_Inr dest: scope_agrees)
  obtain zs where z: "emap (\<lambda>k. ebind (scope_on_strict (strict_reader None cfg env) scope k) (\<lambda>b. Inr (k, b))) KINDS = Inr zs"
    "ks = map fst (filter snd zs)"
    using assms by (auto simp: kinds_on_strict_def ebind_Inr)
  have "set (map fst (filter snd zs)) \<subseteq> set (map fst zs)" by auto
  then show ?thesis using each [OF z(1)] z(2) by (simp add: kinds_on_def)
qed

lemma kind_loop_agrees:
  "list_all2 (\<lambda>k rs. \<exists>found. strict_rules rc db k wid Skip = Inr (rs, found)) ks rss \<Longrightarrow> columns_ok db \<Longrightarrow>
    set ks \<subseteq> set KINDS \<Longrightarrow> emap (\<lambda>k. load_rules rc db k wid Skip) ks = Inr rss"
  by (induction rule: list_all2_induct) (auto dest: kind_rules_agree)

lemma load_scope_cases:
  assumes "load_scope_rules_strict rc db scope wid read = Inr r"
  shows "is_failure r \<and> lr_rules r = [] \<and> lr_code r \<noteq> None \<or>
    lr_state r = Disabled \<and> lr_rules r = [] \<and> kinds_on_strict read scope = Inr [] \<or>
    lr_state r = Loaded \<and> (\<exists>ks rss. kinds_on_strict read scope = Inr ks \<and> ks \<noteq> [] \<and> lr_rules r = concat rss \<and>
      list_all2 (\<lambda>k rs. \<exists>found. strict_rules rc db k wid Skip = Inr (rs, found)) ks rss)"
proof (cases "kinds_on_strict read scope")
  case (Inl x)
  then show ?thesis using assms failed_Inr by (auto simp: load_scope_rules_strict_def)
next
  case (Inr ks)
  show ?thesis
  proof (cases ks)
    case Nil
    then show ?thesis using assms Inr by (auto simp: load_scope_rules_strict_def)
  next
    case (Cons k ks')
    then have "load_kinds rc db wid ks [] [] = Inr r" using assms Inr by (simp add: load_scope_rules_strict_def)
    from load_kinds_Inr [OF this] show ?thesis using Inr Cons by auto
  qed
qed

section \<open>What was read\<close>

text \<open>A switch was read and is on, or was read and is off: the client of the configuration, or the
  caller's reader, answered, and what it answered, or the environment where that is empty, is one of
  the words for it. Said of the answers, not of what the loader makes of them.\<close>

definition switch_says :: "pyval \<Rightarrow> bool \<Rightarrow> bool" where
  "switch_says v b \<longleftrightarrow> v = PBool b \<or> v \<noteq> PNone \<and> (\<nexists>c. v = PBool c) \<and>
     lower (strip (py_str v)) \<in> (if b then {''1'', ''true'', ''yes'', ''on''} else {''0'', ''false'', ''no'', ''off''})"

definition switch_read :: "flag_reader option \<Rightarrow> config \<Rightarrow> environment \<Rightarrow> string \<Rightarrow> bool \<Rightarrow> bool \<Rightarrow> bool" where
  "switch_read flag cfg env name dflt b \<longleftrightarrow> (case flag of
       Some read \<Rightarrow> \<exists>v. read name dflt = Reads v \<and> switch_says v b
     | None \<Rightarrow> \<exists>get v. cfg = Some get \<and> get name = Reads v \<and>
         (if v = PNone \<or> (\<exists>s. v = PStr s \<and> strip s = []) then \<exists>s. env name = Some s \<and> switch_says (PStr s) b
          else switch_says v b))"

definition kind_read_on :: "flag_reader option \<Rightarrow> config \<Rightarrow> environment \<Rightarrow> string \<Rightarrow> policy_kind \<Rightarrow> bool" where
  "kind_read_on flag cfg env scope k \<longleftrightarrow> (\<exists>dflt. map_of SCOPE_DEFAULTS scope = Some dflt \<and>
     switch_read flag cfg env (pk_flag k) False True \<and> switch_read flag cfg env (pk_prefix k @ ''_'' @ scope) dflt True)"

definition kind_read_off :: "flag_reader option \<Rightarrow> config \<Rightarrow> environment \<Rightarrow> string \<Rightarrow> policy_kind \<Rightarrow> bool" where
  "kind_read_off flag cfg env scope k \<longleftrightarrow> (\<exists>dflt. map_of SCOPE_DEFAULTS scope = Some dflt \<and>
     (switch_read flag cfg env (pk_flag k) False False \<or>
      switch_read flag cfg env (pk_flag k) False True \<and> switch_read flag cfg env (pk_prefix k @ ''_'' @ scope) dflt False))"

text \<open>The exceptions of an agent were read: every row names a policy and says whether it applies, and
  the excepted policies are those of the rows that say it does not. Without an agent there are none.\<close>

definition exceptions_read :: "policy_db \<Rightarrow> string option \<Rightarrow> policy_kind \<Rightarrow> pyval list \<Rightarrow> bool" where
  "exceptions_read db workflow_id k excepted \<longleftrightarrow>
     (if workflow_id = None \<or> workflow_id = Some [] then excepted = []
      else \<exists>look rows. db = Some look \<and>
        look ''agent_applied_policies'' [(''workflow_id'', PStr (the workflow_id)), (''policy_type'', PStr (pk_type k))] =
          Reads (PList (map PDict rows)) \<and>
        (\<forall>row\<in>set rows. dget row ''policy_id'' \<noteq> PNone \<and> (\<exists>b. dget row ''is_applied'' = PBool b)) \<and>
        excepted = map (\<lambda>row. dget row ''policy_id'') (filter (\<lambda>row. dget row ''is_applied'' = PBool False) rows))"

definition rows_read :: "policy_db \<Rightarrow> policy_kind \<Rightarrow> pydict list \<Rightarrow> bool" where
  "rows_read db k rows \<longleftrightarrow> (\<exists>look. db = Some look \<and>
     look (pk_table k) [(''is_active'', PBool True)] = Reads (PList (map PDict rows)))"

text \<open>The ids of the rows that mask and are not excepted.\<close>

definition masked_ids :: "pydict list \<Rightarrow> pyval list \<Rightarrow> pyval list" where
  "masked_ids rows excepted = filter (\<lambda>i. i \<notin> set excepted)
     (map (\<lambda>d. dget d ''id'') (filter (\<lambda>d. dget d ''masking'' = PBool True) rows))"

lemma strict_bool_says: "strict_bool v = Inr b \<Longrightarrow> switch_says v b"
  by (cases v) (auto simp: strict_bool_def switch_says_def Let_def SWITCH_ON_def SWITCH_OFF_def split: if_splits)

lemma strict_reader_read:
  assumes "strict_reader flag cfg env name dflt = Inr b"
  shows "switch_read flag cfg env name dflt b"
proof (cases flag)
  case (Some read)
  then obtain v where "read name dflt = Reads v" "strict_bool v = Inr b"
    using assms by (auto simp: strict_reader_def split: reading.splits)
  then show ?thesis using Some strict_bool_says by (auto simp: switch_read_def)
next
  case None
  then obtain get v where g: "cfg = Some get" "get name = Reads v" "strict_bool (or_environment env name v) = Inr b"
    using assms by (auto simp: strict_reader_def config_flag_strict_def split: option.splits reading.splits)
  note says = strict_bool_says [OF g(3)]
  show ?thesis
  proof (cases "v = PNone \<or> (\<exists>s. v = PStr s \<and> strip s = [])")
    case True
    then have e: "or_environment env name v = (case env name of None \<Rightarrow> PNone | Some s \<Rightarrow> PStr s)"
      by (auto simp: or_environment_def)
    have "\<not> switch_says PNone b" by (simp add: switch_says_def)
    then have "\<exists>s. env name = Some s \<and> switch_says (PStr s) b" using says e by (auto split: option.splits)
    then show ?thesis using g None True by (simp add: switch_read_def)
  next
    case False
    then have "or_environment env name v = v" by (cases v) (simp_all add: or_environment_def)
    then have "switch_says v b" using says by simp
    then show ?thesis unfolding switch_read_def None option.case using g(1,2) False by auto
  qed
qed

lemma scope_on_strict_read:
  assumes "scope_on_strict (strict_reader flag cfg env) scope k = Inr b"
  shows "if b then kind_read_on flag cfg env scope k else kind_read_off flag cfg env scope k"
proof -
  obtain dflt enabled where d: "map_of SCOPE_DEFAULTS scope = Some dflt"
    "strict_reader flag cfg env (pk_flag k) False = Inr enabled"
    "if enabled then strict_reader flag cfg env (pk_prefix k @ ''_'' @ scope) dflt = Inr b else \<not> b"
    using assms by (auto simp: scope_on_strict_def ebind_Inr split: option.splits if_splits)
  note flag = strict_reader_read [OF d(2)]
  show ?thesis
  proof (cases enabled)
    case True
    then have "switch_read flag cfg env (pk_prefix k @ ''_'' @ scope) dflt b" using d(3) strict_reader_read by simp
    then show ?thesis using True flag d(1) by (cases b) (auto simp: kind_read_on_def kind_read_off_def)
  next
    case False
    then show ?thesis using d flag by (simp add: kind_read_off_def)
  qed
qed

lemma kinds_on_strict_read:
  assumes "kinds_on_strict (strict_reader flag cfg env) scope = Inr ks"
  shows "ks = filter (\<lambda>k. k \<in> set ks) KINDS \<and> (\<forall>k\<in>set KINDS. if k \<in> set ks then kind_read_on flag cfg env scope k
    else kind_read_off flag cfg env scope k)"
proof -
  have each: "emap (\<lambda>k. ebind (scope_on_strict (strict_reader flag cfg env) scope k) (\<lambda>b. Inr (k, b))) ys = Inr zs \<Longrightarrow>
      map fst zs = ys \<and> (\<forall>(k, b)\<in>set zs. if b then kind_read_on flag cfg env scope k else kind_read_off flag cfg env scope k)"
    for ys zs
    by (induction ys arbitrary: zs) (auto simp: ebind_Inr dest!: scope_on_strict_read split: if_splits)
  obtain zs where z: "emap (\<lambda>k. ebind (scope_on_strict (strict_reader flag cfg env) scope k) (\<lambda>b. Inr (k, b))) KINDS = Inr zs"
    "ks = map fst (filter snd zs)"
    using assms by (auto simp: kinds_on_strict_def ebind_Inr)
  note zs = each [OF z(1)]
  obtain x y where K: "KINDS = [x, y]" "x \<noteq> y" by (simp add: KINDS_def)
  obtain a b where ab: "zs = [(x, a), (y, b)]" using zs unfolding K(1) by (cases zs) auto
  show ?thesis using zs K(2) unfolding K(1) z(2) ab by (cases a; cases b) auto
qed

lemma exception_rows_spec:
  "exception_rows vs = Inr ids \<Longrightarrow> \<exists>rows. vs = map PDict rows \<and>
    (\<forall>row\<in>set rows. dget row ''policy_id'' \<noteq> PNone \<and> (\<exists>b. dget row ''is_applied'' = PBool b)) \<and>
    ids = map (\<lambda>row. dget row ''policy_id'') (filter (\<lambda>row. dget row ''is_applied'' = PBool False) rows)"
proof (induction vs arbitrary: ids)
  case (Cons v vs)
  obtain row where v: "v = PDict row" using Cons.prems by (cases v) simp_all
  have pid: "dget row ''policy_id'' \<noteq> PNone" "\<exists>b. dget row ''is_applied'' = PBool b"
    using Cons.prems by (auto simp: v Let_def split: if_splits)
  obtain ids' where r: "exception_rows vs = Inr ids'"
    "ids = (if dget row ''is_applied'' = PBool False then dget row ''policy_id'' # ids' else ids')"
    using Cons.prems by (auto simp: v Let_def ebind_Inr split: if_splits)
  obtain rows where rows: "vs = map PDict rows"
    "\<forall>row\<in>set rows. dget row ''policy_id'' \<noteq> PNone \<and> (\<exists>b. dget row ''is_applied'' = PBool b)"
    "ids' = map (\<lambda>row. dget row ''policy_id'') (filter (\<lambda>row. dget row ''is_applied'' = PBool False) rows)"
    using Cons.IH [OF r(1)] by blast
  show ?case by (rule exI [of _ "row # rows"]) (use v pid r rows in simp)
qed simp

lemma exceptions_were_read:
  assumes "excepted_policy_ids_strict db wid (pk_type k) = Inr excepted"
  shows "exceptions_read db wid k excepted"
proof (cases "wid = None \<or> wid = Some []")
  case True
  then show ?thesis using assms by (auto simp: excepted_policy_ids_strict_def exceptions_read_def)
next
  case False
  then obtain w look v where w: "wid = Some w" "db = Some look" "look EXCEPTIONS_TABLE (exception_conditions w (pk_type k)) = Reads v"
    using assms by (auto simp: excepted_policy_ids_strict_def split: option.splits reading.splits if_splits)
  then obtain vs where vs: "v = PList vs" "exception_rows vs = Inr excepted"
    using assms False by (cases v) (simp_all add: excepted_policy_ids_strict_def)
  obtain rows where "vs = map PDict rows"
    "\<forall>row\<in>set rows. dget row ''policy_id'' \<noteq> PNone \<and> (\<exists>b. dget row ''is_applied'' = PBool b)"
    "excepted = map (\<lambda>row. dget row ''policy_id'') (filter (\<lambda>row. dget row ''is_applied'' = PBool False) rows)"
    using exception_rows_spec [OF vs(2)] by blast
  then show ?thesis using w vs(1) False
    by (auto simp: exceptions_read_def EXCEPTIONS_TABLE_def exception_conditions_def)
qed

lemma strict_rules_read:
  assumes "strict_rules rc db k wid Skip = Inr (rules, found)"
  shows "\<exists>rows excepted. rows_read db k rows \<and> exceptions_read db wid k excepted \<and> map mr_id rules = masked_ids rows excepted"
proof -
  obtain vs excepted rs where s: "policies_read db wid k vs excepted" "emap (strict_row rc) vs = Inr rs"
    "rules = filter (\<lambda>r. mr_id r \<notin> set excepted) (compile_rules rc rs (pk_type k) Skip)"
    using strict_rules_Inr [OF assms] by blast
  obtain ds where ds: "vs = map PDict ds" using strict_rows_are_dicts [OF s(2)] by blast
  have "map mr_id rules = filter (\<lambda>i. i \<notin> set excepted) (map mr_id (compile_rules rc rs (pk_type k) Skip))"
    by (simp add: s(3) filter_map comp_def)
  moreover have "map policy_id_of (filter row_masking vs) =
      map (\<lambda>d. dget d ''id'') (filter (\<lambda>d. dget d ''masking'' = PBool True) ds)"
    by (simp add: ds filter_map comp_def policy_id_of_def row_dict_def row_masking_def)
  ultimately have "map mr_id rules = masked_ids ds excepted" using compiled_ids [OF s(2)] by (simp add: masked_ids_def)
  then show ?thesis using s(1) exceptions_were_read [of db wid k excepted] by (auto simp: policies_read_def rows_read_def ds)
qed

section \<open>Properties\<close>

text \<open>C26. A strict read never opens by mistake. It says disabled only when for every kind of policy
  the switch of the kind was read and is off, or was read and is on and the switch of the kind at
  this place was read and is off. It says loaded only when every kind was read to be off in this way
  or on in both switches, at least one is on, and for every kind that is on the active policies and
  the exceptions of the agent were answered; the rules are then exactly those of the policies that
  mask and are not excepted, in order. Any other answer carries an error code and no rule.\<close>

theorem strict_load_never_opens_by_mistake:
  assumes "load_scope_rules_strict rc db scope wid (strict_reader flag cfg env) = Inr r"
  shows "case lr_state r of
      Disabled \<Rightarrow> (\<forall>k\<in>set KINDS. kind_read_off flag cfg env scope k) \<and> lr_rules r = []
    | Loaded \<Rightarrow> (\<exists>on reads. on \<noteq> [] \<and> on = filter (\<lambda>k. k \<in> set on) KINDS \<and>
        (\<forall>k\<in>set KINDS. if k \<in> set on then kind_read_on flag cfg env scope k else kind_read_off flag cfg env scope k) \<and>
        list_all2 (\<lambda>k (rows, excepted). rows_read db k rows \<and> exceptions_read db wid k excepted) on reads \<and>
        map mr_id (lr_rules r) = concat (map (\<lambda>(rows, excepted). masked_ids rows excepted) reads))
    | _ \<Rightarrow> lr_code r \<noteq> None \<and> lr_rules r = []"
proof -
  have loop: "list_all2 (\<lambda>k rs. \<exists>found. strict_rules rc db k wid Skip = Inr (rs, found)) ks rss \<Longrightarrow>
      \<exists>reads. list_all2 (\<lambda>k (rows, excepted). rows_read db k rows \<and> exceptions_read db wid k excepted) ks reads \<and>
        map mr_id (concat rss) = concat (map (\<lambda>(rows, excepted). masked_ids rows excepted) reads)" for ks rss
  proof (induction rule: list_all2_induct)
    case (Cons k ks rs rss)
    then obtain rows excepted reads where "rows_read db k rows" "exceptions_read db wid k excepted"
      "map mr_id rs = masked_ids rows excepted"
      "list_all2 (\<lambda>k (rows, excepted). rows_read db k rows \<and> exceptions_read db wid k excepted) ks reads"
      "map mr_id (concat rss) = concat (map (\<lambda>(rows, excepted). masked_ids rows excepted) reads)"
      using strict_rules_read by blast
    then show ?case by (intro exI [of _ "(rows, excepted) # reads"]) simp
  qed simp
  from load_scope_cases [OF assms] show ?thesis
  proof (elim disjE)
    assume "lr_state r = Disabled \<and> lr_rules r = [] \<and> kinds_on_strict (strict_reader flag cfg env) scope = Inr []"
    then show ?thesis using kinds_on_strict_read [of flag cfg env scope "[]"] by simp
  next
    assume "lr_state r = Loaded \<and> (\<exists>ks rss. kinds_on_strict (strict_reader flag cfg env) scope = Inr ks \<and> ks \<noteq> [] \<and>
      lr_rules r = concat rss \<and> list_all2 (\<lambda>k rs. \<exists>found. strict_rules rc db k wid Skip = Inr (rs, found)) ks rss)"
    then obtain ks rss where l: "lr_state r = Loaded" "kinds_on_strict (strict_reader flag cfg env) scope = Inr ks" "ks \<noteq> []"
      "lr_rules r = concat rss" "list_all2 (\<lambda>k rs. \<exists>found. strict_rules rc db k wid Skip = Inr (rs, found)) ks rss"
      by blast
    obtain reads where "list_all2 (\<lambda>k (rows, excepted). rows_read db k rows \<and> exceptions_read db wid k excepted) ks reads"
      "map mr_id (concat rss) = concat (map (\<lambda>(rows, excepted). masked_ids rows excepted) reads)"
      using loop [OF l(5)] by blast
    then have m: "list_all2 (\<lambda>k (rows, excepted). rows_read db k rows \<and> exceptions_read db wid k excepted) ks reads"
      "map mr_id (lr_rules r) = concat (map (\<lambda>(rows, excepted). masked_ids rows excepted) reads)"
      unfolding l(4) by blast+
    note kinds = kinds_on_strict_read [OF l(2)]
    show ?thesis unfolding l(1) load_state.case
      by (rule exI [of _ ks], rule exI [of _ reads], rule conjI [OF l(3) conjI [OF conjunct1 [OF kinds]
        conjI [OF conjunct2 [OF kinds] conjI [OF m]]]])
  qed (auto simp: is_failure_def)
qed

text \<open>C27. The strict and the open reader agree: whenever a strict read of a place with the switches of
  the configuration does not fail, and the columns have the types of the schema, the open reader
  gives the very same rules.\<close>

theorem strict_and_open_reads_agree:
  assumes "load_scope_rules_strict rc db scope wid (strict_reader None cfg env) = Inr r"
    and "\<not> is_failure r" and "columns_ok db"
  shows "load_scope_rules rc db scope wid (config_flag cfg env) = Inr (lr_rules r)"
proof -
  obtain ks rss where k: "kinds_on_strict (strict_reader None cfg env) scope = Inr ks" "lr_rules r = concat rss"
    "list_all2 (\<lambda>k rs. \<exists>found. strict_rules rc db k wid Skip = Inr (rs, found)) ks rss"
    using load_scope_cases [OF assms(1)] assms(2) by fastforce
  have on: "kinds_on (config_flag cfg env) scope = Inr ks" "set ks \<subseteq> set KINDS" using kinds_agree [OF k(1)] by simp_all
  show ?thesis using kind_loop_agrees [OF k(3) assms(3) on(2)] on(1) k(2) by (simp add: load_scope_rules_def)
qed

section \<open>Witnesses\<close>

definition w_policies :: policy_db where
  "w_policies = Some (\<lambda>table _. Reads (PList (if table = ''piis'' then [w_row] else [])))"

definition w_config :: config where
  "w_config = Some (\<lambda>_. Reads (PStr ''true''))"

lemma w_compiled: "\<exists>rule. compile_rules_strict w_engine (PList [w_row]) ''pii'' Skip = Inr [rule] \<and> mr_id rule = PInt 1"
proof -
  obtain r where r: "strict_row w_engine w_row = Inr r"
    by (simp add: strict_row_def w_row_def dget_def text_of_val_def strict_check_def w_engine_def strip_def is_space_def
      lower_def lower_char_def MASK_MODE_FULL_def strict_int_def strict_nonnegative_int_def is_flag_def check_template_def
      validator_pattern_def)
  have "map mr_id (compile_rules w_engine [r] ''pii'' Skip) = [PInt 1]"
    using compiled_ids [of w_engine "[w_row]" "[r]" "''pii''"] r
    by (simp add: row_masking_def policy_id_of_def row_dict_def w_row_def dget_def)
  then show ?thesis using r by (auto simp: compile_rules_strict_def list_of_val_def)
qed

lemma w_kinds: "kinds_on_strict (strict_reader None w_config (\<lambda>_. None)) ''BLOCK_MODEL_INPUT'' = Inr KINDS"
proof -
  have "strict_bool (or_environment (\<lambda>_. None) n (PStr ''true'')) = Inr True" for n
    by (simp add: or_environment_def strict_bool_def py_str_def strip_def is_space_def lower_def lower_char_def SWITCH_ON_def)
  then show ?thesis
    by (simp add: kinds_on_strict_def KINDS_def scope_on_strict_def SCOPE_DEFAULTS_def strict_reader_def config_flag_strict_def
      w_config_def)
qed

lemma w_loaded: "\<exists>r. load_scope_rules_strict w_engine w_policies ''BLOCK_MODEL_INPUT'' None (strict_reader None w_config (\<lambda>_. None)) = Inr r \<and>
    lr_state r = Loaded \<and> map mr_id (lr_rules r) = [PInt 1]"
proof -
  obtain rule where rule: "compile_rules_strict w_engine (PList [w_row]) ''pii'' Skip = Inr [rule]" "mr_id rule = PInt 1"
    using w_compiled by blast
  have none: "compile_rules_strict w_engine (PList []) ''forbidden_word'' Skip = Inr []"
    by (simp add: compile_rules_strict_def list_of_val_def compile_rules_def)
  show ?thesis unfolding load_scope_rules_strict_def w_kinds
    using rule none by (simp add: KINDS_def load_rules_strict_def strict_rules_def w_policies_def is_failure_def
      excepted_policy_ids_strict_def hashable_def revision_from_rows_def)
qed

theorem strict_load_never_opens_by_mistake_witness:
  "\<exists>r on reads. load_scope_rules_strict w_engine w_policies ''BLOCK_MODEL_INPUT'' None (strict_reader None w_config (\<lambda>_. None)) = Inr r \<and>
    lr_state r = Loaded \<and> on \<noteq> [] \<and> (\<forall>k\<in>set on. kind_read_on None w_config (\<lambda>_. None) ''BLOCK_MODEL_INPUT'' k) \<and>
    list_all2 (\<lambda>k (rows, excepted). rows_read w_policies k rows \<and> exceptions_read w_policies None k excepted) on reads \<and>
    map mr_id (lr_rules r) = [PInt 1]"
proof -
  obtain r where r: "load_scope_rules_strict w_engine w_policies ''BLOCK_MODEL_INPUT'' None (strict_reader None w_config (\<lambda>_. None)) = Inr r"
    "lr_state r = Loaded" "map mr_id (lr_rules r) = [PInt 1]" using w_loaded by (elim exE conjE)
  obtain on reads where o: "on \<noteq> []" "on = filter (\<lambda>k. k \<in> set on) KINDS"
    "\<forall>k\<in>set KINDS. if k \<in> set on then kind_read_on None w_config (\<lambda>_. None) ''BLOCK_MODEL_INPUT'' k
      else kind_read_off None w_config (\<lambda>_. None) ''BLOCK_MODEL_INPUT'' k"
    "list_all2 (\<lambda>k (rows, excepted). rows_read w_policies k rows \<and> exceptions_read w_policies None k excepted) on reads"
    using strict_load_never_opens_by_mistake [OF r(1)] unfolding r(2) load_state.case by (elim exE conjE)
  have "k \<in> set KINDS" if "k \<in> set on" for k
  proof -
    have "k \<in> set (filter (\<lambda>k. k \<in> set on) KINDS)" using that o(2) by simp
    then show ?thesis by simp
  qed
  then have "\<forall>k\<in>set on. kind_read_on None w_config (\<lambda>_. None) ''BLOCK_MODEL_INPUT'' k" using o(3) by auto
  then show ?thesis
    by - (rule exI [of _ r], rule exI [of _ on], rule exI [of _ reads], use r o(1,4) in \<open>simp only: simp_thms\<close>)
qed

theorem strict_and_open_reads_agree_witness:
  "\<exists>rules. load_scope_rules w_engine w_policies ''BLOCK_MODEL_INPUT'' None (config_flag w_config (\<lambda>_. None)) = Inr rules \<and>
    map mr_id rules = [PInt 1]"
proof -
  obtain r where r: "load_scope_rules_strict w_engine w_policies ''BLOCK_MODEL_INPUT'' None (strict_reader None w_config (\<lambda>_. None)) = Inr r"
    "lr_state r = Loaded" "map mr_id (lr_rules r) = [PInt 1]" using w_loaded by (elim exE conjE)
  have "columns_ok w_policies"
    unfolding columns_ok_def
  proof (intro allI impI)
    fix look k rows d
    assume a: "w_policies = Some look" "look (pk_table k) [(''is_active'', PBool True)] = Reads (PList rows)" "PDict d \<in> set rows"
    have "look = (\<lambda>table _. Reads (PList (if table = ''piis'' then [w_row] else [])))" using a(1) by (simp add: w_policies_def)
    then have "PDict d = w_row" using a(2,3) by (auto split: if_splits)
    then show "has_column_types d \<and> id_column d"
      by (simp add: w_row_def has_column_types_def id_column_def dget_def hashable_def)
  qed
  then show ?thesis using strict_and_open_reads_agree [OF r(1)] r(2,3) by (simp add: is_failure_def)
qed

text \<open>The open reader answers a failure with no rules.\<close>

lemma unreadable_policies_are_open:
  assumes "\<forall>k\<in>set KINDS. \<forall>look. db = Some look \<longrightarrow> look (pk_table k) [(''is_active'', PBool True)] = Raises"
    and "load_scope_rules rc db scope wid read = Inr rules"
  shows "rules = []"
proof -
  have none: "load_rules rc db k wid Skip = Inr []" if "k \<in> set KINDS" for k
    using assms(1) that by (auto simp: load_rules_def split: option.split)
  obtain ks rs where ks: "kinds_on read scope = Inr ks" "emap (\<lambda>k. load_rules rc db k wid Skip) ks = Inr rs" "rules = concat rs"
    using assms(2) by (auto simp: load_scope_rules_def ebind_Inr)
  have each: "emap (\<lambda>k. ebind (scope_on read scope k) (\<lambda>b. Inr (k, b))) ys = Inr zs \<Longrightarrow> map fst zs = ys" for ys zs
    by (induction ys arbitrary: zs) (auto simp: ebind_Inr)
  obtain zs where zs: "emap (\<lambda>k. ebind (scope_on read scope k) (\<lambda>b. Inr (k, b))) KINDS = Inr zs" "ks = map fst (filter snd zs)"
    using ks(1) by (auto simp: kinds_on_def ebind_Inr)
  have "set ks \<subseteq> set (map fst zs)" unfolding zs(2) by auto
  then have sub: "set ks \<subseteq> set KINDS" using each [OF zs(1)] by simp
  have "emap (\<lambda>k. load_rules rc db k wid Skip) ks' = Inr rs' \<Longrightarrow> set ks' \<subseteq> set KINDS \<Longrightarrow> concat rs' = []" for ks' rs'
    by (induction ks' arbitrary: rs') (auto simp: ebind_Inr none)
  then show ?thesis using ks(2,3) sub by blast
qed

end
