(* ===== verification/StorageKeys.thy ===== *)
theory StorageKeys
  imports Bytes
begin

text \<open>
  \<open>src/xgen_sdk/storage/crypto.py\<close>, the settings: the mode of the encryption, the key and where
  both come from (an argument, the resolver a service registers, the environment).

  Bytes are words of eight bits. What a registered resolver does when it is called, and the
  values of the environment variables, are arguments.
\<close>

datatype crypto_error =
    StorageCryptoError
  | EncryptionKeyError
  | UnsupportedAlgorithmError
  | DecryptionError
  | UnicodeEncodeError

definition KEY_LEN :: nat where "KEY_LEN = 32"

section \<open>Modes\<close>

definition MODE_DISABLE :: string where "MODE_DISABLE = ''disable''"
definition MODE_AES :: string where "MODE_AES = ''aes256-gcm''"
definition MODE_UDE :: string where "MODE_UDE = ''ude-aria256''"
definition DEFAULT_ALGORITHM :: string where "DEFAULT_ALGORITHM = ''aes256-gcm''"

definition coerce_flag :: "pyval \<Rightarrow> bool option" where
  "coerce_flag v = (case v of
       PNone \<Rightarrow> None
     | PBool b \<Rightarrow> Some b
     | PInt i \<Rightarrow> Some (i \<noteq> 0)
     | PFloat _ _ \<Rightarrow> Some (truthy v)
     | PStr t \<Rightarrow> (let s = lower (strip t) in
         if s = [] then None else Some (s \<in> {''1'', ''true'', ''yes'', ''on''}))
     | _ \<Rightarrow> None)"

definition DISABLE_WORDS :: "string list" where
  "DISABLE_WORDS = [''disable'', ''disabled'', ''off'', ''none'', ''false'', ''0'', ''no'']"

definition AES_WORDS :: "string list" where
  "AES_WORDS = [''aes-256'', ''aes256'', ''aes'', ''aes256-gcm'', ''aes-256-gcm'', ''true'', ''1'', ''on'', ''yes'']"

definition UDE_WORDS :: "string list" where
  "UDE_WORDS = [''ude'', ''ude-aria256'', ''ude_aria256'', ''aria_256_ude'', ''aria-256-ude'']"

definition coerce_mode :: "pyval \<Rightarrow> string option" where
  "coerce_mode v = (case v of
       PNone \<Rightarrow> None
     | PBool b \<Rightarrow> Some (if b then MODE_AES else MODE_DISABLE)
     | PInt i \<Rightarrow> Some (if i \<noteq> 0 then MODE_AES else MODE_DISABLE)
     | PFloat _ _ \<Rightarrow> Some (if truthy v then MODE_AES else MODE_DISABLE)
     | PStr t \<Rightarrow> (let s = lower (strip t) in
         if s = [] then None
         else if s \<in> set DISABLE_WORDS then Some MODE_DISABLE
         else if s \<in> set AES_WORDS then Some MODE_AES
         else if s \<in> set UDE_WORDS then Some MODE_UDE
         else None)
     | _ \<Rightarrow> None)"

text \<open>A registered resolver raises or returns a value.\<close>

datatype 'a resolver = NoResolver | Raises | RaisesKeyError | Returns 'a

definition env_value :: "string option \<Rightarrow> pyval" where
  "env_value e = (case e of None \<Rightarrow> PNone | Some s \<Rightarrow> PStr s)"

definition env_mode :: "string option \<Rightarrow> string" where
  "env_mode e = (case coerce_mode (env_value e) of None \<Rightarrow> MODE_DISABLE | Some m \<Rightarrow> m)"

definition encryption_mode :: "pyval resolver \<Rightarrow> string option \<Rightarrow> string" where
  "encryption_mode r e = (case r of
       Returns v \<Rightarrow> (case coerce_mode v of Some m \<Rightarrow> m | None \<Rightarrow> env_mode e)
     | _ \<Rightarrow> env_mode e)"

definition resolve_write_algorithm :: "pyval resolver \<Rightarrow> string option \<Rightarrow> string option" where
  "resolve_write_algorithm r e =
     (let mode = encryption_mode r e in if mode = MODE_DISABLE then None else Some mode)"

definition encryption_enabled :: "pyval resolver \<Rightarrow> string option \<Rightarrow> bool" where
  "encryption_enabled r e = (encryption_mode r e \<noteq> MODE_DISABLE)"

definition resolve_encrypt_flag :: "bool option \<Rightarrow> pyval resolver \<Rightarrow> string option \<Rightarrow> bool" where
  "resolve_encrypt_flag explicit r e = (case explicit of None \<Rightarrow> encryption_enabled r e | Some b \<Rightarrow> b)"

section \<open>Text of a key\<close>

text \<open>\<open>base64\<close>, with the strict check the code asks for.\<close>

definition b64_value :: "char \<Rightarrow> nat option" where
  "b64_value c = (let n = (of_char c :: nat) in
     if 65 \<le> n \<and> n \<le> 90 then Some (n - 65)
     else if 97 \<le> n \<and> n \<le> 122 then Some (n - 71)
     else if 48 \<le> n \<and> n \<le> 57 then Some (n + 4)
     else if n = 43 then Some 62
     else if n = 47 then Some 63
     else None)"

definition b64_char :: "nat \<Rightarrow> char" where
  "b64_char v = char_of (if v < 26 then v + 65 else if v < 52 then v + 71 else if v < 62 then v - 4
     else if v = 62 then 43 else 47)"

definition b64_pad :: char where "b64_pad = CHR ''=''"

definition b64_bytes :: "nat list \<Rightarrow> bytes" where
  "b64_bytes vs = (case vs of
       [p, q] \<Rightarrow> [of_nat (p * 4 + q div 16)]
     | [p, q, r] \<Rightarrow> [of_nat (p * 4 + q div 16), of_nat (q mod 16 * 16 + r div 4)]
     | [p, q, r, s] \<Rightarrow> [of_nat (p * 4 + q div 16), of_nat (q mod 16 * 16 + r div 4), of_nat (r mod 4 * 64 + s)]
     | _ \<Rightarrow> [])"

definition b64_group :: "string \<Rightarrow> bytes option" where
  "b64_group cs = (if list_all (\<lambda>c. b64_value c \<noteq> None) cs then Some (b64_bytes (map (the \<circ> b64_value) cs))
     else None)"

fun b64decode :: "string \<Rightarrow> bytes option" where
  "b64decode (a # b # c # d # rest) =
     (if rest = [] then b64_group (if d \<noteq> b64_pad then [a, b, c, d] else if c \<noteq> b64_pad then [a, b, c] else [a, b])
      else case b64_group [a, b, c, d] of
        None \<Rightarrow> None
      | Some bs \<Rightarrow> (case b64decode rest of None \<Rightarrow> None | Some bs' \<Rightarrow> Some (bs @ bs')))"
| "b64decode [] = Some []"
| "b64decode _ = None"

fun b64encode :: "bytes \<Rightarrow> string" where
  "b64encode (x # y # z # rest) =
     b64_char (unat x div 4) # b64_char (unat x mod 4 * 16 + unat y div 16) #
     b64_char (unat y mod 16 * 4 + unat z div 64) # b64_char (unat z mod 64) # b64encode rest"
| "b64encode [x, y] =
     [b64_char (unat x div 4), b64_char (unat x mod 4 * 16 + unat y div 16),
      b64_char (unat y mod 16 * 4), b64_pad]"
| "b64encode [x] = [b64_char (unat x div 4), b64_char (unat x mod 4 * 16), b64_pad, b64_pad]"
| "b64encode [] = []"

text \<open>\<open>bytes.fromhex\<close>: pairs of digits, with ASCII white space between the pairs.\<close>

definition hex_value :: "char \<Rightarrow> nat option" where
  "hex_value c = (let n = (of_char c :: nat) in
     if 48 \<le> n \<and> n \<le> 57 then Some (n - 48)
     else if 97 \<le> n \<and> n \<le> 102 then Some (n - 87)
     else if 65 \<le> n \<and> n \<le> 70 then Some (n - 55)
     else None)"

definition ascii_space :: "char \<Rightarrow> bool" where
  "ascii_space c = (let n = (of_char c :: nat) in 9 \<le> n \<and> n \<le> 13 \<or> n = 32)"

fun fromhex :: "string \<Rightarrow> bytes option" where
  "fromhex [] = Some []"
| "fromhex [c] = (if ascii_space c then Some [] else None)"
| "fromhex (c # d # rest) =
     (if ascii_space c then fromhex (d # rest)
      else case (hex_value c, hex_value d) of
        (Some h, Some l) \<Rightarrow> (case fromhex rest of None \<Rightarrow> None | Some bs \<Rightarrow> Some (of_nat (h * 16 + l) # bs))
      | _ \<Rightarrow> None)"

definition generate_key :: "bytes \<Rightarrow> string" where
  "generate_key random = b64encode random"

definition decode_key :: "string \<Rightarrow> crypto_error + bytes" where
  "decode_key given =
     (if strip given = [] then Inl EncryptionKeyError
      else let value = strip given in
        case b64decode value of
          Some k \<Rightarrow> if length k = KEY_LEN then Inr k
            else (case fromhex value of Some h \<Rightarrow> if length h = KEY_LEN then Inr h else Inl EncryptionKeyError
              | None \<Rightarrow> Inl EncryptionKeyError)
        | None \<Rightarrow> (case fromhex value of Some h \<Rightarrow> if length h = KEY_LEN then Inr h else Inl EncryptionKeyError
              | None \<Rightarrow> Inl EncryptionKeyError))"

section \<open>Where the key comes from\<close>

datatype key_value = KNone | KBytes bytes | KText string | KOther

definition load_key_from_env :: "string option \<Rightarrow> crypto_error + bytes option" where
  "load_key_from_env raw = (case raw of
       None \<Rightarrow> Inr None
     | Some s \<Rightarrow> if s = [] then Inr None else ebind (decode_key s) (\<lambda>k. Inr (Some k)))"

definition coerce_key :: "key_value \<Rightarrow> crypto_error + bytes option" where
  "coerce_key v = (case v of
       KNone \<Rightarrow> Inr None
     | KBytes b \<Rightarrow> if length b = KEY_LEN then Inr (Some b) else Inl EncryptionKeyError
     | KText s \<Rightarrow> if strip s = [] then Inr None else ebind (decode_key s) (\<lambda>k. Inr (Some k))
     | KOther \<Rightarrow> Inl EncryptionKeyError)"

definition env_key :: "string option \<Rightarrow> crypto_error + bytes" where
  "env_key raw = ebind (load_key_from_env raw) (\<lambda>k. case k of
     None \<Rightarrow> Inl EncryptionKeyError | Some b \<Rightarrow> Inr b)"

definition resolve_key :: "key_value \<Rightarrow> key_value resolver \<Rightarrow> string option \<Rightarrow> crypto_error + bytes" where
  "resolve_key key r raw = (case key of
       KNone \<Rightarrow> (case r of
           Returns v \<Rightarrow> ebind (coerce_key v) (\<lambda>k. case k of Some b \<Rightarrow> Inr b | None \<Rightarrow> env_key raw)
         | RaisesKeyError \<Rightarrow> Inl EncryptionKeyError
         | _ \<Rightarrow> env_key raw)
     | KBytes b \<Rightarrow> if length b = KEY_LEN then Inr b else Inl EncryptionKeyError
     | _ \<Rightarrow> Inl EncryptionKeyError)"

section \<open>Lemmas\<close>

lemma b64_value_char: "v < 64 \<Longrightarrow> b64_value (b64_char v) = Some v"
  by (auto simp: b64_value_def b64_char_def Let_def)

lemma b64_char_not_pad: "v < 64 \<Longrightarrow> b64_char v \<noteq> b64_pad"
proof
  assume v: "v < 64" and e: "b64_char v = b64_pad"
  have "b64_value b64_pad = None" by code_simp
  with b64_value_char [OF v] e show False by simp
qed

lemma byte_bound: "unat (b :: 8 word) < 256"
  using unsigned_less [of b] by simp

lemma split_join: "b < k \<Longrightarrow> (a * k + b) div k = a \<and> (a * k + b) mod k = (b :: nat)"
  by simp

lemma div_byte:
  fixes x :: "8 word"
  shows "unat x div 4 < 64" "unat x div 16 < 16" "unat x div 64 < 4"
  using byte_bound [of x] by (simp_all add: less_mult_imp_div_less)

lemma sextets:
  fixes x y z :: "8 word"
  shows "unat x div 4 < 64" "unat x mod 4 * 16 + unat y div 16 < 64" "unat y mod 16 * 4 + unat z div 64 < 64"
    "unat z mod 64 < 64" "unat x mod 4 * 16 < 64" "unat y mod 16 * 4 < 64"
proof -
  have m: "unat x mod 4 < 4" "unat y mod 16 < 16" by simp_all
  show "unat x div 4 < 64" "unat z mod 64 < 64" by (simp_all add: div_byte)
  show "unat x mod 4 * 16 + unat y div 16 < 64" "unat y mod 16 * 4 + unat z div 64 < 64"
    "unat x mod 4 * 16 < 64" "unat y mod 16 * 4 < 64"
    using m div_byte(2) [of y] div_byte(3) [of z] by linarith+
qed

lemma sextets_back:
  fixes x y z :: "8 word"
  shows "unat x div 4 * 4 + (unat x mod 4 * 16 + unat y div 16) div 16 = unat x"
    "(unat x mod 4 * 16 + unat y div 16) mod 16 * 16 + (unat y mod 16 * 4 + unat z div 64) div 4 = unat y"
    "(unat y mod 16 * 4 + unat z div 64) mod 4 * 64 + unat z mod 64 = unat z"
    "(unat x mod 4 * 16 + unat y div 16) mod 16 * 16 + unat y mod 16 * 4 div 4 = unat y"
    "unat x div 4 * 4 + unat x mod 4 * 16 div 16 = unat x"
  using split_join [OF div_byte(2) [of y], of "unat x mod 4"] split_join [OF div_byte(3) [of z], of "unat y mod 16"]
  by simp_all

lemma of_nat_byte: "n = unat (b :: 8 word) \<Longrightarrow> (of_nat n :: 8 word) = b"
  by simp

lemma b64_group_chars:
  "list_all (\<lambda>v. v < 64) vs \<Longrightarrow> b64_group (map b64_char vs) = Some (b64_bytes vs)"
  by (induction vs rule: list.induct)
    (simp_all add: b64_group_def b64_value_char comp_def list_all_iff map_idI)

lemma b64_three:
  fixes x y z :: "8 word"
  shows "b64_bytes [unat x div 4, unat x mod 4 * 16 + unat y div 16, unat y mod 16 * 4 + unat z div 64, unat z mod 64]
    = [x, y, z]"
  unfolding b64_bytes_def list.case sextets_back by simp

lemma b64_two:
  fixes x y :: "8 word"
  shows "b64_bytes [unat x div 4, unat x mod 4 * 16 + unat y div 16, unat y mod 16 * 4] = [x, y]"
  unfolding b64_bytes_def list.case sextets_back by simp

lemma b64_one:
  fixes x :: "8 word"
  shows "b64_bytes [unat x div 4, unat x mod 4 * 16] = [x]"
  unfolding b64_bytes_def list.case sextets_back by simp

lemma b64encode_Nil [simp]: "b64encode bs = [] \<longleftrightarrow> bs = []"
  by (cases bs rule: b64encode.cases) simp_all

lemma b64_roundtrip: "b64decode (b64encode bs) = Some bs"
proof (induction bs rule: b64encode.induct)
  case (1 x y z rest)
  have g: "b64_group [b64_char (unat x div 4), b64_char (unat x mod 4 * 16 + unat y div 16),
      b64_char (unat y mod 16 * 4 + unat z div 64), b64_char (unat z mod 64)] = Some [x, y, z]"
    using b64_group_chars [of "[unat x div 4, unat x mod 4 * 16 + unat y div 16,
      unat y mod 16 * 4 + unat z div 64, unat z mod 64]"] by (simp add: sextets b64_three)
  show ?case using 1 g sextets(4) [of z] by (auto simp: b64_char_not_pad)
next
  case (2 x y)
  have g: "b64_group [b64_char (unat x div 4), b64_char (unat x mod 4 * 16 + unat y div 16),
      b64_char (unat y mod 16 * 4)] = Some [x, y]"
    using b64_group_chars [of "[unat x div 4, unat x mod 4 * 16 + unat y div 16, unat y mod 16 * 4]"]
    by (simp add: sextets b64_two)
  show ?case using g sextets(6) [of y] by (simp add: b64_char_not_pad)
next
  case (3 x)
  have g: "b64_group [b64_char (unat x div 4), b64_char (unat x mod 4 * 16)] = Some [x]"
    using b64_group_chars [of "[unat x div 4, unat x mod 4 * 16]"] by (simp add: sextets b64_one)
  show ?case using g by simp
next
  case 4
  show ?case by simp
qed

lemma b64_char_plain: "v < 64 \<Longrightarrow> \<not> is_space (b64_char v)"
proof
  assume v: "v < 64" and s: "is_space (b64_char v)"
  have "is_space c \<Longrightarrow> b64_value c = None" for c by (auto simp: is_space_def b64_value_def Let_def)
  with s b64_value_char [OF v] show False by simp
qed

lemma b64encode_plain: "list_all (\<lambda>c. \<not> is_space c) (b64encode bs)"
proof -
  have "\<not> is_space b64_pad" by code_simp
  then show ?thesis by (induction bs rule: b64encode.induct) (simp_all add: b64_char_plain sextets)
qed

lemma strip_b64encode: "strip (b64encode bs) = b64encode bs"
  by (rule strip_no_space [OF b64encode_plain])

text \<open>Sixty-four digits are a text of forty-eight bytes in base64, never one of thirty-two.\<close>

lemma b64_group_length: "b64_group cs = Some bs \<Longrightarrow> length cs \<in> {2, 3, 4} \<Longrightarrow> length bs = length cs - 1"
  by (auto simp: b64_group_def b64_bytes_def split: if_splits list.splits)

lemma b64decode_length:
  "b64decode cs = Some bs \<Longrightarrow> 4 * length bs \<le> 3 * length cs \<and> 3 * length cs \<le> 4 * length bs + 8"
proof (induction cs arbitrary: bs rule: b64decode.induct)
  case (1 a b c d rest)
  show ?case
  proof (cases "rest = []")
    case True
    then have "b64_group (if d \<noteq> b64_pad then [a, b, c, d] else if c \<noteq> b64_pad then [a, b, c] else [a, b]) = Some bs"
      using 1(2) by simp
    from b64_group_length [OF this] show ?thesis using True by (auto split: if_splits)
  next
    case False
    then obtain gs rs where g: "b64_group [a, b, c, d] = Some gs" "b64decode rest = Some rs" "bs = gs @ rs"
      using 1(2) by (auto split: option.splits)
    have "length gs = 3" using b64_group_length [OF g(1)] by simp
    then show ?thesis using 1(1) [OF False g(1,2)] g(3) by simp
  qed
qed simp_all

definition hex_char :: "nat \<Rightarrow> char" where
  "hex_char v = char_of (if v < 10 then v + 48 else v + 87)"

definition hex_text :: "bytes \<Rightarrow> string" where
  "hex_text bs = concat (map (\<lambda>b. [hex_char (unat b div 16), hex_char (unat b mod 16)]) bs)"

lemma hex_char_value: "v < 16 \<Longrightarrow> hex_value (hex_char v) = Some v \<and> \<not> ascii_space (hex_char v) \<and> \<not> is_space (hex_char v)"
  by (auto simp: hex_value_def hex_char_def ascii_space_def is_space_def Let_def)

lemma fromhex_hex: "fromhex (hex_text bs) = Some bs"
  by (induction bs) (simp_all add: hex_text_def hex_char_value div_byte)

lemma length_hex: "length (hex_text bs) = 2 * length bs"
  by (induction bs) (simp_all add: hex_text_def)

lemma strip_hex: "strip (hex_text bs) = hex_text bs"
  by (rule strip_no_space) (induction bs, simp_all add: hex_text_def hex_char_value div_byte)

lemma decode_key_length: "decode_key s = Inr k \<Longrightarrow> length k = KEY_LEN"
  by (auto simp: decode_key_def Let_def split: if_splits option.splits)

lemma decode_generated:
  assumes "length k = KEY_LEN"
  shows "decode_key (b64encode k) = Inr k"
proof -
  have "k \<noteq> []" using assms by (auto simp: KEY_LEN_def)
  then show ?thesis using assms by (simp add: decode_key_def Let_def strip_b64encode b64_roundtrip)
qed

lemma decode_hex:
  assumes "length k = KEY_LEN"
  shows "decode_key (hex_text k) = Inr k"
proof -
  have l: "length (hex_text k) = 64" using assms by (simp add: length_hex KEY_LEN_def)
  have "length d \<noteq> KEY_LEN" if "b64decode (hex_text k) = Some d" for d
    using b64decode_length [OF that] l by (auto simp: KEY_LEN_def)
  moreover have "hex_text k \<noteq> []" using l by auto
  ultimately show ?thesis using assms
    by (simp add: decode_key_def Let_def strip_hex fromhex_hex split: option.split)
qed

lemma resolve_key_length: "resolve_key key r raw = Inr k \<Longrightarrow> length k = KEY_LEN"
  by (auto simp: resolve_key_def coerce_key_def env_key_def load_key_from_env_def ebind_Inr
    dest: decode_key_length split: key_value.splits resolver.splits option.splits if_splits)

section \<open>Properties\<close>

text \<open>Keys are read back: a generated key, and a key written in hexadecimal digits, decode to the
  same thirty-two bytes, as an argument of the service's resolver or of the environment, in which a
  set resolver wins; and whatever is resolved is a key of the right length.\<close>

lemma keys_read_back:
  assumes "length k = KEY_LEN" and "length k' = KEY_LEN"
  shows "decode_key (generate_key k) = Inr k \<and> decode_key (hex_text k) = Inr k \<and>
    resolve_key KNone NoResolver (Some (generate_key k)) = Inr k \<and>
    resolve_key KNone (Returns (KText (hex_text k))) (Some (generate_key k')) = Inr k \<and>
    (case resolve_key given r raw of Inl x \<Rightarrow> x = EncryptionKeyError | Inr b \<Rightarrow> length b = KEY_LEN)"
proof -
  have ne: "b64encode k \<noteq> []" "hex_text k \<noteq> []"
    using assms(1) length_hex [of k] by (auto simp: KEY_LEN_def)
  have only: "x = EncryptionKeyError" if "resolve_key given r raw = Inl x" for x
    using that by (auto simp: resolve_key_def coerce_key_def env_key_def load_key_from_env_def decode_key_def
      ebind_Inl Let_def split: key_value.splits resolver.splits option.splits if_splits)
  show ?thesis using decode_generated [OF assms(1)] decode_hex [OF assms(1)] ne only resolve_key_length [of given r raw]
    by (auto simp: generate_key_def resolve_key_def env_key_def load_key_from_env_def coerce_key_def strip_hex
      split: sum.split)
qed

lemma keys_read_back_witness:
  "decode_key (generate_key (replicate 32 7)) = Inr (replicate 32 7)"
  using keys_read_back [of "replicate 32 7" "replicate 32 7"] by (simp add: KEY_LEN_def)

end
