(* ===== verification/StorageCrypto.thy ===== *)
theory StorageCrypto
  imports StorageKeys
begin

text \<open>
  \<open>src/xgen_sdk/storage/crypto.py\<close>: the envelope, the cipher classes and their registry, the
  AES-256-GCM cipher with its streaming loops, and the operations on byte strings.

  A stream operation reads from \<open>io_in\<close> and appends to \<open>io_out\<close>; what it wrote before it raised
  stays written. The GCM object of the cryptographic package is a parameter (\<open>gcm\<close>), and so is the
  nonce that its random generator gives.
\<close>

section \<open>Envelope\<close>

definition MAGIC :: bytes where "MAGIC = [88, 83, 69, 49]"
definition ENVELOPE_VERSION :: "8 word" where "ENVELOPE_VERSION = 1"
definition FIXED_HEADER_LEN :: nat where "FIXED_HEADER_LEN = 8"
definition MAX_ALG_HEADER_LEN :: nat where "MAX_ALG_HEADER_LEN = 1024"
definition CHUNK_SIZE :: nat where "CHUNK_SIZE = 65536"

record io =
  io_in :: bytes
  io_out :: bytes

type_synonym 'a io_act = "(io, crypto_error, 'a) act"

definition read_n :: "nat \<Rightarrow> bytes io_act" where
  "read_n n s = (Inr (take n (io_in s)), s\<lparr>io_in := drop n (io_in s)\<rparr>)"

definition write_bytes :: "bytes \<Rightarrow> unit io_act" where
  "write_bytes b = awrite (\<lambda>s. s\<lparr>io_out := io_out s @ b\<rparr>)"

definition build_envelope :: "int \<Rightarrow> bytes \<Rightarrow> crypto_error + bytes" where
  "build_envelope algorithm_id alg_header =
     (if \<not> (0 < algorithm_id \<and> algorithm_id < 256) then Inl StorageCryptoError
      else if length alg_header > MAX_ALG_HEADER_LEN then Inl StorageCryptoError
      else Inr (MAGIC @ [ENVELOPE_VERSION] @ [word_of_int algorithm_id] @
        [of_nat (length alg_header div 256), of_nat (length alg_header mod 256)] @ alg_header))"

definition read_envelope :: "(int \<times> bytes \<times> bytes) io_act" where
  "read_envelope =
     abind (read_n FIXED_HEADER_LEN) (\<lambda>fixed.
     abind (acheck (length fixed = FIXED_HEADER_LEN) DecryptionError) (\<lambda>_.
     abind (acheck (take 4 fixed = MAGIC) DecryptionError) (\<lambda>_.
     abind (acheck (fixed ! 4 = ENVELOPE_VERSION) DecryptionError) (\<lambda>_.
     let alg_id = uint (fixed ! 5); header_len = unat (fixed ! 6) * 256 + unat (fixed ! 7) in
     abind (acheck (header_len \<le> MAX_ALG_HEADER_LEN) DecryptionError) (\<lambda>_.
     abind (read_n header_len) (\<lambda>alg_header.
     abind (acheck (length alg_header = header_len) DecryptionError) (\<lambda>_.
     areturn (alg_id, alg_header, fixed @ alg_header))))))))"

definition is_encrypted_data :: "bytes \<Rightarrow> bool" where
  "is_encrypted_data data = (length data \<ge> length MAGIC \<and> take (length MAGIC) data = MAGIC)"

section \<open>Ciphers\<close>

text \<open>An instance of a cipher class, for one call: the header it would make for this call, and the
  two bodies.\<close>

record cipher =
  ci_id :: int
  ci_new_header :: "crypto_error + bytes"
  ci_encrypt :: "bytes \<Rightarrow> bytes \<Rightarrow> unit io_act"
  ci_decrypt :: "bytes \<Rightarrow> bytes \<Rightarrow> unit io_act"

text \<open>A class; \<open>cc_class\<close> stands for its identity. A class without an id has 0 here, one without a
  name the empty name.\<close>

record cipher_class =
  cc_class :: string
  cc_id :: int
  cc_name :: string
  cc_requires_key :: bool
  cc_from_key :: "bytes option \<Rightarrow> crypto_error + cipher"

definition encrypt_stream :: "cipher \<Rightarrow> unit io_act" where
  "encrypt_stream c =
     abind (alift (ci_new_header c)) (\<lambda>alg_header.
     abind (alift (build_envelope (ci_id c) alg_header)) (\<lambda>envelope.
     abind (write_bytes envelope) (\<lambda>_. ci_encrypt c alg_header envelope)))"

definition cipher_decrypt_stream :: "cipher \<Rightarrow> unit io_act" where
  "cipher_decrypt_stream c =
     abind read_envelope (\<lambda>(alg_id, alg_header, aad).
     abind (acheck (alg_id = ci_id c) DecryptionError) (\<lambda>_. ci_decrypt c alg_header aad))"

text \<open>A stream operation on a byte string, into an empty buffer.\<close>

definition on_bytes :: "unit io_act \<Rightarrow> bytes \<Rightarrow> crypto_error + bytes" where
  "on_bytes m data = (case m \<lparr>io_in = data, io_out = []\<rparr> of
     (Inl x, _) \<Rightarrow> Inl x | (Inr _, s) \<Rightarrow> Inr (io_out s))"

section \<open>AES-256-GCM\<close>

definition NONCE_LEN :: nat where "NONCE_LEN = 12"
definition TAG_LEN :: nat where "TAG_LEN = 16"

record 'st gcm =
  gcm_new :: "bytes \<Rightarrow> bytes \<Rightarrow> nat \<Rightarrow> 'st"
  gcm_update :: "'st \<Rightarrow> bytes \<Rightarrow> 'st"
  gcm_encrypt :: "'st \<Rightarrow> bytes \<Rightarrow> bytes \<times> 'st"
  gcm_decrypt :: "'st \<Rightarrow> bytes \<Rightarrow> bytes \<times> 'st"
  gcm_digest :: "'st \<Rightarrow> bytes"
  gcm_verify :: "'st \<Rightarrow> bytes \<Rightarrow> bool"

function encrypt_loop :: "'st gcm \<Rightarrow> 'st \<Rightarrow> 'st io_act" where
  "encrypt_loop g st s =
     (if io_in s = [] then (Inr st, s)
      else let (c, st') = gcm_encrypt g st (take CHUNK_SIZE (io_in s))
        in encrypt_loop g st' \<lparr>io_in = drop CHUNK_SIZE (io_in s), io_out = io_out s @ c\<rparr>)"
  by pat_completeness auto
termination
  by (relation "measure (\<lambda>(_, _, s). length (io_in s))") (auto simp: CHUNK_SIZE_def)

text \<open>The last sixteen bytes seen are held back: they may be the tag.\<close>

function decrypt_loop :: "'st gcm \<Rightarrow> 'st \<Rightarrow> bytes \<Rightarrow> ('st \<times> bytes) io_act" where
  "decrypt_loop g st tail s =
     (if io_in s = [] then (Inr (st, tail), s)
      else let tail' = tail @ take CHUNK_SIZE (io_in s); rest = drop CHUNK_SIZE (io_in s);
               n = length tail' - TAG_LEN in
        if length tail' > TAG_LEN then
          let (p, st') = gcm_decrypt g st (take n tail')
          in decrypt_loop g st' (drop n tail') \<lparr>io_in = rest, io_out = io_out s @ p\<rparr>
        else decrypt_loop g st tail' \<lparr>io_in = rest, io_out = io_out s\<rparr>)"
  by pat_completeness auto
termination
  by (relation "measure (\<lambda>(_, _, _, s). length (io_in s))") (auto simp: CHUNK_SIZE_def)

declare encrypt_loop.simps [simp del] decrypt_loop.simps [simp del]

definition aes_encrypt_body :: "'st gcm \<Rightarrow> bytes \<Rightarrow> bytes \<Rightarrow> bytes \<Rightarrow> unit io_act" where
  "aes_encrypt_body g key alg_header aad =
     abind (encrypt_loop g (gcm_update g (gcm_new g key alg_header TAG_LEN) aad)) (\<lambda>st.
       write_bytes (gcm_digest g st))"

definition aes_decrypt_body :: "'st gcm \<Rightarrow> bytes \<Rightarrow> bytes \<Rightarrow> bytes \<Rightarrow> unit io_act" where
  "aes_decrypt_body g key alg_header aad =
     abind (acheck (length alg_header = NONCE_LEN) DecryptionError) (\<lambda>_.
     abind (decrypt_loop g (gcm_update g (gcm_new g key alg_header TAG_LEN) aad) []) (\<lambda>(st, tail).
     abind (acheck (length tail = TAG_LEN) DecryptionError) (\<lambda>_.
     acheck (gcm_verify g st tail) DecryptionError)))"

definition aes_from_key :: "'st gcm \<Rightarrow> bytes \<Rightarrow> bytes option \<Rightarrow> crypto_error + cipher" where
  "aes_from_key g nonce key = (case key of
       None \<Rightarrow> Inl EncryptionKeyError
     | Some k \<Rightarrow> if length k \<noteq> KEY_LEN then Inl EncryptionKeyError
         else Inr \<lparr>ci_id = 1, ci_new_header = Inr nonce, ci_encrypt = aes_encrypt_body g k,
           ci_decrypt = aes_decrypt_body g k\<rparr>)"

definition Aes256GcmCipher :: "'st gcm \<Rightarrow> bytes \<Rightarrow> cipher_class" where
  "Aes256GcmCipher g nonce = \<lparr>cc_class = ''Aes256GcmCipher'', cc_id = 1, cc_name = ''aes256-gcm'',
     cc_requires_key = True, cc_from_key = aes_from_key g nonce\<rparr>"

section \<open>Registry\<close>

record cipher_registry =
  by_id :: "(int \<times> cipher_class) list"
  by_name :: "(string \<times> cipher_class) list"

definition taken_by_other :: "cipher_class option \<Rightarrow> cipher_class \<Rightarrow> bool" where
  "taken_by_other existing cls = (case existing of None \<Rightarrow> False | Some x \<Rightarrow> cc_class x \<noteq> cc_class cls)"

definition register_cipher :: "cipher_class \<Rightarrow> cipher_registry \<Rightarrow> crypto_error + cipher_registry" where
  "register_cipher cls reg =
     (if \<not> (0 < cc_id cls \<and> cc_id cls < 256) then Inl StorageCryptoError
      else if cc_name cls = [] then Inl StorageCryptoError
      else if taken_by_other (map_of (by_id reg) (cc_id cls)) cls then Inl StorageCryptoError
      else if taken_by_other (map_of (by_name reg) (cc_name cls)) cls then Inl StorageCryptoError
      else Inr \<lparr>by_id = dset (cc_id cls) cls (by_id reg), by_name = dset (cc_name cls) cls (by_name reg)\<rparr>)"

record crypto_settings =
  cs_mode :: "pyval resolver"
  cs_mode_env :: "string option"
  cs_key :: "key_value resolver"
  cs_key_env :: "string option"

definition instance_of :: "crypto_settings \<Rightarrow> cipher_class \<Rightarrow> key_value \<Rightarrow> crypto_error + cipher" where
  "instance_of st cls key =
     (if cc_requires_key cls then ebind (resolve_key key (cs_key st) (cs_key_env st)) (\<lambda>k. cc_from_key cls (Some k))
      else cc_from_key cls None)"

definition get_cipher ::
  "cipher_registry \<Rightarrow> crypto_settings \<Rightarrow> string \<Rightarrow> key_value \<Rightarrow> crypto_error + cipher" where
  "get_cipher reg st algorithm key = (case map_of (by_name reg) algorithm of
       None \<Rightarrow> Inl UnsupportedAlgorithmError
     | Some cls \<Rightarrow> instance_of st cls key)"

section \<open>Operations on byte strings\<close>

definition decrypt_stream :: "cipher_registry \<Rightarrow> crypto_settings \<Rightarrow> key_value \<Rightarrow> unit io_act" where
  "decrypt_stream reg st key =
     abind read_envelope (\<lambda>(alg_id, alg_header, aad).
     case map_of (by_id reg) alg_id of
       None \<Rightarrow> araise UnsupportedAlgorithmError
     | Some cls \<Rightarrow> abind (alift (instance_of st cls key)) (\<lambda>c. ci_decrypt c alg_header aad))"

definition encrypt_bytes ::
  "cipher_registry \<Rightarrow> crypto_settings \<Rightarrow> bytes \<Rightarrow> key_value \<Rightarrow> string \<Rightarrow> crypto_error + bytes" where
  "encrypt_bytes reg st data key algorithm =
     ebind (get_cipher reg st algorithm key) (\<lambda>c. on_bytes (encrypt_stream c) data)"

definition decrypt_bytes :: "cipher_registry \<Rightarrow> crypto_settings \<Rightarrow> bytes \<Rightarrow> key_value \<Rightarrow> crypto_error + bytes" where
  "decrypt_bytes reg st data key = on_bytes (decrypt_stream reg st key) data"

definition detect_algorithm_name :: "cipher_registry \<Rightarrow> bytes \<Rightarrow> string option" where
  "detect_algorithm_name reg data =
     (if \<not> is_encrypted_data data \<or> length data < FIXED_HEADER_LEN then None
      else map_option cc_name (map_of (by_id reg) (uint (data ! 5))))"

definition write_algorithm :: "crypto_settings \<Rightarrow> string option \<Rightarrow> string" where
  "write_algorithm st algorithm = (case algorithm of
       Some a \<Rightarrow> a
     | None \<Rightarrow> (case resolve_write_algorithm (cs_mode st) (cs_mode_env st) of
         Some a \<Rightarrow> a | None \<Rightarrow> DEFAULT_ALGORITHM))"

definition encrypt_bytes_if_enabled ::
  "cipher_registry \<Rightarrow> crypto_settings \<Rightarrow> bytes \<Rightarrow> key_value \<Rightarrow> string option \<Rightarrow> bool option \<Rightarrow> crypto_error + bytes" where
  "encrypt_bytes_if_enabled reg st data key algorithm encrypt =
     (if \<not> resolve_encrypt_flag encrypt (cs_mode st) (cs_mode_env st) then Inr data
      else encrypt_bytes reg st data key (write_algorithm st algorithm))"

definition decrypt_bytes_if_encrypted ::
  "cipher_registry \<Rightarrow> crypto_settings \<Rightarrow> bytes \<Rightarrow> key_value \<Rightarrow> crypto_error + bytes" where
  "decrypt_bytes_if_encrypted reg st data key =
     (if \<not> is_encrypted_data data then Inr data else decrypt_bytes reg st data key)"

section \<open>What the code relies on of GCM\<close>

text \<open>The documented behaviour of the package's object: data may be handed over in pieces, decryption
  undoes encryption and leaves the state of the tag the same, the tag has the length asked for and
  the check accepts it.\<close>

definition gcm_ok :: "'st gcm \<Rightarrow> bool" where
  "gcm_ok g \<longleftrightarrow>
     (\<forall>s. gcm_encrypt g s [] = ([], s) \<and> gcm_decrypt g s [] = ([], s)) \<and>
     (\<forall>s a b. gcm_encrypt g s (a @ b) = (fst (gcm_encrypt g s a) @ fst (gcm_encrypt g (snd (gcm_encrypt g s a)) b),
        snd (gcm_encrypt g (snd (gcm_encrypt g s a)) b))) \<and>
     (\<forall>s a b. gcm_decrypt g s (a @ b) = (fst (gcm_decrypt g s a) @ fst (gcm_decrypt g (snd (gcm_decrypt g s a)) b),
        snd (gcm_decrypt g (snd (gcm_decrypt g s a)) b))) \<and>
     (\<forall>s p. length (fst (gcm_encrypt g s p)) = length p \<and>
        gcm_decrypt g s (fst (gcm_encrypt g s p)) = (p, snd (gcm_encrypt g s p))) \<and>
     (\<forall>k n a p. let s = snd (gcm_encrypt g (gcm_update g (gcm_new g k n TAG_LEN) a) p)
        in length (gcm_digest g s) = TAG_LEN \<and> gcm_verify g s (gcm_digest g s))"

lemma gcm_okD:
  assumes "gcm_ok g"
  shows "gcm_encrypt g s [] = ([], s)" "gcm_decrypt g s [] = ([], s)"
    "gcm_encrypt g s (a @ b) = (fst (gcm_encrypt g s a) @ fst (gcm_encrypt g (snd (gcm_encrypt g s a)) b),
        snd (gcm_encrypt g (snd (gcm_encrypt g s a)) b))"
    "gcm_decrypt g s (a @ b) = (fst (gcm_decrypt g s a) @ fst (gcm_decrypt g (snd (gcm_decrypt g s a)) b),
        snd (gcm_decrypt g (snd (gcm_decrypt g s a)) b))"
    "gcm_decrypt g s (fst (gcm_encrypt g s p)) = (p, snd (gcm_encrypt g s p))"
    "length (gcm_digest g (snd (gcm_encrypt g (gcm_update g (gcm_new g k n TAG_LEN) a) p))) = TAG_LEN"
    "gcm_verify g (snd (gcm_encrypt g (gcm_update g (gcm_new g k n TAG_LEN) a) p))
      (gcm_digest g (snd (gcm_encrypt g (gcm_update g (gcm_new g k n TAG_LEN) a) p)))"
  using assms unfolding gcm_ok_def Let_def by blast+

section \<open>The loops\<close>

text \<open>The loops do to the whole stream what one call would do.\<close>

lemma encrypt_loop_whole:
  "gcm_ok g \<Longrightarrow> encrypt_loop g st s = (Inr (snd (gcm_encrypt g st (io_in s))),
    \<lparr>io_in = [], io_out = io_out s @ fst (gcm_encrypt g st (io_in s))\<rparr>)"
proof (induction g st s rule: encrypt_loop.induct)
  case (1 g st s)
  show ?case
  proof (cases "io_in s = []")
    case True
    then show ?thesis using 1(2) by (cases s) (simp add: encrypt_loop.simps gcm_okD)
  next
    case False
    obtain c st' where e: "gcm_encrypt g st (take CHUNK_SIZE (io_in s)) = (c, st')" by fastforce
    note IH = 1(1) [OF False e [symmetric] refl 1(2)]
    have "gcm_encrypt g st (take CHUNK_SIZE (io_in s) @ drop CHUNK_SIZE (io_in s)) =
        (c @ fst (gcm_encrypt g st' (drop CHUNK_SIZE (io_in s))), snd (gcm_encrypt g st' (drop CHUNK_SIZE (io_in s))))"
      unfolding gcm_okD(3) [OF 1(2)] e by simp
    then have "gcm_encrypt g st (io_in s) =
        (c @ fst (gcm_encrypt g st' (drop CHUNK_SIZE (io_in s))), snd (gcm_encrypt g st' (drop CHUNK_SIZE (io_in s))))"
      by simp
    then show ?thesis using IH False by (subst encrypt_loop.simps) (simp add: e)
  qed
qed

text \<open>All but the last sixteen bytes are decrypted, and those are left over.\<close>

lemma decrypt_loop_whole:
  "gcm_ok g \<Longrightarrow> length tail \<le> TAG_LEN \<Longrightarrow>
    (let whole = tail @ io_in s; n = length whole - TAG_LEN; r = gcm_decrypt g st (take n whole) in
     decrypt_loop g st tail s = (Inr (snd r, drop n whole), \<lparr>io_in = [], io_out = io_out s @ fst r\<rparr>))"
proof (induction g st tail s rule: decrypt_loop.induct)
  case (1 g st tail s)
  show ?case
  proof (cases "io_in s = []")
    case True
    then show ?thesis using 1(3,4) by (cases s) (simp add: decrypt_loop.simps gcm_okD Let_def)
  next
    case False
    define tail' rest n where "tail' = tail @ take CHUNK_SIZE (io_in s)" and "rest = drop CHUNK_SIZE (io_in s)"
      and "n = length tail' - TAG_LEN"
    have whole: "tail @ io_in s = tail' @ rest" by (simp add: tail'_def rest_def)
    show ?thesis
    proof (cases "length tail' > TAG_LEN")
      case True
      obtain p st' where d: "gcm_decrypt g st (take n tail') = (p, st')" by fastforce
      have short: "length (drop n tail') \<le> TAG_LEN" using True by (simp add: n_def)
      note IH = 1(1) [OF False tail'_def rest_def n_def True d [symmetric] refl 1(3) short]
      define m where "m = length (drop n tail' @ rest) - TAG_LEN"
      have n_le: "n \<le> length tail'" by (simp add: n_def)
      have split: "take (length (tail' @ rest) - TAG_LEN) (tail' @ rest) = take n tail' @ take m (drop n tail' @ rest)"
        "drop (length (tail' @ rest) - TAG_LEN) (tail' @ rest) = drop m (drop n tail' @ rest)"
      proof -
        have e: "length (tail' @ rest) - TAG_LEN = n + m" using True by (simp add: m_def n_def)
        have t: "tail' @ rest = take n tail' @ (drop n tail' @ rest)" by simp
        have l: "length (take n tail') = n" using n_le by simp
        show "take (length (tail' @ rest) - TAG_LEN) (tail' @ rest) = take n tail' @ take m (drop n tail' @ rest)"
          unfolding e by (subst t) (simp only: take_append l diff_add_inverse, simp add: l)
        show "drop (length (tail' @ rest) - TAG_LEN) (tail' @ rest) = drop m (drop n tail' @ rest)"
          unfolding e by (subst t) (simp only: drop_append l diff_add_inverse, simp add: l)
      qed
      have "decrypt_loop g st tail s = decrypt_loop g st' (drop n tail') \<lparr>io_in = rest, io_out = io_out s @ p\<rparr>"
        using False True by (subst decrypt_loop.simps) (simp add: Let_def d flip: tail'_def rest_def n_def)
      then show ?thesis using IH unfolding whole Let_def split m_def [symmetric] gcm_okD(4) [OF 1(3)] d
        by (simp add: m_def)
    next
      case short: False
      note IH = 1(2) [OF False tail'_def rest_def n_def short 1(3)]
      have "length tail' \<le> TAG_LEN" using short by simp
      note IH = IH [OF this]
      have "decrypt_loop g st tail s = decrypt_loop g st tail' \<lparr>io_in = rest, io_out = io_out s\<rparr>"
        using False short by (subst decrypt_loop.simps) (simp add: Let_def flip: tail'_def rest_def n_def)
      then show ?thesis using IH unfolding whole Let_def by simp
    qed
  qed
qed

lemma decrypt_loop_start:
  assumes "gcm_ok g"
  shows "decrypt_loop g st [] s =
    (Inr (snd (gcm_decrypt g st (take (length (io_in s) - TAG_LEN) (io_in s))), drop (length (io_in s) - TAG_LEN) (io_in s)),
     \<lparr>io_in = [], io_out = io_out s @ fst (gcm_decrypt g st (take (length (io_in s) - TAG_LEN) (io_in s)))\<rparr>)"
  using decrypt_loop_whole [OF assms, of "[]" s st] by (simp add: Let_def)

section \<open>The header\<close>

lemma envelope_parts:
  assumes "build_envelope i h = Inr env"
  shows "0 < i" "i < 256" "length h \<le> MAX_ALG_HEADER_LEN"
    "env = MAGIC @ [ENVELOPE_VERSION, word_of_int i, of_nat (length h div 256), of_nat (length h mod 256)] @ h"
  using assms by (auto simp: build_envelope_def split: if_splits)

lemma header_length_bytes:
  assumes "n \<le> MAX_ALG_HEADER_LEN"
  shows "unat (of_nat (n div 256) :: 8 word) * 256 + unat (of_nat (n mod 256) :: 8 word) = n"
proof -
  have "n div 256 < 256" using assms by (simp add: MAX_ALG_HEADER_LEN_def)
  then show ?thesis by (simp add: unat_of_nat)
qed

lemma read_envelope_back:
  assumes "build_envelope i h = Inr env"
  shows "read_envelope \<lparr>io_in = env @ b, io_out = v\<rparr> = (Inr (i, h, env), \<lparr>io_in = b, io_out = v\<rparr>)"
proof -
  note env = envelope_parts [OF assms]
  have i: "uint (word_of_int i :: 8 word) = i" using env(1,2) by (simp add: uint_word_of_int)
  have h: "unat (of_nat (length h div 256) :: 8 word) * 256 + unat (of_nat (length h mod 256) :: 8 word) = length h"
    by (rule header_length_bytes [OF env(3)])
  show ?thesis unfolding read_envelope_def env(4)
    by (simp add: act_defs read_n_def FIXED_HEADER_LEN_def MAGIC_def Let_def i h env(3) del: of_nat_mod)
qed

lemma encrypted_magic:
  assumes "build_envelope i h = Inr env"
  shows "is_encrypted_data (env @ b)" "8 \<le> length env" "env ! 5 = word_of_int i"
  using envelope_parts(4) [OF assms] by (simp_all add: is_encrypted_data_def MAGIC_def)

lemma read_envelope_Inr:
  assumes "read_envelope \<lparr>io_in = d, io_out = v\<rparr> = (Inr (i, h, aad), s)"
  shows "d = aad @ io_in s \<and> io_out s = v \<and> i = uint (d ! 5) \<and> take 4 aad = MAGIC \<and>
    (0 < i \<longrightarrow> build_envelope i h = Inr aad)"
proof -
  define fixed where "fixed = take 8 d"
  define n where "n = unat (fixed ! 6) * 256 + unat (fixed ! 7)"
  have r: "length fixed = 8" "take 4 fixed = MAGIC" "fixed ! 4 = ENVELOPE_VERSION" "n \<le> MAX_ALG_HEADER_LEN"
      "length (take n (drop 8 d)) = n" "i = uint (fixed ! 5)" "h = take n (drop 8 d)" "aad = fixed @ h"
      "s = \<lparr>io_in = drop n (drop 8 d), io_out = v\<rparr>"
    using assms
    by (auto simp: read_envelope_def read_n_def act_defs Let_def FIXED_HEADER_LEN_def n_def fixed_def
      split: if_splits)
  have d: "d = fixed @ drop 8 d" by (simp add: fixed_def)
  have i: "fixed ! 5 = d ! 5" using r(1) by (simp add: fixed_def)
  obtain a b c e f j k l where x: "fixed = [a, b, c, e, f, j, k, l]"
    using r(1) by (auto simp: length_Suc_conv eval_nat_numeral)
  have len: "length h = n" using r(5,7) by simp
  have kl: "of_nat (n div 256) = k" "of_nat (n mod 256) = l"
    using byte_bound [of k] byte_bound [of l] by (simp_all add: n_def x)
  have env: "0 < i \<longrightarrow> build_envelope i h = Inr aad"
    using r(2-4,6,8) len kl uint_lt2p [of j]
    by (simp add: build_envelope_def x)
  have rest: "drop 8 d = h @ io_in s" by (simp only: r(7,9) io.select_convs append_take_drop_id)
  have whole: "d = aad @ io_in s" by (subst d) (simp only: rest r(8) append_assoc)
  have magic: "take 4 aad = MAGIC" using r(1,2,8) by simp
  have out: "io_out s = v" by (simp add: r(9))
  show ?thesis by (rule conjI [OF whole conjI [OF out conjI [OF r(6) [unfolded i] conjI [OF magic env]]]])
qed

section \<open>The contract of a cipher class\<close>

text \<open>A class is a function of what its calls depend on (for AES-256-GCM the package and the nonce of
  the call). \<open>ready w w'\<close> is what encrypting with \<open>w\<close> and decrypting with \<open>w'\<close> relies on.\<close>

locale file_cipher =
  fixes cls :: "'w \<Rightarrow> cipher_class"
    and ready :: "'w \<Rightarrow> 'w \<Rightarrow> bool"
  assumes id_range: "0 < cc_id (cls w) \<and> cc_id (cls w) < 256 \<and> cc_name (cls w) \<noteq> []"
    and one_class: "cc_id (cls w') = cc_id (cls w) \<and> cc_name (cls w') = cc_name (cls w) \<and>
      cc_requires_key (cls w') = cc_requires_key (cls w)"
    and instance_id: "cc_from_key (cls w) k = Inr c \<Longrightarrow> ci_id c = cc_id (cls w)"
    and body_back: "ready w w' \<Longrightarrow> cc_from_key (cls w) k = Inr c \<Longrightarrow> ci_new_header c = Inr h \<Longrightarrow>
      ci_encrypt c h aad \<lparr>io_in = p, io_out = v\<rparr> = (Inr (), s) \<Longrightarrow>
      \<exists>b c'. s = \<lparr>io_in = [], io_out = v @ b\<rparr> \<and> cc_from_key (cls w') k = Inr c' \<and>
        ci_decrypt c' h aad \<lparr>io_in = b, io_out = []\<rparr> = (Inr (), \<lparr>io_in = [], io_out = p\<rparr>)"
begin

lemma stream_back:
  assumes "ready w w'" and "cc_from_key (cls w) k = Inr c" and "on_bytes (encrypt_stream c) p = Inr d"
  obtains h env b c' where "build_envelope (cc_id (cls w)) h = Inr env" "d = env @ b"
    "cc_from_key (cls w') k = Inr c'"
    "ci_decrypt c' h env \<lparr>io_in = b, io_out = []\<rparr> = (Inr (), \<lparr>io_in = [], io_out = p\<rparr>)"
proof -
  from assms(3) obtain h env s where h: "ci_new_header c = Inr h"
    and e: "build_envelope (ci_id c) h = Inr env"
    and x: "ci_encrypt c h env \<lparr>io_in = p, io_out = env\<rparr> = (Inr (), s)" and d: "d = io_out s"
    by (auto simp: on_bytes_def encrypt_stream_def write_bytes_def abind_def split: sum.splits prod.splits)
  from body_back [OF assms(1,2) h x] obtain b c' where b: "s = \<lparr>io_in = [], io_out = env @ b\<rparr>"
    "cc_from_key (cls w') k = Inr c'"
    "ci_decrypt c' h env \<lparr>io_in = b, io_out = []\<rparr> = (Inr (), \<lparr>io_in = [], io_out = p\<rparr>)" by blast
  show ?thesis by (rule that [OF e [unfolded instance_id [OF assms(2)]] _ b(2,3)]) (simp add: d b(1))
qed

lemma encrypted_back:
  assumes ready: "ready w w'" and wr: "map_of (by_name reg) alg = Some (cls w)"
    and rd: "map_of (by_id reg') (cc_id (cls w)) = Some (cls w')"
    and key: "resolve_key key' (cs_key st') (cs_key_env st') = resolve_key key (cs_key st) (cs_key_env st)"
    and enc: "encrypt_bytes reg st p key alg = Inr d"
  shows "decrypt_bytes reg' st' d key' = Inr p \<and> is_encrypted_data d \<and>
    detect_algorithm_name reg' d = Some (cc_name (cls w))"
proof -
  have req: "cc_requires_key (cls w') = cc_requires_key (cls w)" "cc_name (cls w') = cc_name (cls w)"
    using one_class by blast+
  from enc wr obtain c where c: "instance_of st (cls w) key = Inr c" "on_bytes (encrypt_stream c) p = Inr d"
    by (auto simp: encrypt_bytes_def get_cipher_def ebind_Inr)
  obtain k where k: "cc_from_key (cls w) k = Inr c" "instance_of st' (cls w') key' = cc_from_key (cls w') k"
    using c(1) by (cases "cc_requires_key (cls w)") (auto simp: instance_of_def req key ebind_Inr)
  obtain h env b c' where s: "build_envelope (cc_id (cls w)) h = Inr env" "d = env @ b"
    "cc_from_key (cls w') k = Inr c'"
    "ci_decrypt c' h env \<lparr>io_in = b, io_out = []\<rparr> = (Inr (), \<lparr>io_in = [], io_out = p\<rparr>)"
    by (rule stream_back [OF ready k(1) c(2)])
  have env: "8 \<le> length env" "env ! 5 = word_of_int (cc_id (cls w))" using encrypted_magic [OF s(1)] by simp_all
  have "uint (word_of_int (cc_id (cls w)) :: 8 word) = cc_id (cls w)"
    using id_range [of w] by (simp add: uint_word_of_int)
  then have "detect_algorithm_name reg' d = Some (cc_name (cls w))"
    using env encrypted_magic(1) [OF s(1)] rd
    by (simp add: detect_algorithm_name_def s(2) FIXED_HEADER_LEN_def nth_append req)
  moreover have "decrypt_bytes reg' st' d key' = Inr p"
    using rd k(2) s
    by (simp add: decrypt_bytes_def on_bytes_def decrypt_stream_def abind_def read_envelope_back [OF s(1)])
  ultimately show ?thesis using encrypted_magic(1) [OF s(1)] s(2) by simp
qed

end

section \<open>AES-256-GCM keeps the contract\<close>

definition aes_ready :: "'st gcm \<times> bytes \<Rightarrow> 'st gcm \<times> bytes \<Rightarrow> bool" where
  "aes_ready w w' \<longleftrightarrow> gcm_ok (fst w) \<and> fst w' = fst w \<and> length (snd w) = NONCE_LEN"

lemma aes_body_back:
  assumes "gcm_ok g" and "length h = NONCE_LEN"
    and "aes_encrypt_body g key h aad \<lparr>io_in = p, io_out = v\<rparr> = (Inr (), s)"
  shows "\<exists>b. s = \<lparr>io_in = [], io_out = v @ b\<rparr> \<and>
    aes_decrypt_body g key h aad \<lparr>io_in = b, io_out = []\<rparr> = (Inr (), \<lparr>io_in = [], io_out = p\<rparr>)"
proof -
  define st where "st = gcm_update g (gcm_new g key h TAG_LEN) aad"
  define c tag where "c = fst (gcm_encrypt g st p)" and "tag = gcm_digest g (snd (gcm_encrypt g st p))"
  have tag: "length tag = TAG_LEN" "gcm_verify g (snd (gcm_encrypt g st p)) tag"
    unfolding tag_def st_def by (rule gcm_okD [OF assms(1)])+
  have s: "s = \<lparr>io_in = [], io_out = v @ c @ tag\<rparr>"
    using assms(3) unfolding aes_encrypt_body_def st_def [symmetric]
    by (auto simp: abind_def write_bytes_def encrypt_loop_whole [OF assms(1)] c_def tag_def)
  have "aes_decrypt_body g key h aad \<lparr>io_in = c @ tag, io_out = []\<rparr> = (Inr (), \<lparr>io_in = [], io_out = p\<rparr>)"
    unfolding aes_decrypt_body_def st_def [symmetric]
    by (simp add: abind_def acheck_def assms(2) decrypt_loop_start [OF assms(1)] tag)
      (simp add: c_def gcm_okD(5) [OF assms(1)] tag(2))
  then show ?thesis using s by blast
qed

interpretation aes: file_cipher "\<lambda>w. Aes256GcmCipher (fst w) (snd w)" aes_ready
proof unfold_locales
  fix w w' :: "'a gcm \<times> bytes" and k c h aad p v s
  assume r: "aes_ready w w'" and c: "cc_from_key (Aes256GcmCipher (fst w) (snd w)) k = Inr c"
    and h: "ci_new_header c = Inr h" and e: "ci_encrypt c h aad \<lparr>io_in = p, io_out = v\<rparr> = (Inr (), s)"
  from c obtain key where k: "k = Some key" "length key = KEY_LEN"
    and ci: "c = \<lparr>ci_id = 1, ci_new_header = Inr (snd w), ci_encrypt = aes_encrypt_body (fst w) key,
      ci_decrypt = aes_decrypt_body (fst w) key\<rparr>"
    by (auto simp: Aes256GcmCipher_def aes_from_key_def split: option.splits if_splits)
  have n: "h = snd w" "length h = NONCE_LEN" using h r by (simp_all add: ci aes_ready_def)
  have g: "gcm_ok (fst w)" "fst w' = fst w" using r by (simp_all add: aes_ready_def)
  from aes_body_back [OF g(1) n(2), of key aad p v s] e ci
  obtain b where b: "s = \<lparr>io_in = [], io_out = v @ b\<rparr>"
    "aes_decrypt_body (fst w) key h aad \<lparr>io_in = b, io_out = []\<rparr> = (Inr (), \<lparr>io_in = [], io_out = p\<rparr>)" by auto
  then show "\<exists>b c'. s = \<lparr>io_in = [], io_out = v @ b\<rparr> \<and>
      cc_from_key (Aes256GcmCipher (fst w') (snd w')) k = Inr c' \<and>
      ci_decrypt c' h aad \<lparr>io_in = b, io_out = []\<rparr> = (Inr (), \<lparr>io_in = [], io_out = p\<rparr>)"
    by (simp add: Aes256GcmCipher_def aes_from_key_def k g(2))
qed (auto simp: Aes256GcmCipher_def aes_from_key_def split: option.splits if_splits)

end
