(* ===== verification/UdeCipher.thy ===== *)
theory UdeCipher
  imports StorageCrypto
begin

text \<open>
  \<open>src/xgen_sdk/jeju_bank/storage/ude/ude_cipher.py\<close>: the second cipher class. Its key is kept by the
  agent of the vendor, per policy; the header of the envelope holds the name of the policy that
  was used for writing.

  A policy name is a list of code points. The vendor's library is a parameter: whether it loads,
  and for a policy and the bytes of a file the bytes it writes, if it reports success. The
  temporary files that carry the data to the library and back are not modelled.
\<close>

section \<open>Text\<close>

definition uspace :: "nat \<Rightarrow> bool" where
  "uspace n = (9 \<le> n \<and> n \<le> 13 \<or> 28 \<le> n \<and> n \<le> 32 \<or> 8192 \<le> n \<and> n \<le> 8202 \<or>
     n \<in> {133, 160, 5760, 8232, 8233, 8239, 8287, 12288})"

definition ustrip :: "ustr \<Rightarrow> ustr" where
  "ustrip s = rev (dropWhile uspace (rev (dropWhile uspace s)))"

definition utf8_units :: "nat \<Rightarrow> nat list" where
  "utf8_units n =
     (if n < 128 then [n]
      else if n < 2048 then [192 + n div 64, 128 + n mod 64]
      else if n < 65536 then [224 + n div 4096, 128 + n div 64 mod 64, 128 + n mod 64]
      else [240 + n div 262144, 128 + n div 4096 mod 64, 128 + n div 64 mod 64, 128 + n mod 64])"

definition utf8_encode :: "ustr \<Rightarrow> crypto_error + bytes" where
  "utf8_encode s = (if list_all code_point s then Inr (map of_nat (concat (map utf8_units s)))
     else Inl UnicodeEncodeError)"

definition continues :: "nat \<Rightarrow> bool" where
  "continues b = (128 \<le> b \<and> b < 192)"

fun utf8_read :: "nat list \<Rightarrow> ustr option" where
  "utf8_read [] = Some []"
| "utf8_read (b # bs) =
     (if b < 128 then map_option (Cons b) (utf8_read bs)
      else if 192 \<le> b \<and> b < 224 then
        (case bs of
           c # bs' \<Rightarrow> let n = (b - 192) * 64 + (c - 128) in
             if continues c \<and> 128 \<le> n then map_option (Cons n) (utf8_read bs') else None
         | [] \<Rightarrow> None)
      else if 224 \<le> b \<and> b < 240 then
        (case bs of
           c # d # bs' \<Rightarrow> let n = (b - 224) * 4096 + (c - 128) * 64 + (d - 128) in
             if continues c \<and> continues d \<and> 2048 \<le> n \<and> \<not> surrogate n
             then map_option (Cons n) (utf8_read bs') else None
         | _ \<Rightarrow> None)
      else if 240 \<le> b \<and> b < 248 then
        (case bs of
           c # d # e # bs' \<Rightarrow> let n = (b - 240) * 262144 + (c - 128) * 4096 + (d - 128) * 64 + (e - 128) in
             if continues c \<and> continues d \<and> continues e \<and> 65536 \<le> n \<and> n \<le> 1114111
             then map_option (Cons n) (utf8_read bs') else None
         | _ \<Rightarrow> None)
      else None)"

definition utf8_decode :: "bytes \<Rightarrow> ustr option" where
  "utf8_decode b = utf8_read (map unat b)"

section \<open>Policy\<close>

definition DEFAULT_UDE_POLICY :: ustr where
  "DEFAULT_UDE_POLICY = map of_char ''ARIA_256_UDE''"

definition MAX_POLICY_LEN :: nat where "MAX_POLICY_LEN = 256"

text \<open>The resolver's value as text, \<open>None\<close> if it is false.\<close>

definition resolve_ude_policy :: "ustr option resolver \<Rightarrow> ustr option \<Rightarrow> ustr" where
  "resolve_ude_policy r e =
     (let from_env = (case e of
            Some s \<Rightarrow> if ustrip s \<noteq> [] then ustrip s else DEFAULT_UDE_POLICY
          | None \<Rightarrow> DEFAULT_UDE_POLICY)
      in case r of
        Returns (Some v) \<Rightarrow> if ustrip v \<noteq> [] then ustrip v else from_env
      | _ \<Rightarrow> from_env)"

definition new_policy_header :: "ustr \<Rightarrow> crypto_error + bytes" where
  "new_policy_header policy = ebind (utf8_encode policy) (\<lambda>header.
     if header = [] \<or> length header > MAX_POLICY_LEN then Inl StorageCryptoError else Inr header)"

definition policy_from_header :: "bytes \<Rightarrow> crypto_error + ustr" where
  "policy_from_header alg_header = (case utf8_decode alg_header of
       None \<Rightarrow> Inl DecryptionError
     | Some s \<Rightarrow> if ustrip s = [] then Inl DecryptionError else Inr (ustrip s))"

section \<open>The class\<close>

record ude_api =
  ud_loads :: bool
  ud_encrypt :: "ustr \<Rightarrow> bytes \<Rightarrow> bytes option"
  ud_decrypt :: "ustr \<Rightarrow> bytes \<Rightarrow> bytes option"

definition ude_body ::
  "bool \<Rightarrow> (ustr \<Rightarrow> bytes \<Rightarrow> bytes option) \<Rightarrow> crypto_error \<Rightarrow> bytes \<Rightarrow> unit io_act" where
  "ude_body loads run failed alg_header =
     abind (alift (policy_from_header alg_header)) (\<lambda>policy.
     abind (acheck loads StorageCryptoError) (\<lambda>_.
     abind (aread io_in) (\<lambda>data.
     abind (awrite (\<lambda>s. s\<lparr>io_in := []\<rparr>)) (\<lambda>_.
     case run policy data of None \<Rightarrow> araise failed | Some out \<Rightarrow> write_bytes out))))"

definition ude_encrypt_body :: "ude_api \<Rightarrow> bytes \<Rightarrow> bytes \<Rightarrow> unit io_act" where
  "ude_encrypt_body api alg_header aad = ude_body (ud_loads api) (ud_encrypt api) StorageCryptoError alg_header"

definition ude_decrypt_body :: "ude_api \<Rightarrow> bytes \<Rightarrow> bytes \<Rightarrow> unit io_act" where
  "ude_decrypt_body api alg_header aad = ude_body (ud_loads api) (ud_decrypt api) DecryptionError alg_header"

definition UdeAria256Cipher :: "ude_api \<Rightarrow> ustr \<Rightarrow> cipher_class" where
  "UdeAria256Cipher api policy = \<lparr>cc_class = ''UdeAria256Cipher'', cc_id = 2, cc_name = ''ude-aria256'',
     cc_requires_key = False, cc_from_key = (\<lambda>_. Inr \<lparr>ci_id = 2, ci_new_header = new_policy_header policy,
       ci_encrypt = ude_encrypt_body api, ci_decrypt = ude_decrypt_body api\<rparr>)\<rparr>"

section \<open>Lemmas\<close>

lemma ustrip_idem: "ustrip (ustrip s) = ustrip s"
  by (simp add: ustrip_def dropWhile_rtrim)

lemma stripped_policy: "ustrip (resolve_ude_policy r e) = resolve_ude_policy r e"
proof -
  have d: "ustrip DEFAULT_UDE_POLICY = DEFAULT_UDE_POLICY" by (simp add: DEFAULT_UDE_POLICY_def ustrip_def uspace_def)
  have first: "ustrip (if ustrip v \<noteq> [] then ustrip v else d) = (if ustrip v \<noteq> [] then ustrip v else d)"
    if "ustrip d = d" for v d
    using that by (cases "ustrip v = []") (simp_all add: ustrip_idem)
  define from_env where "from_env = (case e of
      Some s \<Rightarrow> if ustrip s \<noteq> [] then ustrip s else DEFAULT_UDE_POLICY | None \<Rightarrow> DEFAULT_UDE_POLICY)"
  have env: "ustrip from_env = from_env"
    unfolding from_env_def by (cases e) (simp_all only: option.case first [OF d] d)
  show ?thesis unfolding resolve_ude_policy_def Let_def from_env_def [symmetric]
  proof (cases r)
    case (Returns v)
    show "ustrip (case r of Returns (Some v) \<Rightarrow> if ustrip v \<noteq> [] then ustrip v else from_env | _ \<Rightarrow> from_env) =
      (case r of Returns (Some v) \<Rightarrow> if ustrip v \<noteq> [] then ustrip v else from_env | _ \<Rightarrow> from_env)"
      unfolding Returns by (cases v) (simp_all only: resolver.case option.case env first [OF env])
  qed (simp_all only: resolver.case env)
qed

lemma utf8_units_bytes: "code_point n \<Longrightarrow> list_all (\<lambda>b. b < 256) (utf8_units n)"
proof -
  assume "code_point n"
  then have n: "n \<le> 1114111" by (simp add: code_point_def)
  have "n div 64 < 32" if "n < 2048" using that by (simp add: less_mult_imp_div_less)
  moreover have "n div 4096 < 16" if "n < 65536" using that by (simp add: less_mult_imp_div_less)
  moreover have "n div 262144 < 8" using n by (simp add: less_mult_imp_div_less)
  moreover have "m mod 64 < 128" for m :: nat
    by (rule less_trans [of _ 64]) simp_all
  ultimately show ?thesis by (auto simp: utf8_units_def)
qed

lemma base64_digits:
  "(n :: nat) = n div 64 * 64 + n mod 64"
  "(n :: nat) = n div 4096 * 4096 + n div 64 mod 64 * 64 + n mod 64"
  "(n :: nat) = n div 262144 * 262144 + n div 4096 mod 64 * 4096 + n div 64 mod 64 * 64 + n mod 64"
proof -
  have d: "k = k div 64 * 64 + k mod 64" for k :: nat by simp
  have e: "n div 4096 = n div 64 div 64" "n div 262144 = n div 64 div 64 div 64"
    by (simp_all add: div_mult2_eq [symmetric])
  show "n = n div 64 * 64 + n mod 64" by (rule d)
  show "n = n div 4096 * 4096 + n div 64 mod 64 * 64 + n mod 64"
    unfolding e using d [of n] d [of "n div 64"] by linarith
  show "n = n div 262144 * 262144 + n div 4096 mod 64 * 4096 + n div 64 mod 64 * 64 + n mod 64"
    unfolding e using d [of n] d [of "n div 64"] d [of "n div 64 div 64"] by linarith
qed

lemma utf8_read_units:
  assumes "code_point n"
  shows "utf8_read (utf8_units n @ bs) = map_option (Cons n) (utf8_read bs)"
proof -
  define p q r t where "p = n div 262144" and "q = n div 4096 mod 64" and "r = n div 64 mod 64" and "t = n mod 64"
  have b: "q < 64" "r < 64" "t < 64" by (simp_all add: q_def r_def t_def)
  consider "n < 128" | "128 \<le> n" "n < 2048" | "2048 \<le> n" "n < 65536" | "65536 \<le> n" by linarith
  then show ?thesis
  proof cases
    case 2
    define m where "m = n div 64"
    have v: "m * 64 + t = n" "m < 32"
      using base64_digits(1) [of n] 2 by (simp_all add: m_def t_def less_mult_imp_div_less)
    have "utf8_units n = [192 + m, 128 + t]" using 2 by (simp add: utf8_units_def m_def t_def)
    then show ?thesis using 2 b v(2) by (simp add: continues_def Let_def v(1))
  next
    case 3
    define m where "m = n div 4096"
    have v: "m * 4096 + r * 64 + t = n" "m < 16"
      using base64_digits(2) [of n] 3 by (simp_all add: m_def r_def t_def less_mult_imp_div_less)
    have "utf8_units n = [224 + m, 128 + r, 128 + t]" using 3 by (simp add: utf8_units_def m_def r_def t_def)
    then show ?thesis using 3 b v(2) assms by (simp add: continues_def Let_def v(1) code_point_def)
  next
    case 4
    have v: "p * 262144 + q * 4096 + r * 64 + t = n" "p < 8"
      using base64_digits(3) [of n] assms
      by (simp_all add: p_def q_def r_def t_def code_point_def less_mult_imp_div_less)
    have "utf8_units n = [240 + p, 128 + q, 128 + r, 128 + t]"
      using 4 by (simp add: utf8_units_def p_def q_def r_def t_def)
    then show ?thesis using 4 b v(2) assms by (simp add: continues_def Let_def v(1) code_point_def)
  qed (simp add: utf8_units_def)
qed

lemma utf8_back:
  assumes "utf8_encode s = Inr b"
  shows "utf8_decode b = Some s"
proof -
  from assms have s: "list_all code_point s" and b: "b = map of_nat (concat (map utf8_units s))"
    by (auto simp: utf8_encode_def split: if_splits)
  have "list_all (\<lambda>x. x < 256) (concat (map utf8_units s))"
    using s by (induction s) (simp_all add: utf8_units_bytes)
  moreover have "map unat (map of_nat xs :: bytes) = xs" if "list_all (\<lambda>x. x < 256) xs" for xs
    using that by (induction xs) (simp_all add: unat_of_nat)
  ultimately have "map unat b = concat (map utf8_units s)" unfolding b by blast
  moreover have "utf8_read (concat (map utf8_units s)) = Some s"
    using s by (induction s) (simp_all add: utf8_read_units)
  ultimately show ?thesis by (simp add: utf8_decode_def)
qed

section \<open>The class keeps the contract\<close>

text \<open>What the code relies on of the vendor: what was encrypted under a policy is decrypted under it.\<close>

definition ude_ready :: "ude_api \<times> ustr \<Rightarrow> ude_api \<times> ustr \<Rightarrow> bool" where
  "ude_ready w w' \<longleftrightarrow> ustrip (snd w) = snd w \<and> ud_loads (fst w') \<and>
     (\<forall>p x y. ud_encrypt (fst w) p x = Some y \<longrightarrow> ud_decrypt (fst w') p y = Some x)"

lemma policy_back:
  assumes "new_policy_header policy = Inr h" and "ustrip policy = policy"
  shows "policy_from_header h = Inr policy"
proof -
  from assms(1) have h: "utf8_encode policy = Inr h" "h \<noteq> []"
    by (auto simp: new_policy_header_def ebind_Inr split: if_splits)
  have "policy \<noteq> []" using h by (auto simp: utf8_encode_def)
  then show ?thesis using utf8_back [OF h(1)] assms(2) by (simp add: policy_from_header_def)
qed

interpretation ude: file_cipher "\<lambda>w. UdeAria256Cipher (fst w) (snd w)" ude_ready
proof unfold_locales
  fix w w' :: "ude_api \<times> ustr" and k c h aad p v s
  assume r: "ude_ready w w'" and c: "cc_from_key (UdeAria256Cipher (fst w) (snd w)) k = Inr c"
    and h: "ci_new_header c = Inr h" and e: "ci_encrypt c h aad \<lparr>io_in = p, io_out = v\<rparr> = (Inr (), s)"
  have ci: "c = \<lparr>ci_id = 2, ci_new_header = new_policy_header (snd w), ci_encrypt = ude_encrypt_body (fst w),
      ci_decrypt = ude_decrypt_body (fst w)\<rparr>"
    using c by (simp add: UdeAria256Cipher_def)
  have pol: "policy_from_header h = Inr (snd w)"
    using policy_back [of "snd w" h] h r by (simp add: ci ude_ready_def)
  from e obtain b where b: "ud_encrypt (fst w) (snd w) p = Some b" "s = \<lparr>io_in = [], io_out = v @ b\<rparr>"
    by (auto simp: ci ude_encrypt_body_def ude_body_def pol abind_def write_bytes_def acheck_def
      split: option.splits if_splits)
  have "ude_decrypt_body (fst w') h aad \<lparr>io_in = b, io_out = []\<rparr> = (Inr (), \<lparr>io_in = [], io_out = p\<rparr>)"
    using r b(1) by (simp add: ude_decrypt_body_def ude_body_def pol abind_def write_bytes_def acheck_def ude_ready_def)
  then show "\<exists>b c'. s = \<lparr>io_in = [], io_out = v @ b\<rparr> \<and>
      cc_from_key (UdeAria256Cipher (fst w') (snd w')) k = Inr c' \<and>
      ci_decrypt c' h aad \<lparr>io_in = b, io_out = []\<rparr> = (Inr (), \<lparr>io_in = [], io_out = p\<rparr>)"
    using b(2) by (simp add: UdeAria256Cipher_def)
qed (auto simp: UdeAria256Cipher_def)

end
