(* ===== verification/StorageObjects.thy ===== *)
theory StorageObjects
  imports UdeCipher
begin

text \<open>
  \<open>src/xgen_sdk/storage/crypto.py\<close>, objects: the registry the module sets up when it is imported, and
  the upload and download of an object's bytes; \<open>src/xgen_sdk/storage/audit.py\<close>: the record of
  uploads and downloads a service can ask for.

  The client of the object store is a parameter; it answers or raises, here with the text of the
  exception. Times are arguments.
\<close>

section \<open>The registry of the module\<close>

definition sdk_registry :: "'st gcm \<Rightarrow> bytes \<Rightarrow> ude_api \<Rightarrow> ustr \<Rightarrow> cipher_registry" where
  "sdk_registry g nonce api policy =
     (case register_cipher (Aes256GcmCipher g nonce) \<lparr>by_id = [], by_name = []\<rparr> of
        Inl _ \<Rightarrow> \<lparr>by_id = [], by_name = []\<rparr>
      | Inr reg \<Rightarrow> (case register_cipher (UdeAria256Cipher api policy) reg of Inl _ \<Rightarrow> reg | Inr reg' \<Rightarrow> reg'))"

section \<open>Audit\<close>

record audit =
  au_logger :: bool
  au_context :: pydict
  au_sent :: "pydict list"

definition CONTEXT_KEYS :: "string list" where
  "CONTEXT_KEYS = [''user_id'', ''session_id'', ''interaction_id'', ''source'', ''service'']"

definition SUPPRESS_KEY :: string where "SUPPRESS_KEY = ''_suppress_audit''"

text \<open>The context inside a block; after it the old one is set again.\<close>

definition merged_context :: "bool \<Rightarrow> pydict \<Rightarrow> pydict \<Rightarrow> pydict" where
  "merged_context suppress given ctx =
     (let merged = fold (\<lambda>(k, v) d. if v \<noteq> PNone \<and> k \<in> set CONTEXT_KEYS then dset k v d else d) given ctx
      in if suppress then dset SUPPRESS_KEY (PBool True) merged else merged)"

definition storage_audit_context :: "bool \<Rightarrow> pydict \<Rightarrow> (audit \<Rightarrow> 'a \<times> audit) \<Rightarrow> audit \<Rightarrow> 'a \<times> audit" where
  "storage_audit_context suppress given body a =
     (let (r, a') = body (a\<lparr>au_context := merged_context suppress given (au_context a)\<rparr>)
      in (r, a'\<lparr>au_context := au_context a\<rparr>))"

record audit_facts =
  af_operation :: string
  af_bucket :: string
  af_object :: string
  af_size :: "int option"
  af_plain :: "int option"
  af_encrypted :: bool
  af_algorithm :: "string option"
  af_content_type :: "string option"
  af_status :: string
  af_error :: "string option"
  af_duration :: "int option"

definition opt_int :: "int option \<Rightarrow> pyval" where
  "opt_int v = (case v of None \<Rightarrow> PNone | Some i \<Rightarrow> PInt i)"

definition opt_str :: "string option \<Rightarrow> pyval" where
  "opt_str v = (case v of None \<Rightarrow> PNone | Some s \<Rightarrow> PStr s)"

definition audit_event :: "pydict \<Rightarrow> audit_facts \<Rightarrow> pydict" where
  "audit_event ctx f =
     [(''operation'', PStr (af_operation f)), (''bucket_name'', PStr (af_bucket f)),
      (''object_name'', PStr (af_object f)),
      (''object_path'', PStr (if af_bucket f \<noteq> [] then af_bucket f @ ''/'' @ af_object f else af_object f)),
      (''size_bytes'', opt_int (af_size f)), (''plaintext_size_bytes'', opt_int (af_plain f)),
      (''encrypted'', PBool (af_encrypted f)), (''encryption_algorithm'', opt_str (af_algorithm f)),
      (''content_type'', opt_str (af_content_type f)), (''status'', PStr (af_status f)),
      (''error_message'', opt_str (af_error f)), (''duration_ms'', opt_int (af_duration f))] @
     map (\<lambda>k. (k, dget ctx k)) CONTEXT_KEYS"

definition emit_storage_audit :: "audit_facts \<Rightarrow> audit \<Rightarrow> audit" where
  "emit_storage_audit f a =
     (if \<not> au_logger a \<or> truthy (dget (au_context a) SUPPRESS_KEY) then a
      else a\<lparr>au_sent := au_sent a @ [audit_event (au_context a) f]\<rparr>)"

section \<open>Objects\<close>

record 'c client =
  cl_put :: "string \<Rightarrow> string \<Rightarrow> bytes \<Rightarrow> string \<Rightarrow> 'c \<Rightarrow> (string + unit) \<times> 'c"
  cl_get :: "string \<Rightarrow> string \<Rightarrow> 'c \<Rightarrow> (string + bytes) \<times> 'c"

record 'c store =
  so_store :: 'c
  so_audit :: audit

datatype object_error = Crypto crypto_error | Client string

definition OCTET_STREAM :: string where "OCTET_STREAM = ''application/octet-stream''"

definition put_bytes_encrypted ::
  "'c client \<Rightarrow> cipher_registry \<Rightarrow> crypto_settings \<Rightarrow> int \<Rightarrow> string \<Rightarrow> bytes \<Rightarrow> string \<Rightarrow> string option \<Rightarrow> string \<Rightarrow>
    key_value \<Rightarrow> string option \<Rightarrow> bool option \<Rightarrow> 'c store \<Rightarrow> (object_error + unit) \<times> 'c store" where
  "put_bytes_encrypted cl reg st ms default_bucket data object_name bucket_name content_type key algorithm encrypt s =
     (let bucket = (case bucket_name of None \<Rightarrow> default_bucket | Some b \<Rightarrow> b);
          alg = write_algorithm st algorithm in
      case encrypt_bytes_if_enabled reg st data key (Some alg) encrypt of
        Inl x \<Rightarrow> (Inl (Crypto x), s)
      | Inr payload \<Rightarrow>
          (let did_encrypt = resolve_encrypt_flag encrypt (cs_mode st) (cs_mode_env st);
               ctype = (if did_encrypt then OCTET_STREAM else content_type);
               facts = \<lparr>af_operation = ''upload'', af_bucket = bucket, af_object = object_name, af_size = None,
                 af_plain = Some (int (length data)), af_encrypted = did_encrypt,
                 af_algorithm = (if did_encrypt then Some alg else None), af_content_type = Some ctype,
                 af_status = ''error'', af_error = None, af_duration = Some ms\<rparr> in
           case cl_put cl bucket object_name payload ctype (so_store s) of
             (Inl msg, c) \<Rightarrow> (Inl (Client msg), s\<lparr>so_store := c,
               so_audit := emit_storage_audit (facts\<lparr>af_error := Some msg\<rparr>) (so_audit s)\<rparr>)
           | (Inr _, c) \<Rightarrow> (Inr (), s\<lparr>so_store := c,
               so_audit := emit_storage_audit (facts\<lparr>af_status := ''success'', af_size := Some (int (length payload))\<rparr>)
                 (so_audit s)\<rparr>)))"

definition get_object_bytes_decrypted ::
  "'c client \<Rightarrow> cipher_registry \<Rightarrow> crypto_settings \<Rightarrow> int \<Rightarrow> string \<Rightarrow> string \<Rightarrow> string option \<Rightarrow> key_value \<Rightarrow>
    'c store \<Rightarrow> (object_error + bytes) \<times> 'c store" where
  "get_object_bytes_decrypted cl reg st ms default_bucket object_name bucket_name key s =
     (let bucket = (case bucket_name of None \<Rightarrow> default_bucket | Some b \<Rightarrow> b);
          facts = \<lparr>af_operation = ''download'', af_bucket = bucket, af_object = object_name, af_size = None,
            af_plain = None, af_encrypted = False, af_algorithm = None, af_content_type = None,
            af_status = ''success'', af_error = None, af_duration = Some ms\<rparr> in
      case cl_get cl bucket object_name (so_store s) of
        (Inl msg, c) \<Rightarrow> (Inl (Client msg), s\<lparr>so_store := c,
          so_audit := emit_storage_audit (facts\<lparr>af_status := ''error'', af_error := Some msg\<rparr>) (so_audit s)\<rparr>)
      | (Inr raw, c) \<Rightarrow>
          (let was = is_encrypted_data raw;
               detected = (if was then detect_algorithm_name reg raw else None) in
           case decrypt_bytes_if_encrypted reg st raw key of
             Inl x \<Rightarrow> (Inl (Crypto x), s\<lparr>so_store := c\<rparr>)
           | Inr result \<Rightarrow> (Inr result, s\<lparr>so_store := c,
               so_audit := emit_storage_audit (facts\<lparr>af_size := Some (int (length result)), af_encrypted := was,
                 af_algorithm := (if was then Some (case detected of Some a \<Rightarrow> if a \<noteq> [] then a else DEFAULT_ALGORITHM
                   | None \<Rightarrow> DEFAULT_ALGORITHM) else None)\<rparr>) (so_audit s)\<rparr>)))"

section \<open>Lemmas\<close>

lemma sdk_registry_maps:
  "map_of (by_name (sdk_registry g n api pol)) a =
    (if a = ''aes256-gcm'' then Some (Aes256GcmCipher g n)
     else if a = ''ude-aria256'' then Some (UdeAria256Cipher api pol) else None)"
  "map_of (by_id (sdk_registry g n api pol)) i =
    (if i = 1 then Some (Aes256GcmCipher g n) else if i = 2 then Some (UdeAria256Cipher api pol) else None)"
  by (simp_all add: sdk_registry_def register_cipher_def taken_by_other_def Aes256GcmCipher_def UdeAria256Cipher_def)

text \<open>Whatever algorithm the module knows, what it encrypts it reads back, with any nonces, whatever
  policy is set by then and wherever the same key comes from.\<close>

lemma sdk_encrypted_back:
  assumes "gcm_ok g" and "length n = NONCE_LEN" and ude: "ude_ready (api, pol) (api', pol')"
    and key: "resolve_key key' (cs_key st') (cs_key_env st') = resolve_key key (cs_key st) (cs_key_env st)"
    and enc: "encrypt_bytes (sdk_registry g n api pol) st p key alg = Inr d"
  shows "decrypt_bytes (sdk_registry g n' api' pol') st' d key' = Inr p \<and> is_encrypted_data d \<and>
    detect_algorithm_name (sdk_registry g n' api' pol') d = Some alg"
proof -
  have known: "alg \<in> {''aes256-gcm'', ''ude-aria256''}"
    using enc by (auto simp: encrypt_bytes_def get_cipher_def sdk_registry_maps split: if_splits)
  have name: "cc_name (Aes256GcmCipher g n) = ''aes256-gcm''" "cc_name (UdeAria256Cipher api pol) = ''ude-aria256''"
    "cc_id (Aes256GcmCipher g n) = 1" "cc_id (UdeAria256Cipher api pol) = 2"
    by (simp_all add: Aes256GcmCipher_def UdeAria256Cipher_def)
  show ?thesis
  proof (cases "alg = ''aes256-gcm''")
    case True
    have "aes_ready (g, n) (g, n')" using assms(1,2) by (simp add: aes_ready_def)
    from aes.encrypted_back [OF this _ _ key enc, of "sdk_registry g n' api' pol'"] show ?thesis
      by (simp add: True sdk_registry_maps name)
  next
    case False
    from ude.encrypted_back [OF ude _ _ key enc, of "sdk_registry g n' api' pol'"] show ?thesis
      using False known by (simp add: sdk_registry_maps name)
  qed
qed

text \<open>The header of an encrypted byte string names its class.\<close>

lemma decrypt_bytes_Inr:
  assumes "decrypt_bytes reg st d key = Inr p"
  obtains i h aad b cls c s where "d = aad @ b" "take 4 aad = MAGIC" "i = uint (d ! 5)"
    "0 < i \<longrightarrow> build_envelope i h = Inr aad" "map_of (by_id reg) i = Some cls" "instance_of st cls key = Inr c"
    "ci_decrypt c h aad \<lparr>io_in = b, io_out = []\<rparr> = (Inr (), s)" "p = io_out s"
proof -
  from assms obtain i h aad s0 where r: "read_envelope \<lparr>io_in = d, io_out = []\<rparr> = (Inr (i, h, aad), s0)"
    by (auto simp: decrypt_bytes_def on_bytes_def decrypt_stream_def abind_def split: prod.splits sum.splits)
  note e = read_envelope_Inr [OF r]
  have s0: "s0 = \<lparr>io_in = io_in s0, io_out = []\<rparr>" using e by (cases s0) simp
  from assms r obtain cls c s where c: "map_of (by_id reg) i = Some cls" "instance_of st cls key = Inr c"
    "ci_decrypt c h aad s0 = (Inr (), s)" "p = io_out s"
    by (auto simp: decrypt_bytes_def on_bytes_def decrypt_stream_def abind_def split: prod.splits sum.splits option.splits)
  have dec: "ci_decrypt c h aad \<lparr>io_in = io_in s0, io_out = []\<rparr> = (Inr (), s)"
    using c(3) by (simp only: s0 [symmetric])
  show ?thesis by (rule that [OF _ _ _ _ c(1,2) dec c(4)]) (use e in blast)+
qed

lemma aes_decrypt_body_Inr:
  assumes "gcm_ok g" and "aes_decrypt_body g k h aad \<lparr>io_in = b, io_out = []\<rparr> = (Inr (), s)"
  obtains ct tag where "b = ct @ tag" "length tag = TAG_LEN" "length h = NONCE_LEN"
    "gcm_verify g (snd (gcm_decrypt g (gcm_update g (gcm_new g k h TAG_LEN) aad) ct)) tag"
    "io_out s = fst (gcm_decrypt g (gcm_update g (gcm_new g k h TAG_LEN) aad) ct)"
proof -
  let ?n = "length b - TAG_LEN"
  let ?r = "gcm_decrypt g (gcm_update g (gcm_new g k h TAG_LEN) aad) (take ?n b)"
  have "length h = NONCE_LEN" "length (drop ?n b) = TAG_LEN" "gcm_verify g (snd ?r) (drop ?n b)" "io_out s = fst ?r"
    using assms(2) by (auto simp: aes_decrypt_body_def abind_def acheck_def decrypt_loop_start [OF assms(1)]
      split: if_splits)
  then show ?thesis by (intro that [of "take ?n b" "drop ?n b"]) simp_all
qed

definition registry_ok :: "cipher_registry \<Rightarrow> bool" where
  "registry_ok reg \<longleftrightarrow>
     (\<forall>i c. map_of (by_id reg) i = Some c \<longrightarrow> cc_id c = i \<and> 0 < i \<and> i < 256) \<and>
     (\<forall>a c. map_of (by_name reg) a = Some c \<longrightarrow> cc_name c = a \<and> a \<noteq> [] \<and>
        (\<exists>c'. map_of (by_id reg) (cc_id c) = Some c' \<and> cc_class c' = cc_class c))"

lemma register_cipher_Inr:
  assumes "register_cipher cls reg = Inr reg'"
  shows "0 < cc_id cls \<and> cc_id cls < 256 \<and> cc_name cls \<noteq> [] \<and>
    by_id reg' = dset (cc_id cls) cls (by_id reg) \<and> by_name reg' = dset (cc_name cls) cls (by_name reg) \<and>
    (\<forall>c. map_of (by_id reg) (cc_id cls) = Some c \<longrightarrow> cc_class c = cc_class cls) \<and>
    (\<forall>c. map_of (by_name reg) (cc_name cls) = Some c \<longrightarrow> cc_class c = cc_class cls)"
  using assms by (auto simp: register_cipher_def taken_by_other_def split: if_splits option.splits)

lemma register_cipher_ok:
  assumes "registry_ok reg" and "register_cipher cls reg = Inr reg'"
  shows "registry_ok reg'"
proof -
  note r = register_cipher_Inr [OF assms(2)]
  have id: "map_of (by_id reg') i = (if i = cc_id cls then Some cls else map_of (by_id reg) i)"
    and nm: "map_of (by_name reg') a = (if a = cc_name cls then Some cls else map_of (by_name reg) a)" for i a
    using r by simp_all
  have "\<exists>c'. map_of (by_id reg') (cc_id c) = Some c' \<and> cc_class c' = cc_class c"
    if c: "map_of (by_name reg') a = Some c" for a c
  proof (cases "cc_id c = cc_id cls")
    case True
    show ?thesis
    proof (cases "a = cc_name cls")
      case False
      then have "map_of (by_name reg) a = Some c" using c nm by simp
      then obtain c' where c': "map_of (by_id reg) (cc_id cls) = Some c'" "cc_class c' = cc_class c"
        using assms(1) unfolding registry_ok_def True [symmetric] by blast
      have "cc_class c' = cc_class cls" using r c'(1) by blast
      then show ?thesis using c'(2) by (simp add: True id)
    qed (use c nm id in simp)
  next
    case False
    then have "a \<noteq> cc_name cls" using c nm by auto
    then have "map_of (by_name reg) a = Some c" using c nm by simp
    then obtain c' where "map_of (by_id reg) (cc_id c) = Some c'" "cc_class c' = cc_class c"
      using assms(1) unfolding registry_ok_def by blast
    then show ?thesis using False by (simp add: id)
  qed
  moreover have "cc_id c = i \<and> 0 < i \<and> i < 256" if c: "map_of (by_id reg') i = Some c" for i c
  proof (cases "i = cc_id cls")
    case True
    then have "c = cls" using c id by simp
    then show ?thesis using True r by blast
  next
    case False
    then have "map_of (by_id reg) i = Some c" using c id by simp
    then show ?thesis using assms(1) unfolding registry_ok_def by blast
  qed
  moreover have "cc_name c = a \<and> a \<noteq> []" if c: "map_of (by_name reg') a = Some c" for a c
  proof (cases "a = cc_name cls")
    case True
    then have "c = cls" using c nm by simp
    then show ?thesis by (simp add: True r)
  next
    case False
    then have "map_of (by_name reg) a = Some c" using c nm by simp
    then show ?thesis using assms(1) unfolding registry_ok_def by blast
  qed
  ultimately show ?thesis unfolding registry_ok_def by blast
qed

section \<open>Properties\<close>

text \<open>C31. Stored objects are read back: after a successful upload, encrypted or not and with either
  algorithm, the download gives the bytes that were uploaded, whatever nonces and policies are used by
  then, unless the upload stored bytes as they are that look like an envelope themselves.\<close>

theorem stored_objects_read_back:
  assumes client: "\<And>b nm p t c c'. cl_put cl b nm p t c = (Inr (), c') \<Longrightarrow> fst (cl_get cl b nm c') = Inr p"
    and gcm: "gcm_ok g" "length n = NONCE_LEN" and ude: "ude_ready (api, pol) (api', pol')"
    and key: "resolve_key key' (cs_key st') (cs_key_env st') = resolve_key key (cs_key st) (cs_key_env st)"
    and put: "put_bytes_encrypted cl (sdk_registry g n api pol) st ms db data obj bn ctype key alg enc s = (Inr (), s')"
    and plain: "is_encrypted_data data \<Longrightarrow> resolve_encrypt_flag enc (cs_mode st) (cs_mode_env st)"
  shows "fst (get_object_bytes_decrypted cl (sdk_registry g n' api' pol') st' ms' db obj bn key' s') = Inr data"
proof -
  let ?b = "case bn of None \<Rightarrow> db | Some b \<Rightarrow> b"
  from put obtain payload t c where p: "encrypt_bytes_if_enabled (sdk_registry g n api pol) st data key
        (Some (write_algorithm st alg)) enc = Inr payload"
    and c: "cl_put cl ?b obj payload t (so_store s) = (Inr (), c)" and s': "so_store s' = c"
    by (auto simp: put_bytes_encrypted_def Let_def split: sum.splits prod.splits)
  obtain c' where get: "cl_get cl ?b obj (so_store s') = (Inr payload, c')"
    using client [OF c] s' by (cases "cl_get cl ?b obj c") auto
  have "decrypt_bytes_if_encrypted (sdk_registry g n' api' pol') st' payload key' = Inr data"
  proof (cases "resolve_encrypt_flag enc (cs_mode st) (cs_mode_env st)")
    case True
    then have "encrypt_bytes (sdk_registry g n api pol) st data key (write_algorithm st alg) = Inr payload"
      using p by (simp add: encrypt_bytes_if_enabled_def write_algorithm_def)
    from sdk_encrypted_back [OF gcm ude key this, of n'] show ?thesis by (simp add: decrypt_bytes_if_encrypted_def)
  next
    case False
    then show ?thesis using p plain by (auto simp: encrypt_bytes_if_enabled_def decrypt_bytes_if_encrypted_def)
  qed
  then show ?thesis by (simp add: get_object_bytes_decrypted_def Let_def get)
qed

text \<open>A package for the examples: a key stream of one byte, and a checksum for the tag.\<close>

definition w_gcm :: "8 word gcm" where
  "w_gcm = \<lparr>gcm_new = (\<lambda>k n t. sum_list k + sum_list n), gcm_update = (\<lambda>s a. s + sum_list a),
     gcm_encrypt = (\<lambda>s p. (map (\<lambda>b. b + 7) p, s + sum_list p)),
     gcm_decrypt = (\<lambda>s c. (map (\<lambda>b. b - 7) c, s + sum_list (map (\<lambda>b. b - 7) c))),
     gcm_digest = (\<lambda>s. replicate 16 s), gcm_verify = (\<lambda>s t. t = replicate 16 s)\<rparr>"

lemma w_gcm_ok: "gcm_ok w_gcm"
proof -
  have "map ((\<lambda>b. b - 7) \<circ> (\<lambda>b. b + (7 :: 8 word))) p = p" for p by (induction p) simp_all
  then show ?thesis by (simp add: gcm_ok_def w_gcm_def TAG_LEN_def Let_def add.assoc)
qed

definition w_api :: ude_api where
  "w_api = \<lparr>ud_loads = True, ud_encrypt = (\<lambda>p b. Some (rev b)), ud_decrypt = (\<lambda>p b. Some (rev b))\<rparr>"

definition w_client :: "((string \<times> string) \<times> bytes) list client" where
  "w_client = \<lparr>cl_put = (\<lambda>b nm p t c. (Inr (), ((b, nm), p) # c)),
     cl_get = (\<lambda>b nm c. (case map_of c (b, nm) of None \<Rightarrow> Inl ''NoSuchKey'' | Some p \<Rightarrow> Inr p, c))\<rparr>"

definition w_settings :: "string \<Rightarrow> crypto_settings" where
  "w_settings mode = \<lparr>cs_mode = NoResolver, cs_mode_env = Some mode, cs_key = Returns (KBytes (replicate 32 3)),
     cs_key_env = None\<rparr>"

definition w_objects :: "((string \<times> string) \<times> bytes) list store" where
  "w_objects = \<lparr>so_store = [], so_audit = \<lparr>au_logger = True, au_context = [], au_sent = []\<rparr>\<rparr>"

lemma w_encrypted:
  "\<exists>body. encrypt_bytes (sdk_registry w_gcm (replicate 12 9) api pol) (w_settings m) data KNone ''aes256-gcm'' =
    Inr ([88, 83, 69, 49, 1, 1] @ body)"
  by (simp add: encrypt_bytes_def get_cipher_def sdk_registry_maps instance_of_def Aes256GcmCipher_def
    aes_from_key_def resolve_key_def coerce_key_def w_settings_def KEY_LEN_def on_bytes_def encrypt_stream_def
    build_envelope_def MAX_ALG_HEADER_LEN_def abind_def write_bytes_def aes_encrypt_body_def
    encrypt_loop_whole [OF w_gcm_ok] MAGIC_def ENVELOPE_VERSION_def)

lemma w_modes:
  "resolve_encrypt_flag None (cs_mode (w_settings ''AES-256'')) (cs_mode_env (w_settings ''AES-256''))"
  "write_algorithm (w_settings ''AES-256'') None = ''aes256-gcm''"
  by code_simp+

lemma w_ude: "ude_ready (w_api, DEFAULT_UDE_POLICY) (w_api, DEFAULT_UDE_POLICY)"
  by (simp add: ude_ready_def w_api_def DEFAULT_UDE_POLICY_def ustrip_def uspace_def)

theorem stored_objects_read_back_witness:
  "\<exists>s'. put_bytes_encrypted w_client (sdk_registry w_gcm (replicate 12 9) w_api DEFAULT_UDE_POLICY)
      (w_settings ''AES-256'') 5 ''documents'' [1, 2, 3] ''a'' None ''text/plain'' KNone None None w_objects = (Inr (), s') \<and>
    fst (get_object_bytes_decrypted w_client (sdk_registry w_gcm (replicate 12 8) w_api DEFAULT_UDE_POLICY)
      (w_settings ''off'') 6 ''documents'' ''a'' None KNone s') = Inr [1, 2, 3]"
proof -
  let ?put = "put_bytes_encrypted w_client (sdk_registry w_gcm (replicate 12 9) w_api DEFAULT_UDE_POLICY)
      (w_settings ''AES-256'') 5 ''documents'' [1, 2, 3] ''a'' None ''text/plain'' KNone None None w_objects"
  have "fst ?put = Inr ()"
    using w_encrypted [of w_api DEFAULT_UDE_POLICY "''AES-256''" "[1, 2, 3]"]
    by (auto simp: put_bytes_encrypted_def encrypt_bytes_if_enabled_def w_modes write_algorithm_def [of _ "Some x" for x]
      w_client_def Let_def)
  then obtain s' where put: "?put = (Inr (), s')" by (cases ?put) simp
  have client: "cl_put w_client b nm p t c = (Inr (), c') \<Longrightarrow> fst (cl_get w_client b nm c') = Inr p" for b nm p t c c'
    by (auto simp: w_client_def)
  have key: "resolve_key KNone (cs_key (w_settings ''off'')) (cs_key_env (w_settings ''off'')) =
      resolve_key KNone (cs_key (w_settings ''AES-256'')) (cs_key_env (w_settings ''AES-256''))"
    by (simp add: w_settings_def)
  have "length (replicate 12 9 :: bytes) = NONCE_LEN" "\<not> is_encrypted_data [1, 2, 3]" by code_simp+
  note facts = this
  have "fst (get_object_bytes_decrypted w_client (sdk_registry w_gcm (replicate 12 8) w_api DEFAULT_UDE_POLICY)
      (w_settings ''off'') 6 ''documents'' ''a'' None KNone s') = Inr [1, 2, 3]"
    by (rule stored_objects_read_back [OF _ w_gcm_ok facts(1) w_ude key put]) (use client facts(2) in blast)+
  then show ?thesis using put by blast
qed

text \<open>C32. Only tagged data is accepted: whenever the module decrypts a byte string of AES-256-GCM, the
  string is the header, the ciphertext and a tag the package accepts for this ciphertext, with the
  whole header bound to it, under the resolved key; the bytes given back are its decryption.\<close>

theorem only_tagged_data_is_accepted:
  assumes "gcm_ok g" and dec: "decrypt_bytes (sdk_registry g n api pol) st d key = Inr p" and "d ! 5 = 1"
  shows "\<exists>env h ct tag k. d = env @ ct @ tag \<and> build_envelope 1 h = Inr env \<and> length h = NONCE_LEN \<and>
    length tag = TAG_LEN \<and> resolve_key key (cs_key st) (cs_key_env st) = Inr k \<and>
    (let s = gcm_update g (gcm_new g k h TAG_LEN) env
     in fst (gcm_decrypt g s ct) = p \<and> gcm_verify g (snd (gcm_decrypt g s ct)) tag)"
proof -
  obtain i h aad b cls c s where d: "d = aad @ b" "i = uint (d ! 5)" "0 < i \<longrightarrow> build_envelope i h = Inr aad"
    and cls: "map_of (by_id (sdk_registry g n api pol)) i = Some cls" "instance_of st cls key = Inr c"
    and body: "ci_decrypt c h aad \<lparr>io_in = b, io_out = []\<rparr> = (Inr (), s)" "p = io_out s"
    by (rule decrypt_bytes_Inr [OF dec]) blast
  have i: "i = 1" using d(2) assms(3) by simp
  then obtain k where k: "resolve_key key (cs_key st) (cs_key_env st) = Inr k" "ci_decrypt c = aes_decrypt_body g k"
    using cls by (auto simp: sdk_registry_maps instance_of_def Aes256GcmCipher_def aes_from_key_def ebind_Inr
      split: if_splits)
  obtain ct tag where "b = ct @ tag" "length tag = TAG_LEN" "length h = NONCE_LEN"
    "gcm_verify g (snd (gcm_decrypt g (gcm_update g (gcm_new g k h TAG_LEN) aad) ct)) tag"
    "io_out s = fst (gcm_decrypt g (gcm_update g (gcm_new g k h TAG_LEN) aad) ct)"
    by (rule aes_decrypt_body_Inr [OF assms(1) body(1) [unfolded k(2)]])
  then show ?thesis using d(1,3) i k(1) body(2) unfolding Let_def by auto
qed

theorem only_tagged_data_is_accepted_witness:
  "\<exists>d. encrypt_bytes (sdk_registry w_gcm (replicate 12 9) w_api DEFAULT_UDE_POLICY) (w_settings ''on'') [1, 2, 3]
      KNone ''aes256-gcm'' = Inr d \<and>
    (\<exists>env h ct tag. d = env @ ct @ tag \<and> build_envelope 1 h = Inr env \<and> length tag = TAG_LEN)"
proof -
  let ?reg = "sdk_registry w_gcm (replicate 12 9) w_api DEFAULT_UDE_POLICY"
  obtain d body where d: "encrypt_bytes ?reg (w_settings ''on'') [1, 2, 3] KNone ''aes256-gcm'' = Inr d"
    "d = [88, 83, 69, 49, 1, 1] @ body"
    using w_encrypted [of w_api DEFAULT_UDE_POLICY "''on''" "[1, 2, 3]"] by blast
  have "length (replicate 12 9 :: bytes) = NONCE_LEN" by (simp add: NONCE_LEN_def)
  from sdk_encrypted_back [OF w_gcm_ok this w_ude refl d(1)]
  have read: "decrypt_bytes ?reg (w_settings ''on'') d KNone = Inr [1, 2, 3]" by blast
  have "d ! 5 = 1" by (simp add: d(2))
  from only_tagged_data_is_accepted [OF w_gcm_ok read this] d(1) show ?thesis by blast
qed

text \<open>Ids and names of ciphers are given once: a registration that is accepted keeps the registry in
  order and replaces no class by another, so what was written under an id stays readable by the class
  that wrote it, and what a name writes is read back by the same class.\<close>

lemma registered_ciphers_stay:
  assumes "registry_ok reg" and "register_cipher cls reg = Inr reg'"
  shows "registry_ok reg' \<and>
    map_of (by_id reg') (cc_id cls) = Some cls \<and> map_of (by_name reg') (cc_name cls) = Some cls \<and>
    (\<forall>c. map_of (by_id reg) i = Some c \<longrightarrow> (\<exists>c'. map_of (by_id reg') i = Some c' \<and> cc_class c' = cc_class c)) \<and>
    (\<forall>c. map_of (by_name reg) a = Some c \<longrightarrow> (\<exists>c'. map_of (by_name reg') a = Some c' \<and> cc_class c' = cc_class c))"
proof -
  have ids: "by_id reg' = dset (cc_id cls) cls (by_id reg)" and names: "by_name reg' = dset (cc_name cls) cls (by_name reg)"
    and same: "\<And>c. map_of (by_id reg) (cc_id cls) = Some c \<Longrightarrow> cc_class c = cc_class cls"
      "\<And>c. map_of (by_name reg) (cc_name cls) = Some c \<Longrightarrow> cc_class c = cc_class cls"
    using register_cipher_Inr [OF assms(2)] by blast+
  have "\<exists>c'. map_of (by_id reg') i = Some c' \<and> cc_class c' = cc_class c" if "map_of (by_id reg) i = Some c" for c
    unfolding ids using that same(1) [of c] by (cases "i = cc_id cls") auto
  moreover have "\<exists>c'. map_of (by_name reg') a = Some c' \<and> cc_class c' = cc_class c" if "map_of (by_name reg) a = Some c" for c
    unfolding names using that same(2) [of c] by (cases "a = cc_name cls") auto
  ultimately show ?thesis using register_cipher_ok [OF assms] by (simp add: ids names)
qed

lemma registered_ciphers_stay_witness:
  "registry_ok (sdk_registry w_gcm (replicate 12 9) w_api DEFAULT_UDE_POLICY) \<and>
   register_cipher ((UdeAria256Cipher w_api DEFAULT_UDE_POLICY)\<lparr>cc_class := ''Other''\<rparr>)
     (sdk_registry w_gcm (replicate 12 9) w_api DEFAULT_UDE_POLICY) = Inl StorageCryptoError"
proof -
  let ?e = "\<lparr>by_id = [], by_name = []\<rparr>" and ?a = "Aes256GcmCipher w_gcm (replicate 12 9)"
    and ?u = "UdeAria256Cipher w_api DEFAULT_UDE_POLICY"
  let ?r = "\<lparr>by_id = [(1, ?a)], by_name = [(''aes256-gcm'', ?a)]\<rparr>"
  have a: "register_cipher ?a ?e = Inr ?r"
    by (simp add: register_cipher_def taken_by_other_def Aes256GcmCipher_def)
  have u: "register_cipher ?u ?r = Inr (sdk_registry w_gcm (replicate 12 9) w_api DEFAULT_UDE_POLICY)"
    by (simp add: sdk_registry_def a register_cipher_def taken_by_other_def UdeAria256Cipher_def Aes256GcmCipher_def)
  have "registry_ok ?e" by (simp add: registry_ok_def)
  from registered_ciphers_stay [OF this a] registered_ciphers_stay [OF _ u] show ?thesis
    by (simp add: register_cipher_def taken_by_other_def sdk_registry_maps UdeAria256Cipher_def)
qed

text \<open>With the encryption off, bytes that begin with the magic are stored as they are, and the download
  takes them for an envelope.\<close>

lemma plain_magic_unreadable:
  "fst (get_object_bytes_decrypted w_client reg st 6 ''documents'' ''a'' None key
     (snd (put_bytes_encrypted w_client reg (w_settings ''off'') 5 ''documents'' MAGIC ''a'' None ''text/plain'' KNone
       None None w_objects))) = Inl (Crypto DecryptionError)"
proof -
  have off: "encryption_mode NoResolver (Some ''off'') = MODE_DISABLE" by code_simp
  show ?thesis
    by (simp add: put_bytes_encrypted_def get_object_bytes_decrypted_def encrypt_bytes_if_enabled_def
      resolve_encrypt_flag_def encryption_enabled_def w_settings_def off w_client_def w_objects_def
      decrypt_bytes_if_encrypted_def is_encrypted_data_def decrypt_bytes_def on_bytes_def decrypt_stream_def
      read_envelope_def read_n_def act_defs FIXED_HEADER_LEN_def MAGIC_def Let_def)
qed

text \<open>A download that cannot be decrypted leaves no record, although it was asked for.\<close>

lemma failed_decryption_unrecorded:
  assumes "fst (get_object_bytes_decrypted cl reg st ms db obj bn key s) = Inl (Crypto x)"
  shows "so_audit (snd (get_object_bytes_decrypted cl reg st ms db obj bn key s)) = so_audit s"
  using assms by (auto simp: get_object_bytes_decrypted_def Let_def split: sum.splits prod.splits)

end
