(* ===== verification/StorageFiles.thy ===== *)
theory StorageFiles
  imports StorageObjects
begin

text \<open>
  \<open>src/xgen_sdk/storage/crypto.py\<close>, files, and the transfers of \<open>src/xgen_sdk/storage/minio_client.py\<close>:
  encryption and decryption of files, upload and download of objects from and to files, and the
  cache of downloaded images.

  Files are a map from absolute paths to contents. The name a temporary file gets is a parameter
  (\<open>su_temp\<close>), and so is the text of an exception. Every encryption uses a registry of its own
  (\<open>su_reg n\<close> at the \<open>n\<close>-th), because each draws a new nonce.

  Every operation on a file may fail: the world holds for the operations to come which of them the
  system refuses (\<open>wd_faults\<close>). A write that fails leaves the file as it was, where it cannot be opened,
  or with some of the bytes; opening, renaming and removing fail as a whole. The code swallows some of
  these failures, and the model does where the code does. Only whether the cache directory can be
  made is left out.
\<close>

section \<open>World\<close>

type_synonym files = "(string \<times> bytes) list"

datatype file_error =
    FCrypto crypto_error
  | FClient string
  | FMissing
  | FOs
  | FBadPath

record 'c world =
  wd_files :: "files"
  wd_store :: "'c"
  wd_audit :: audit
  wd_draws :: nat
  wd_faults :: "nat option list"

record 'c sdk =
  su_client :: "'c client"
  su_reg :: "nat \<Rightarrow> cipher_registry"
  su_settings :: crypto_settings
  su_bucket :: string
  su_temp :: "files \<Rightarrow> string \<Rightarrow> string"
  su_message :: "file_error \<Rightarrow> string"
  su_ms :: int

type_synonym ('c, 'a) wact = "('c world, file_error, 'a) act"

definition unlink :: "string \<Rightarrow> files \<Rightarrow> files" where
  "unlink p fs = filter (\<lambda>(q, _). q \<noteq> p) fs"

definition replace_file :: "string \<Rightarrow> string \<Rightarrow> files \<Rightarrow> files" where
  "replace_file a b fs = (case map_of fs a of None \<Rightarrow> fs | Some d \<Rightarrow> dset b d (unlink a fs))"

text \<open>The next operation on a file and whether it fails; \<open>Some 0\<close> fails before it did anything,
  \<open>Some (Suc k)\<close> is a write that fails after \<open>k\<close> bytes.\<close>

definition next_fault :: "'c world \<Rightarrow> nat option" where
  "next_fault w = (case wd_faults w of [] \<Rightarrow> None | f # _ \<Rightarrow> f)"

definition spend_fault :: "'c world \<Rightarrow> 'c world" where
  "spend_fault w = w\<lparr>wd_faults := tl (wd_faults w)\<rparr>"

definition file_op :: "(files \<Rightarrow> files) \<Rightarrow> (nat \<Rightarrow> files \<Rightarrow> files) \<Rightarrow> ('c, unit) wact" where
  "file_op whole part w = (case next_fault w of
       None \<Rightarrow> (Inr (), (spend_fault w)\<lparr>wd_files := whole (wd_files w)\<rparr>)
     | Some k \<Rightarrow> (Inl FOs, (spend_fault w)\<lparr>wd_files := part k (wd_files w)\<rparr>))"

definition wfiles :: "(files \<Rightarrow> files) \<Rightarrow> ('c, unit) wact" where
  "wfiles f = file_op f (\<lambda>_ fs. fs)"

definition write_file :: "string \<Rightarrow> bytes \<Rightarrow> ('c, unit) wact" where
  "write_file p data = file_op (dset p data) (\<lambda>k fs. case k of 0 \<Rightarrow> fs | Suc n \<Rightarrow> dset p (take n data) fs)"

definition read_file :: "string \<Rightarrow> ('c, bytes) wact" where
  "read_file p = abind (file_op (\<lambda>fs. fs) (\<lambda>_ fs. fs)) (\<lambda>_.
     abind (aread (\<lambda>w. map_of (wd_files w) p)) (\<lambda>d. case d of
     None \<Rightarrow> araise FMissing | Some b \<Rightarrow> areturn b))"

text \<open>A look at a file whose failure is caught.\<close>

definition look_at :: "'a \<Rightarrow> (files \<Rightarrow> 'a) \<Rightarrow> ('c, 'a) wact" where
  "look_at dflt f w = (Inr (case next_fault w of None \<Rightarrow> f (wd_files w) | Some _ \<Rightarrow> dflt), spend_fault w)"

text \<open>\<open>finally\<close>, and what is done before an exception is raised again.\<close>

definition finally_do :: "('s, 'e, 'a) act \<Rightarrow> ('s \<Rightarrow> 's) \<Rightarrow> ('s, 'e, 'a) act" where
  "finally_do m f s = (case m s of (r, s') \<Rightarrow> (r, f s'))"

definition on_raise :: "('s, 'e, 'a) act \<Rightarrow> ('e \<Rightarrow> 's \<Rightarrow> 's) \<Rightarrow> ('s, 'e, 'a) act" where
  "on_raise m f s = (case m s of (Inl e, s') \<Rightarrow> (Inl e, f e s') | (Inr v, s') \<Rightarrow> (Inr v, s'))"

text \<open>An operation on files whose failure is swallowed, as in \<open>try: os.unlink(p) except OSError: pass\<close>.\<close>

definition try_files :: "(files \<Rightarrow> files) \<Rightarrow> 'c world \<Rightarrow> 'c world" where
  "try_files f w = snd (wfiles f w)"

definition drop_file :: "string \<Rightarrow> 'c world \<Rightarrow> 'c world" where
  "drop_file p = try_files (unlink p)"

definition raise_io :: "crypto_error + 'a \<Rightarrow> ('c, unit) wact" where
  "raise_io r = (case r of Inl x \<Rightarrow> araise (FCrypto x) | Inr _ \<Rightarrow> areturn ())"

text \<open>\<open>mkstemp\<close>: an empty file under a new name.\<close>

definition mkstemp :: "'c sdk \<Rightarrow> string \<Rightarrow> ('c, string) wact" where
  "mkstemp su prefix = abind (aread (\<lambda>w. su_temp su (wd_files w) prefix)) (\<lambda>tmp.
     abind (wfiles (dset tmp [])) (\<lambda>_. areturn tmp))"

section \<open>Files\<close>

definition has_magic :: "string \<Rightarrow> files \<Rightarrow> bool" where
  "has_magic path fs = (case map_of fs path of None \<Rightarrow> False | Some d \<Rightarrow> is_encrypted_data (take (length MAGIC) d))"

definition is_encrypted_file :: "string \<Rightarrow> ('c, bool) wact" where
  "is_encrypted_file path = look_at False (has_magic path)"

definition encrypt_file :: "'c sdk \<Rightarrow> string \<Rightarrow> string \<Rightarrow> key_value \<Rightarrow> string \<Rightarrow> ('c, unit) wact" where
  "encrypt_file su source_path dest_path key algorithm =
     abind (acheck (source_path \<noteq> dest_path) (FCrypto StorageCryptoError)) (\<lambda>_.
     abind (aread wd_draws) (\<lambda>n.
     abind (awrite (\<lambda>w. w\<lparr>wd_draws := Suc n\<rparr>)) (\<lambda>_.
     case get_cipher (su_reg su n) (su_settings su) algorithm key of
       Inl x \<Rightarrow> araise (FCrypto x)
     | Inr c \<Rightarrow>
         abind (read_file source_path) (\<lambda>data.
         case encrypt_stream c \<lparr>io_in = data, io_out = []\<rparr> of
           (r, s) \<Rightarrow> abind (write_file dest_path (io_out s)) (\<lambda>_. raise_io r)))))"

definition decrypt_file :: "'c sdk \<Rightarrow> string \<Rightarrow> string \<Rightarrow> key_value \<Rightarrow> ('c, unit) wact" where
  "decrypt_file su source_path dest_path key =
     abind (acheck (source_path \<noteq> dest_path) (FCrypto StorageCryptoError)) (\<lambda>_.
     abind (mkstemp su ''.xse_dec_'') (\<lambda>tmp.
     on_raise
       (abind (read_file source_path) (\<lambda>data.
        abind (aread wd_draws) (\<lambda>n.
        case decrypt_stream (su_reg su n) (su_settings su) key \<lparr>io_in = data, io_out = []\<rparr> of
          (r, s) \<Rightarrow>
            abind (write_file tmp (io_out s)) (\<lambda>_.
            abind (raise_io r) (\<lambda>_. wfiles (replace_file tmp dest_path))))))
       (\<lambda>_. drop_file tmp)))"

definition SRC_TMP :: string where "SRC_TMP = ''.xse_src_tmp''"

definition decrypt_file_inplace :: "'c sdk \<Rightarrow> string \<Rightarrow> key_value \<Rightarrow> ('c, bool) wact" where
  "decrypt_file_inplace su path key =
     abind (is_encrypted_file path) (\<lambda>encrypted.
     if \<not> encrypted then areturn False
     else let enc_tmp = path @ SRC_TMP in
       abind (wfiles (replace_file path enc_tmp)) (\<lambda>_.
       finally_do
         (on_raise (abind (decrypt_file su enc_tmp path key) (\<lambda>_. areturn True))
           (\<lambda>_ w. if map_of (wd_files w) path = None
              then try_files (replace_file enc_tmp path) w else w))
         (drop_file enc_tmp)))"

section \<open>Transfers\<close>

definition fput_object :: "'c sdk \<Rightarrow> string \<Rightarrow> string \<Rightarrow> string \<Rightarrow> string \<Rightarrow> ('c, unit) wact" where
  "fput_object su bucket object_name path ctype =
     abind (read_file path) (\<lambda>data w.
       case cl_put (su_client su) bucket object_name data ctype (wd_store w) of
         (Inl msg, c) \<Rightarrow> (Inl (FClient msg), w\<lparr>wd_store := c\<rparr>)
       | (Inr _, c) \<Rightarrow> (Inr (), w\<lparr>wd_store := c\<rparr>))"

definition fget_object :: "'c sdk \<Rightarrow> string \<Rightarrow> string \<Rightarrow> string \<Rightarrow> ('c, unit) wact" where
  "fget_object su bucket object_name path w =
     (case cl_get (su_client su) bucket object_name (wd_store w) of
        (Inl msg, c) \<Rightarrow> (Inl (FClient msg), w\<lparr>wd_store := c\<rparr>)
      | (Inr data, c) \<Rightarrow> wfiles (dset path data) (w\<lparr>wd_store := c\<rparr>))"

definition file_size :: "string \<Rightarrow> ('c, int option) wact" where
  "file_size path = look_at None (\<lambda>fs. map_option (\<lambda>d. int (length d)) (map_of fs path))"

definition emit :: "audit_facts \<Rightarrow> 'c world \<Rightarrow> 'c world" where
  "emit f w = w\<lparr>wd_audit := emit_storage_audit f (wd_audit w)\<rparr>"

definition upload_file ::
  "'c sdk \<Rightarrow> string \<Rightarrow> string \<Rightarrow> string \<Rightarrow> string option \<Rightarrow> bool option \<Rightarrow> ('c, unit) wact" where
  "upload_file su source_path object_name bucket content_type encrypt =
     (let st = su_settings su;
          do_encrypt = resolve_encrypt_flag encrypt (cs_mode st) (cs_mode_env st);
          algorithm = (if do_encrypt then Some (write_algorithm st None) else None) in
      abind (file_size source_path) (\<lambda>plain.
      let facts = \<lparr>af_operation = ''upload'', af_bucket = bucket, af_object = object_name, af_size = None,
            af_plain = plain, af_encrypted = do_encrypt, af_algorithm = algorithm,
            af_content_type = (if do_encrypt then Some OCTET_STREAM else content_type),
            af_status = ''success'', af_error = None, af_duration = Some (su_ms su)\<rparr> in
      abind (on_raise
        (if do_encrypt then
           abind (mkstemp su ''.xse_up_'') (\<lambda>tmp.
           finally_do
             (abind (encrypt_file su source_path tmp KNone (the algorithm)) (\<lambda>_.
              abind (file_size tmp) (\<lambda>stored.
              abind (fput_object su bucket object_name tmp OCTET_STREAM) (\<lambda>_. areturn stored))))
             (drop_file tmp))
         else
           abind (fput_object su bucket object_name source_path
             (case content_type of Some c \<Rightarrow> if c \<noteq> [] then c else OCTET_STREAM | None \<Rightarrow> OCTET_STREAM))
             (\<lambda>_. areturn plain))
        (\<lambda>e. emit (facts\<lparr>af_content_type := content_type, af_status := ''error'', af_error := Some (su_message su e)\<rparr>)))
        (\<lambda>stored. awrite (emit (facts\<lparr>af_size := stored\<rparr>)))))"

definition download_file ::
  "'c sdk \<Rightarrow> string \<Rightarrow> string \<Rightarrow> string \<Rightarrow> bool \<Rightarrow> ('c, unit) wact" where
  "download_file su object_name destination_path bucket decrypt =
     (let facts = \<lparr>af_operation = ''download'', af_bucket = bucket, af_object = object_name, af_size = None,
            af_plain = None, af_encrypted = False, af_algorithm = None, af_content_type = None,
            af_status = ''success'', af_error = None, af_duration = Some (su_ms su)\<rparr> in
      abind (on_raise
        (abind (fget_object su bucket object_name destination_path) (\<lambda>_.
         if decrypt then decrypt_file_inplace su destination_path KNone else areturn False))
        (\<lambda>e. emit (facts\<lparr>af_status := ''error'', af_error := Some (su_message su e)\<rparr>)))
        (\<lambda>was. abind (file_size destination_path) (\<lambda>size. awrite (emit (facts\<lparr>af_size := size, af_encrypted := was,
           af_algorithm := (if was then Some DEFAULT_ALGORITHM else None)\<rparr>)))))"

definition upload_file_encrypted ::
  "'c sdk \<Rightarrow> string \<Rightarrow> string \<Rightarrow> string option \<Rightarrow> key_value \<Rightarrow> string option \<Rightarrow> string option \<Rightarrow> ('c, unit) wact" where
  "upload_file_encrypted su source_path object_name bucket_name key algorithm content_type =
     (let bucket = (case bucket_name of None \<Rightarrow> su_bucket su | Some b \<Rightarrow> b) in
      abind (mkstemp su ''.xse_enc_'') (\<lambda>tmp.
      finally_do
        (abind (encrypt_file su source_path tmp key (write_algorithm (su_settings su) algorithm)) (\<lambda>_.
         upload_file su tmp object_name bucket
           (Some (case content_type of Some c \<Rightarrow> if c \<noteq> [] then c else OCTET_STREAM | None \<Rightarrow> OCTET_STREAM)) None))
        (drop_file tmp)))"

definition download_file_decrypted ::
  "'c sdk \<Rightarrow> string \<Rightarrow> string \<Rightarrow> string option \<Rightarrow> key_value \<Rightarrow> bool \<Rightarrow> ('c, bool) wact" where
  "download_file_decrypted su object_name destination_path bucket_name key allow_plaintext =
     (let bucket = (case bucket_name of None \<Rightarrow> su_bucket su | Some b \<Rightarrow> b) in
      abind (mkstemp su ''.xse_dl_'') (\<lambda>tmp.
      finally_do
        (abind (download_file su object_name tmp bucket True) (\<lambda>_.
         abind (is_encrypted_file tmp) (\<lambda>encrypted.
         if \<not> encrypted then
           abind (acheck allow_plaintext (FCrypto DecryptionError)) (\<lambda>_.
           abind (mkstemp su ''.xse_plain_'') (\<lambda>tmp2.
           on_raise
             (abind (read_file tmp) (\<lambda>data.
              abind (write_file tmp2 data) (\<lambda>_.
              abind (wfiles (replace_file tmp2 destination_path)) (\<lambda>_. areturn False))))
             (\<lambda>_. drop_file tmp2)))
         else abind (decrypt_file su tmp destination_path key) (\<lambda>_. areturn True))))
        (drop_file tmp)))"

text \<open>The chunks a caller that reads the stream to its end gets.\<close>

function chunks_of :: "nat \<Rightarrow> bytes \<Rightarrow> bytes list" where
  "chunks_of n data = (if data = [] \<or> n = 0 then [] else take n data # chunks_of n (drop n data))"
  by pat_completeness auto
termination
  by (relation "measure (\<lambda>(n, d). length d)") auto

declare chunks_of.simps [simp del]

definition stream_object_decrypted ::
  "'c sdk \<Rightarrow> string \<Rightarrow> string option \<Rightarrow> key_value \<Rightarrow> nat \<Rightarrow> ('c, bytes list) wact" where
  "stream_object_decrypted su object_name bucket_name key chunk_size =
     (let bucket = (case bucket_name of None \<Rightarrow> su_bucket su | Some b \<Rightarrow> b) in
      abind (mkstemp su ''.xse_stream_'') (\<lambda>tmp.
      finally_do
        (abind (download_file su object_name tmp bucket False) (\<lambda>_.
         abind (decrypt_file_inplace su tmp key) (\<lambda>_.
         abind (read_file tmp) (\<lambda>data. areturn (chunks_of chunk_size data)))))
        (drop_file tmp)))"

section \<open>Lemmas\<close>

lemma map_of_unlink: "map_of (unlink p fs) = (map_of fs)(p := None)"
  by (induction fs) (auto simp: unlink_def)

lemma map_of_replace_file:
  "map_of fs a = Some d \<Longrightarrow> map_of (replace_file a b fs) = (map_of fs)(a := None, b \<mapsto> d)"
  by (simp add: replace_file_def map_of_unlink)

definition temp_fresh :: "'c sdk \<Rightarrow> bool" where
  "temp_fresh su \<longleftrightarrow> (\<forall>fs prefix. map_of fs (su_temp su fs prefix) = None)"

lemmas world_defs = abind_def acheck_def mkstemp_def finally_do_def on_raise_def

lemma spend_fault_simps [simp]:
  "wd_files (spend_fault w) = wd_files w" "wd_store (spend_fault w) = wd_store w" "wd_draws (spend_fault w) = wd_draws w"
  "wd_faults (spend_fault w) = tl (wd_faults w)"
  by (simp_all add: spend_fault_def)

text \<open>While nothing fails, every operation on files does what it says.\<close>

lemma calm [simp]:
  assumes "wd_faults w = []"
  shows "wfiles f w = (Inr (), w\<lparr>wd_files := f (wd_files w)\<rparr>)"
    and "write_file p data w = (Inr (), w\<lparr>wd_files := dset p data (wd_files w)\<rparr>)"
    and "read_file p w = (case map_of (wd_files w) p of None \<Rightarrow> Inl FMissing | Some b \<Rightarrow> Inr b, w)"
    and "look_at dflt g w = (Inr (g (wd_files w)), w)"
    and "try_files f w = w\<lparr>wd_files := f (wd_files w)\<rparr>"
    and "drop_file p w = w\<lparr>wd_files := unlink p (wd_files w)\<rparr>"
    and "is_encrypted_file p w = (Inr (has_magic p (wd_files w)), w)"
    and "file_size p w = (Inr (map_option (\<lambda>d. int (length d)) (map_of (wd_files w) p)), w)"
proof -
  have s: "spend_fault w = w" "next_fault w = None" using assms by (cases w; simp add: spend_fault_def next_fault_def)+
  show "wfiles f w = (Inr (), w\<lparr>wd_files := f (wd_files w)\<rparr>)" for f by (simp add: wfiles_def file_op_def s)
  then show t: "try_files f w = w\<lparr>wd_files := f (wd_files w)\<rparr>" for f by (simp add: try_files_def)
  show "drop_file p w = w\<lparr>wd_files := unlink p (wd_files w)\<rparr>" by (simp add: drop_file_def t)
  show "write_file p data w = (Inr (), w\<lparr>wd_files := dset p data (wd_files w)\<rparr>)"
    by (simp add: write_file_def file_op_def s)
  show "read_file p w = (case map_of (wd_files w) p of None \<Rightarrow> Inl FMissing | Some b \<Rightarrow> Inr b, w)"
    by (simp add: read_file_def file_op_def s abind_def split: option.split)
  show l: "look_at dflt g w = (Inr (g (wd_files w)), w)" for dflt :: 'b and g by (simp add: look_at_def s)
  show "is_encrypted_file p w = (Inr (has_magic p (wd_files w)), w)" by (simp add: is_encrypted_file_def look_at_def s)
  show "file_size p w = (Inr (map_option (\<lambda>d. int (length d)) (map_of (wd_files w) p)), w)"
    by (simp add: file_size_def look_at_def s)
qed

text \<open>A file is decrypted into a temporary file that takes the place of the destination at the end.\<close>

lemma decrypt_file_run:
  assumes "temp_fresh su" and src: "map_of (wd_files w) src = Some data" and "src \<noteq> dst" and calm: "wd_faults w = []"
  shows "\<exists>fs. decrypt_file su src dst key w =
      (case decrypt_bytes (su_reg su (wd_draws w)) (su_settings su) data key of
         Inl x \<Rightarrow> Inl (FCrypto x) | Inr p \<Rightarrow> Inr (), w\<lparr>wd_files := fs\<rparr>) \<and>
    map_of fs = (case decrypt_bytes (su_reg su (wd_draws w)) (su_settings su) data key of
         Inl _ \<Rightarrow> map_of (wd_files w) | Inr p \<Rightarrow> (map_of (wd_files w))(dst \<mapsto> p))"
proof -
  define tmp where "tmp = su_temp su (wd_files w) ''.xse_dec_''"
  have tmp: "map_of (wd_files w) tmp = None" using assms(1) by (simp add: temp_fresh_def tmp_def)
  then have src': "map_of (dset tmp [] (wd_files w)) src = Some data" using src by auto
  obtain r s where d: "decrypt_stream (su_reg su (wd_draws w)) (su_settings su) key \<lparr>io_in = data, io_out = []\<rparr> = (r, s)"
    by fastforce
  have bytes: "decrypt_bytes (su_reg su (wd_draws w)) (su_settings su) data key =
      (case r of Inl x \<Rightarrow> Inl x | Inr _ \<Rightarrow> Inr (io_out s))"
    by (simp add: decrypt_bytes_def on_bytes_def d split: sum.split)
  define fs where "fs = dset tmp (io_out s) (dset tmp [] (wd_files w))"
  have fs: "map_of fs tmp = Some (io_out s)" "map_of fs = (map_of (wd_files w))(tmp \<mapsto> io_out s)"
    by (simp_all add: fs_def)
  show ?thesis
  proof (cases r)
    case (Inl x)
    have "map_of (unlink tmp fs) = map_of (wd_files w)" using tmp by (simp add: map_of_unlink fs(2) fun_upd_idem)
    moreover have "decrypt_file su src dst key w = (Inl (FCrypto x), w\<lparr>wd_files := unlink tmp fs\<rparr>)"
      using assms(3) src' calm by (simp add: decrypt_file_def world_defs tmp_def [symmetric] d Inl raise_io_def fs_def)
    ultimately show ?thesis unfolding bytes Inl by (intro exI [of _ "unlink tmp fs"]) simp
  next
    case (Inr u)
    have "map_of (replace_file tmp dst fs) = (map_of (wd_files w))(dst \<mapsto> io_out s)"
      using tmp by (simp add: map_of_replace_file [OF fs(1)] fs(2) fun_upd_idem)
    moreover have "decrypt_file su src dst key w = (Inr (), w\<lparr>wd_files := replace_file tmp dst fs\<rparr>)"
      using assms(3) src' calm by (simp add: decrypt_file_def world_defs tmp_def [symmetric] d Inr raise_io_def fs_def)
    ultimately show ?thesis unfolding bytes Inr by (intro exI [of _ "replace_file tmp dst fs"]) simp
  qed
qed

lemma encrypted_file_data:
  "map_of fs path = Some data \<Longrightarrow> has_magic path fs \<longleftrightarrow> is_encrypted_data data"
  by (auto simp: has_magic_def is_encrypted_data_def)

text \<open>Decryption in place changes the one file, or nothing.\<close>

lemma decrypt_file_inplace_run:
  assumes fresh: "temp_fresh su" and data: "map_of (wd_files w) path = Some data" and calm: "wd_faults w = []"
  shows "\<exists>fs. decrypt_file_inplace su path key w =
      (case decrypt_bytes_if_encrypted (su_reg su (wd_draws w)) (su_settings su) data key of
         Inl x \<Rightarrow> Inl (FCrypto x) | Inr p \<Rightarrow> Inr (is_encrypted_data data), w\<lparr>wd_files := fs\<rparr>) \<and>
    map_of fs = (if is_encrypted_data data then (map_of (wd_files w))(path @ SRC_TMP := None) else map_of (wd_files w))
      (path \<mapsto> (case decrypt_bytes_if_encrypted (su_reg su (wd_draws w)) (su_settings su) data key of
         Inl _ \<Rightarrow> data | Inr p \<Rightarrow> p))"
proof (cases "is_encrypted_data data")
  case False
  then have "decrypt_file_inplace su path key w = (Inr False, w\<lparr>wd_files := wd_files w\<rparr>)"
    using data calm by (simp add: decrypt_file_inplace_def abind_def encrypted_file_data)
  then show ?thesis using False data
    by (intro exI [of _ "wd_files w"]) (simp add: decrypt_bytes_if_encrypted_def fun_upd_idem)
next
  case True
  let ?enc = "path @ SRC_TMP" and ?r = "decrypt_bytes (su_reg su (wd_draws w)) (su_settings su) data key"
  define fs0 where "fs0 = replace_file path (path @ SRC_TMP) (wd_files w)"
  have ne: "?enc \<noteq> path" by (simp add: SRC_TMP_def)
  have fs0: "map_of fs0 = (map_of (wd_files w))(path := None, ?enc \<mapsto> data)"
    by (simp add: fs0_def map_of_replace_file [OF data])
  then have enc: "map_of (wd_files (w\<lparr>wd_files := fs0\<rparr>)) ?enc = Some data" by simp
  have "\<exists>fs1. decrypt_file su ?enc path key (w\<lparr>wd_files := fs0\<rparr>) =
      (case ?r of Inl x \<Rightarrow> Inl (FCrypto x) | Inr p \<Rightarrow> Inr (), w\<lparr>wd_files := fs1\<rparr>) \<and>
      map_of fs1 = (case ?r of Inl _ \<Rightarrow> map_of fs0 | Inr p \<Rightarrow> (map_of fs0)(path \<mapsto> p))"
    using decrypt_file_run [OF fresh enc ne, of key] calm by (simp cong: sum.case_cong)
  then obtain fs1 where
    run: "decrypt_file su ?enc path key (w\<lparr>wd_files := fs0\<rparr>) =
      (case ?r of Inl x \<Rightarrow> Inl (FCrypto x) | Inr p \<Rightarrow> Inr (), w\<lparr>wd_files := fs1\<rparr>)"
    and fs1: "map_of fs1 = (case ?r of Inl _ \<Rightarrow> map_of fs0 | Inr p \<Rightarrow> (map_of fs0)(path \<mapsto> p))" by blast
  have flag: "has_magic path (wd_files w)" using True data by (simp add: encrypted_file_data)
  show ?thesis
  proof (cases ?r)
    case (Inl x)
    have none: "map_of fs1 path = None" and e1: "map_of fs1 ?enc = Some data" using fs1 Inl fs0 ne by auto
    have "map_of (unlink ?enc (replace_file ?enc path fs1)) = (map_of (wd_files w))(?enc := None, path \<mapsto> data)"
      using fs1 Inl data ne by (auto simp: map_of_unlink map_of_replace_file [OF e1] fs0 fun_eq_iff)
    moreover have "decrypt_file_inplace su path key w =
        (Inl (FCrypto x), w\<lparr>wd_files := unlink ?enc (replace_file ?enc path fs1)\<rparr>)"
      using flag run Inl none calm by (simp add: decrypt_file_inplace_def Let_def world_defs fs0_def [symmetric])
    ultimately show ?thesis using True Inl
      by (intro exI [of _ "unlink ?enc (replace_file ?enc path fs1)"]) (simp add: decrypt_bytes_if_encrypted_def)
  next
    case (Inr p)
    have "map_of (unlink ?enc fs1) = (map_of (wd_files w))(?enc := None, path \<mapsto> p)"
      using fs1 Inr ne by (auto simp: map_of_unlink fs0 fun_eq_iff)
    moreover have "decrypt_file_inplace su path key w = (Inr True, w\<lparr>wd_files := unlink ?enc fs1\<rparr>)"
      using flag run Inr calm by (simp add: decrypt_file_inplace_def Let_def world_defs fs0_def [symmetric])
    ultimately show ?thesis using True Inr
      by (intro exI [of _ "unlink ?enc fs1"]) (simp add: decrypt_bytes_if_encrypted_def)
  qed
qed

lemma encrypt_file_Inr:
  assumes "encrypt_file su src dst key alg w = (Inr (), w')" and "wd_faults w = []"
  obtains data payload where "map_of (wd_files w) src = Some data"
    "encrypt_bytes (su_reg su (wd_draws w)) (su_settings su) data key alg = Inr payload"
    "w' = w\<lparr>wd_draws := Suc (wd_draws w), wd_files := dset dst payload (wd_files w)\<rparr>"
proof -
  from assms obtain c data r s where c: "get_cipher (su_reg su (wd_draws w)) (su_settings su) alg key = Inr c"
    and data: "map_of (wd_files w) src = Some data"
    and run: "encrypt_stream c \<lparr>io_in = data, io_out = []\<rparr> = (r, s)"
    and r: "raise_io r (w\<lparr>wd_draws := Suc (wd_draws w), wd_files := dset dst (io_out s) (wd_files w)\<rparr>) = (Inr (), w')"
    by (auto simp: encrypt_file_def world_defs split: sum.splits option.splits prod.splits if_splits)
  from r obtain u where u: "r = Inr u" "w' = w\<lparr>wd_draws := Suc (wd_draws w), wd_files := dset dst (io_out s) (wd_files w)\<rparr>"
    by (cases r) (auto simp: raise_io_def)
  show ?thesis by (rule that [OF data _ u(2)]) (simp add: encrypt_bytes_def c on_bytes_def run u(1))
qed

text \<open>An upload stores what the settings ask for, and leaves the files as they were.\<close>

lemma upload_file_Inr:
  assumes "temp_fresh su" and "upload_file su src obj b ctype enc w = (Inr (), w')" and calm: "wd_faults w = []"
  obtains data payload t c where "map_of (wd_files w) src = Some data"
    "encrypt_bytes_if_enabled (su_reg su (wd_draws w)) (su_settings su) data KNone
      (Some (write_algorithm (su_settings su) None)) enc = Inr payload"
    "cl_put (su_client su) b obj payload t (wd_store w) = (Inr (), c)" "wd_store w' = c"
    "map_of (wd_files w') = map_of (wd_files w)"
proof (cases "resolve_encrypt_flag enc (cs_mode (su_settings su)) (cs_mode_env (su_settings su))")
  case False
  with assms(2) calm obtain data t c where "map_of (wd_files w) src = Some data"
    "cl_put (su_client su) b obj data t (wd_store w) = (Inr (), c)" "wd_store w' = c" "wd_files w' = wd_files w"
    by (auto simp: upload_file_def world_defs Let_def fput_object_def emit_def split: sum.splits prod.splits option.splits)
  then show ?thesis using False by (intro that [of data data t c]) (simp_all add: encrypt_bytes_if_enabled_def)
next
  case True
  define tmp where "tmp = su_temp su (wd_files w) ''.xse_up_''"
  have tmp: "map_of (wd_files w) tmp = None" using assms(1) by (simp add: temp_fresh_def tmp_def)
  define w0 where "w0 = w\<lparr>wd_files := dset tmp [] (wd_files w)\<rparr>"
  let ?alg = "write_algorithm (su_settings su) None"
  have c0: "wd_faults w0 = []" using calm by (simp add: w0_def)
  from assms(2) True calm obtain w1 where e: "encrypt_file su src tmp KNone ?alg w0 = (Inr (), w1)"
    by (auto simp: upload_file_def world_defs Let_def tmp_def [symmetric] w0_def [symmetric]
      split: sum.splits prod.splits)
  from encrypt_file_Inr [OF e c0] obtain data payload where d: "map_of (wd_files w0) src = Some data"
    and p: "encrypt_bytes (su_reg su (wd_draws w0)) (su_settings su) data KNone ?alg = Inr payload"
    and w1: "w1 = w0\<lparr>wd_draws := Suc (wd_draws w0), wd_files := dset tmp payload (wd_files w0)\<rparr>" .
  have c1: "wd_faults w1 = []" using c0 w1 by simp
  have src: "src \<noteq> tmp" using e by (auto simp: encrypt_file_def world_defs)
  have files: "map_of (unlink tmp (wd_files w1)) = map_of (wd_files w)"
    using tmp by (simp add: w1 w0_def map_of_unlink fun_upd_idem)
  from assms(2) True obtain c where c: "cl_put (su_client su) b obj payload OCTET_STREAM (wd_store w) = (Inr (), c)"
    and w': "wd_store w' = c" "wd_files w' = unlink tmp (wd_files w1)"
    using e calm c1 by (auto simp: upload_file_def world_defs Let_def tmp_def [symmetric] w0_def [symmetric] fput_object_def
      emit_def w1 split: sum.splits prod.splits option.splits) (simp_all add: w0_def)
  show ?thesis
  proof (rule that [OF _ _ c w'(1)])
    show "map_of (wd_files w) src = Some data" using d src by (simp add: w0_def)
    show "encrypt_bytes_if_enabled (su_reg su (wd_draws w)) (su_settings su) data KNone (Some ?alg) enc = Inr payload"
      using p True by (simp add: encrypt_bytes_if_enabled_def write_algorithm_def w0_def)
    show "map_of (wd_files w') = map_of (wd_files w)" by (simp add: w'(2) files)
  qed
qed

text \<open>A download writes the destination, decrypted if it is an envelope.\<close>

lemma download_file_run:
  assumes fresh: "temp_fresh su" and get: "cl_get (su_client su) b obj (wd_store w) = (Inr raw, c)"
    and free: "map_of (wd_files w) (dst @ SRC_TMP) = None" and calm: "wd_faults w = []"
  defines "r \<equiv> decrypt_bytes_if_encrypted (su_reg su (wd_draws w)) (su_settings su) raw KNone"
  shows "\<exists>w'. download_file su obj dst b True w = (case r of Inl x \<Rightarrow> Inl (FCrypto x) | Inr p \<Rightarrow> Inr (), w') \<and>
    map_of (wd_files w') = (map_of (wd_files w))(dst \<mapsto> (case r of Inl _ \<Rightarrow> raw | Inr p \<Rightarrow> p)) \<and>
    wd_store w' = c \<and> wd_draws w' = wd_draws w \<and> wd_faults w' = []"
proof -
  define w1 where "w1 = w\<lparr>wd_store := c, wd_files := dset dst raw (wd_files w)\<rparr>"
  have ne: "dst @ SRC_TMP \<noteq> dst" by (simp add: SRC_TMP_def)
  have w1: "map_of (wd_files w1) dst = Some raw" "map_of (wd_files w1) (dst @ SRC_TMP) = None"
    "wd_draws w1 = wd_draws w" "map_of (wd_files w1) = (map_of (wd_files w))(dst \<mapsto> raw)" "wd_faults w1 = []"
    using free ne calm by (simp_all add: w1_def)
  have same: "(map_of (wd_files w1))(dst @ SRC_TMP := None) = map_of (wd_files w1)" using w1(2) by (simp add: fun_upd_idem)
  from decrypt_file_inplace_run [OF fresh w1(1,5), of KNone] obtain fs where
    run: "decrypt_file_inplace su dst KNone w1 =
      (case r of Inl x \<Rightarrow> Inl (FCrypto x) | Inr p \<Rightarrow> Inr (is_encrypted_data raw), w1\<lparr>wd_files := fs\<rparr>)"
    and fs: "map_of fs = (map_of (wd_files w1))(dst \<mapsto> (case r of Inl _ \<Rightarrow> raw | Inr p \<Rightarrow> p))"
    unfolding r_def w1(3) same if_cancel by blast
  have "fget_object su b obj dst w = (Inr (), w1)" using calm by (simp add: fget_object_def get w1_def)
  then show ?thesis using run fs
    by (cases r) (simp_all add: download_file_def world_defs Let_def emit_def w1(3,4,5) calm, simp_all add: w1_def calm)
qed

section \<open>Properties\<close>

text \<open>What the code relies on: the cryptographic package, the vendor's library, new temporary names, and
  a store that gives back what was put.\<close>

definition sdk_works :: "'c sdk \<Rightarrow> 'st gcm \<Rightarrow> (nat \<Rightarrow> bytes) \<Rightarrow> ude_api \<Rightarrow> ustr \<Rightarrow> bool" where
  "sdk_works su g nonce api policy \<longleftrightarrow>
     su_reg su = (\<lambda>n. sdk_registry g (nonce n) api policy) \<and> gcm_ok g \<and>
     (\<forall>n. length (nonce n) = NONCE_LEN) \<and> ude_ready (api, policy) (api, policy) \<and> temp_fresh su \<and>
     (\<forall>b nm p t c c'. cl_put (su_client su) b nm p t c = (Inr (), c') \<longrightarrow> (\<exists>c''. cl_get (su_client su) b nm c' = (Inr p, c'')))"

lemma sdk_worksD:
  assumes "sdk_works su g nonce api policy"
  shows "temp_fresh su"
    and "cl_put (su_client su) b nm p t c = (Inr (), c') \<Longrightarrow> \<exists>c''. cl_get (su_client su) b nm c' = (Inr p, c'')"
    and "encrypt_bytes (su_reg su n) st d key alg = Inr e \<Longrightarrow>
      decrypt_bytes (su_reg su m) st e key = Inr d \<and> is_encrypted_data e"
proof -
  show "temp_fresh su" using assms by (simp add: sdk_works_def)
  show "cl_put (su_client su) b nm p t c = (Inr (), c') \<Longrightarrow> \<exists>c''. cl_get (su_client su) b nm c' = (Inr p, c'')"
    using assms unfolding sdk_works_def by blast
  assume "encrypt_bytes (su_reg su n) st d key alg = Inr e"
  then have e: "encrypt_bytes (sdk_registry g (nonce n) api policy) st d key alg = Inr e"
    using assms by (simp add: sdk_works_def)
  have w: "gcm_ok g" "length (nonce n) = NONCE_LEN" "ude_ready (api, policy) (api, policy)"
    using assms by (simp_all add: sdk_works_def)
  show "decrypt_bytes (su_reg su m) st e key = Inr d \<and> is_encrypted_data e"
    using sdk_encrypted_back [OF w refl e, of "nonce m"] assms by (simp add: sdk_works_def)
qed

text \<open>C30. Files survive the way through the store, as long as no file operation fails: what an upload
  took from a file, encrypted or not, a download writes to the destination, and no other file changes.
  Two cases are excluded because the code does not bring them back: data that begin with the mark of
  an envelope and are stored unencrypted, which the download takes for an envelope; and a file at the
  place where the download puts the original aside, which it overwrites and removes.\<close>

theorem files_read_back:
  assumes works: "sdk_works su g nonce api policy"
    and up: "upload_file su src obj b ctype enc w = (Inr (), w')"
    and src: "map_of (wd_files w) src = Some data"
    and plain: "is_encrypted_data data \<Longrightarrow> resolve_encrypt_flag enc (cs_mode (su_settings su)) (cs_mode_env (su_settings su))"
    and later: "wd_store v = wd_store w'" "map_of (wd_files v) (dst @ SRC_TMP) = None"
    and calm: "wd_faults w = []" "wd_faults v = []"
  shows "\<exists>v'. download_file su obj dst b True v = (Inr (), v') \<and>
    map_of (wd_files v') = (map_of (wd_files v))(dst \<mapsto> data) \<and> map_of (wd_files w') = map_of (wd_files w)"
proof -
  note fresh = sdk_worksD(1) [OF works]
  obtain payload t c where p: "encrypt_bytes_if_enabled (su_reg su (wd_draws w)) (su_settings su) data KNone
        (Some (write_algorithm (su_settings su) None)) enc = Inr payload"
    and c: "cl_put (su_client su) b obj payload t (wd_store w) = (Inr (), c)" "wd_store w' = c"
    and kept: "map_of (wd_files w') = map_of (wd_files w)"
    by (rule upload_file_Inr [OF fresh up calm(1)]) (use src in simp)
  obtain c' where get: "cl_get (su_client su) b obj (wd_store v) = (Inr payload, c')"
    using sdk_worksD(2) [OF works c(1)] later(1) c(2) by auto
  have "decrypt_bytes_if_encrypted (su_reg su (wd_draws v)) (su_settings su) payload KNone = Inr data"
    using p plain sdk_worksD(3) [OF works]
    by (auto simp: encrypt_bytes_if_enabled_def decrypt_bytes_if_encrypted_def split: if_splits)
  then show ?thesis using download_file_run [OF fresh get later(2) calm(2)] kept by auto
qed

section \<open>Whatever fails\<close>

text \<open>What one operation on files leaves, whether it fails or not.\<close>

lemma try_files_store [simp]: "wd_store (try_files f w) = wd_store w"
  by (simp add: try_files_def wfiles_def file_op_def split: option.split)

lemma drop_file_leaves [simp]: "q \<noteq> p \<Longrightarrow> map_of (wd_files (drop_file p w)) q = map_of (wd_files w) q"
  by (simp add: drop_file_def try_files_def wfiles_def file_op_def map_of_unlink split: option.split)

lemma drop_file_file: "map_of (wd_files (drop_file p w)) p \<in> {None, map_of (wd_files w) p}"
  by (simp add: drop_file_def try_files_def wfiles_def file_op_def map_of_unlink split: option.split)

lemma write_file_leaves:
  "write_file p data w = (r, w') \<Longrightarrow> (\<forall>q. q \<noteq> p \<longrightarrow> map_of (wd_files w') q = map_of (wd_files w) q) \<and>
    wd_draws w' = wd_draws w \<and> (r = Inr () \<and> map_of (wd_files w') p = Some data \<or> r = Inl FOs)"
  by (auto simp: write_file_def file_op_def split: option.splits nat.splits)

lemma wfiles_leaves:
  "wfiles f w = (r, w') \<Longrightarrow> wd_draws w' = wd_draws w \<and>
    (r = Inr () \<and> wd_files w' = f (wd_files w) \<or> r = Inl FOs \<and> wd_files w' = wd_files w)"
  by (auto simp: wfiles_def file_op_def split: option.splits)

lemma read_file_leaves:
  "read_file p w = (r, w') \<Longrightarrow> map_of (wd_files w) p = Some data \<Longrightarrow>
    wd_files w' = wd_files w \<and> wd_draws w' = wd_draws w \<and> (r = Inr data \<or> r = Inl FOs)"
  by (auto simp: read_file_def file_op_def abind_def split: option.splits)

text \<open>Decrypting a file into another: the destination gets the plaintext or is as it was, and besides it
  only the temporary file can change.\<close>

lemma decrypt_file_any:
  assumes tmp: "su_temp su (wd_files w) ''.xse_dec_'' = tmp" "map_of (wd_files w) tmp = None"
    and src: "map_of (wd_files w) src = Some data" and ne: "src \<noteq> dst" "tmp \<noteq> dst"
    and run: "decrypt_file su src dst key w = (r, w')"
  shows "(\<forall>q. q \<noteq> dst \<longrightarrow> q \<noteq> tmp \<longrightarrow> map_of (wd_files w') q = map_of (wd_files w) q) \<and>
    (case r of
       Inr _ \<Rightarrow> \<exists>p. decrypt_bytes (su_reg su (wd_draws w)) (su_settings su) data key = Inr p \<and> map_of (wd_files w') dst = Some p
     | Inl x \<Rightarrow> map_of (wd_files w') dst = map_of (wd_files w) dst \<and> (x = FOs \<or>
         (\<exists>e. x = FCrypto e \<and> decrypt_bytes (su_reg su (wd_draws w)) (su_settings su) data key = Inl e)))"
proof -
  let ?same = "\<lambda>v. (\<forall>q. q \<noteq> dst \<longrightarrow> q \<noteq> tmp \<longrightarrow> map_of (wd_files v) q = map_of (wd_files w) q)"
  have st: "src \<noteq> tmp" using src tmp by auto
  obtain r1 w1 where m: "wfiles (dset tmp []) w = (r1, w1)" by (cases "wfiles (dset tmp []) w")
  note m1 = wfiles_leaves [OF m]
  show ?thesis
  proof (cases "r1 = Inr ()")
    case False
    then have "r = Inl FOs" "w' = w1" "wd_files w1 = wd_files w"
      using run m m1 ne(1) by (auto simp: decrypt_file_def world_defs tmp(1))
    then show ?thesis by simp
  next
    case True
    then have w1: "map_of (wd_files w1) = (map_of (wd_files w))(tmp \<mapsto> [])" "wd_draws w1 = wd_draws w" using m1 by auto
    obtain r2 w2 where rd: "read_file src w1 = (r2, w2)" by (cases "read_file src w1")
    have src1: "map_of (wd_files w1) src = Some data" using src st w1 by simp
    note r2 = read_file_leaves [OF rd src1]
    show ?thesis
    proof (cases "r2 = Inr data")
      case False
      then have "r2 = Inl FOs" using r2 by blast
      then have "r = Inl FOs" "w' = drop_file tmp w2"
        using run m True ne(1) rd by (auto simp: decrypt_file_def world_defs tmp(1))
      then show ?thesis using r2 w1 ne(2) by auto
    next
      case data: True
      obtain d s where dec: "decrypt_stream (su_reg su (wd_draws w)) (su_settings su) key \<lparr>io_in = data, io_out = []\<rparr> = (d, s)"
        by fastforce
      have bytes: "decrypt_bytes (su_reg su (wd_draws w)) (su_settings su) data key =
          (case d of Inl x \<Rightarrow> Inl x | Inr _ \<Rightarrow> Inr (io_out s))"
        by (simp add: decrypt_bytes_def on_bytes_def dec split: sum.split)
      obtain r3 w3 where wr: "write_file tmp (io_out s) w2 = (r3, w3)" by (cases "write_file tmp (io_out s) w2")
      note w3 = write_file_leaves [OF wr]
      have same3: "?same w3" "map_of (wd_files w3) dst = map_of (wd_files w) dst" using w3 r2 w1 ne(2) by auto
      have draws: "wd_draws w2 = wd_draws w" using r2 w1(2) by simp
      show ?thesis
      proof (cases "r3 = Inr ()")
        case False
        then have "r3 = Inl FOs" using w3 by blast
        then have "r = Inl FOs" "w' = drop_file tmp w3"
          using run m True ne(1) rd data wr dec by (auto simp: decrypt_file_def world_defs tmp(1) draws)
        then show ?thesis using same3 ne(2) by simp
      next
        case wrote: True
        show ?thesis
        proof (cases d)
          case (Inl e)
          have "r = Inl (FCrypto e)" "w' = drop_file tmp w3"
            using run m True ne(1) rd data wr wrote dec Inl by (auto simp: decrypt_file_def world_defs tmp(1) draws raise_io_def)
          then show ?thesis using same3 ne(2) bytes Inl by simp
        next
          case (Inr u)
          obtain r4 w4 where rp: "wfiles (replace_file tmp dst) w3 = (r4, w4)" by (cases "wfiles (replace_file tmp dst) w3")
          note w4 = wfiles_leaves [OF rp]
          have last: "r = r4 \<and> w' = (case r4 of Inl _ \<Rightarrow> drop_file tmp w4 | Inr _ \<Rightarrow> w4)"
            using run m True ne(1) rd data wr wrote dec Inr rp
            by (auto simp: decrypt_file_def world_defs tmp(1) draws raise_io_def split: sum.splits)
          have t3: "map_of (wd_files w3) tmp = Some (io_out s)" using w3 wrote by auto
          show ?thesis
          proof (cases "r4 = Inr ()")
            case True
            then have "map_of (wd_files w') = (map_of (wd_files w3))(tmp := None, dst \<mapsto> io_out s)"
              using last w4 map_of_replace_file [OF t3] by auto
            then show ?thesis using True last same3 bytes Inr by simp
          next
            case False
            then have "r4 = Inl FOs" "wd_files w4 = wd_files w3" using w4 by auto
            then show ?thesis using last same3 ne(2) by simp
          qed
        qed
      qed
    qed
  qed
qed

lemma try_files_leaves: "wd_files (try_files f w) \<in> {f (wd_files w), wd_files w}"
  by (simp add: try_files_def wfiles_def file_op_def split: option.split)

lemma decrypt_file_inplace_any:
  assumes fresh: "temp_fresh su" and data: "map_of (wd_files w) path = Some data"
    and tmp: "su_temp su (replace_file path (path @ SRC_TMP) (wd_files w)) ''.xse_dec_'' = tmp" "tmp \<noteq> path"
    and run: "decrypt_file_inplace su path key w = (r, w')"
  shows "(\<forall>q. q \<noteq> path \<longrightarrow> q \<noteq> path @ SRC_TMP \<longrightarrow> q \<noteq> tmp \<longrightarrow> map_of (wd_files w') q = map_of (wd_files w) q) \<and>
    (case r of
       Inr True \<Rightarrow> is_encrypted_data data \<and>
         (\<exists>p. decrypt_bytes (su_reg su (wd_draws w)) (su_settings su) data key = Inr p \<and> map_of (wd_files w') path = Some p)
     | Inr False \<Rightarrow> wd_files w' = wd_files w
     | Inl x \<Rightarrow> is_encrypted_data data \<and> map_of (wd_files w') path \<in> {Some data, None} \<and> (x = FOs \<or>
         (\<exists>e. x = FCrypto e \<and> decrypt_bytes (su_reg su (wd_draws w)) (su_settings su) data key = Inl e)))"
proof -
  let ?enc = "path @ SRC_TMP"
  have ne: "?enc \<noteq> path" by (simp add: SRC_TMP_def)
  show ?thesis
  proof (cases "next_fault w = None \<and> is_encrypted_data data")
    case False
    then have "is_encrypted_file path w = (Inr False, spend_fault w)"
      using data by (auto simp: is_encrypted_file_def look_at_def encrypted_file_data split: option.split)
    then show ?thesis using run by (auto simp: decrypt_file_inplace_def abind_def)
  next
    case True
    define w1 where "w1 = spend_fault w"
    have sniff: "is_encrypted_file path w = (Inr True, w1)"
      using True data by (simp add: is_encrypted_file_def look_at_def encrypted_file_data w1_def)
    obtain ra wa where mv: "wfiles (replace_file path ?enc) w1 = (ra, wa)" by (cases "wfiles (replace_file path ?enc) w1")
    note wa = wfiles_leaves [OF mv]
    show ?thesis
    proof (cases "ra = Inr ()")
      case False
      then have "r = Inl FOs" "w' = wa" "wd_files wa = wd_files w"
        using run sniff mv wa by (auto simp: decrypt_file_inplace_def abind_def Let_def w1_def)
      then show ?thesis using data True by simp
    next
      case moved: True
      then have files: "wd_files wa = replace_file path ?enc (wd_files w)" "wd_draws wa = wd_draws w"
        using wa by (auto simp: w1_def)
      then have ma: "map_of (wd_files wa) = (map_of (wd_files w))(path := None, ?enc \<mapsto> data)"
        by (simp add: map_of_replace_file [OF data])
      have t: "su_temp su (wd_files wa) ''.xse_dec_'' = tmp" "map_of (wd_files wa) tmp = None"
        using tmp(1) fresh by (auto simp: files temp_fresh_def)
      have enc: "map_of (wd_files wa) ?enc = Some data" "map_of (wd_files wa) path = None" using ma ne by simp_all
      have te: "tmp \<noteq> ?enc" using t(2) enc(1) by auto
      obtain rb wb where dec: "decrypt_file su ?enc path key wa = (rb, wb)" by (cases "decrypt_file su ?enc path key wa")
      note wb = decrypt_file_any [OF t enc(1) ne tmp(2) dec, unfolded files(2)]
      have others: "map_of (wd_files wb) q = map_of (wd_files w) q" if "q \<noteq> path" "q \<noteq> ?enc" "q \<noteq> tmp" for q
        using wb ma that by simp
      show ?thesis
      proof (cases rb)
        case (Inr u)
        have "r = Inr True" "w' = drop_file ?enc wb"
          using run sniff mv moved dec Inr
          by (auto simp: decrypt_file_inplace_def abind_def Let_def finally_do_def on_raise_def)
        then show ?thesis using wb Inr True others ne by auto
      next
        case (Inl x)
        define wc where "wc = try_files (replace_file ?enc path) wb"
        have gone: "map_of (wd_files wb) path = None" and kept: "map_of (wd_files wb) ?enc = Some data"
          using wb Inl enc ne te by auto
        have r: "r = Inl x" "w' = drop_file ?enc wc"
          using run sniff mv moved dec Inl gone
          by (auto simp: decrypt_file_inplace_def abind_def Let_def finally_do_def on_raise_def wc_def)
        have "map_of (wd_files wc) \<in> {(map_of (wd_files wb))(?enc := None, path \<mapsto> data), map_of (wd_files wb)}"
          using try_files_leaves [of "replace_file ?enc path" wb] map_of_replace_file [OF kept]
          unfolding wc_def by auto
        then show ?thesis using wb Inl True others ne gone by (auto simp: r)
      qed
    qed
  qed
qed

lemma decrypt_file_inplace_calm:
  assumes "temp_fresh su" and "map_of (wd_files w) path = Some data" and "wd_faults w = []"
    and "decrypt_file_inplace su path key w = (r, w')"
  shows "map_of (wd_files w') = (if is_encrypted_data data then (map_of (wd_files w))(path @ SRC_TMP := None) else map_of (wd_files w))
      (path \<mapsto> (case r of Inr True \<Rightarrow> projr (decrypt_bytes (su_reg su (wd_draws w)) (su_settings su) data key) | _ \<Rightarrow> data)) \<and>
    (case r of Inl x \<Rightarrow> x \<noteq> FOs | Inr b \<Rightarrow> b = is_encrypted_data data)"
  using decrypt_file_inplace_run [OF assms(1-3), of key] assms(4)
  by (auto simp: decrypt_bytes_if_encrypted_def split: sum.splits if_splits)

text \<open>The original is lost when decryption fails and putting it back fails too: the failure of the
  \<open>os.replace\<close> in the handler is swallowed, and the \<open>finally\<close> then removes the only copy.\<close>

lemma failed_rollback_loses_the_file:
  assumes data: "map_of (wd_files w) path = Some data" and "is_encrypted_data data"
    and fresh: "temp_fresh su"
    and "decrypt_bytes (su_reg su (wd_draws w)) (su_settings su) data key = Inl e"
    and faults: "wd_faults w = [None, None, None, None, None, None, Some 0]"
    and tmp: "su_temp su (replace_file path (path @ SRC_TMP) (wd_files w)) ''.xse_dec_'' \<noteq> path"
  shows "\<exists>w'. decrypt_file_inplace su path key w = (Inl (FCrypto e), w') \<and>
    map_of (wd_files w') path = None \<and> map_of (wd_files w') (path @ SRC_TMP) = None"
proof -
  let ?enc = "path @ SRC_TMP"
  have ne: "?enc \<noteq> path" by (simp add: SRC_TMP_def)
  define fs where "fs = replace_file path ?enc (wd_files w)"
  define t where "t = su_temp su fs ''.xse_dec_''"
  have m: "map_of fs = (map_of (wd_files w))(path := None, ?enc \<mapsto> data)" by (simp add: fs_def map_of_replace_file [OF data])
  have t: "map_of fs t = None" "t \<noteq> path" using fresh tmp by (simp_all add: temp_fresh_def t_def fs_def)
  then have te: "t \<noteq> ?enc" using m by auto
  obtain s where d: "decrypt_stream (su_reg su (wd_draws w)) (su_settings su) key \<lparr>io_in = data, io_out = []\<rparr> = (Inl e, s)"
  proof (cases "decrypt_stream (su_reg su (wd_draws w)) (su_settings su) key \<lparr>io_in = data, io_out = []\<rparr>")
    case (Pair r s)
    then show thesis using assms(4) that by (auto simp: decrypt_bytes_def on_bytes_def split: sum.splits)
  qed
  define fs1 where "fs1 = unlink t (dset t (io_out s) (dset t [] fs))"
  have m1: "map_of fs1 = map_of fs" using t(1) by (simp add: fs1_def map_of_unlink fun_upd_idem)
  have src: "map_of (dset t [] fs) ?enc = Some data" using m te by simp
  let ?w = "w\<lparr>wd_faults := [None, None, None, None, Some 0], wd_files := fs\<rparr>"
  have sniff: "is_encrypted_file path w = (Inr True, spend_fault w)"
    using data assms(2) faults by (simp add: is_encrypted_file_def look_at_def next_fault_def encrypted_file_data)
  have mv: "wfiles (replace_file path ?enc) (spend_fault w) = (Inr (), ?w)"
    using faults by (simp add: wfiles_def file_op_def next_fault_def spend_fault_def fs_def)
  have dec: "decrypt_file su ?enc path key ?w = (Inl (FCrypto e), w\<lparr>wd_faults := [Some 0], wd_files := fs1\<rparr>)"
    using ne src d by (simp add: decrypt_file_def world_defs t_def [symmetric] read_file_def write_file_def wfiles_def file_op_def
      next_fault_def spend_fault_def raise_io_def drop_file_def try_files_def fs1_def)
  have "map_of fs1 path = None" using m1 m ne by simp
  moreover have "try_files (replace_file ?enc path) (w\<lparr>wd_faults := [Some 0], wd_files := fs1\<rparr>) =
      w\<lparr>wd_faults := [], wd_files := fs1\<rparr>"
    by (simp add: try_files_def wfiles_def file_op_def next_fault_def spend_fault_def)
  ultimately have "decrypt_file_inplace su path key w = (Inl (FCrypto e), w\<lparr>wd_faults := [], wd_files := unlink ?enc fs1\<rparr>)"
    by (simp add: decrypt_file_inplace_def abind_def sniff mv Let_def finally_do_def on_raise_def dec)
  then show ?thesis using m1 m ne by (simp add: map_of_unlink)
qed

text \<open>C33. Decryption in place is all or nothing, whatever file operations fail: after a call that returns,
  the file holds the plaintext of exactly its bytes, or had no envelope or could not be read and is as
  it was; after a call that raises, the file is as it was or gone, and never something in between.
  Besides it only the place where the original waits and the temporary file can change (the temporary
  file is taken to have another name than the file); what stood at that place before is overwritten.
  When no file operation fails, an exception is that of the cipher and leaves the file as it was, and
  nothing stays behind. That the file can be gone is shown by \<open>failed_rollback_loses_the_file\<close>.\<close>

theorem decryption_is_all_or_nothing:
  assumes "temp_fresh su" and "map_of (wd_files w) path = Some data"
    and "su_temp su (replace_file path (path @ SRC_TMP) (wd_files w)) ''.xse_dec_'' = tmp" and "tmp \<noteq> path"
    and "decrypt_file_inplace su path key w = (r, w')"
  shows "(\<forall>q. q \<noteq> path \<longrightarrow> q \<noteq> path @ SRC_TMP \<longrightarrow> q \<noteq> tmp \<longrightarrow> map_of (wd_files w') q = map_of (wd_files w) q) \<and>
    (case r of
       Inr True \<Rightarrow> is_encrypted_data data \<and>
         (\<exists>p. decrypt_bytes (su_reg su (wd_draws w)) (su_settings su) data key = Inr p \<and> map_of (wd_files w') path = Some p)
     | Inr False \<Rightarrow> wd_files w' = wd_files w
     | Inl x \<Rightarrow> is_encrypted_data data \<and> map_of (wd_files w') path \<in> {Some data, None} \<and> (x = FOs \<or>
         (\<exists>e. x = FCrypto e \<and> decrypt_bytes (su_reg su (wd_draws w)) (su_settings su) data key = Inl e))) \<and>
    (wd_faults w = [] \<longrightarrow>
       map_of (wd_files w') = (if is_encrypted_data data then (map_of (wd_files w))(path @ SRC_TMP := None) else map_of (wd_files w))
         (path \<mapsto> (case r of Inr True \<Rightarrow> projr (decrypt_bytes (su_reg su (wd_draws w)) (su_settings su) data key) | _ \<Rightarrow> data)) \<and>
       (case r of Inl x \<Rightarrow> x \<noteq> FOs | Inr b \<Rightarrow> b = is_encrypted_data data))"
  using decrypt_file_inplace_any [OF assms] decrypt_file_inplace_calm [OF assms(1,2) _ assms(5)] by blast

text \<open>The decrypting download does not decrypt: \<open>download_file\<close> has already decrypted the
  temporary copy, so an object that was uploaded encrypted is refused as not encrypted.\<close>

lemma decrypting_download_refuses:
  assumes works: "sdk_works su g nonce api policy"
    and up: "upload_file su src obj b ctype enc w = (Inr (), w')"
    and src: "map_of (wd_files w) src = Some data" and plain: "\<not> is_encrypted_data data"
    and later: "wd_store v = wd_store w'"
      "map_of (wd_files v) (su_temp su (wd_files v) ''.xse_dl_'' @ SRC_TMP) = None"
    and calm: "wd_faults w = []" "wd_faults v = []"
  shows "fst (download_file_decrypted su obj dst (Some b) key False v) = Inl (FCrypto DecryptionError)"
proof -
  note fresh = sdk_worksD(1) [OF works]
  define tmp where "tmp = su_temp su (wd_files v) ''.xse_dl_''"
  define v1 where "v1 = v\<lparr>wd_files := dset tmp [] (wd_files v)\<rparr>"
  obtain payload t c where p: "encrypt_bytes_if_enabled (su_reg su (wd_draws w)) (su_settings su) data KNone
        (Some (write_algorithm (su_settings su) None)) enc = Inr payload"
    and c: "cl_put (su_client su) b obj payload t (wd_store w) = (Inr (), c)" "wd_store w' = c"
    by (rule upload_file_Inr [OF fresh up calm(1)]) (use src in simp)
  obtain c' where get: "cl_get (su_client su) b obj (wd_store v1) = (Inr payload, c')"
    using sdk_worksD(2) [OF works c(1)] later(1) c(2) by (auto simp: v1_def)
  have read: "decrypt_bytes_if_encrypted (su_reg su (wd_draws v1)) (su_settings su) payload KNone = Inr data"
    using p plain sdk_worksD(3) [OF works]
    by (auto simp: encrypt_bytes_if_enabled_def decrypt_bytes_if_encrypted_def split: if_splits)
  have "tmp @ SRC_TMP \<noteq> tmp" by (simp add: SRC_TMP_def)
  then have free: "map_of (wd_files v1) (tmp @ SRC_TMP) = None" using later(2) by (simp add: v1_def tmp_def)
  have "wd_faults v1 = []" using calm(2) by (simp add: v1_def)
  from download_file_run [OF fresh get free this] read obtain v2 where
    "download_file su obj tmp b True v1 = (Inr (), v2)" "map_of (wd_files v2) tmp = Some data" "wd_faults v2 = []" by auto
  then show ?thesis using plain calm(2)
    by (simp add: download_file_decrypted_def world_defs tmp_def [symmetric] v1_def [symmetric] encrypted_file_data)
qed

text \<open>With the encryption switched on, the encrypting upload encrypts twice: it hands its
  ciphertext to \<open>upload_file\<close>, which encrypts it again, so the ordinary download leaves the inner
  envelope in the file instead of the data.\<close>

lemma encrypting_upload_encrypts_twice:
  assumes works: "sdk_works su g nonce api policy"
    and mode: "encryption_enabled (cs_mode (su_settings su)) (cs_mode_env (su_settings su))"
    and up: "upload_file_encrypted su src obj (Some b) key alg ctype w = (Inr (), w')"
    and src: "map_of (wd_files w) src = Some data"
    and later: "wd_store v = wd_store w'" "map_of (wd_files v) (dst @ SRC_TMP) = None"
    and calm: "wd_faults w = []" "wd_faults v = []"
  shows "\<exists>v' inner. download_file su obj dst b True v = (Inr (), v') \<and>
    map_of (wd_files v') = (map_of (wd_files v))(dst \<mapsto> inner) \<and> is_encrypted_data inner \<and>
    decrypt_bytes (su_reg su n) (su_settings su) inner key = Inr data"
proof -
  note fresh = sdk_worksD(1) [OF works]
  define tmp where "tmp = su_temp su (wd_files w) ''.xse_enc_''"
  define w1 where "w1 = w\<lparr>wd_files := dset tmp [] (wd_files w)\<rparr>"
  have "map_of (wd_files w) tmp = None" using fresh by (simp add: temp_fresh_def tmp_def)
  then have src1: "map_of (wd_files w1) src = Some data" using src by (auto simp: w1_def)
  have c1: "wd_faults w1 = []" using calm(1) by (simp add: w1_def)
  from up calm(1) obtain w2 w3 t where e: "encrypt_file su src tmp key (write_algorithm (su_settings su) alg) w1 = (Inr (), w2)"
    and u: "upload_file su tmp obj b t None w2 = (Inr (), w3)" and w': "w' = drop_file tmp w3"
    by (auto simp: upload_file_encrypted_def world_defs Let_def tmp_def [symmetric] w1_def [symmetric]
      split: sum.splits prod.splits)
  obtain inner where i: "encrypt_bytes (su_reg su (wd_draws w1)) (su_settings su) data key
      (write_algorithm (su_settings su) alg) = Inr inner" "map_of (wd_files w2) tmp = Some inner"
    and c2: "wd_faults w2 = []"
    by (rule encrypt_file_Inr [OF e c1]) (use src1 c1 in auto)
  note inner = sdk_worksD(3) [OF works i(1)]
  have flag: "resolve_encrypt_flag None (cs_mode (su_settings su)) (cs_mode_env (su_settings su))"
    using mode by (simp add: resolve_encrypt_flag_def)
  obtain outer t' c where o: "encrypt_bytes_if_enabled (su_reg su (wd_draws w2)) (su_settings su) inner KNone
        (Some (write_algorithm (su_settings su) None)) None = Inr outer"
    and c: "cl_put (su_client su) b obj outer t' (wd_store w2) = (Inr (), c)" "wd_store w3 = c"
    by (rule upload_file_Inr [OF fresh u c2]) (use i(2) in simp)
  obtain c' where get: "cl_get (su_client su) b obj (wd_store v) = (Inr outer, c')"
    using sdk_worksD(2) [OF works c(1)] later(1) c(2) w' by (auto simp: drop_file_def)
  have "decrypt_bytes_if_encrypted (su_reg su (wd_draws v)) (su_settings su) outer KNone = Inr inner"
    using o flag sdk_worksD(3) [OF works]
    by (auto simp: encrypt_bytes_if_enabled_def decrypt_bytes_if_encrypted_def split: if_splits)
  then show ?thesis using download_file_run [OF fresh get later(2) calm(2)] inner by auto
qed

section \<open>Examples\<close>

definition w_nonce :: "nat \<Rightarrow> bytes" where "w_nonce n = replicate 12 (of_nat n)"

definition w_sdk :: "string \<Rightarrow> ((string \<times> string) \<times> bytes) list sdk" where
  "w_sdk mode = \<lparr>su_client = w_client, su_reg = (\<lambda>n. sdk_registry w_gcm (w_nonce n) w_api DEFAULT_UDE_POLICY),
     su_settings = w_settings mode, su_bucket = ''documents'',
     su_temp = (\<lambda>fs prefix. prefix @ replicate (Suc (sum_list (map (\<lambda>(p, _). length p) fs))) CHR ''x''),
     su_message = (\<lambda>_. ''error''), su_ms = 1\<rparr>"

definition w_disk :: "((string \<times> string) \<times> bytes) list world" where
  "w_disk = \<lparr>wd_files = [(''in'', [1, 2, 3])], wd_store = [],
     wd_audit = \<lparr>au_logger = False, au_context = [], au_sent = []\<rparr>, wd_draws = 0, wd_faults = []\<rparr>"

lemma w_sdk_works: "sdk_works (w_sdk mode) w_gcm w_nonce w_api DEFAULT_UDE_POLICY"
proof -
  have "length p \<le> sum_list (map (\<lambda>(p, _). length p) fs)" if "(p, d) \<in> set fs" for p d and fs :: files
    using that by (induction fs) auto
  then have "temp_fresh (w_sdk mode)"
    by (fastforce simp: temp_fresh_def w_sdk_def map_of_eq_None_iff)
  then show ?thesis using w_gcm_ok w_ude
    by (simp add: sdk_works_def w_sdk_def w_nonce_def NONCE_LEN_def w_client_def)
qed

lemma w_encrypt_stream:
  assumes "length n = 12"
  shows "\<exists>c e. get_cipher (sdk_registry w_gcm n api pol) (w_settings m) ''aes256-gcm'' KNone = Inr c \<and>
    encrypt_stream c \<lparr>io_in = data, io_out = []\<rparr> = (Inr (), \<lparr>io_in = [], io_out = e\<rparr>)"
  using assms
  by (simp add: get_cipher_def sdk_registry_maps instance_of_def Aes256GcmCipher_def
    aes_from_key_def resolve_key_def coerce_key_def w_settings_def KEY_LEN_def encrypt_stream_def
    build_envelope_def MAX_ALG_HEADER_LEN_def abind_def write_bytes_def aes_encrypt_body_def
    encrypt_loop_whole [OF w_gcm_ok])

lemma w_encrypt_file:
  assumes "map_of (wd_files w) src = Some data" and "src \<noteq> dst" and "wd_faults w = []"
  obtains w' where "encrypt_file (w_sdk m) src dst KNone ''aes256-gcm'' w = (Inr (), w')"
    "wd_store w' = wd_store w" "\<exists>e. map_of (wd_files w') dst = Some e" "wd_faults w' = []"
proof -
  have "length (w_nonce (wd_draws w)) = 12" by (simp add: w_nonce_def)
  from w_encrypt_stream [OF this, of w_api DEFAULT_UDE_POLICY m data] obtain c e where
    "get_cipher (sdk_registry w_gcm (w_nonce (wd_draws w)) w_api DEFAULT_UDE_POLICY) (w_settings m) ''aes256-gcm'' KNone = Inr c"
    "encrypt_stream c \<lparr>io_in = data, io_out = []\<rparr> = (Inr (), \<lparr>io_in = [], io_out = e\<rparr>)" by blast
  then show ?thesis using assms
    by (intro that [of "w\<lparr>wd_draws := Suc (wd_draws w), wd_files := dset dst e (wd_files w)\<rparr>"])
      (simp_all add: encrypt_file_def world_defs w_sdk_def raise_io_def)
qed

lemma w_upload:
  assumes "map_of (wd_files w) src = Some data" and calm: "wd_faults w = []"
  obtains w' where "upload_file (w_sdk ''AES-256'') src ''a'' ''documents'' ctype None w = (Inr (), w')"
proof -
  let ?su = "w_sdk ''AES-256''"
  define tmp where "tmp = su_temp ?su (wd_files w) ''.xse_up_''"
  define w1 where "w1 = w\<lparr>wd_files := dset tmp [] (wd_files w)\<rparr>"
  have "map_of (wd_files w) tmp = None" using sdk_worksD(1) [OF w_sdk_works] by (simp add: temp_fresh_def tmp_def)
  then have ne: "src \<noteq> tmp" "map_of (wd_files w1) src = Some data" "wd_faults w1 = []" using assms by (auto simp: w1_def)
  obtain w2 e where e: "encrypt_file ?su src tmp KNone ''aes256-gcm'' w1 = (Inr (), w2)" "map_of (wd_files w2) tmp = Some e"
    "wd_faults w2 = []"
    by (rule w_encrypt_file [OF ne(2,1,3)]) blast
  have st: "su_settings ?su = w_settings ''AES-256''" by (simp add: w_sdk_def)
  have "fst (upload_file ?su src ''a'' ''documents'' ctype None w) = Inr ()"
    using e calm by (simp add: upload_file_def world_defs Let_def st w_modes tmp_def [symmetric] w1_def [symmetric]
      fput_object_def) (simp add: w_sdk_def w_client_def)
  then show thesis using that by (cases "upload_file ?su src ''a'' ''documents'' ctype None w") simp
qed

lemma w_disk_in: "map_of (wd_files w_disk) ''in'' = Some [1, 2, 3]" "wd_faults w_disk = []"
  by (simp_all add: w_disk_def)

lemma w_plain: "\<not> is_encrypted_data [1, 2, 3]"
  by (simp add: is_encrypted_data_def MAGIC_def)

theorem files_read_back_witness:
  "\<exists>w' v'. upload_file (w_sdk ''AES-256'') ''in'' ''a'' ''documents'' None None w_disk = (Inr (), w') \<and>
    download_file (w_sdk ''AES-256'') ''a'' ''out'' ''documents'' True (w_disk\<lparr>wd_store := wd_store w'\<rparr>) = (Inr (), v') \<and>
    map_of (wd_files v') ''out'' = Some [1, 2, 3]"
proof -
  obtain w' where up: "upload_file (w_sdk ''AES-256'') ''in'' ''a'' ''documents'' None None w_disk = (Inr (), w')"
    by (rule w_upload [OF w_disk_in])
  have free: "map_of (wd_files (w_disk\<lparr>wd_store := wd_store w'\<rparr>)) (''out'' @ SRC_TMP) = None"
    by (simp add: w_disk_def SRC_TMP_def)
  from files_read_back [OF w_sdk_works up w_disk_in(1) _ _ free w_disk_in(2)] up w_plain w_disk_in(2) show ?thesis by auto
qed

lemma decrypting_download_refuses_witness:
  "\<exists>w'. upload_file (w_sdk ''AES-256'') ''in'' ''a'' ''documents'' None None w_disk = (Inr (), w') \<and>
    fst (download_file_decrypted (w_sdk ''AES-256'') ''a'' ''out'' (Some ''documents'') KNone False
      (w_disk\<lparr>wd_store := wd_store w'\<rparr>)) = Inl (FCrypto DecryptionError)"
proof -
  obtain w' where up: "upload_file (w_sdk ''AES-256'') ''in'' ''a'' ''documents'' None None w_disk = (Inr (), w')"
    by (rule w_upload [OF w_disk_in])
  have free: "map_of (wd_files (w_disk\<lparr>wd_store := wd_store w'\<rparr>))
      (su_temp (w_sdk ''AES-256'') (wd_files (w_disk\<lparr>wd_store := wd_store w'\<rparr>)) ''.xse_dl_'' @ SRC_TMP) = None"
    by (simp add: w_disk_def w_sdk_def SRC_TMP_def)
  from decrypting_download_refuses [OF w_sdk_works up w_disk_in(1) w_plain _ free w_disk_in(2)] up w_disk_in(2) show ?thesis by auto
qed

theorem decryption_is_all_or_nothing_witness:
  "\<exists>x w'. decrypt_file_inplace (w_sdk ''off'') ''in'' KNone (w_disk\<lparr>wd_files := [(''in'', MAGIC)]\<rparr>) = (Inl x, w') \<and>
    x \<noteq> FOs \<and> map_of (wd_files w') = [''in'' \<mapsto> MAGIC]"
proof -
  let ?w = "w_disk\<lparr>wd_files := [(''in'', MAGIC)]\<rparr>"
  have d: "map_of (wd_files ?w) ''in'' = Some MAGIC" "(map_of (wd_files ?w))(''in'' @ SRC_TMP := None) = [''in'' \<mapsto> MAGIC]"
    by (auto simp: SRC_TMP_def)
  have bad: "decrypt_bytes (su_reg (w_sdk ''off'') (wd_draws ?w)) (su_settings (w_sdk ''off'')) MAGIC KNone = Inl DecryptionError"
    by (simp add: decrypt_bytes_def on_bytes_def decrypt_stream_def read_envelope_def read_n_def act_defs
      FIXED_HEADER_LEN_def MAGIC_def)
  have magic: "is_encrypted_data MAGIC" by (simp add: is_encrypted_data_def MAGIC_def)
  have tmp: "su_temp (w_sdk ''off'') fs ''.xse_dec_'' \<noteq> ''in''" for fs by (simp add: w_sdk_def)
  have calm: "wd_faults ?w = []" by (simp add: w_disk_def)
  obtain r w' where run: "decrypt_file_inplace (w_sdk ''off'') ''in'' KNone ?w = (r, w')"
    by (cases "decrypt_file_inplace (w_sdk ''off'') ''in'' KNone ?w")
  from decryption_is_all_or_nothing [OF sdk_worksD(1) [OF w_sdk_works [of "''off''"]] d(1) refl tmp run] bad magic calm d(2)
  show ?thesis using run by (auto split: sum.splits bool.splits)
qed

lemma failed_rollback_loses_the_file_witness:
  "\<exists>w'. decrypt_file_inplace (w_sdk ''off'') ''in'' KNone (w_disk\<lparr>wd_files := [(''in'', MAGIC)],
      wd_faults := [None, None, None, None, None, None, Some 0]\<rparr>) = (Inl (FCrypto DecryptionError), w') \<and>
    map_of (wd_files w') ''in'' = None \<and> map_of (wd_files w') (''in'' @ SRC_TMP) = None"
proof (rule failed_rollback_loses_the_file)
  show "is_encrypted_data MAGIC" by (simp add: is_encrypted_data_def MAGIC_def)
  show "temp_fresh (w_sdk ''off'')" by (rule sdk_worksD(1) [OF w_sdk_works])
  show "su_temp (w_sdk ''off'') fs ''.xse_dec_'' \<noteq> ''in''" for fs by (simp add: w_sdk_def)
qed (simp_all add: decrypt_bytes_def on_bytes_def decrypt_stream_def read_envelope_def read_n_def act_defs
      FIXED_HEADER_LEN_def MAGIC_def)

lemma encrypting_upload_encrypts_twice_witness:
  "\<exists>w' v' inner. upload_file_encrypted (w_sdk ''AES-256'') ''in'' ''a'' (Some ''documents'') KNone None None w_disk = (Inr (), w') \<and>
    download_file (w_sdk ''AES-256'') ''a'' ''out'' ''documents'' True (w_disk\<lparr>wd_store := wd_store w'\<rparr>) = (Inr (), v') \<and>
    map_of (wd_files v') ''out'' = Some inner \<and> is_encrypted_data inner"
proof -
  let ?su = "w_sdk ''AES-256''"
  define tmp where "tmp = su_temp ?su (wd_files w_disk) ''.xse_enc_''"
  define w1 where "w1 = w_disk\<lparr>wd_files := dset tmp [] (wd_files w_disk)\<rparr>"
  have ne: "''in'' \<noteq> tmp" by (simp add: tmp_def w_sdk_def)
  then have in1: "map_of (wd_files w1) ''in'' = Some [1, 2, 3]" by (simp add: w1_def w_disk_def)
  have c1: "wd_faults w1 = []" by (simp add: w1_def w_disk_def)
  obtain w2 e where e: "encrypt_file ?su ''in'' tmp KNone ''aes256-gcm'' w1 = (Inr (), w2)" "map_of (wd_files w2) tmp = Some e"
    "wd_faults w2 = []"
    by (rule w_encrypt_file [OF in1 ne c1]) blast
  obtain w3 where u: "upload_file ?su tmp ''a'' ''documents'' (Some OCTET_STREAM) None w2 = (Inr (), w3)"
    by (rule w_upload [OF e(2,3)])
  have st: "su_settings ?su = w_settings ''AES-256''" by (simp add: w_sdk_def)
  have up: "upload_file_encrypted ?su ''in'' ''a'' (Some ''documents'') KNone None None w_disk = (Inr (), drop_file tmp w3)"
    using e(1) u w_disk_in(2) by (simp add: upload_file_encrypted_def world_defs Let_def tmp_def [symmetric] w1_def [symmetric] st w_modes)
  have free: "map_of (wd_files (w_disk\<lparr>wd_store := wd_store (drop_file tmp w3)\<rparr>)) (''out'' @ SRC_TMP) = None"
    by (simp add: w_disk_def SRC_TMP_def)
  have mode: "encryption_enabled (cs_mode (su_settings ?su)) (cs_mode_env (su_settings ?su))"
    using w_modes(1) by (simp add: resolve_encrypt_flag_def st)
  from encrypting_upload_encrypts_twice [OF w_sdk_works mode up w_disk_in(1) _ free w_disk_in(2), of 0] up w_disk_in(2) show ?thesis by auto
qed

section \<open>Images and their cache\<close>

definition IMAGE_EXTENSIONS :: "string list" where
  "IMAGE_EXTENSIONS = [''.png'', ''.jpg'', ''.jpeg'', ''.gif'', ''.bmp'', ''.webp'', ''.svg'', ''.tiff'', ''.ico'']"

definition parse_minio_path :: "string \<Rightarrow> (string \<times> string) option" where
  "parse_minio_path p = (if CHR ''/'' \<in> set p
     then Some (takeWhile (\<lambda>c. c \<noteq> CHR ''/'') p, tl (dropWhile (\<lambda>c. c \<noteq> CHR ''/'') p)) else None)"

definition basename :: "string \<Rightarrow> string" where
  "basename p = rev (takeWhile (\<lambda>c. c \<noteq> CHR ''/'') (rev p))"

text \<open>\<open>os.path.splitext\<close> of a name without directories: from the last dot on, unless only dots come
  before it.\<close>

definition file_extension :: "string \<Rightarrow> string" where
  "file_extension f = (let stem = rev (tl (dropWhile (\<lambda>c. c \<noteq> CHR ''.'') (rev f))) in
     if CHR ''.'' \<notin> set f \<or> list_all (\<lambda>c. c = CHR ''.'') stem then []
     else drop (length stem) f)"

definition join_path :: "string \<Rightarrow> string \<Rightarrow> string" where
  "join_path dir f = dir @ CHR ''/'' # f"

definition download_file_from_minio ::
  "'c sdk \<Rightarrow> string \<Rightarrow> (string \<Rightarrow> string option) \<Rightarrow> string \<Rightarrow> ('c, pydict) wact" where
  "download_file_from_minio su cache_dir guess minio_path =
     (case parse_minio_path minio_path of
        None \<Rightarrow> araise FBadPath
      | Some (bucket, object_name) \<Rightarrow>
          (let filename = basename object_name; ext = file_extension filename;
               mime = (case guess filename of Some m \<Rightarrow> if m \<noteq> [] then m else OCTET_STREAM | None \<Rightarrow> OCTET_STREAM);
               about = [(''file_type'', PStr mime), (''extension'', PStr ext), (''original_name'', PStr filename)];
               local_path = join_path cache_dir filename in
           if lower ext \<in> set IMAGE_EXTENSIONS then
             abind (aread (\<lambda>w. map_of (wd_files w) local_path)) (\<lambda>cached.
             abind (if cached \<noteq> None then areturn ()
               else on_raise (download_file su object_name local_path bucket True)
                 (\<lambda>_ w. if map_of (wd_files w) local_path = Some [] then drop_file local_path w else w)) (\<lambda>_.
             areturn ((''temp_path'', PStr local_path) # about)))
           else areturn ([(''minio_bucket'', PStr bucket), (''minio_object_name'', PStr object_name)] @ about)))"

text \<open>The cache knows an image by its file name alone: once an image is there, every object of that
  name, in whatever directory and bucket, is answered with it.\<close>

lemma cached_image_of_another_object:
  assumes "parse_minio_path path = Some (bucket, obj)" and "lower (file_extension (basename obj)) \<in> set IMAGE_EXTENSIONS"
    and "map_of (wd_files w) (join_path cache_dir (basename obj)) = Some other"
  shows "\<exists>d. download_file_from_minio su cache_dir guess path w = (Inr d, w) \<and>
    dget d ''temp_path'' = PStr (join_path cache_dir (basename obj))"
  using assms by (simp add: download_file_from_minio_def Let_def abind_def dget_def)

lemma cached_image_example:
  "let su = w_sdk ''off''; w = w_disk\<lparr>wd_store := [((''b'', ''u1/me.png''), [1]), ((''b'', ''u2/me.png''), [2])]\<rparr>;
       w1 = snd (download_file_from_minio su ''/cache'' (\<lambda>_. None) ''b/u1/me.png'' w)
   in \<exists>d. download_file_from_minio su ''/cache'' (\<lambda>_. None) ''b/u2/me.png'' w1 = (Inr d, w1) \<and>
     dget d ''temp_path'' = PStr ''/cache/me.png'' \<and> map_of (wd_files w1) ''/cache/me.png'' = Some [1]"
proof -
  define w where "w = w_disk\<lparr>wd_store := [((''b'', ''u1/me.png''), [1]), ((''b'', ''u2/me.png''), [2])]\<rparr>"
  define w1 where "w1 = snd (download_file_from_minio (w_sdk ''off'') ''/cache'' (\<lambda>_. None) ''b/u1/me.png'' w)"
  have p: "parse_minio_path ''b/u1/me.png'' = Some (''b'', ''u1/me.png'')"
    "parse_minio_path ''b/u2/me.png'' = Some (''b'', ''u2/me.png'')"
    and b: "basename ''u1/me.png'' = ''me.png''" "basename ''u2/me.png'' = ''me.png''"
    and e: "lower (file_extension ''me.png'') \<in> set IMAGE_EXTENSIONS" and j: "join_path ''/cache'' ''me.png'' = ''/cache/me.png''"
    by code_simp+
  have get: "cl_get (su_client (w_sdk ''off'')) ''b'' ''u1/me.png'' (wd_store w) = (Inr [1], wd_store w)"
    and free: "map_of (wd_files w) (''/cache/me.png'' @ SRC_TMP) = None" "map_of (wd_files w) ''/cache/me.png'' = None"
    and calm: "wd_faults w = []"
    by (simp_all add: w_sdk_def w_client_def w_def w_disk_def SRC_TMP_def)
  have "\<not> is_encrypted_data [1]" by (simp add: is_encrypted_data_def MAGIC_def)
  then obtain w' where "download_file (w_sdk ''off'') ''u1/me.png'' ''/cache/me.png'' ''b'' True w = (Inr (), w')"
    "map_of (wd_files w') ''/cache/me.png'' = Some [1]"
    using download_file_run [OF sdk_worksD(1) [OF w_sdk_works] get free(1) calm] by (auto simp: decrypt_bytes_if_encrypted_def)
  then have "map_of (wd_files w1) ''/cache/me.png'' = Some [1]"
    using free(2) by (simp add: w1_def download_file_from_minio_def p b e j Let_def abind_def on_raise_def)
  then show ?thesis using cached_image_of_another_object [OF p(2), of w1 "''/cache''" "[1]"] b e j
    by (simp add: Let_def w_def [symmetric] w1_def [symmetric])
qed

end
