(* ===== verification/CompoundRead.thy ===== *)
theory CompoundRead
  imports Bytes
begin

text \<open>
  \<open>src/xgen_sdk/control_policy/_cfb.py\<close>, reading: the compound file (OLE2) that holds an HWP document.
  The file is a sequence of sectors; tables of sector numbers chain them to streams, and one of the
  streams is the directory, whose records form trees of siblings.

  The input comes from anyone who uploads a document, so each table may hold anything. The loops of
  the code follow links in these tables until they see the end or a link for the second time; here
  they are recursive without a bound, a result is \<open>None\<close> if the loop does not end, and \<open>read_returns\<close>
  says that it does. \<open>Some (Inl e)\<close> is a raised exception.

  Names are lists of code points; kinds and states are natural numbers, as they are in a file.
\<close>

section \<open>Results\<close>

datatype cfb_error = CfbError | NameError | StructError

type_synonym 'a res = "(cfb_error + 'a) option"

definition rbind :: "'a res \<Rightarrow> ('a \<Rightarrow> 'b res) \<Rightarrow> 'b res" where
  "rbind m f = (case m of None \<Rightarrow> None | Some (Inl e) \<Rightarrow> Some (Inl e) | Some (Inr v) \<Rightarrow> f v)"

fun rmap :: "('a \<Rightarrow> 'b res) \<Rightarrow> 'a list \<Rightarrow> 'b list res" where
  "rmap f [] = Some (Inr [])"
| "rmap f (x # xs) = rbind (f x) (\<lambda>y. rbind (rmap f xs) (\<lambda>ys. Some (Inr (y # ys))))"

definition returns :: "'a res \<Rightarrow> bool" where
  "returns m \<longleftrightarrow> m \<noteq> None"

lemma rbind_simps [simp]: "rbind (Some (Inl e)) f = Some (Inl e)" "rbind (Some (Inr v)) f = f v"
  by (simp_all add: rbind_def)

lemma rbind_cong [fundef_cong]:
  "m = m' \<Longrightarrow> (\<And>v. m' = Some (Inr v) \<Longrightarrow> f v = f' v) \<Longrightarrow> rbind m f = rbind m' f'"
  by (auto simp: rbind_def split: option.splits sum.splits)

lemma rmap_cong [fundef_cong]:
  "xs = ys \<Longrightarrow> (\<And>x. x \<in> set ys \<Longrightarrow> f x = g x) \<Longrightarrow> rmap f xs = rmap g ys"
  by (induction ys arbitrary: xs) auto

lemma returns_simps [simp]: "returns (Some r)"
  by (simp add: returns_def)

lemma returns_rbind: "returns m \<Longrightarrow> (\<And>v. m = Some (Inr v) \<Longrightarrow> returns (f v)) \<Longrightarrow> returns (rbind m f)"
  by (auto simp: returns_def rbind_def split: option.splits sum.splits)

lemma returns_rmap: "(\<And>x. x \<in> set xs \<Longrightarrow> returns (f x)) \<Longrightarrow> returns (rmap f xs)"
  by (induction xs) (auto intro!: returns_rbind)

lemma rmap_Inr: "(\<And>x. x \<in> set xs \<Longrightarrow> f x = Some (Inr (g x))) \<Longrightarrow> rmap f xs = Some (Inr (map g xs))"
  by (induction xs) auto

section \<open>Entries\<close>

definition SIGNATURE :: bytes where "SIGNATURE = [208, 207, 17, 224, 161, 177, 26, 225]"
definition FREESECT :: nat where "FREESECT = 4294967295"
definition ENDOFCHAIN :: nat where "ENDOFCHAIN = 4294967294"
definition FATSECT :: nat where "FATSECT = 4294967293"
definition DIFSECT :: nat where "DIFSECT = 4294967292"
definition MAXREGSECT :: nat where "MAXREGSECT = 4294967290"
definition NOSTREAM :: nat where "NOSTREAM = 4294967295"
definition KIND_STORAGE :: nat where "KIND_STORAGE = 1"
definition KIND_STREAM :: nat where "KIND_STREAM = 2"
definition KIND_ROOT :: nat where "KIND_ROOT = 5"
definition MINI_SECTOR :: nat where "MINI_SECTOR = 64"
definition HEADER_DIFAT :: nat where "HEADER_DIFAT = 109"

datatype cf_entry = Entry (cf_name: ustr) (cf_kind: nat) (cf_data: bytes) (cf_clsid: bytes) (cf_state: nat)
  (cf_created: bytes) (cf_modified: bytes) (cf_children: "cf_entry list")

definition is_stream :: "cf_entry \<Rightarrow> bool" where
  "is_stream e = (cf_kind e = KIND_STREAM)"

definition child :: "cf_entry \<Rightarrow> ustr \<Rightarrow> cf_entry option" where
  "child e nm = find (\<lambda>c. cf_name c = nm) (cf_children e)"

fun split_path :: "ustr \<Rightarrow> ustr list" where
  "split_path [] = [[]]"
| "split_path (c # s) = (if c = 47 then [] # split_path s
     else case split_path s of p # ps \<Rightarrow> (c # p) # ps | [] \<Rightarrow> [[c]])"

definition find_entry :: "cf_entry \<Rightarrow> ustr \<Rightarrow> cf_entry option" where
  "find_entry e path = fold (\<lambda>part node. Option.bind node (\<lambda>n. child n part)) (split_path path) (Some e)"

fun streams :: "ustr \<Rightarrow> cf_entry \<Rightarrow> (ustr \<times> cf_entry) list" where
  "streams prefix (Entry n k d ci st cr mo cs) =
     concat (map (\<lambda>c. if is_stream c then [(prefix @ cf_name c, c)]
       else streams (prefix @ cf_name c @ [47]) c) cs)"

section \<open>Sectors\<close>

definition sector_bytes :: "bytes \<Rightarrow> nat \<Rightarrow> nat \<Rightarrow> cfb_error + bytes" where
  "sector_bytes raw sector index =
     (if (length raw - sector) div sector \<le> index then Inl CfbError
      else Inr (window ((index + 1) * sector) sector raw))"

partial_function (option) difat_loop ::
  "bytes \<Rightarrow> nat \<Rightarrow> nat \<Rightarrow> nat list \<Rightarrow> nat list \<Rightarrow> (cfb_error + nat list) option" where
  "difat_loop raw sector difat seen fat_sectors =
     (if MAXREGSECT < difat then Some (Inr fat_sectors)
      else if difat \<in> set seen then Some (Inl CfbError)
      else case sector_bytes raw sector difat of
        Inl e \<Rightarrow> Some (Inl e)
      | Inr b \<Rightarrow> difat_loop raw sector (last (u32s b)) (difat # seen)
          (fat_sectors @ filter (\<lambda>s. s \<le> MAXREGSECT) (butlast (u32s b))))"

partial_function (option) chain_loop ::
  "nat list \<Rightarrow> nat \<Rightarrow> nat list \<Rightarrow> nat list \<Rightarrow> (cfb_error + nat list) option" where
  "chain_loop table start visited out =
     (if MAXREGSECT < start then Some (Inr out)
      else if start \<in> set visited \<or> length table \<le> start then Some (Inl CfbError)
      else chain_loop table (table ! start) (start # visited) (out @ [start]))"

definition chain :: "nat \<Rightarrow> nat list \<Rightarrow> nat list res" where
  "chain start table = chain_loop table start [] []"

definition regular :: "bytes \<Rightarrow> nat \<Rightarrow> nat list \<Rightarrow> nat \<Rightarrow> bytes res" where
  "regular raw sector fat start =
     rbind (chain start fat) (\<lambda>ss. rbind (Some (emap (sector_bytes raw sector) ss)) (\<lambda>bs. Some (Inr (concat bs))))"

definition header_difat :: "bytes \<Rightarrow> nat list" where
  "header_difat raw = filter (\<lambda>s. s \<le> MAXREGSECT) (u32s (window 76 (4 * HEADER_DIFAT) raw))"

definition read_fat :: "bytes \<Rightarrow> nat \<Rightarrow> nat list res" where
  "read_fat raw sector =
     rbind (difat_loop raw sector (u32 raw 68) [] (header_difat raw)) (\<lambda>fat_sectors.
     rbind (Some (emap (sector_bytes raw sector) fat_sectors)) (\<lambda>bs.
     Some (Inr (concat (map u32s bs)))))"

section \<open>Streams\<close>

text \<open>The local variables that the inner functions of \<open>read\<close> use.\<close>

record image =
  im_raw :: bytes
  im_major :: nat
  im_sector :: nat
  im_fat :: "nat list"
  im_records :: "bytes list"
  im_cutoff :: nat
  im_mini_stream :: bytes
  im_minifat :: "nat list"

definition size_of :: "nat \<Rightarrow> bytes \<Rightarrow> nat" where
  "size_of major r = (if major = 3 then u32 r 120 else u32 r 124 * 2 ^ 32 + u32 r 120)"

definition read_mini_stream :: "bytes \<Rightarrow> nat \<Rightarrow> nat \<Rightarrow> nat list \<Rightarrow> bytes \<Rightarrow> bytes res" where
  "read_mini_stream raw major sector fat root_record =
     (if size_of major root_record = 0 then Some (Inr [])
      else rbind (regular raw sector fat (u32 root_record 116)) (\<lambda>b. Some (Inr (take (size_of major root_record) b))))"

definition read_minifat :: "bytes \<Rightarrow> nat \<Rightarrow> nat list \<Rightarrow> nat list res" where
  "read_minifat raw sector fat =
     (if u32 raw 64 = 0 then Some (Inr [])
      else rbind (regular raw sector fat (u32 raw 60)) (\<lambda>mf. Some (Inr (u32s mf))))"

definition stream_data :: "image \<Rightarrow> bytes \<Rightarrow> bytes res" where
  "stream_data im r =
     (let size = size_of (im_major im) r; start = u32 r 116 in
      if size = 0 then Some (Inr [])
      else rbind
        (if size < im_cutoff im then
           rbind (chain start (im_minifat im)) (\<lambda>ss.
             Some (Inr (concat (map (\<lambda>s. window (s * MINI_SECTOR) MINI_SECTOR (im_mini_stream im)) ss))))
         else regular (im_raw im) (im_sector im) (im_fat im) start)
        (\<lambda>data. if length data < size then Some (Inl CfbError) else Some (Inr (take size data))))"

section \<open>The directory\<close>

partial_function (option) sibling_loop ::
  "bytes list \<Rightarrow> nat list \<Rightarrow> nat list \<Rightarrow> nat list \<Rightarrow> (cfb_error + nat list) option" where
  "sibling_loop records stack visited out =
     (if stack = [] then Some (Inr out)
      else if hd stack = NOSTREAM then sibling_loop records (tl stack) visited out
      else if hd stack \<in> set visited \<or> length records \<le> hd stack then Some (Inl CfbError)
      else sibling_loop records
        (u32 (records ! hd stack) 72 # u32 (records ! hd stack) 68 # tl stack)
        (hd stack # visited) (out @ [hd stack]))"

definition siblings :: "bytes list \<Rightarrow> nat \<Rightarrow> nat \<Rightarrow> nat list res" where
  "siblings records sid depth =
     (if 64 < depth then Some (Inl CfbError) else sibling_loop records [sid] [] [])"

definition record_name :: "bytes \<Rightarrow> ustr" where
  "record_name r = utf16_decode (take (min 64 (u16 r 64) - 2) r)"

definition record_kind :: "bytes \<Rightarrow> nat" where
  "record_kind r = unat (r ! 66)"

function read_entry :: "image \<Rightarrow> nat \<Rightarrow> nat \<Rightarrow> cf_entry res" where
  "read_entry im sid depth =
     (let r = im_records im ! sid; kind = record_kind r in
      rbind (if kind = KIND_STREAM then stream_data im r else Some (Inr [])) (\<lambda>data.
      rbind (if kind = KIND_STORAGE \<or> kind = KIND_ROOT
             then rbind (siblings (im_records im) (u32 r 76) depth) (rmap (\<lambda>c. read_entry im c (depth + 1)))
             else Some (Inr [])) (\<lambda>cs.
      Some (Inr (Entry (record_name r) kind data (window 80 16 r) (u32 r 96) (window 100 8 r) (window 108 8 r) cs)))))"
  by pat_completeness auto
termination
  by (relation "measure (\<lambda>(im, sid, depth). 65 - depth)") (auto simp: siblings_def split: if_splits)

declare read_entry.simps [simp del]

declare difat_loop.simps [code] chain_loop.simps [code] sibling_loop.simps [code]

definition cfb_read :: "bytes \<Rightarrow> cf_entry res" where
  "cfb_read raw =
     (if length raw < 512 \<or> take 8 raw \<noteq> SIGNATURE then Some (Inl CfbError)
      else let major = u16 raw 26; byte_order = u16 raw 28; sector_shift = u16 raw 30; mini_shift = u16 raw 32 in
      if byte_order \<noteq> 65534 \<or> sector_shift \<notin> {9, 12} \<or> mini_shift \<noteq> 6 then Some (Inl CfbError)
      else let sector = 2 ^ sector_shift in
      rbind (read_fat raw sector) (\<lambda>fat.
      rbind (regular raw sector fat (u32 raw 48)) (\<lambda>directory.
      let records = chunks 128 directory in
      if records = [] then Some (Inl CfbError)
      else rbind (read_mini_stream raw major sector fat (hd records)) (\<lambda>mini_stream.
      rbind (read_minifat raw sector fat) (\<lambda>minifat.
      if record_kind (hd records) \<noteq> KIND_ROOT then Some (Inl CfbError)
      else read_entry \<lparr>im_raw = raw, im_major = major, im_sector = sector, im_fat = fat, im_records = records,
        im_cutoff = u32 raw 56, im_mini_stream = mini_stream, im_minifat = minifat\<rparr> 0 0)))))"

section \<open>Reading ends\<close>

lemma card_grows:
  assumes "x \<notin> set seen" "x < n" "distinct seen" "set seen \<subseteq> {..<n}"
  shows "n - Suc (card (set seen)) < n - card (set seen)"
proof -
  have "card (insert x (set seen)) \<le> card {..<n}" using assms by (intro card_mono) auto
  then show ?thesis using assms(1) by simp
qed

lemma difat_loop_returns:
  assumes "distinct seen" "set seen \<subseteq> {..<(length raw - sector) div sector}"
  shows "returns (difat_loop raw sector difat seen out)"
  using assms
proof (induction "(length raw - sector) div sector - card (set seen)" arbitrary: difat seen out rule: less_induct)
  case less
  show ?case
  proof (cases "MAXREGSECT < difat \<or> difat \<in> set seen \<or> (length raw - sector) div sector \<le> difat")
    case True
    then show ?thesis by (subst difat_loop.simps) (auto simp: sector_bytes_def)
  next
    case False
    then have "difat < (length raw - sector) div sector" "difat \<notin> set seen" by auto
    with less show ?thesis
      by (subst difat_loop.simps) (auto simp: sector_bytes_def card_grows intro!: less.hyps split: sum.split)
  qed
qed

lemma chain_loop_returns:
  assumes "distinct visited" "set visited \<subseteq> {..<length table}"
  shows "returns (chain_loop table start visited out)"
  using assms
proof (induction "length table - card (set visited)" arbitrary: start visited out rule: less_induct)
  case less
  show ?case
  proof (cases "MAXREGSECT < start \<or> start \<in> set visited \<or> length table \<le> start")
    case True
    then show ?thesis by (subst chain_loop.simps) auto
  next
    case False
    then show ?thesis using less.prems
      by (subst chain_loop.simps) (auto simp: card_grows intro!: less.hyps)
  qed
qed

lemma sibling_loop_returns:
  assumes "distinct visited" "set visited \<subseteq> {..<length records}"
  shows "returns (sibling_loop records stack visited out)"
  using assms
proof (induction "(length records - card (set visited), length stack)" arbitrary: stack visited out
    rule: wf_induct_rule[OF wf_lex_prod[OF wf_less_than wf_less_than]])
  case (1 stack visited out)
  show ?case
  proof (cases "stack = [] \<or> hd stack \<noteq> NOSTREAM \<and> (hd stack \<in> set visited \<or> length records \<le> hd stack)")
    case True
    then show ?thesis by (subst sibling_loop.simps) auto
  next
    case False
    then show ?thesis
    proof (cases "hd stack = NOSTREAM")
      case True
      then show ?thesis using False 1(2,3)
        by (subst sibling_loop.simps) (auto intro!: 1(1))
    next
      case new: False
      with False have "hd stack < length records" "hd stack \<notin> set visited" by auto
      then show ?thesis using False new 1(2,3)
        by (subst sibling_loop.simps) (auto simp: card_grows intro!: 1(1))
    qed
  qed
qed

lemma chain_returns: "returns (chain start table)"
  by (simp add: chain_def chain_loop_returns)

lemma regular_returns: "returns (regular raw sector fat start)"
  by (auto simp: regular_def intro!: returns_rbind chain_returns)

lemma siblings_returns: "returns (siblings records sid depth)"
  by (simp add: siblings_def sibling_loop_returns)

lemma stream_data_returns: "returns (stream_data im r)"
  by (auto simp: stream_data_def Let_def intro!: returns_rbind chain_returns regular_returns)

lemma read_entry_returns: "returns (read_entry im sid depth)"
proof (induction im sid depth rule: read_entry.induct)
  case (1 im sid depth)
  let ?r = "im_records im ! sid"
  let ?data = "if record_kind ?r = KIND_STREAM then stream_data im ?r else Some (Inr [])"
  have IH: "returns (read_entry im c (depth + 1))"
    if "?data = Some (Inr data)" "record_kind ?r = KIND_STORAGE \<or> record_kind ?r = KIND_ROOT"
      "siblings (im_records im) (u32 ?r 76) depth = Some (Inr cs)" "c \<in> set cs" for data cs c
    using 1[OF refl refl that] .
  have sub: "returns (if record_kind ?r = KIND_STORAGE \<or> record_kind ?r = KIND_ROOT
       then rbind (siblings (im_records im) (u32 ?r 76) depth) (rmap (\<lambda>c. read_entry im c (depth + 1)))
       else Some (Inr []))" if "?data = Some (Inr data)" for data
    using IH[OF that] by (auto intro!: returns_rbind returns_rmap siblings_returns)
  show ?case
    by (subst read_entry.simps, unfold Let_def, intro returns_rbind sub)
      (simp_all add: stream_data_returns)
qed


lemma read_fat_returns: "returns (read_fat raw sector)"
  by (auto simp: read_fat_def intro!: returns_rbind difat_loop_returns)

lemma read_mini_stream_returns: "returns (read_mini_stream raw major sector fat r)"
  by (auto simp: read_mini_stream_def intro!: returns_rbind regular_returns)

lemma read_minifat_returns: "returns (read_minifat raw sector fat)"
  by (auto simp: read_minifat_def intro!: returns_rbind regular_returns)

lemma cfb_read_returns: "returns (cfb_read raw)"
  by (auto simp: cfb_read_def Let_def intro!: returns_rbind read_fat_returns regular_returns
      read_mini_stream_returns read_minifat_returns read_entry_returns)

section \<open>Shared storages\<close>

text \<open>The reader looks for a record met twice only among siblings, and for a depth beyond 64. A
  storage that is reached from two others is read twice, so levels of two storages that share their
  children double the entries with each level.\<close>

fun entry_count :: "cf_entry \<Rightarrow> nat" where
  "entry_count (Entry n k d ci st cr mo cs) = Suc (sum_list (map entry_count cs))"

definition dir_record :: "nat \<Rightarrow> nat \<Rightarrow> nat \<Rightarrow> nat \<Rightarrow> bytes" where
  "dir_record kind left right ch = put 66 [of_nat kind] (put 68 (le_bytes 4 left @ le_bytes 4 right @ le_bytes 4 ch)
     (replicate 128 0))"

definition shared_levels :: "nat \<Rightarrow> bytes list" where
  "shared_levels n = dir_record KIND_ROOT NOSTREAM NOSTREAM (if n = 0 then NOSTREAM else 1) #
     concat (map (\<lambda>i. let ch = (if Suc i = n then NOSTREAM else 2 * i + 3) in
       [dir_record KIND_STORAGE (2 * i + 2) NOSTREAM ch, dir_record KIND_STORAGE NOSTREAM NOSTREAM ch]) [0..<n])"


lemma dir_record_simps:
  assumes "kind < 256" "left < 2 ^ 32" "right < 2 ^ 32" "ch < 2 ^ 32"
  shows "record_kind (dir_record kind left right ch) = kind"
    "u32 (dir_record kind left right ch) 68 = left"
    "u32 (dir_record kind left right ch) 72 = right"
    "u32 (dir_record kind left right ch) 76 = ch"
  using assms
  by (simp_all add: dir_record_def record_kind_def u32_def window_put_above window_put_inside length_put
      window_append_left window_append_right nth_append put_def unat_of_nat) (simp_all add: window_def)

lemma length_pairs: "length (concat (map (\<lambda>i. [f i, g i]) [0..<n])) = 2 * n"
  by (induction n) simp_all

lemma nth_pairs:
  assumes "i < n"
  shows "concat (map (\<lambda>i. [f i, g i]) [0..<n]) ! (2 * i) = f i"
    "concat (map (\<lambda>i. [f i, g i]) [0..<n]) ! Suc (2 * i) = g i"
proof -
  have "concat (map (\<lambda>i. [f i, g i]) [0..<n]) ! (2 * i) = f i \<and>
      concat (map (\<lambda>i. [f i, g i]) [0..<n]) ! Suc (2 * i) = g i"
    using assms by (induction n) (auto simp: nth_append length_pairs less_Suc_eq)
  then show "concat (map (\<lambda>i. [f i, g i]) [0..<n]) ! (2 * i) = f i"
    "concat (map (\<lambda>i. [f i, g i]) [0..<n]) ! Suc (2 * i) = g i" by auto
qed

lemma length_shared_levels: "length (shared_levels n) = Suc (2 * n)"
  unfolding shared_levels_def Let_def by (simp add: length_pairs)

lemma nth_shared_levels:
  assumes "i < n"
  shows "shared_levels n ! Suc (2 * i) = dir_record KIND_STORAGE (2 * i + 2) NOSTREAM (if Suc i = n then NOSTREAM else 2 * i + 3)"
    "shared_levels n ! Suc (Suc (2 * i)) = dir_record KIND_STORAGE NOSTREAM NOSTREAM (if Suc i = n then NOSTREAM else 2 * i + 3)"
  using assms by (simp_all add: shared_levels_def Let_def nth_pairs)

lemma nostream_32 [simp]: "NOSTREAM < 4294967296"
  by (simp add: NOSTREAM_def)

lemma sibling_loop_Nil [simp]: "sibling_loop records [] visited out = Some (Inr out)"
  by (simp add: sibling_loop.simps)

lemma sibling_loop_none [simp]: "sibling_loop records (NOSTREAM # stack) visited out = sibling_loop records stack visited out"
  by (subst sibling_loop.simps) simp

lemma sibling_loop_new:
  assumes "s \<noteq> NOSTREAM" "s \<notin> set visited" "s < length records"
  shows "sibling_loop records (s # stack) visited out =
    sibling_loop records (u32 (records ! s) 72 # u32 (records ! s) 68 # stack) (s # visited) (out @ [s])"
  using assms by (subst sibling_loop.simps) simp

lemma siblings_none: "depth \<le> 64 \<Longrightarrow> siblings records NOSTREAM depth = Some (Inr [])"
  by (simp add: siblings_def)

definition next_level :: "nat \<Rightarrow> nat \<Rightarrow> nat" where
  "next_level n i = (if Suc i = n then NOSTREAM else 2 * i + 3)"

lemma shared_records:
  assumes "i < n" "n \<le> 64"
  shows "record_kind (shared_levels n ! Suc (2 * i)) = KIND_STORAGE"
    "u32 (shared_levels n ! Suc (2 * i)) 68 = Suc (Suc (2 * i))"
    "u32 (shared_levels n ! Suc (2 * i)) 72 = NOSTREAM"
    "u32 (shared_levels n ! Suc (2 * i)) 76 = next_level n i"
    "record_kind (shared_levels n ! Suc (Suc (2 * i))) = KIND_STORAGE"
    "u32 (shared_levels n ! Suc (Suc (2 * i))) 68 = NOSTREAM"
    "u32 (shared_levels n ! Suc (Suc (2 * i))) 72 = NOSTREAM"
    "u32 (shared_levels n ! Suc (Suc (2 * i))) 76 = next_level n i"
proof -
  have b: "KIND_STORAGE < 256" "2 * i + 2 < 2 ^ 32" "NOSTREAM < 2 ^ 32" "next_level n i < 2 ^ 32"
    using assms by (auto simp: KIND_STORAGE_def NOSTREAM_def next_level_def)
  note n = nth_shared_levels[OF assms(1), folded next_level_def]
  show "record_kind (shared_levels n ! Suc (2 * i)) = KIND_STORAGE"
    "u32 (shared_levels n ! Suc (2 * i)) 68 = Suc (Suc (2 * i))"
    "u32 (shared_levels n ! Suc (2 * i)) 72 = NOSTREAM"
    "u32 (shared_levels n ! Suc (2 * i)) 76 = next_level n i"
    unfolding n using dir_record_simps[OF b] by simp_all
  show "record_kind (shared_levels n ! Suc (Suc (2 * i))) = KIND_STORAGE"
    "u32 (shared_levels n ! Suc (Suc (2 * i))) 68 = NOSTREAM"
    "u32 (shared_levels n ! Suc (Suc (2 * i))) 72 = NOSTREAM"
    "u32 (shared_levels n ! Suc (Suc (2 * i))) 76 = next_level n i"
    unfolding n using dir_record_simps[OF b(1,3,3,4)] by simp_all
qed

lemma siblings_level:
  assumes "i < n" "n \<le> 64" "depth \<le> 64"
  shows "siblings (shared_levels n) (Suc (2 * i)) depth = Some (Inr [Suc (2 * i), Suc (Suc (2 * i))])"
proof -
  have no: "Suc (2 * i) \<noteq> NOSTREAM" "Suc (Suc (2 * i)) \<noteq> NOSTREAM" using assms by (auto simp: NOSTREAM_def)
  have "siblings (shared_levels n) (Suc (2 * i)) depth
      = sibling_loop (shared_levels n) [Suc (Suc (2 * i))] [Suc (2 * i)] [Suc (2 * i)]"
    using assms no by (simp add: siblings_def sibling_loop_new length_shared_levels shared_records)
  also have "\<dots> = Some (Inr [Suc (2 * i), Suc (Suc (2 * i))])"
    using assms no by (simp add: sibling_loop_new length_shared_levels shared_records)
  finally show ?thesis .
qed

lemma shared_level_count:
  assumes "i < n" "n \<le> 64" "im_records im = shared_levels n" "s \<in> {Suc (2 * i), Suc (Suc (2 * i))}"
  shows "\<exists>e. read_entry im s (Suc i) = Some (Inr e) \<and> Suc (entry_count e) = 2 ^ (n - i)"
  using assms
proof (induction "n - i" arbitrary: i s)
  case (Suc k)
  have r: "record_kind (shared_levels n ! s) = KIND_STORAGE" "u32 (shared_levels n ! s) 76 = next_level n i"
    using Suc.prems(4) shared_records[OF Suc.prems(1,2)] by auto
  show ?case
  proof (cases "Suc i = n")
    case True
    then have "n - i = 1" by simp
    then show ?thesis using True r Suc.prems
      by (subst read_entry.simps) (simp add: Let_def KIND_STORAGE_def KIND_STREAM_def next_level_def siblings_none)
  next
    case False
    then have k: "k = n - Suc i" "Suc i < n" "n - i = Suc (n - Suc i)" using Suc by auto
    from Suc.hyps(1)[OF k(1,2) Suc.prems(2,3), of "Suc (2 * Suc i)"]
    obtain e1 where e1: "read_entry im (Suc (2 * Suc i)) (Suc (Suc i)) = Some (Inr e1)" "Suc (entry_count e1) = 2 ^ (n - Suc i)" by auto
    from Suc.hyps(1)[OF k(1,2) Suc.prems(2,3), of "Suc (Suc (2 * Suc i))"]
    obtain e2 where e2: "read_entry im (Suc (Suc (2 * Suc i))) (Suc (Suc i)) = Some (Inr e2)" "Suc (entry_count e2) = 2 ^ (n - Suc i)" by auto
    have s: "siblings (shared_levels n) (2 * i + 3) (Suc i) = Some (Inr [Suc (2 * Suc i), Suc (Suc (2 * Suc i))])"
      using siblings_level[OF k(2) Suc.prems(2), of "Suc i"] k(2) Suc.prems(2) by (simp add: numeral_3_eq_3)
    show ?thesis using r Suc.prems False s e1 e2 k(3)
      by (subst read_entry.simps) (simp add: Let_def KIND_STORAGE_def KIND_STREAM_def next_level_def)
  qed
qed simp

text \<open>C40. A directory of \<open>2 n + 1\<close> records can make the reader build \<open>2 ^ (n + 1) - 1\<close> entries, for
  every \<open>n\<close> up to 64: only cycles among siblings and a depth beyond 64 are refused, so storages that share
  their children are read once for each way that leads to them.\<close>

theorem shared_storages_multiply:
  assumes "n \<le> 64" "im_records im = shared_levels n"
  shows "\<exists>e. read_entry im 0 0 = Some (Inr e) \<and> Suc (entry_count e) = 2 ^ Suc n"
proof (cases n)
  case 0
  then show ?thesis using assms
    by (subst read_entry.simps)
      (simp add: Let_def shared_levels_def dir_record_simps KIND_ROOT_def KIND_STREAM_def KIND_STORAGE_def siblings_none)
next
  case (Suc m)
  then have n: "0 < n" by simp
  have r: "record_kind (shared_levels n ! 0) = KIND_ROOT" "u32 (shared_levels n ! 0) 76 = 1"
    using n by (simp_all add: shared_levels_def dir_record_simps KIND_ROOT_def)
  obtain e1 where e1: "read_entry im 1 1 = Some (Inr e1)" "Suc (entry_count e1) = 2 ^ n"
    using shared_level_count[OF n assms, of 1] by auto
  obtain e2 where e2: "read_entry im 2 1 = Some (Inr e2)" "Suc (entry_count e2) = 2 ^ n"
    using shared_level_count[OF n assms, of 2] by (auto simp: numeral_2_eq_2)
  have s: "siblings (shared_levels n) 1 0 = Some (Inr [1, 2])"
    using siblings_level[OF n assms(1), of 0] by (simp add: numeral_2_eq_2)
  show ?thesis using r s e1 e2 assms
    by (subst read_entry.simps) (simp add: Let_def KIND_ROOT_def KIND_STORAGE_def KIND_STREAM_def next_level_def)
qed

theorem shared_storages_multiply_witness:
  "\<exists>e. read_entry \<lparr>im_raw = [], im_major = 3, im_sector = 512, im_fat = [], im_records = shared_levels 60, im_cutoff = 4096,
     im_mini_stream = [], im_minifat = []\<rparr> 0 0 = Some (Inr e) \<and> Suc (entry_count e) = 2 ^ 61 \<and> length (shared_levels 60) = 121"
  using shared_storages_multiply[of 60 "\<lparr>im_raw = [], im_major = 3, im_sector = 512, im_fat = [], im_records = shared_levels 60,
      im_cutoff = 4096, im_mini_stream = [], im_minifat = []\<rparr>"]
  by (simp add: length_shared_levels)

end
