(* ===== verification/CompoundWrite.thy ===== *)
theory CompoundWrite
  imports CompoundRead "HOL-Library.List_Lexorder" "HOL-Library.Product_Lexorder" "HOL-Library.Tree"
begin

text \<open>
  \<open>src/xgen_sdk/control_policy/_cfb.py\<close>, writing: an entry with everything below it becomes a compound
  file of version 3. The nodes are numbered in preorder, siblings are ordered by name and tied to
  a red-black tree, small streams go into the mini stream, and the sizes of the tables of sectors,
  which take up sectors themselves, are found by repeating until they fit.

  \<open>str.upper\<close> is the parameter \<open>upper\<close>: which letters are equal is a matter of the Unicode tables.
  The entries of a tree are distinct objects, so that a node is known by its number.
\<close>

section \<open>Numbers and siblings\<close>

fun number :: "nat \<Rightarrow> cf_entry \<Rightarrow> (cf_entry \<times> nat list) list"
  and number_all :: "nat \<Rightarrow> cf_entry list \<Rightarrow> (cf_entry \<times> nat list) list"
  and child_sids :: "nat \<Rightarrow> cf_entry list \<Rightarrow> nat list" where
  "number n (Entry nm k d ci st cr mo cs) = (Entry nm k d ci st cr mo cs, child_sids (n + 1) cs) # number_all (n + 1) cs"
| "number_all n [] = []"
| "number_all n (c # cs) = number n c @ number_all (n + entry_count c) cs"
| "child_sids n [] = []"
| "child_sids n (c # cs) = n # child_sids (n + entry_count c) cs"

definition RED :: nat where "RED = 0"
definition BLACK :: nat where "BLACK = 1"

record link =
  lk_left :: nat
  lk_right :: nat
  lk_child :: nat
  lk_color :: nat

definition new_link :: link where
  "new_link = \<lparr>lk_left = NOSTREAM, lk_right = NOSTREAM, lk_child = NOSTREAM, lk_color = BLACK\<rparr>"

definition upd :: "nat \<Rightarrow> ('a \<Rightarrow> 'a) \<Rightarrow> 'a list \<Rightarrow> 'a list" where
  "upd i f xs = xs[i := f (xs ! i)]"

text \<open>Links are found by number; the depths are a dictionary that is filled node by node.\<close>

type_synonym build_state = "(nat \<times> nat) list \<times> link list"

function build :: "nat list \<Rightarrow> int \<Rightarrow> int \<Rightarrow> nat \<Rightarrow> build_state \<Rightarrow> nat \<times> build_state" where
  "build sids lo hi level (depth, links) =
     (if hi < lo then (NOSTREAM, depth, links)
      else let mid = (lo + hi + 1) div 2; sid = sids ! nat mid;
        (l, depth1, links1) = build sids lo (mid - 1) (level + 1) ((sid, level) # depth, links);
        (r, depth2, links2) = build sids (mid + 1) hi (level + 1)
          (depth1, upd sid (\<lambda>k. k\<lparr>lk_left := l\<rparr>) links1)
      in (sid, depth2, upd sid (\<lambda>k. k\<lparr>lk_right := r\<rparr>) links2))"
  by pat_completeness auto
termination
  by (relation "measure (\<lambda>(sids, lo, hi, level, st). nat (hi - lo + 1))") auto

declare build.simps [simp del]

definition tree :: "nat list \<Rightarrow> link list \<Rightarrow> nat \<times> link list" where
  "tree sids links =
     (let (r, depth, links1) = build sids 0 (int (length sids) - 1) 0 ([], links);
          deepest = foldr max (map snd depth) 0;
          perfect = (length sids = 2 ^ (deepest + 1) - 1)
      in (r, fold (\<lambda>sid. upd sid (\<lambda>k. k\<lparr>lk_color :=
           (if \<not> perfect \<and> map_of depth sid = Some deepest then RED else BLACK)\<rparr>)) sids links1))"

definition cfb_key :: "(ustr \<Rightarrow> ustr) \<Rightarrow> ustr \<Rightarrow> cfb_error + (nat \<times> ustr)" where
  "cfb_key upper nm = (case utf16_encode nm of None \<Rightarrow> Inl NameError | Some b \<Rightarrow> Inr (length b, upper nm))"

definition ordered :: "(ustr \<Rightarrow> ustr) \<Rightarrow> (cf_entry \<times> 'a) list \<Rightarrow> cfb_error + 'a list" where
  "ordered upper cs = ebind (emap (\<lambda>(c, s). cfb_key upper (cf_name c)) cs) (\<lambda>keys.
     Inr (map snd (sort_key fst (zip keys (map snd cs)))))"

definition has_children :: "cf_entry \<Rightarrow> bool" where
  "has_children e = (cf_kind e \<in> {KIND_STORAGE, KIND_ROOT} \<and> cf_children e \<noteq> [])"

fun link_nodes :: "(ustr \<Rightarrow> ustr) \<Rightarrow> nat \<Rightarrow> (cf_entry \<times> nat list) list \<Rightarrow> link list \<Rightarrow> cfb_error + link list" where
  "link_nodes upper sid [] links = Inr links"
| "link_nodes upper sid ((e, cs) # nodes) links =
     (if has_children e
      then ebind (ordered upper (zip (cf_children e) cs)) (\<lambda>sids.
        case tree sids links of (r, links1) \<Rightarrow>
        link_nodes upper (sid + 1) nodes (upd sid (\<lambda>k. k\<lparr>lk_child := r\<rparr>) links1))
      else link_nodes upper (sid + 1) nodes links)"

section \<open>Places of the streams\<close>

definition SECTOR :: nat where "SECTOR = 512"
definition MINI_CUTOFF :: nat where "MINI_CUTOFF = 4096"

record placing =
  pl_mini :: bytes
  pl_minifat :: "nat list"
  pl_start :: "(nat \<times> nat) list"
  pl_big :: "(nat \<times> bytes) list"

definition fill_up :: "nat \<Rightarrow> bytes \<Rightarrow> bytes" where
  "fill_up k b = b @ replicate ((length b + k - 1) div k * k - length b) 0"

definition place_stream :: "nat \<Rightarrow> cf_entry \<Rightarrow> placing \<Rightarrow> placing" where
  "place_stream sid e p =
     (let size = length (cf_data e) in
      if cf_kind e \<noteq> KIND_STREAM then p
      else if size = 0 then p\<lparr>pl_start := (sid, ENDOFCHAIN) # pl_start p\<rparr>
      else if size < MINI_CUTOFF then
        let first = length (pl_mini p) div MINI_SECTOR;
            sectors = (size + MINI_SECTOR - 1) div MINI_SECTOR
        in p\<lparr>pl_mini := pl_mini p @ fill_up MINI_SECTOR (cf_data e),
             pl_minifat := pl_minifat p @ [first + 1..<first + sectors] @ [ENDOFCHAIN],
             pl_start := (sid, first) # pl_start p\<rparr>
      else p\<lparr>pl_big := pl_big p @ [(sid, cf_data e)]\<rparr>)"

fun place_streams :: "nat \<Rightarrow> cf_entry list \<Rightarrow> placing \<Rightarrow> placing" where
  "place_streams sid [] p = p"
| "place_streams sid (e # es) p = place_streams (sid + 1) es (place_stream sid e p)"

definition sectors_for :: "nat \<Rightarrow> nat" where
  "sectors_for n = (n + SECTOR - 1) div SECTOR"

text \<open>Rounds of the loop that finds how many sectors the table needs that lists the sectors, its own
  among them, and the table that lists those.\<close>

definition need_fat :: "nat \<Rightarrow> nat \<Rightarrow> nat \<Rightarrow> nat" where
  "need_fat data_count fat_count difat_count = (data_count + fat_count + difat_count + 127) div 128"

definition need_difat :: "nat \<Rightarrow> nat" where
  "need_difat fats = (fats - HEADER_DIFAT + 126) div 127"

partial_function (option) size_loop :: "nat \<Rightarrow> nat \<Rightarrow> nat \<Rightarrow> (nat \<times> nat) option" where
  "size_loop data_count fat_count difat_count =
     (let nf = need_fat data_count fat_count difat_count; nd = need_difat nf in
      if (nf, nd) = (fat_count, difat_count) then Some (fat_count, difat_count)
      else size_loop data_count nf nd)"

declare size_loop.simps [code]

text \<open>The next free sector, and the table.\<close>

type_synonym filling = "nat \<times> nat list"

definition place :: "nat \<Rightarrow> filling \<Rightarrow> nat \<times> filling" where
  "place n st = (case st of (first, fat) \<Rightarrow>
     if n = 0 then (ENDOFCHAIN, first, fat)
     else (first, first + n,
       (fold (\<lambda>i f. f[first + i := first + i + 1]) [0..<n - 1] fat)[first + n - 1 := ENDOFCHAIN]))"

fun place_big :: "(nat \<times> bytes) list \<Rightarrow> (nat \<times> nat) list \<Rightarrow> filling \<Rightarrow> (nat \<times> nat) list \<times> filling" where
  "place_big [] starts st = (starts, st)"
| "place_big ((sid, data) # big) starts st =
     (case place (sectors_for (length data)) st of (s, st') \<Rightarrow> place_big big ((sid, s) # starts) st')"

record layout =
  ly_fat :: "nat list"
  ly_start :: "(nat \<times> nat) list"
  ly_mini_start :: nat
  ly_minifat_start :: nat
  ly_dir_start :: nat
  ly_fat_sectors :: "nat list"
  ly_difat_sectors :: "nat list"

definition data_count :: "placing \<Rightarrow> nat \<Rightarrow> nat" where
  "data_count p n = sum_list (map (\<lambda>(sid, d). sectors_for (length d)) (pl_big p)) + sectors_for (length (pl_mini p)) +
     sectors_for (length (pl_minifat p) * 4) + sectors_for (n * 128)"

definition lay_out :: "placing \<Rightarrow> nat \<Rightarrow> nat \<Rightarrow> nat \<Rightarrow> layout" where
  "lay_out p n fat_count difat_count =
     (let (starts, st) = place_big (pl_big p) (pl_start p) (0, replicate (fat_count * 128) FREESECT);
          (ms, st) = place (sectors_for (length (pl_mini p))) st;
          (mf, st) = place (sectors_for (length (pl_minifat p) * 4)) st;
          (ds, st) = place (sectors_for (n * 128)) st;
          (cursor, fat) = st;
          fat_sectors = [cursor..<cursor + fat_count];
          difat_sectors = [cursor + fat_count..<cursor + fat_count + difat_count];
          fat1 = fold (\<lambda>s f. f[s := FATSECT]) fat_sectors fat;
          fat2 = fold (\<lambda>s f. f[s := DIFSECT]) difat_sectors fat1
      in \<lparr>ly_fat = fat2, ly_start = starts, ly_mini_start = ms, ly_minifat_start = mf, ly_dir_start = ds,
          ly_fat_sectors = fat_sectors, ly_difat_sectors = difat_sectors\<rparr>)"

section \<open>Bytes\<close>

definition pack :: "nat \<Rightarrow> nat \<Rightarrow> cfb_error + bytes" where
  "pack k n = (if n < 256 ^ k then Inr (le_bytes k n) else Inl StructError)"

definition packs :: "nat list \<Rightarrow> cfb_error + bytes" where
  "packs ns = ebind (emap (pack 4) ns) (\<lambda>bs. Inr (concat bs))"

definition header_bytes :: "placing \<Rightarrow> layout \<Rightarrow> cfb_error + bytes" where
  "header_bytes p l =
     (let fat_count = length (ly_fat_sectors l); difat_count = length (ly_difat_sectors l);
          minifat_count = sectors_for (length (pl_minifat p) * 4);
          h = put 24 (le_bytes 2 62 @ le_bytes 2 3 @ le_bytes 2 65534 @ le_bytes 2 9 @ le_bytes 2 6)
            (put 0 SIGNATURE (replicate 512 0))
      in ebind (packs [fat_count, ly_dir_start l, 0, MINI_CUTOFF,
           if minifat_count = 0 then ENDOFCHAIN else ly_minifat_start l, minifat_count,
           if ly_difat_sectors l = [] then ENDOFCHAIN else hd (ly_difat_sectors l), difat_count]) (\<lambda>b.
         ebind (packs (take HEADER_DIFAT (ly_fat_sectors l) @ replicate (HEADER_DIFAT - min HEADER_DIFAT fat_count) FREESECT)) (\<lambda>d.
         Inr (put 76 d (put 44 b h)))))"

definition minifat_bytes :: "placing \<Rightarrow> cfb_error + bytes" where
  "minifat_bytes p = ebind (packs (pl_minifat p)) (\<lambda>b.
     Inr (b @ concat (replicate (sectors_for (length (pl_minifat p) * 4) * 128 - length (pl_minifat p)) (le_bytes 4 FREESECT))))"

definition start_and_size :: "placing \<Rightarrow> layout \<Rightarrow> nat \<Rightarrow> cf_entry \<Rightarrow> nat \<times> nat" where
  "start_and_size p l sid e =
     (if cf_kind e = KIND_STREAM then (case map_of (ly_start l) sid of Some s \<Rightarrow> s | None \<Rightarrow> 0, length (cf_data e))
      else if cf_kind e = KIND_ROOT
      then (if sectors_for (length (pl_mini p)) = 0 then ENDOFCHAIN else ly_mini_start l, length (pl_mini p))
      else (0, 0))"

definition times_of :: "cf_entry \<Rightarrow> bytes \<times> bytes" where
  "times_of e = (if cf_kind e = KIND_STREAM then (replicate 8 0, replicate 8 0) else (cf_created e, cf_modified e))"

definition record_bytes :: "placing \<Rightarrow> layout \<Rightarrow> link \<Rightarrow> nat \<Rightarrow> cf_entry \<Rightarrow> cfb_error + bytes" where
  "record_bytes p l k sid e =
     (case utf16_encode (cf_name e) of None \<Rightarrow> Inl NameError | Some encoded \<Rightarrow>
      if 62 < length encoded then Inl CfbError
      else ebind (pack 2 (length encoded + 2)) (\<lambda>b0. ebind (pack 1 (cf_kind e)) (\<lambda>b1. ebind (pack 1 (lk_color k)) (\<lambda>b2.
        ebind (packs [lk_left k, lk_right k, lk_child k]) (\<lambda>b3. ebind (pack 4 (cf_state e)) (\<lambda>b4.
        ebind (pack 4 (fst (start_and_size p l sid e))) (\<lambda>b5. ebind (pack 8 (snd (start_and_size p l sid e))) (\<lambda>b6.
        let r0 = put 0 encoded (replicate 128 0);
            r1 = put 64 (b0 @ b1 @ b2) r0;
            r2 = put 68 b3 r1;
            r3 = put 80 (fit 16 0 (cf_clsid e)) r2;
            r4 = put 96 b4 r3;
            r5 = put 100 (fit 8 0 (fst (times_of e))) r4;
            r6 = put 108 (fit 8 0 (snd (times_of e))) r5
        in Inr (put 116 (b5 @ b6) r6)))))))))"

definition empty_record :: bytes where
  "empty_record = put 68 (concat (map (le_bytes 4) [NOSTREAM, NOSTREAM, NOSTREAM])) (replicate 128 0)"

definition directory_bytes :: "placing \<Rightarrow> layout \<Rightarrow> link list \<Rightarrow> cf_entry list \<Rightarrow> cfb_error + bytes" where
  "directory_bytes p l links nodes =
     ebind (emap (\<lambda>sid. record_bytes p l (links ! sid) sid (nodes ! sid)) [0..<length nodes]) (\<lambda>rs.
       Inr (concat rs @ concat (replicate (sectors_for (length nodes * 128) * 4 - length nodes) empty_record)))"

definition difat_sector :: "layout \<Rightarrow> nat \<Rightarrow> nat list" where
  "difat_sector l i =
     fit 127 FREESECT (window (i * 127) 127 (drop HEADER_DIFAT (ly_fat_sectors l))) @
     [if i + 1 < length (ly_difat_sectors l) then ly_difat_sectors l ! (i + 1) else ENDOFCHAIN]"

definition difat_bytes :: "layout \<Rightarrow> cfb_error + bytes" where
  "difat_bytes l = ebind (emap (\<lambda>i. packs (difat_sector l i)) [0..<length (ly_difat_sectors l)]) (\<lambda>bs. Inr (concat bs))"

definition file_bytes :: "placing \<Rightarrow> layout \<Rightarrow> link list \<Rightarrow> cf_entry list \<Rightarrow> cfb_error + bytes" where
  "file_bytes p l links nodes =
     ebind (header_bytes p l) (\<lambda>header.
     ebind (minifat_bytes p) (\<lambda>minifat.
     ebind (directory_bytes p l links nodes) (\<lambda>directory.
     ebind (packs (ly_fat l)) (\<lambda>fat.
     ebind (difat_bytes l) (\<lambda>difat.
     Inr (header @ concat (map (\<lambda>(sid, d). fill_up SECTOR d) (pl_big p)) @ fill_up SECTOR (pl_mini p) @ minifat @ directory @
       fat @ difat))))))"

definition no_placing :: placing where
  "no_placing = \<lparr>pl_mini = [], pl_minifat = [], pl_start = [], pl_big = []\<rparr>"

definition cfb_write :: "(ustr \<Rightarrow> ustr) \<Rightarrow> cf_entry \<Rightarrow> bytes res" where
  "cfb_write upper e =
     (let nodes = number 0 e; es = map fst nodes in
      rbind (Some (link_nodes upper 0 nodes (replicate (length nodes) new_link))) (\<lambda>links.
      let p = place_streams 0 es no_placing in
      case size_loop (data_count p (length nodes)) 0 0 of
        None \<Rightarrow> None
      | Some (fat_count, difat_count) \<Rightarrow>
          Some (file_bytes p (lay_out p (length nodes) fat_count difat_count) links es)))"

end
