(* ===== verification/CompoundTree.thy ===== *)
theory CompoundTree
  imports CompoundWrite
begin

text \<open>
  The trees of siblings that \<open>_tree\<close> of \<open>src/xgen_sdk/control_policy/_cfb.py\<close> builds in the links: halving
  the ordered list gives a search tree in which all empty places are on the last two levels, and
  the colors make it a red-black tree.
\<close>

section \<open>Halving\<close>

function lay :: "'a list \<Rightarrow> 'a Tree.tree" where
  "lay xs = (if xs = [] then Leaf
     else Node (lay (take (length xs div 2) xs)) (xs ! (length xs div 2)) (lay (drop (Suc (length xs div 2)) xs)))"
  by pat_completeness auto
termination by (relation "measure length") auto

declare lay.simps [simp del]

lemma lay_Nil [simp]: "lay [] = Leaf"
  by (simp add: lay.simps)

lemma lay_nonempty: "xs \<noteq> [] \<Longrightarrow>
    lay xs = Node (lay (take (length xs div 2) xs)) (xs ! (length xs div 2)) (lay (drop (Suc (length xs div 2)) xs))"
  by (subst lay.simps) simp

lemma lay_map: "lay (map f xs) = map_tree f (lay xs)"
proof (induction xs rule: lay.induct)
  case (1 xs)
  show ?case
  proof (cases "xs = []")
    case False
    then show ?thesis
      by (simp add: lay_nonempty[of "map f xs"] lay_nonempty[of xs] take_map drop_map nth_map 1)
  qed simp
qed

lemma inorder_lay [simp]: "inorder (lay xs) = xs"
proof (induction xs rule: lay.induct)
  case (1 xs)
  show ?case
  proof (cases "xs = []")
    case False
    then show ?thesis by (simp add: lay_nonempty 1 id_take_nth_drop[symmetric])
  qed simp
qed

lemma set_lay [simp]: "set_tree (lay xs) = set xs"
  by (metis inorder_lay set_inorder)

lemma size_lay [simp]: "size (lay xs) = length xs"
  by (metis inorder_lay length_inorder)

lemma height_lay: "length xs + 1 \<le> 2 ^ k \<Longrightarrow> height (lay xs) \<le> k"
proof (induction xs arbitrary: k rule: lay.induct)
  case (1 xs)
  show ?case
  proof (cases "xs = []")
    case False
    then obtain j where k: "k = Suc j" using "1.prems" by (cases k) (auto simp: neq_Nil_conv)
    have "height (lay (take (length xs div 2) xs)) \<le> j" "height (lay (drop (Suc (length xs div 2)) xs)) \<le> j"
      using "1.prems" k by (auto intro!: 1(1,2)[OF False])
    then show ?thesis using False k by (simp add: lay_nonempty)
  qed simp
qed

lemma min_height_lay: "2 ^ k \<le> length xs + 1 \<Longrightarrow> k \<le> min_height (lay xs)"
proof (induction xs arbitrary: k rule: lay.induct)
  case (1 xs)
  show ?case
  proof (cases k)
    case (Suc j)
    have "2 \<le> (2::nat) ^ k" using Suc by simp
    then have ne: "xs \<noteq> []" using "1.prems" by auto
    have "j \<le> min_height (lay (take (length xs div 2) xs))" "j \<le> min_height (lay (drop (Suc (length xs div 2)) xs))"
      using "1.prems" Suc by (auto intro!: 1(1,2)[OF ne])
    then show ?thesis using ne Suc by (simp add: lay_nonempty)
  qed simp
qed

section \<open>Links\<close>

fun linked :: "link list \<Rightarrow> nat Tree.tree \<Rightarrow> nat \<Rightarrow> bool" where
  "linked links Leaf s = (s = NOSTREAM)"
| "linked links (Node l x r) s = (s = x \<and> linked links l (lk_left (links ! x)) \<and> linked links r (lk_right (links ! x)))"

fun levels :: "'a Tree.tree \<Rightarrow> nat \<Rightarrow> ('a \<times> nat) list" where
  "levels Leaf k = []"
| "levels (Node l x r) k = levels r (Suc k) @ levels l (Suc k) @ [(x, k)]"

lemma linked_cong:
  "(\<And>x. x \<in> set_tree t \<Longrightarrow> lk_left (links' ! x) = lk_left (links ! x) \<and> lk_right (links' ! x) = lk_right (links ! x)) \<Longrightarrow>
     linked links' t s = linked links t s"
  by (induction t arbitrary: s) auto

lemma length_upd [simp]: "length (upd i f xs) = length xs"
  by (simp add: upd_def)

lemma nth_upd: "i < length xs \<Longrightarrow> upd i f xs ! j = (if j = i then f (xs ! i) else xs ! j)"
  by (auto simp: upd_def nth_list_update)

definition same_rest :: "link list \<Rightarrow> link list \<Rightarrow> nat set \<Rightarrow> bool" where
  "same_rest links' links S \<longleftrightarrow> length links' = length links \<and> (\<forall>s. s \<notin> S \<longrightarrow> links' ! s = links ! s) \<and>
     (\<forall>s. lk_child (links' ! s) = lk_child (links ! s))"

lemma same_rest_refl: "same_rest links links S"
  by (simp add: same_rest_def)

lemma same_rest_trans: "same_rest l2 l1 S \<Longrightarrow> same_rest l1 l0 T \<Longrightarrow> S \<union> T \<subseteq> U \<Longrightarrow> same_rest l2 l0 U"
  unfolding same_rest_def by (metis UnCI subsetD)

lemma same_rest_upd:
  "s < length links \<Longrightarrow> s \<in> S \<Longrightarrow> lk_child (f (links ! s)) = lk_child (links ! s) \<Longrightarrow> same_rest (upd s f links) links S"
  by (auto simp: same_rest_def nth_upd)

definition segment :: "nat list \<Rightarrow> int \<Rightarrow> int \<Rightarrow> nat list" where
  "segment sids lo hi = take (nat (hi - lo + 1)) (drop (nat lo) sids)"

lemma segment_split:
  assumes "0 \<le> lo" "lo \<le> hi" "hi < int (length sids)"
  defines "mid \<equiv> (lo + hi + 1) div 2"
  shows "lay (segment sids lo hi) = Node (lay (segment sids lo (mid - 1))) (sids ! nat mid) (lay (segment sids (mid + 1) hi))"
    "lo \<le> mid" "mid \<le> hi"
proof -
  show m: "lo \<le> mid" "mid \<le> hi" using assms by auto
  let ?n = "nat (hi - lo + 1)"
  have n: "length (segment sids lo hi) = ?n" using assms by (simp add: segment_def)
  have h: "nat (mid - lo) = ?n div 2" using assms unfolding mid_def by linarith
  have ne: "segment sids lo hi \<noteq> []" using n assms by auto
  have 1: "take (?n div 2) (segment sids lo hi) = segment sids lo (mid - 1)"
    using assms m h by (simp add: segment_def min_def)
  have 2: "segment sids lo hi ! (?n div 2) = sids ! nat mid"
    using assms m h by (simp add: segment_def nat_add_distrib[symmetric] flip: h)
  have "nat (mid + 1) = nat lo + Suc (?n div 2)" "nat (hi - (mid + 1) + 1) = ?n - Suc (?n div 2)"
    using assms(1,2) m h by linarith+
  then have 3: "drop (Suc (?n div 2)) (segment sids lo hi) = segment sids (mid + 1) hi"
    by (simp add: segment_def drop_take add.commute)
  show "lay (segment sids lo hi) = Node (lay (segment sids lo (mid - 1))) (sids ! nat mid) (lay (segment sids (mid + 1) hi))"
    using lay_nonempty[OF ne] n 1 2 3 by simp
qed


lemma set_segment: "set (segment sids lo hi) \<subseteq> set sids"
  unfolding segment_def by (meson dual_order.trans set_drop_subset set_take_subset)

lemma distinct_segment: "distinct sids \<Longrightarrow> distinct (segment sids lo hi)"
  by (simp add: segment_def)

lemma build_lays:
  assumes "0 \<le> lo" "hi < int (length sids)" "distinct sids" "\<forall>s\<in>set sids. s < length links"
    "build sids lo hi level (depth, links) = (r, depth', links')"
  shows "linked links' (lay (segment sids lo hi)) r \<and>
    depth' = levels (lay (segment sids lo hi)) level @ depth \<and>
    same_rest links' links (set (segment sids lo hi)) \<and> (\<forall>s. lk_color (links' ! s) = lk_color (links ! s))"
  using assms
proof (induction "nat (hi - lo + 1)" arbitrary: lo hi level depth links r depth' links' rule: less_induct)
  case less
  show ?case
  proof (cases "hi < lo")
    case True
    then have "segment sids lo hi = []" by (simp add: segment_def)
    then show ?thesis using True less.prems(5) by (simp add: build.simps same_rest_refl)
  next
    case False
    define mid where "mid = (lo + hi + 1) div 2"
    define s where "s = sids ! nat mid"
    from False less.prems have lo: "0 \<le> lo" "lo \<le> hi" "hi < int (length sids)" by auto
    note split = segment_split[OF lo, folded mid_def]
    let ?l = "segment sids lo (mid - 1)" and ?r = "segment sids (mid + 1) hi"
    have nd: "distinct (segment sids lo hi)" using less.prems(3) by (rule distinct_segment)
    then have dis: "distinct (?l @ s # ?r)" and whole: "segment sids lo hi = ?l @ s # ?r"
      using arg_cong[OF split(1), of inorder] by (simp_all add: s_def)
    obtain l1 d1 k1 where b1: "build sids lo (mid - 1) (level + 1) ((s, level) # depth, links) = (l1, d1, k1)"
      by (metis prod_cases3)
    let ?k1 = "upd s (\<lambda>k. k\<lparr>lk_left := l1\<rparr>) k1"
    obtain r1 d2 k2 where b2: "build sids (mid + 1) hi (level + 1) (d1, ?k1) = (r1, d2, k2)"
      by (metis prod_cases3)
    have res: "r = s" "depth' = d2" "links' = upd s (\<lambda>k. k\<lparr>lk_right := r1\<rparr>) k2"
      using less.prems(5) False b1 b2 by (auto simp: build.simps[of sids lo hi] Let_def mid_def s_def)
    have IH1: "linked k1 (lay ?l) l1 \<and> d1 = levels (lay ?l) (level + 1) @ (s, level) # depth \<and>
        same_rest k1 links (set ?l) \<and> (\<forall>s. lk_color (k1 ! s) = lk_color (links ! s))"
      using lo split b1 less.prems by (intro less.hyps) auto
    have len1: "length k1 = length links" using IH1 by (simp add: same_rest_def)
    have s: "s < length links" using less.prems(4) lo split by (auto simp: s_def)
    have IH2: "linked k2 (lay ?r) r1 \<and> d2 = levels (lay ?r) (level + 1) @ d1 \<and>
        same_rest k2 ?k1 (set ?r) \<and> (\<forall>s. lk_color (k2 ! s) = lk_color (?k1 ! s))"
      using lo split b2 less.prems len1 by (intro less.hyps) auto
    have notin: "s \<notin> set ?l" "s \<notin> set ?r" "set ?l \<inter> set ?r = {}" using dis by auto
    have len2: "length k2 = length links" using IH2 len1 by (simp add: same_rest_def)
    have k1: "?k1 ! x = (if x = s then (k1 ! s)\<lparr>lk_left := l1\<rparr> else k1 ! x)" for x
      using s len1 by (simp add: nth_upd)
    have k2: "links' ! x = (if x = s then (k2 ! s)\<lparr>lk_right := r1\<rparr> else k2 ! x)" for x
      using s len2 by (simp add: nth_upd res)
    have out: "k2 ! x = ?k1 ! x" if "x \<notin> set ?r" for x using IH2 that by (simp add: same_rest_def)
    have left: "links' ! x = k1 ! x" if "x \<in> set ?l" for x
    proof -
      have "x \<noteq> s" "x \<notin> set ?r" using that notin by auto
      then show ?thesis using out k1 k2 by simp
    qed
    have "linked links' (lay ?l) l1"
      using IH1 left by (subst linked_cong[where links = k1]) auto
    moreover have "linked links' (lay ?r) r1"
      using IH2 notin by (subst linked_cong[where links = k2]) (auto simp: k2)
    moreover have "lk_left (links' ! s) = l1" "lk_right (links' ! s) = r1"
      using notin out by (simp_all add: k2 k1)
    moreover have "same_rest links' links (set (segment sids lo hi))"
    proof -
      have "length links' = length links" using len2 res by simp
      moreover have "links' ! x = links ! x" if "x \<notin> set (segment sids lo hi)" for x
        using that IH1 out by (simp add: same_rest_def whole k1 k2)
      moreover have "lk_child (links' ! x) = lk_child (links ! x)" for x
        using IH1 IH2 by (simp add: same_rest_def k1 k2)
      ultimately show ?thesis by (simp add: same_rest_def)
    qed
    moreover have "\<forall>x. lk_color (links' ! x) = lk_color (links ! x)"
      using IH1 IH2 by (auto simp: k2 k1)
    ultimately show ?thesis using IH1 IH2 res split(1) by (simp add: s_def)
  qed
qed

section \<open>Colors\<close>

text \<open>On every way down from a node to an empty place there are \<open>n\<close> black nodes, and no red node has a
  red child.\<close>

fun black_paths :: "link list \<Rightarrow> nat Tree.tree \<Rightarrow> nat \<Rightarrow> bool" where
  "black_paths links Leaf n = (n = 0)"
| "black_paths links (Node l x r) n =
     (if lk_color (links ! x) = BLACK
      then 0 < n \<and> black_paths links l (n - 1) \<and> black_paths links r (n - 1)
      else black_paths links l n \<and> black_paths links r n)"

fun red :: "link list \<Rightarrow> nat Tree.tree \<Rightarrow> bool" where
  "red links Leaf = False"
| "red links (Node l x r) = (lk_color (links ! x) = RED)"

fun no_red_pair :: "link list \<Rightarrow> nat Tree.tree \<Rightarrow> bool" where
  "no_red_pair links Leaf = True"
| "no_red_pair links (Node l x r) = ((red links (Node l x r) \<longrightarrow> \<not> red links l \<and> \<not> red links r) \<and>
     no_red_pair links l \<and> no_red_pair links r)"

text \<open>Every node of the tree, which starts on level \<open>k\<close>, has the color that the level gives it.\<close>

fun level_colored :: "link list \<Rightarrow> (nat \<Rightarrow> bool) \<Rightarrow> nat Tree.tree \<Rightarrow> nat \<Rightarrow> bool" where
  "level_colored links is_red Leaf k = True"
| "level_colored links is_red (Node l x r) k =
     (lk_color (links ! x) = (if is_red k then RED else BLACK) \<and>
      level_colored links is_red l (Suc k) \<and> level_colored links is_red r (Suc k))"

lemma black_paths_last_red:
  assumes "level_colored links (\<lambda>k. k = h) t k" "k + height t \<le> Suc h" "h \<le> k + min_height t"
  shows "black_paths links t (h - k) \<and> no_red_pair links t"
  using assms
proof (induction t arbitrary: k)
  case (Node l x r)
  show ?case
  proof (cases "k = h")
    case True
    then have "l = Leaf" "r = Leaf" using Node.prems(2) by (auto)
    then show ?thesis using Node.prems True by (simp add: RED_def BLACK_def)
  next
    case False
    then have k: "k < h" using Node.prems(2) by simp
    have "black_paths links l (h - Suc k) \<and> no_red_pair links l"
      by (rule Node.IH(1)) (use Node.prems k in auto)
    moreover have "black_paths links r (h - Suc k) \<and> no_red_pair links r"
      by (rule Node.IH(2)) (use Node.prems k in auto)
    ultimately show ?thesis using Node.prems k by (simp add: RED_def BLACK_def)
  qed
qed simp

lemma black_paths_all_black:
  assumes "level_colored links (\<lambda>k. False) t k" "complete t"
  shows "black_paths links t (height t) \<and> no_red_pair links t"
  using assms
proof (induction t arbitrary: k)
  case (Node l x r)
  then show ?case by (simp add: RED_def BLACK_def) (metis max.idem)
qed simp

lemma levels_bounds: "(x, m) \<in> set (levels t k) \<Longrightarrow> k \<le> m \<and> m < k + height t"
  by (induction t arbitrary: k) fastforce+

lemma levels_deepest: "t \<noteq> Leaf \<Longrightarrow> \<exists>x. (x, k + height t - 1) \<in> set (levels t k)"
proof (induction t arbitrary: k)
  case (Node l x r)
  show ?case
  proof (cases "l = Leaf \<and> r = Leaf")
    case False
    then show ?thesis
    proof (cases "height r \<le> height l")
      case True
      with False have "l \<noteq> Leaf" by (auto)
      then show ?thesis using Node.IH(1)[of "Suc k"] True by (auto simp: max_def)
    next
      case lr: False
      then have "r \<noteq> Leaf" by auto
      then show ?thesis using Node.IH(2)[of "Suc k"] lr by (auto simp: max_def)
    qed
  qed auto
qed simp

lemma fst_levels: "fst ` set (levels t k) = set_tree t"
  by (induction t arbitrary: k) (auto simp: image_Un)

lemma distinct_levels: "distinct (inorder t) \<Longrightarrow> distinct (map fst (levels t k))"
proof (induction t arbitrary: k)
  case (Node l x r)
  have "set (map fst (levels t k)) = set_tree t" for t :: "'a Tree.tree" and k
    using fst_levels[of t k] by simp
  then show ?case using Node by (auto simp: image_iff set_inorder[symmetric] simp del: set_map set_inorder)
qed simp

lemma foldr_max: "xs \<noteq> [] \<Longrightarrow> foldr max xs (0::nat) = Max (set xs)"
proof (induction xs)
  case (Cons x xs)
  then show ?case by (cases xs) simp_all
qed simp

lemma level_colored_by_depth:
  assumes "\<And>x m. (x, m) \<in> set (levels t k) \<Longrightarrow> lk_color (links ! x) = (if is_red m then RED else BLACK)"
  shows "level_colored links is_red t k"
  using assms by (induction t arbitrary: k) auto

lemma level_colored_cong:
  "level_colored links is_red t k \<Longrightarrow> (\<And>m. k \<le> m \<Longrightarrow> m < k + height t \<Longrightarrow> is_red m = is_red' m) \<Longrightarrow>
     level_colored links is_red' t k"
  by (induction t arbitrary: k) auto

section \<open>The tree of siblings\<close>

lemma fold_color:
  assumes "\<forall>s\<in>set sids. s < length links"
  shows "length (fold (\<lambda>s. upd s (\<lambda>k. k\<lparr>lk_color := c s\<rparr>)) sids links) = length links \<and>
    fold (\<lambda>s. upd s (\<lambda>k. k\<lparr>lk_color := c s\<rparr>)) sids links ! x =
      (if x \<in> set sids then (links ! x)\<lparr>lk_color := c x\<rparr> else links ! x)"
  using assms by (induction sids arbitrary: links) (auto simp: nth_upd)

lemma deepest_level:
  assumes "sids \<noteq> []"
  shows "foldr max (map snd (levels (lay sids) 0)) 0 = height (lay sids) - 1"
proof -
  let ?t = "lay sids"
  have ne: "?t \<noteq> Leaf" using assms by (simp add: lay_nonempty)
  from levels_deepest[OF ne, of 0] obtain x where x: "(x, height ?t - 1) \<in> set (levels ?t 0)" by auto
  then have "height ?t - 1 \<in> snd ` set (levels ?t 0)" by force
  then have "Max (set (map snd (levels ?t 0))) = height ?t - 1"
    by (intro Max_eqI) (auto dest!: levels_bounds)
  moreover have "map snd (levels ?t 0) \<noteq> []" using x by auto
  ultimately show ?thesis by (simp add: foldr_max del: set_map)
qed

lemma perfect_iff_complete: "length sids = 2 ^ height (lay sids) - 1 \<Longrightarrow> complete (lay sids)"
proof -
  assume "length sids = 2 ^ height (lay sids) - 1"
  then have "size1 (lay sids) = 2 ^ height (lay sids)" by (simp add: size1_size)
  then show ?thesis by (rule complete_if_size1_height)
qed

lemma lay_nearly_full: "sids \<noteq> [] \<Longrightarrow> height (lay sids) - 1 \<le> min_height (lay sids)"
proof (rule min_height_lay, rule ccontr)
  assume ne: "sids \<noteq> []" and "\<not> 2 ^ (height (lay sids) - 1) \<le> length sids + 1"
  then have "height (lay sids) \<le> height (lay sids) - 1" by (intro height_lay) simp
  then show False using ne by (simp add: lay_nonempty)
qed

lemma tree_lays:
  assumes "distinct sids" "sids \<noteq> []" "\<forall>s\<in>set sids. s < length links" "tree sids links = (r, links')"
  shows "linked links' (lay sids) r" "same_rest links' links (set sids)"
    "\<exists>n. black_paths links' (lay sids) n" "no_red_pair links' (lay sids)" "lk_color (links' ! r) = BLACK"
    "\<forall>s\<in>set sids. lk_color (links' ! s) \<in> {RED, BLACK}"
proof -
  let ?t = "lay sids"
  define h where "h = height ?t - 1"
  have ne: "?t \<noteq> Leaf" using assms(2) by (simp add: lay_nonempty)
  then have h: "height ?t = Suc h" by (cases ?t) (auto simp: h_def)
  obtain depth links1 where b: "build sids 0 (int (length sids) - 1) 0 ([], links) = (r, depth, links1)"
    using assms(4) by (auto simp: tree_def Let_def split: prod.splits)
  have seg: "segment sids 0 (int (length sids) - 1) = sids" by (simp add: segment_def)
  have built: "linked links1 ?t r" "depth = levels ?t 0" "same_rest links1 links (set sids)"
    using build_lays[OF _ _ assms(1,3) b] seg by auto
  define c where "c s = (if length sids \<noteq> 2 ^ height ?t - 1 \<and> map_of depth s = Some h then RED else BLACK)" for s
  have links': "links' = fold (\<lambda>s. upd s (\<lambda>k. k\<lparr>lk_color := c s\<rparr>)) sids links1"
    using assms(4) b built(2) deepest_level[OF assms(2)] h by (auto simp: tree_def Let_def c_def)
  have len: "\<forall>s\<in>set sids. s < length links1" using assms(3) built(3) by (simp add: same_rest_def)
  note fc = fold_color[OF len, of c, folded links']
  show same: "same_rest links' links (set sids)"
    using built(3) fc by (auto simp: same_rest_def)
  show link: "linked links' ?t r"
    using built(1) fc by (subst linked_cong[where links = links1]) auto
  have color: "lk_color (links' ! x) = c x" if "x \<in> set sids" for x using fc that by simp
  then show "\<forall>s\<in>set sids. lk_color (links' ! s) \<in> {RED, BLACK}" by (simp add: c_def)
  have dis: "distinct (map fst (levels ?t 0))" using assms(1) by (intro distinct_levels) simp
  have r: "r \<in> set sids" "(r, 0) \<in> set (levels ?t 0)"
  proof -
    obtain l x rr where t: "?t = Node l x rr" using ne by (cases ?t) auto
    then have "r = x" using link by simp
    then show "(r, 0) \<in> set (levels ?t 0)" using t by simp
    show "r \<in> set sids" using t \<open>r = x\<close> by (metis set_lay tree.set_intros(2))
  qed
  have lev: "lk_color (links' ! x) = (if length sids \<noteq> 2 ^ height ?t - 1 \<and> m = h then RED else BLACK)"
    if "(x, m) \<in> set (levels ?t 0)" for x m
  proof -
    have "x \<in> set sids" using that fst_levels[of ?t 0] by force
    moreover have "map_of depth x = Some m" using that dis built(2) by simp
    ultimately show ?thesis using color by (simp add: c_def)
  qed
  have "(\<exists>n. black_paths links' ?t n) \<and> no_red_pair links' ?t \<and> lk_color (links' ! r) = BLACK"
  proof (cases "length sids = 2 ^ height ?t - 1")
    case True
    then have "level_colored links' (\<lambda>m. False) ?t 0" by (intro level_colored_by_depth) (simp add: lev)
    from black_paths_all_black[OF this perfect_iff_complete[OF True]] show ?thesis
      using lev[OF r(2)] True by auto
  next
    case False
    then have "level_colored links' (\<lambda>m. m = h) ?t 0" by (intro level_colored_by_depth) (simp add: lev)
    from black_paths_last_red[OF this] have bp: "black_paths links' ?t h \<and> no_red_pair links' ?t"
      using h lay_nearly_full[OF assms(2)] by simp
    have "h \<noteq> 0"
    proof
      assume "h = 0"
      then have "height ?t = 1" using h by simp
      moreover have "size ?t \<noteq> 0" using assms(2) by simp
      ultimately have "length sids = 1"
        using size1_height[of ?t] assms(2) by (cases sids) (auto simp: size1_size)
      then show False using False \<open>height ?t = 1\<close> by simp
    qed
    then show ?thesis using bp lev[OF r(2)] by auto
  qed
  then show "\<exists>n. black_paths links' (lay sids) n" "no_red_pair links' (lay sids)" "lk_color (links' ! r) = BLACK" by auto
qed

text \<open>C39. The siblings of a storage are tied to a red-black search tree: in order its nodes are the
  siblings in their order, every way down from the top passes equally many black nodes, no red node has a
  red child, the top is black, and the links of other nodes stay as they were.\<close>

theorem siblings_are_red_black:
  assumes "distinct sids" "sids \<noteq> []" "\<forall>s\<in>set sids. s < length links" "tree sids links = (r, links')"
  shows "\<exists>t. inorder t = sids \<and> linked links' t r \<and> (\<exists>n. black_paths links' t n) \<and> no_red_pair links' t \<and>
    lk_color (links' ! r) = BLACK \<and> (\<forall>s. s \<notin> set sids \<longrightarrow> links' ! s = links ! s)"
  using tree_lays[OF assms] by (intro exI[of _ "lay sids"]) (simp add: same_rest_def)

theorem siblings_are_red_black_witness:
  "\<exists>t. inorder t = [1, 2] \<and> linked (snd (tree [1, 2] (replicate 3 new_link))) t (fst (tree [1, 2] (replicate 3 new_link)))"
  using siblings_are_red_black[of "[1, 2]" "replicate 3 new_link" "fst (tree [1, 2] (replicate 3 new_link))"
      "snd (tree [1, 2] (replicate 3 new_link))"] by force

end
