(* ===== verification/CompoundLayout.thy ===== *)
theory CompoundLayout
  imports CompoundTree
begin

text \<open>
  The places that \<open>write\<close> of \<open>src/xgen_sdk/control_policy/_cfb.py\<close> gives to the streams: the loop that sizes
  the tables ends with tables that suffice, and each stream gets a run of consecutive sectors that
  the table chains from its start to its end.
\<close>

section \<open>The sizes of the tables\<close>

lemma need_bound:
  assumes "f + d \<le> D + 3"
  shows "need_fat D f d + need_difat (need_fat D f d) \<le> D + 3"
proof -
  let ?n = "need_fat D f d"
  have "?n * 128 \<le> D + f + d + 127" by (simp add: need_fat_def)
  moreover have "need_difat ?n * 127 \<le> (?n - HEADER_DIFAT) + 126" unfolding need_difat_def by simp
  ultimately show ?thesis using assms by linarith
qed

lemma need_mono: "f \<le> f' \<Longrightarrow> d \<le> d' \<Longrightarrow> need_fat D f d \<le> need_fat D f' d'"
  by (simp add: need_fat_def div_le_mono)

lemma need_difat_mono: "f \<le> f' \<Longrightarrow> need_difat f \<le> need_difat f'"
  by (simp add: need_difat_def div_le_mono)

lemma size_loop_ends:
  assumes "f \<le> need_fat D f d" "d \<le> need_difat (need_fat D f d)" "f + d \<le> D + 3"
  shows "\<exists>f' d'. size_loop D f d = Some (f', d') \<and> need_fat D f' d' = f' \<and> need_difat f' = d' \<and> f' + d' \<le> D + 3"
  using assms
proof (induction "D + 3 - (f + d)" arbitrary: f d rule: less_induct)
  case less
  let ?f = "need_fat D f d" and ?d = "need_difat (need_fat D f d)"
  show ?case
  proof (cases "(?f, ?d) = (f, d)")
    case True
    then have fixed: "?f = f" "need_difat f = d" by auto
    then have "size_loop D f d = Some (f, d)" by (subst size_loop.simps) (simp add: Let_def)
    with fixed have "size_loop D f d = Some (f, d)" "?f = f" "need_difat f = d" by auto
    then show ?thesis using less.prems by blast
  next
    case False
    then have "?f \<noteq> f \<or> ?d \<noteq> d" by blast
    then have grow: "f + d < ?f + ?d" using less.prems(1,2) by linarith
    moreover have "?f + ?d \<le> D + 3" by (rule need_bound[OF less.prems(3)])
    ultimately have "\<exists>f' d'. size_loop D ?f ?d = Some (f', d') \<and> need_fat D f' d' = f' \<and> need_difat f' = d' \<and> f' + d' \<le> D + 3"
      using less.prems by (intro less.hyps) (auto intro!: need_mono need_difat_mono)
    then show ?thesis using False by (subst size_loop.simps) (auto simp: Let_def)
  qed
qed

lemma size_loop_fits:
  obtains f d where "size_loop D 0 0 = Some (f, d)" "D + f + d \<le> 128 * f" "f \<le> HEADER_DIFAT + 127 * d"
    "f + d \<le> D + 3" "f \<le> HEADER_DIFAT \<Longrightarrow> d = 0"
proof -
  obtain f d where s: "size_loop D 0 0 = Some (f, d)" "need_fat D f d = f" "need_difat f = d" "f + d \<le> D + 3"
    using size_loop_ends[of 0 D 0] by auto
  have "D + f + d \<le> 128 * ((D + f + d + 127) div 128)" by linarith
  then have 1: "D + f + d \<le> 128 * f" using s(2) by (simp add: need_fat_def)
  have "f - HEADER_DIFAT \<le> 127 * ((f - HEADER_DIFAT + 126) div 127)" by linarith
  then have 2: "f \<le> HEADER_DIFAT + 127 * d" using s(3) by (simp add: need_difat_def)
  have "f \<le> HEADER_DIFAT \<Longrightarrow> d = 0" using s(3) by (auto simp: need_difat_def)
  then show ?thesis using that s 1 2 by blast
qed

text \<open>C38. Reading and writing end, on any bytes and any entry: whatever the sector tables and the directory
  hold, no loop of the reader runs for ever, and the loop that finds how many sectors the tables of sectors
  need, which they take up themselves, comes to rest.\<close>

theorem reading_and_writing_end: "(\<exists>r. cfb_read raw = Some r) \<and> (\<exists>w. cfb_write upper e = Some w)"
proof
  show "\<exists>r. cfb_read raw = Some r" using cfb_read_returns[of raw] by (auto simp: returns_def)
  let ?n = "length (number 0 e)"
  obtain f d where "size_loop (data_count (place_streams 0 (map fst (number 0 e)) no_placing) ?n) 0 0 = Some (f, d)"
    by (rule size_loop_fits)
  then show "\<exists>w. cfb_write upper e = Some w"
    by (cases "link_nodes upper 0 (number 0 e) (replicate ?n new_link)") (auto simp: cfb_write_def Let_def)
qed

section \<open>Runs\<close>

definition run :: "nat list \<Rightarrow> nat \<Rightarrow> nat \<Rightarrow> bool" where
  "run fat s n \<longleftrightarrow> s + n \<le> length fat \<and> (\<forall>i<n. fat ! (s + i) = (if Suc i = n then ENDOFCHAIN else s + i + 1))"

lemma chain_loop_run:
  assumes "run fat s n" "s + n \<le> MAXREGSECT" "i < n"
  shows "chain_loop fat (s + i) (rev [s..<s + i]) out = Some (Inr (out @ [s + i..<s + n]))"
  using assms(3)
proof (induction "n - i" arbitrary: i out)
  case (Suc k)
  have nx: "fat ! (s + i) = (if Suc i = n then ENDOFCHAIN else s + i + 1)" "s + i < length fat"
    using assms(1) Suc.prems by (auto simp: run_def)
  have step: "chain_loop fat (s + i) (rev [s..<s + i]) out = chain_loop fat (fat ! (s + i)) ((s + i) # rev [s..<s + i]) (out @ [s + i])"
    using assms(2) Suc.prems nx by (subst chain_loop.simps) simp
  show ?case
  proof (cases "Suc i = n")
    case True
    then show ?thesis unfolding step using nx
      by (subst chain_loop.simps) (simp add: ENDOFCHAIN_def MAXREGSECT_def flip: True)
  next
    case False
    then have "chain_loop fat (s + Suc i) (rev [s..<s + Suc i]) (out @ [s + i]) = Some (Inr ((out @ [s + i]) @ [s + Suc i..<s + n]))"
      using Suc by (intro Suc.hyps) auto
    then show ?thesis unfolding step using nx False Suc.prems by (simp add: upt_conv_Cons)
  qed
qed simp

lemma chain_run:
  assumes "run fat s n" "s + n \<le> MAXREGSECT" "0 < n"
  shows "chain s fat = Some (Inr [s..<s + n])"
  using chain_loop_run[OF assms, of "[]"] by (simp add: chain_def)

lemma chain_end: "chain ENDOFCHAIN fat = Some (Inr [])"
  by (simp add: chain_def chain_loop.simps ENDOFCHAIN_def MAXREGSECT_def)

lemma run_append: "run fat s n \<Longrightarrow> run (fat @ fat') s n"
  by (auto simp: run_def nth_append)

lemma run_shift: "run [s + 1..<s + n] 0 0"
  by (simp add: run_def)

lemma run_new:
  assumes "0 < n"
  shows "run (fat @ [length fat + 1..<length fat + n] @ [ENDOFCHAIN]) (length fat) n"
  using assms by (auto simp: run_def nth_append)

lemma run_cong: "run fat s n \<Longrightarrow> length fat' = length fat \<Longrightarrow> (\<And>j. s \<le> j \<Longrightarrow> j < s + n \<Longrightarrow> fat' ! j = fat ! j) \<Longrightarrow> run fat' s n"
  by (auto simp: run_def)

lemma fold_list_update:
  "length (fold (\<lambda>s f. f[s := g s]) xs fat) = length fat \<and>
   fold (\<lambda>s f. f[s := g s]) xs fat ! j = (if j \<in> set xs \<and> j < length fat then g j else fat ! j)"
proof (induction xs arbitrary: fat)
  case (Cons a xs)
  then show ?case by (cases "j = a"; cases "j < length fat") (auto simp: list_update_beyond)
qed simp

lemma fold_successors:
  "fold (\<lambda>i f. f[c + i := Suc (c + i)]) [0..<k] fat = fold (\<lambda>s f. f[s := Suc s]) [c..<c + k] fat"
  by (induction k) simp_all

lemma place_run:
  assumes "place n (c, fat) = (s, c', fat')" "c + n \<le> length fat"
  shows "c' = c + n" "length fat' = length fat" "\<And>j. j < c \<or> c + n \<le> j \<Longrightarrow> fat' ! j = fat ! j"
    "s = (if n = 0 then ENDOFCHAIN else c)" "0 < n \<Longrightarrow> run fat' c n"
proof -
  note fu = fold_list_update[of Suc "[c..<c + (n - 1)]" fat]
  show "c' = c + n" "s = (if n = 0 then ENDOFCHAIN else c)" using assms by (auto simp: place_def split: if_splits)
  show "length fat' = length fat" "\<And>j. j < c \<or> c + n \<le> j \<Longrightarrow> fat' ! j = fat ! j"
    using assms fu by (auto simp: place_def fold_successors nth_list_update split: if_splits)
  show "0 < n \<Longrightarrow> run fat' c n"
    using assms fu by (auto simp: place_def fold_successors run_def nth_list_update split: if_splits)
qed


lemma place_bound:
  assumes "place n (c, fat) = (s, c', fat')" "c + n \<le> 2 ^ 32" "\<forall>x\<in>set fat. x < 2 ^ 32"
  shows "\<forall>x\<in>set fat'. x < 2 ^ 32"
proof -
  let ?f = "fold (\<lambda>s f. f[s := Suc s]) [c..<c + (n - 1)] fat"
  have "?f ! i < 2 ^ 32" if "i < length fat" for i
    using that assms(2) nth_mem[OF that] assms(3) fold_list_update[of Suc "[c..<c + (n - 1)]" fat] by auto
  then have "\<forall>i<length ?f. ?f ! i < 2 ^ 32"
    using fold_list_update[of Suc "[c..<c + (n - 1)]" fat] by simp
  then have "\<forall>x\<in>set ?f. x < 2 ^ 32" by (simp only: all_set_conv_all_nth)
  moreover have "ENDOFCHAIN < 2 ^ 32" by (simp add: ENDOFCHAIN_def)
  ultimately have "\<forall>x\<in>set (?f[i := ENDOFCHAIN]). x < 2 ^ 32" for i
    using set_update_subset_insert[of ?f i ENDOFCHAIN] by blast
  then show ?thesis using assms(1,3) by (auto simp: place_def fold_successors split: if_splits)
qed

section \<open>The streams\<close>

lemma round_up: "0 < k \<Longrightarrow> n \<le> (n + k - 1) div k * (k::nat)"
proof -
  assume k: "0 < k"
  have "n + k - 1 = (n + k - 1) div k * k + (n + k - 1) mod k" by simp
  moreover have "(n + k - 1) mod k < k" using k by simp
  ultimately show ?thesis using k by linarith
qed

lemma length_fill_up: "0 < k \<Longrightarrow> length (fill_up k b) = (length b + k - 1) div k * k"
  using round_up[of k "length b"] by (simp add: fill_up_def)

lemma take_fill_up [simp]: "take (length b) (fill_up k b) = b"
  by (simp add: fill_up_def)

definition mini_sectors :: "bytes \<Rightarrow> nat" where
  "mini_sectors d = (length d + MINI_SECTOR - 1) div MINI_SECTOR"

lemma length_fill_up_mini: "length (fill_up MINI_SECTOR d) = 64 * mini_sectors d"
  by (simp add: length_fill_up mini_sectors_def MINI_SECTOR_def)

lemma length_fill_up_sector: "length (fill_up SECTOR d) = 512 * sectors_for (length d)"
  by (simp add: length_fill_up sectors_for_def SECTOR_def)

lemma mini_sectors_pos: "d \<noteq> [] \<Longrightarrow> 0 < mini_sectors d"
  by (cases d) (simp_all add: mini_sectors_def MINI_SECTOR_def)

definition stream_placed :: "placing \<Rightarrow> nat \<Rightarrow> bytes \<Rightarrow> bool" where
  "stream_placed p sid d =
     (if d = [] then map_of (pl_start p) sid = Some ENDOFCHAIN
      else if length d < MINI_CUTOFF
      then \<exists>s. map_of (pl_start p) sid = Some s \<and> run (pl_minifat p) s (mini_sectors d) \<and>
        window (64 * s) (64 * mini_sectors d) (pl_mini p) = fill_up MINI_SECTOR d
      else (sid, d) \<in> set (pl_big p))"

definition shape :: "nat \<Rightarrow> placing \<Rightarrow> bool" where
  "shape k p \<longleftrightarrow> length (pl_mini p) = 64 * length (pl_minifat p) \<and>
     fst ` set (pl_start p) \<inter> fst ` set (pl_big p) = {} \<and>
     fst ` set (pl_start p) \<union> fst ` set (pl_big p) \<subseteq> {..<k} \<and>
     distinct (map fst (pl_big p)) \<and> (\<forall>x\<in>set (pl_big p). MINI_CUTOFF \<le> length (snd x)) \<and>
     (\<forall>x\<in>set (pl_minifat p). x \<le> length (pl_minifat p) \<or> x = ENDOFCHAIN)"

definition placed :: "cf_entry list \<Rightarrow> placing \<Rightarrow> bool" where
  "placed es p \<longleftrightarrow> shape (length es) p \<and>
     (\<forall>sid<length es. is_stream (es ! sid) \<longrightarrow> stream_placed p sid (cf_data (es ! sid)))"

lemma place_stream_cases:
  obtains (other) "cf_kind e \<noteq> KIND_STREAM" "place_stream k e p = p"
  | (empty) "cf_data e = []" "place_stream k e p = p\<lparr>pl_start := (k, ENDOFCHAIN) # pl_start p\<rparr>"
  | (small) n s where "cf_data e \<noteq> []" "length (cf_data e) < MINI_CUTOFF" "n = mini_sectors (cf_data e)" "0 < n"
      "s = length (pl_mini p) div 64"
      "place_stream k e p = p\<lparr>pl_mini := pl_mini p @ fill_up MINI_SECTOR (cf_data e),
        pl_minifat := pl_minifat p @ [s + 1..<s + n] @ [ENDOFCHAIN], pl_start := (k, s) # pl_start p\<rparr>"
  | (big) "MINI_CUTOFF \<le> length (cf_data e)" "place_stream k e p = p\<lparr>pl_big := pl_big p @ [(k, cf_data e)]\<rparr>"
proof -
  consider "cf_kind e \<noteq> KIND_STREAM" | "cf_kind e = KIND_STREAM" "cf_data e = []"
    | "cf_kind e = KIND_STREAM" "cf_data e \<noteq> []" "length (cf_data e) < MINI_CUTOFF"
    | "cf_kind e = KIND_STREAM" "MINI_CUTOFF \<le> length (cf_data e)" by fastforce
  then show thesis
  proof cases
    case 4
    then have "cf_data e \<noteq> []" by (auto simp: MINI_CUTOFF_def)
    with 4 show ?thesis by (intro big) (simp_all add: place_stream_def Let_def)
  qed (use other empty small mini_sectors_pos in \<open>simp_all add: place_stream_def Let_def mini_sectors_def MINI_SECTOR_def\<close>)
qed

lemma shape_step:
  assumes "shape k p"
  shows "shape (Suc k) (place_stream k e p)"
proof -
  have new: "k \<notin> fst ` set (pl_start p)" "k \<notin> fst ` set (pl_big p)" using assms unfolding shape_def by fastforce+
  have sub: "fst ` set (pl_start p) \<union> fst ` set (pl_big p) \<subseteq> {..<Suc k}"
    using assms unfolding shape_def by fastforce
  show ?thesis
  proof (cases rule: place_stream_cases[of e k p])
    case other
    then show ?thesis using assms sub by (simp add: shape_def)
  next
    case empty
    then show ?thesis using assms sub new by (simp add: shape_def)
  next
    case (small n s)
    have "s = length (pl_minifat p)" using assms small by (simp add: shape_def)
    then show ?thesis using assms sub new small by (auto simp: shape_def length_fill_up_mini)
  next
    case big
    then show ?thesis using assms sub new by (simp add: shape_def)
  qed
qed

lemma stream_placed_mono:
  assumes "stream_placed p sid d" "map_of (pl_start p') sid = map_of (pl_start p) sid"
    "pl_minifat p' = pl_minifat p @ mf" "pl_mini p' = pl_mini p @ m" "set (pl_big p) \<subseteq> set (pl_big p')"
    "length (pl_mini p) = 64 * length (pl_minifat p)"
  shows "stream_placed p' sid d"
proof (cases "d = [] \<or> MINI_CUTOFF \<le> length d")
  case True
  then show ?thesis using assms by (auto simp: stream_placed_def)
next
  case False
  then obtain s where s: "map_of (pl_start p) sid = Some s" "run (pl_minifat p) s (mini_sectors d)"
      "window (64 * s) (64 * mini_sectors d) (pl_mini p) = fill_up MINI_SECTOR d"
    using assms(1) by (auto simp: stream_placed_def)
  have "64 * s + 64 * mini_sectors d \<le> length (pl_mini p)" using s(2) assms(6) by (simp add: run_def)
  then show ?thesis using False s assms(2-4) by (auto simp: stream_placed_def run_append window_append_left)
qed

lemma placed_old:
  assumes "shape k p" "stream_placed p sid d" "sid < k"
  shows "stream_placed (place_stream k e p) sid d"
proof -
  have len: "length (pl_mini p) = 64 * length (pl_minifat p)" using assms by (simp add: shape_def)
  show ?thesis
  proof (cases rule: place_stream_cases[of e k p])
    case empty
    then show ?thesis using assms(3) len
      by (intro stream_placed_mono[OF assms(2), where mf = "[]" and m = "[]"]) auto
  next
    case small
    then show ?thesis using assms(3) len by (intro stream_placed_mono[OF assms(2)]) auto
  next
    case big
    then show ?thesis using assms(3) len
      by (intro stream_placed_mono[OF assms(2), where mf = "[]" and m = "[]"]) auto
  qed (use assms in simp)
qed

lemma placed_new:
  assumes "shape k p" "is_stream e"
  shows "stream_placed (place_stream k e p) k (cf_data e)"
proof -
  have len: "length (pl_mini p) = 64 * length (pl_minifat p)" using assms by (simp add: shape_def)
  show ?thesis
  proof (cases rule: place_stream_cases[of e k p])
    case (small n s)
    have s: "s = length (pl_minifat p)" using len small by simp
    have "window (64 * s) (64 * n) (pl_mini p @ fill_up MINI_SECTOR (cf_data e)) = fill_up MINI_SECTOR (cf_data e)"
      using len s small length_fill_up_mini[of "cf_data e"] by (simp add: window_append_right window_def)
    then show ?thesis using small run_new[OF small(4), of "pl_minifat p"] s by (simp add: stream_placed_def)
  next
    case big
    then show ?thesis by (auto simp: stream_placed_def MINI_CUTOFF_def)
  qed (use assms in \<open>simp_all add: is_stream_def stream_placed_def\<close>)
qed

lemma placed_step: "placed es p \<Longrightarrow> placed (es @ [e]) (place_stream (length es) e p)"
  by (auto simp: placed_def shape_step placed_old placed_new nth_append less_Suc_eq)

lemma placed_all: "placed es0 p \<Longrightarrow> placed (es0 @ es) (place_streams (length es0) es p)"
proof (induction es arbitrary: es0 p)
  case (Cons e es)
  then show ?case using placed_step[OF Cons.prems, of e] Cons.IH[of "es0 @ [e]"] by simp
qed simp

lemma placed_streams: "placed es (place_streams 0 es no_placing)"
  using placed_all[of "[]" no_placing es] by (simp add: placed_def shape_def no_placing_def)


section \<open>The layout\<close>

definition sectors_of :: "(nat \<times> bytes) list \<Rightarrow> nat" where
  "sectors_of big = sum_list (map (\<lambda>(sid, d). sectors_for (length d)) big)"

lemma sectors_of_simps [simp]:
  "sectors_of [] = 0" "sectors_of ((sid, d) # big) = sectors_for (length d) + sectors_of big"
  "sectors_of (xs @ ys) = sectors_of xs + sectors_of ys"
  by (simp_all add: sectors_of_def)

lemma sectors_for_pos: "0 < n \<Longrightarrow> 0 < sectors_for n"
  by (simp add: sectors_for_def SECTOR_def)

definition untouched :: "nat list \<Rightarrow> nat list \<Rightarrow> nat \<Rightarrow> nat \<Rightarrow> bool" where
  "untouched fat' fat a b \<longleftrightarrow> length fat' = length fat \<and> (\<forall>j. j < a \<or> b \<le> j \<longrightarrow> fat' ! j = fat ! j)"

lemma untouched_run: "untouched fat' fat a b \<Longrightarrow> run fat s n \<Longrightarrow> s + n \<le> a \<Longrightarrow> run fat' s n"
  by (auto simp: untouched_def intro!: run_cong[of fat s n])

lemma untouched_trans: "untouched f2 f1 b c \<Longrightarrow> untouched f1 f0 a b \<Longrightarrow> a \<le> b \<Longrightarrow> b \<le> c \<Longrightarrow> untouched f2 f0 a c"
  by (auto simp: untouched_def)

lemma untouched_refl [simp]: "untouched f f a b"
  by (simp add: untouched_def)

lemma place_untouched:
  assumes "place n (c, fat) = (s, c', fat')" "c + n \<le> length fat"
  shows "c' = c + n \<and> untouched fat' fat c c' \<and> s = (if n = 0 then ENDOFCHAIN else c) \<and> (0 < n \<longrightarrow> run fat' c n)"
  using place_run[OF assms] by (auto simp: untouched_def)

lemma place_big_runs:
  assumes "place_big big starts (c, fat) = (starts', c', fat')" "c + sectors_of big \<le> length fat"
    "\<forall>x\<in>set big. snd x \<noteq> []" "distinct (map fst big)"
  shows "c' = c + sectors_of big \<and> untouched fat' fat c c' \<and>
    (\<forall>sid. sid \<notin> fst ` set big \<longrightarrow> map_of starts' sid = map_of starts sid) \<and>
    (\<forall>pre sid d post. big = pre @ (sid, d) # post \<longrightarrow>
       map_of starts' sid = Some (c + sectors_of pre) \<and> run fat' (c + sectors_of pre) (sectors_for (length d)))"
  using assms
proof (induction big arbitrary: starts c fat)
  case (Cons x big)
  obtain sid d where x: "x = (sid, d)" by (cases x)
  let ?n = "sectors_for (length d)"
  obtain s c1 fat1 where pl: "place ?n (c, fat) = (s, c1, fat1)" by (metis prod_cases3)
  have n: "0 < ?n" using Cons.prems(3) x by (intro sectors_for_pos) auto
  have p: "c1 = c + ?n" "untouched fat1 fat c c1" "s = c" "run fat1 c ?n"
    using place_untouched[OF pl] Cons.prems(2) x n by auto
  have rec: "place_big big ((sid, c) # starts) (c1, fat1) = (starts', c', fat')"
    using Cons.prems(1) x pl p by simp
  have IH: "c' = c1 + sectors_of big" "untouched fat' fat1 c1 c'"
      "\<And>s. s \<notin> fst ` set big \<Longrightarrow> map_of starts' s = map_of ((sid, c) # starts) s"
      "\<And>pre s d post. big = pre @ (s, d) # post \<Longrightarrow>
         map_of starts' s = Some (c1 + sectors_of pre) \<and> run fat' (c1 + sectors_of pre) (sectors_for (length d))"
  proof -
    have fit: "c1 + sectors_of big \<le> length fat1" using Cons.prems(2) x p by (simp add: untouched_def)
    have ne: "\<forall>x\<in>set big. snd x \<noteq> []" "distinct (map fst big)" using Cons.prems(3,4) by auto
    note IH = Cons.IH[OF rec fit ne]
    show "c' = c1 + sectors_of big" "untouched fat' fat1 c1 c'"
      "\<And>s. s \<notin> fst ` set big \<Longrightarrow> map_of starts' s = map_of ((sid, c) # starts) s"
      "\<And>pre s d post. big = pre @ (s, d) # post \<Longrightarrow>
         map_of starts' s = Some (c1 + sectors_of pre) \<and> run fat' (c1 + sectors_of pre) (sectors_for (length d))"
      using IH by blast+
  qed
  have "untouched fat' fat c c'" by (rule untouched_trans[OF IH(2) p(2)]) (use p IH(1) in auto)
  moreover have "map_of starts' sid = Some c" using IH(3)[of sid] Cons.prems(4) x by simp
  moreover have "run fat' c ?n" using untouched_run[OF IH(2) p(4)] p by simp
  moreover have "map_of starts' s = map_of starts s" if "s \<notin> fst ` set (x # big)" for s
    using IH(3)[of s] that x by simp
  moreover have "map_of starts' s = Some (c + sectors_of pre) \<and> run fat' (c + sectors_of pre) (sectors_for (length e))"
    if "x # big = pre @ (s, e) # post" for pre s e post
    using that IH(4) calculation(2,3) x p(1) by (cases pre) (auto simp: add.assoc)
  ultimately show ?case using IH(1) p(1) x by simp
qed simp

lemma place_big_bound:
  assumes "place_big big starts (c, fat) = (starts', c', fat')" "c + sectors_of big \<le> length fat"
    "length fat \<le> 2 ^ 32" "\<forall>x\<in>set fat. x < 2 ^ 32"
  shows "\<forall>x\<in>set fat'. x < 2 ^ 32"
  using assms
proof (induction big arbitrary: starts c fat)
  case (Cons x big)
  obtain sid d where x: "x = (sid, d)" by (cases x)
  obtain s c1 fat1 where pl: "place (sectors_for (length d)) (c, fat) = (s, c1, fat1)" by (metis prod_cases3)
  have "c1 = c + sectors_for (length d)" "length fat1 = length fat"
    using place_run[OF pl] Cons.prems(2) x by auto
  moreover have "\<forall>x\<in>set fat1. x < 2 ^ 32"
    using Cons.prems x by (intro place_bound[OF pl]) auto
  ultimately show ?case using Cons.prems x pl by (intro Cons.IH[of "(sid, s) # starts" c1 fat1]) auto
qed auto

text \<open>What the layout of a placing with tables of \<open>f\<close> and \<open>d\<close> sectors promises.\<close>

record spots =
  sp_big :: nat
  sp_mini :: nat
  sp_minifat :: nat
  sp_dir :: nat

definition spots_of :: "placing \<Rightarrow> nat \<Rightarrow> spots" where
  "spots_of p n = \<lparr>sp_big = sectors_of (pl_big p), sp_mini = sectors_for (length (pl_mini p)),
     sp_minifat = sectors_for (length (pl_minifat p) * 4), sp_dir = sectors_for (n * 128)\<rparr>"

definition chained :: "nat list \<Rightarrow> nat \<Rightarrow> nat \<Rightarrow> nat \<Rightarrow> bool" where
  "chained fat start s n \<longleftrightarrow> start = (if n = 0 then ENDOFCHAIN else s) \<and> (0 < n \<longrightarrow> run fat s n)"

lemma data_count_spots:
  "data_count p n = sp_big (spots_of p n) + sp_mini (spots_of p n) + sp_minifat (spots_of p n) + sp_dir (spots_of p n)"
  by (simp add: data_count_def spots_of_def sectors_of_def)

lemma fold_const_update:
  "length (fold (\<lambda>s f. f[s := v]) xs fat) = length fat \<and>
   fold (\<lambda>s f. f[s := v]) xs fat ! j = (if j \<in> set xs \<and> j < length fat then v else fat ! j)"
  using fold_list_update[of "\<lambda>_. v" xs fat j] .

lemma fold_const_bound: "v < b \<Longrightarrow> \<forall>x\<in>set fat. x < b \<Longrightarrow> \<forall>x\<in>set (fold (\<lambda>s f. f[s := v]) xs fat). x < (b::nat)"
proof (induction xs arbitrary: fat)
  case (Cons a xs)
  have "\<forall>x\<in>set (fat[a := v]). x < b" using Cons.prems set_update_subset_insert[of fat a v] by blast
  from Cons.IH[OF Cons.prems(1) this] show ?case by simp
qed simp

lemma lay_out_spots:
  assumes p: "shape k p" and fits: "data_count p n + f + d \<le> 128 * f" "128 * f \<le> 2 ^ 32"
  defines "l \<equiv> lay_out p n f d" and "s \<equiv> spots_of p n" and "D \<equiv> data_count p n"
  shows "length (ly_fat l) = 128 * f" "\<forall>x\<in>set (ly_fat l). x < 2 ^ 32"
    "chained (ly_fat l) (ly_mini_start l) (sp_big s) (sp_mini s)"
    "chained (ly_fat l) (ly_minifat_start l) (sp_big s + sp_mini s) (sp_minifat s)"
    "chained (ly_fat l) (ly_dir_start l) (sp_big s + sp_mini s + sp_minifat s) (sp_dir s)"
    "ly_fat_sectors l = [D..<D + f]" "ly_difat_sectors l = [D + f..<D + f + d]"
    "\<And>sid. sid \<notin> fst ` set (pl_big p) \<Longrightarrow> map_of (ly_start l) sid = map_of (pl_start p) sid"
    "\<And>pre sid e post. pl_big p = pre @ (sid, e) # post \<Longrightarrow>
       map_of (ly_start l) sid = Some (sectors_of pre) \<and> run (ly_fat l) (sectors_of pre) (sectors_for (length e))"
proof -
  let ?fat0 = "replicate (f * 128) FREESECT"
  obtain starts c1 f1 where b: "place_big (pl_big p) (pl_start p) (0, ?fat0) = (starts, c1, f1)" by (metis prod_cases3)
  obtain ms c2 f2 where m: "place (sp_mini s) (c1, f1) = (ms, c2, f2)" by (metis prod_cases3)
  obtain mf c3 f3 where mi: "place (sp_minifat s) (c2, f2) = (mf, c3, f3)" by (metis prod_cases3)
  obtain ds c4 f4 where di: "place (sp_dir s) (c3, f3) = (ds, c4, f4)" by (metis prod_cases3)
  have D: "D = sp_big s + sp_mini s + sp_minifat s + sp_dir s" by (simp add: D_def s_def data_count_spots)
  then have fit: "D + f + d \<le> length ?fat0" using fits(1) by (simp add: D_def)
  have ne: "\<forall>x\<in>set (pl_big p). snd x \<noteq> []" "distinct (map fst (pl_big p))"
    using p by (auto simp: shape_def MINI_CUTOFF_def)
  have B: "sectors_of (pl_big p) = sp_big s" by (simp add: s_def spots_of_def)
  have "0 + sectors_of (pl_big p) \<le> length ?fat0" using fit D B by simp
  note big = place_big_runs[OF b this ne]
  then have r1: "c1 = sp_big s" "untouched f1 ?fat0 0 c1" using B by auto
  have r2: "c2 = c1 + sp_mini s \<and> untouched f2 f1 c1 c2 \<and> chained f2 ms c1 (sp_mini s)"
    using place_untouched[OF m] fit D r1 by (auto simp: chained_def untouched_def)
  have r3: "c3 = c2 + sp_minifat s \<and> untouched f3 f2 c2 c3 \<and> chained f3 mf c2 (sp_minifat s)"
    using place_untouched[OF mi] fit D r1 r2 by (auto simp: chained_def untouched_def)
  have r4: "c4 = c3 + sp_dir s \<and> untouched f4 f3 c3 c4 \<and> chained f4 ds c3 (sp_dir s)"
    using place_untouched[OF di] fit D r1 r2 r3 by (auto simp: chained_def untouched_def)
  have c4: "c4 = D" using r1 r2 r3 r4 D by simp
  let ?f5 = "fold (\<lambda>s f. f[s := FATSECT]) [c4..<c4 + f] f4"
  let ?f6 = "fold (\<lambda>s f. f[s := DIFSECT]) [c4 + f..<c4 + f + d] ?f5"
  have l: "l = \<lparr>ly_fat = ?f6, ly_start = starts, ly_mini_start = ms, ly_minifat_start = mf, ly_dir_start = ds,
      ly_fat_sectors = [c4..<c4 + f], ly_difat_sectors = [c4 + f..<c4 + f + d]\<rparr>"
    using b m mi di by (simp add: l_def lay_out_def s_def spots_of_def Let_def)
  have u6: "untouched ?f6 f4 c4 (c4 + f + d)"
    using fold_const_update[of FATSECT "[c4..<c4 + f]" f4] fold_const_update[of DIFSECT "[c4 + f..<c4 + f + d]" ?f5]
    by (auto simp: untouched_def)
  have u3: "untouched ?f6 f3 c3 (c4 + f + d)" by (rule untouched_trans[OF u6]) (use r4 in auto)
  have u2: "untouched ?f6 f2 c2 (c4 + f + d)" by (rule untouched_trans[OF u3]) (use r3 r4 in auto)
  have u1: "untouched ?f6 f1 c1 (c4 + f + d)" by (rule untouched_trans[OF u2]) (use r2 r3 r4 in auto)
  show "length (ly_fat l) = 128 * f" using u1 r1 by (simp add: l untouched_def)
  show "chained (ly_fat l) (ly_mini_start l) (sp_big s) (sp_mini s)"
    using r1 r2 untouched_run[OF u2] by (auto simp: l chained_def)
  show "chained (ly_fat l) (ly_minifat_start l) (sp_big s + sp_mini s) (sp_minifat s)"
    using r1 r2 r3 untouched_run[OF u3] by (auto simp: l chained_def)
  show "chained (ly_fat l) (ly_dir_start l) (sp_big s + sp_mini s + sp_minifat s) (sp_dir s)"
    using r1 r2 r3 r4 untouched_run[OF u6] by (auto simp: l chained_def)
  show "ly_fat_sectors l = [D..<D + f]" "ly_difat_sectors l = [D + f..<D + f + d]" by (simp_all add: l c4)
  show "\<And>sid. sid \<notin> fst ` set (pl_big p) \<Longrightarrow> map_of (ly_start l) sid = map_of (pl_start p) sid"
    using big by (simp add: l)
  show "map_of (ly_start l) sid = Some (sectors_of pre) \<and> run (ly_fat l) (sectors_of pre) (sectors_for (length e))"
    if "pl_big p = pre @ (sid, e) # post" for pre sid e post
  proof -
    have "map_of starts sid = Some (sectors_of pre)" "run f1 (sectors_of pre) (sectors_for (length e))"
      using big that by simp_all
    moreover have "sectors_of pre + sectors_for (length e) \<le> c1" using that r1(1) B by simp
    ultimately show ?thesis using untouched_run[OF u1] by (simp add: l)
  qed
  have len: "length f1 = 128 * f" "length f2 = 128 * f" "length f3 = 128 * f" "length f4 = 128 * f"
    using r1 r2 r3 r4 by (simp_all add: untouched_def)
  have e0: "\<forall>x\<in>set ?fat0. x < 2 ^ 32" by (auto simp: FREESECT_def)
  have e1: "\<forall>x\<in>set f1. x < 2 ^ 32"
    by (rule place_big_bound[OF b _ _ e0]) (use fit D B fits(2) in simp_all)
  have e2: "\<forall>x\<in>set f2. x < 2 ^ 32" by (rule place_bound[OF m _ e1]) (use fit D r1 fits(2) in simp)
  have e3: "\<forall>x\<in>set f3. x < 2 ^ 32" by (rule place_bound[OF mi _ e2]) (use fit D r1 r2 fits(2) in simp)
  have e4: "\<forall>x\<in>set f4. x < 2 ^ 32" by (rule place_bound[OF di _ e3]) (use fit D r1 r2 r3 fits(2) in simp)
  show "\<forall>x\<in>set (ly_fat l). x < 2 ^ 32"
    unfolding l by (simp only: layout.simps, intro fold_const_bound e4) (simp_all add: FATSECT_def DIFSECT_def)
qed

end
