(* ===== verification/CompoundFile.thy ===== *)
theory CompoundFile
  imports CompoundLayout
begin

text \<open>
  The bytes that \<open>write\<close> of \<open>src/xgen_sdk/control_policy/_cfb.py\<close> makes of a layout, part by part, and that
  \<open>read\<close> finds in each part what was put there: the fields of the header, the tables of sectors, the
  streams and the records of the directory.
\<close>

section \<open>Packed integers\<close>

lemma emap_Inr: "(\<And>x. x \<in> set xs \<Longrightarrow> f x = Inr (g x)) \<Longrightarrow> emap f xs = Inr (map g xs)"
  by (induction xs) auto

lemma packs_ok: "\<forall>n\<in>set ns. n < 2 ^ 32 \<Longrightarrow> packs ns = Inr (concat (map (le_bytes 4) ns))"
  by (simp add: packs_def pack_def emap_Inr[where g = "le_bytes 4"])

lemma window_packed: "i < length ns \<Longrightarrow> window (4 * i) 4 (concat (map (le_bytes 4) ns)) = le_bytes 4 (ns ! i)"
  using window_concat[of "map (le_bytes 4) ns" 4 i] by simp

lemma u32_packed:
  assumes "i < length ns" "\<forall>n\<in>set ns. n < 2 ^ 32"
  shows "u32 (concat (map (le_bytes 4) ns)) (4 * i) = ns ! i"
proof -
  have "ns ! i < 256 ^ 4" using assms nth_mem[of i ns] by auto
  then show ?thesis using assms(1) by (simp only: u32_def window_packed le_val_le_bytes)
qed

lemma u32s_packed: "\<forall>n\<in>set ns. n < 2 ^ 32 \<Longrightarrow> u32s (concat (map (le_bytes 4) ns)) = ns"
  using u32s_concat[of ns] by (simp add: list_all_iff)

lemma u32_append_left: "k + 4 \<le> length a \<Longrightarrow> u32 (a @ b) k = u32 a k"
  by (simp add: u32_def window_append_left)

lemma u16_append_left: "k + 2 \<le> length a \<Longrightarrow> u16 (a @ b) k = u16 a k"
  by (simp add: u16_def window_append_left)

section \<open>Blocks of sectors\<close>

definition block_at :: "bytes \<Rightarrow> nat \<Rightarrow> bytes \<Rightarrow> nat \<Rightarrow> bool" where
  "block_at raw s b n \<longleftrightarrow> length b = 512 * n \<and> (\<exists>pre post. raw = pre @ b @ post \<and> length pre = 512 * (s + 1))"

lemma sector_in_block:
  assumes "block_at raw s b n" "i < n"
  shows "sector_bytes raw 512 (s + i) = Inr (window (512 * i) 512 b)"
proof -
  obtain pre post where raw: "raw = pre @ b @ post" "length pre = 512 * (s + 1)" and b: "length b = 512 * n"
    using assms(1) by (auto simp: block_at_def)
  have "512 * (s + n) \<le> length raw - 512" using raw b by simp
  then have "s + i < (length raw - 512) div 512" using assms(2) by (simp add: less_eq_div_iff_mult_less_eq Suc_le_eq[symmetric])
  moreover have "window ((s + i + 1) * 512) 512 raw = window (512 * i) 512 b"
  proof -
    have "(s + i + 1) * 512 = length pre + 512 * i" using raw by simp
    then show ?thesis using b assms(2) raw(1) by (simp only: window_append_skip) (simp add: window_append_left)
  qed
  ultimately show ?thesis by (simp add: sector_bytes_def)
qed

lemma sectors_of_block:
  assumes "block_at raw s b n"
  shows "emap (sector_bytes raw 512) [s..<s + n] = Inr (map (\<lambda>i. window (512 * i) 512 b) [0..<n])"
proof -
  have "[s..<s + n] = map (\<lambda>i. s + i) [0..<n]" using map_add_upt[of s n] by (simp add: add.commute)
  moreover have "emap (\<lambda>i. sector_bytes raw 512 (s + i)) [0..<n] = Inr (map (\<lambda>i. window (512 * i) 512 b) [0..<n])"
    by (rule emap_Inr) (simp add: sector_in_block[OF assms])
  moreover have "emap f (map g xs) = emap (\<lambda>x. f (g x)) xs" for f :: "nat \<Rightarrow> cfb_error + bytes" and g and xs :: "nat list"
    by (induction xs) auto
  ultimately show ?thesis by simp
qed

lemma regular_block:
  assumes "block_at raw s b n" "chained fat start s n" "s + n \<le> MAXREGSECT"
  shows "regular raw 512 fat start = Some (Inr b)"
proof (cases "n = 0")
  case True
  then show ?thesis using assms by (simp add: regular_def chained_def chain_end block_at_def)
next
  case False
  then have "chain start fat = Some (Inr [s..<s + n])" using assms by (auto simp: chained_def intro!: chain_run)
  moreover have "concat (map (\<lambda>i. window (512 * i) 512 b) [0..<n]) = b"
    using assms(1) by (intro concat_windows) (simp add: block_at_def)
  ultimately show ?thesis using sectors_of_block[OF assms(1)] by (simp add: regular_def)
qed

lemma block_at_append:
  "length pre = 512 * (s + 1) \<Longrightarrow> length b = 512 * n \<Longrightarrow> block_at (pre @ b @ post) s b n"
  by (auto simp: block_at_def)

section \<open>The table of sectors\<close>

lemma concat_u32s_windows:
  assumes "length b = 512 * n"
  shows "concat (map u32s (map (\<lambda>i. window (512 * i) 512 b) [0..<n])) = u32s b"
proof -
  have "u32s (concat xss) = concat (map u32s xss)" if "\<forall>x\<in>set xss. length x = 512" for xss
    using that by (induction xss) (auto simp: u32s_append[where k = 128])
  moreover have "\<forall>x\<in>set (map (\<lambda>i. window (512 * i) 512 b) [0..<n]). length x = 512"
  proof
    fix x assume "x \<in> set (map (\<lambda>i. window (512 * i) 512 b) [0..<n])"
    then obtain i where i: "i < n" "x = window (512 * i) 512 b" by auto
    then have "512 * Suc i \<le> 512 * n" by (intro mult_le_mono2) simp
    then show "length x = 512" using i assms by (simp add: length_window)
  qed
  ultimately have "u32s (concat (map (\<lambda>i. window (512 * i) 512 b) [0..<n])) = concat (map u32s (map (\<lambda>i. window (512 * i) 512 b) [0..<n]))"
    by blast
  then show ?thesis using concat_windows[OF assms] by simp
qed

lemma concat_windows_rest:
  "length xs \<le> n * m \<Longrightarrow> concat (map (\<lambda>i. window (i * n) n xs) [0..<m]) = xs"
proof (induction m arbitrary: xs)
  case (Suc m)
  have "concat (map (\<lambda>i. window (i * n) n xs) [0..<Suc m])
      = window 0 n xs @ concat (map (\<lambda>i. window (i * n) n (drop n xs)) [0..<m])"
    by (subst upt_conv_Cons, simp, simp add: map_Suc_upt[symmetric] del: upt_Suc)
      (simp add: window_def comp_def add.commute)
  also have "\<dots> = take n xs @ drop n xs"
    using Suc.IH[of "drop n xs"] Suc.prems by (simp add: window_def)
  finally show ?case by simp
qed simp


section \<open>The header\<close>

lemma window_here: "n = length a \<Longrightarrow> window 0 n (a @ b) = a"
  by (simp add: window_def)

lemma header_ok:
  assumes "\<forall>x\<in>set (ly_fat_sectors l). x < 2 ^ 32" "\<forall>x\<in>set (ly_difat_sectors l). x < 2 ^ 32"
    "length (ly_fat_sectors l) < 2 ^ 32" "length (ly_difat_sectors l) < 2 ^ 32"
    "ly_dir_start l < 2 ^ 32" "ly_minifat_start l < 2 ^ 32" "sectors_for (length (pl_minifat p) * 4) < 2 ^ 32"
  obtains h where "header_bytes p l = Inr h" "length h = 512" "take 8 h = SIGNATURE"
    "u16 h 26 = 3" "u16 h 28 = 65534" "u16 h 30 = 9" "u16 h 32 = 6"
    "u32 h 48 = ly_dir_start l" "u32 h 56 = MINI_CUTOFF"
    "u32 h 60 = (if sectors_for (length (pl_minifat p) * 4) = 0 then ENDOFCHAIN else ly_minifat_start l)"
    "u32 h 64 = sectors_for (length (pl_minifat p) * 4)"
    "u32 h 68 = (if ly_difat_sectors l = [] then ENDOFCHAIN else hd (ly_difat_sectors l))"
    "u32s (window 76 436 h) = take 109 (ly_fat_sectors l) @ replicate (109 - min 109 (length (ly_fat_sectors l))) FREESECT"
proof -
  let ?m = "sectors_for (length (pl_minifat p) * 4)"
  define ns where "ns = [length (ly_fat_sectors l), ly_dir_start l, 0, MINI_CUTOFF,
    if ?m = 0 then ENDOFCHAIN else ly_minifat_start l, ?m,
    if ly_difat_sectors l = [] then ENDOFCHAIN else hd (ly_difat_sectors l), length (ly_difat_sectors l)]"
  define ds where "ds = take HEADER_DIFAT (ly_fat_sectors l) @
    replicate (HEADER_DIFAT - min HEADER_DIFAT (length (ly_fat_sectors l))) FREESECT"
  have ns: "\<forall>n\<in>set ns. n < 2 ^ 32"
  proof -
    have "ly_difat_sectors l \<noteq> [] \<Longrightarrow> hd (ly_difat_sectors l) < 2 ^ 32" using assms(2) by simp
    then show ?thesis using assms by (simp add: ns_def ENDOFCHAIN_def MINI_CUTOFF_def)
  qed
  have ds: "\<forall>n\<in>set ds. n < 2 ^ 32" using assms(1) by (auto simp: ds_def FREESECT_def dest!: in_set_takeD)
  have lds: "length ds = 109" by (simp add: ds_def HEADER_DIFAT_def)
  define b where "b = concat (map (le_bytes 4) ns)"
  define d where "d = concat (map (le_bytes 4) ds)"
  define h0 where "h0 = put 24 (le_bytes 2 62 @ le_bytes 2 3 @ le_bytes 2 65534 @ le_bytes 2 9 @ le_bytes 2 6)
    (put 0 SIGNATURE (replicate 512 (0 :: 8 word)))"
  define h where "h = put 76 d (put 44 b h0)"
  have len: "length b = 32" "length d = 436" by (simp_all add: b_def d_def lds ns_def)
  have l0: "length (put 0 SIGNATURE (replicate 512 (0 :: 8 word))) = 512" by (simp add: length_put SIGNATURE_def)
  have lh0: "length h0 = 512" by (simp add: h0_def length_put l0)
  have l1: "length (put 44 b h0) = 512" by (simp add: length_put lh0 len)
  have lh: "length h = 512" by (simp add: h_def length_put l1 len)
  have ok: "header_bytes p l = Inr h"
    using packs_ok[OF ns] packs_ok[OF ds]
    by (simp add: header_bytes_def Let_def ns_def[symmetric] ds_def[symmetric] h_def b_def d_def h0_def)
  have low: "window k n h = window k n h0" if "k + n \<le> 44" for k n
    using that by (simp add: h_def window_put_below l1 lh0)
  have sig: "take 8 h = SIGNATURE"
  proof -
    have "window 0 8 h0 = window 0 8 (put 0 SIGNATURE (replicate 512 0))"
      unfolding h0_def by (rule window_put_below) (simp_all add: l0)
    also have "\<dots> = SIGNATURE" by (rule window_put_same) (simp_all add: SIGNATURE_def)
    finally show ?thesis using low[of 0 8] by (simp add: window_def)
  qed
  let ?v = "le_bytes 2 62 @ le_bytes 2 3 @ le_bytes 2 65534 @ le_bytes 2 9 @ le_bytes 2 6"
  have v: "u16 h (24 + k) = le_val (window k 2 ?v)" if "k + 2 \<le> 10" for k
  proof -
    have "window (24 + k) 2 h0 = window k 2 ?v"
      unfolding h0_def using that window_put_inside[of 24 "24 + k" 2 ?v] by (simp add: l0)
    then show ?thesis using low[of "24 + k" 2] that by (simp add: u16_def)
  qed
  have u16s: "u16 h 26 = 3" "u16 h 28 = 65534" "u16 h 30 = 9" "u16 h 32 = 6"
    using v[of 2] v[of 4] v[of 6] v[of 8]
    by (simp_all add: window_append_right window_here window_append_left del: le_bytes.simps)
      (simp_all add: window_def)
  have u: "u32 h (44 + 4 * i) = ns ! i" if "i < 8" for i
  proof -
    have "window (44 + 4 * i) 4 h = window (44 + 4 * i) 4 (put 44 b h0)"
      using that by (simp add: h_def window_put_below l1)
    also have "\<dots> = window (4 * i) 4 b"
      using that window_put_inside[of 44 "44 + 4 * i" 4 b h0] by (simp add: len lh0)
    finally show ?thesis using u32_packed[of i ns] that ns by (simp add: u32_def b_def ns_def)
  qed
  have "window 76 436 h = d" unfolding h_def by (rule window_put_same) (simp_all add: l1 len)
  then have difat: "u32s (window 76 436 h) = take 109 (ly_fat_sectors l) @ replicate (109 - min 109 (length (ly_fat_sectors l))) FREESECT"
    using u32s_packed[OF ds] by (simp add: d_def ds_def HEADER_DIFAT_def)
  show ?thesis
    using that[OF ok lh sig u16s] u[of 1] u[of 3] u[of 4] u[of 5] u[of 6] difat by (simp add: ns_def)
qed


section \<open>Reading the tables back\<close>

lemma difat_sector_length: "length (difat_sector l i) = 128"
  by (simp add: difat_sector_def)

lemma difat_sector_bound:
  assumes "\<forall>x\<in>set (ly_fat_sectors l). x < 2 ^ 32" "\<forall>x\<in>set (ly_difat_sectors l). x < 2 ^ 32"
  shows "\<forall>x\<in>set (difat_sector l i). x < 2 ^ 32"
proof -
  have "x < 2 ^ 32" if "x \<in> set (window k n (drop m (ly_fat_sectors l)))" for x k n m
    using that assms(1) unfolding window_def by (meson in_set_dropD in_set_takeD)
  then show ?thesis using assms(2)
    by (auto simp: difat_sector_def fit_def FREESECT_def ENDOFCHAIN_def dest!: in_set_takeD)
qed

definition difat_block :: "layout \<Rightarrow> bytes" where
  "difat_block l = concat (map (\<lambda>i. concat (map (le_bytes 4) (difat_sector l i))) [0..<length (ly_difat_sectors l)])"

lemma difat_bytes_ok:
  assumes "\<forall>x\<in>set (ly_fat_sectors l). x < 2 ^ 32" "\<forall>x\<in>set (ly_difat_sectors l). x < 2 ^ 32"
  shows "difat_bytes l = Inr (difat_block l)" "length (difat_block l) = 512 * length (ly_difat_sectors l)"
    "\<And>i. i < length (ly_difat_sectors l) \<Longrightarrow> u32s (window (512 * i) 512 (difat_block l)) = difat_sector l i"
proof -
  let ?f = "\<lambda>i. concat (map (le_bytes 4) (difat_sector l i))"
  have e: "emap (\<lambda>i. packs (difat_sector l i)) [0..<length (ly_difat_sectors l)]
      = Inr (map ?f [0..<length (ly_difat_sectors l)])"
    by (intro emap_Inr packs_ok difat_sector_bound[OF assms])
  then show "difat_bytes l = Inr (difat_block l)" by (simp add: difat_bytes_def difat_block_def)
  have same: "\<forall>x\<in>set (map ?f [0..<length (ly_difat_sectors l)]). length x = 512"
    by (simp add: difat_sector_length)
  show "length (difat_block l) = 512 * length (ly_difat_sectors l)"
    unfolding difat_block_def using length_concat_same[OF same] by simp
  fix i assume i: "i < length (ly_difat_sectors l)"
  then have "window (512 * i) 512 (difat_block l) = ?f i"
    unfolding difat_block_def using window_concat[OF same, of i] by simp
  then show "u32s (window (512 * i) 512 (difat_block l)) = difat_sector l i"
    using u32s_packed[OF difat_sector_bound[OF assms]] by simp
qed

lemma filter_regular:
  "\<forall>x\<in>set xs. x \<le> MAXREGSECT \<Longrightarrow> filter (\<lambda>s. s \<le> MAXREGSECT) (xs @ replicate n FREESECT) = xs"
  by (simp add: FREESECT_def MAXREGSECT_def)

lemma difat_loop_reads:
  assumes l: "ly_fat_sectors l = [D..<D + f]" "ly_difat_sectors l = [s..<s + d]"
    and bound: "D + f \<le> MAXREGSECT" "s + d \<le> MAXREGSECT"
    and raw: "block_at raw s (difat_block l) d" and i: "i \<le> d"
  shows "difat_loop raw 512 (if i < d then s + i else ENDOFCHAIN) (rev [s..<s + i]) out =
    Some (Inr (out @ concat (map (\<lambda>j. window (j * 127) 127 (drop HEADER_DIFAT (ly_fat_sectors l))) [i..<d])))"
  using i
proof (induction "d - i" arbitrary: i out)
  case 0
  then show ?case by (subst difat_loop.simps) (simp add: ENDOFCHAIN_def MAXREGSECT_def)
next
  case (Suc k)
  have i: "i < d" using Suc by simp
  have b: "\<forall>x\<in>set (ly_fat_sectors l). x < 2 ^ 32" "\<forall>x\<in>set (ly_difat_sectors l). x < 2 ^ 32"
    using bound l by (auto simp: MAXREGSECT_def)
  let ?part = "window (i * 127) 127 (drop HEADER_DIFAT (ly_fat_sectors l))"
  have sec: "sector_bytes raw 512 (s + i) = Inr (window (512 * i) 512 (difat_block l))"
    by (rule sector_in_block[OF raw i])
  have vals: "u32s (window (512 * i) 512 (difat_block l)) = difat_sector l i"
    using difat_bytes_ok(3)[OF b] i l by simp
  have part: "\<forall>x\<in>set ?part. x \<le> MAXREGSECT"
  proof
    fix x assume "x \<in> set ?part"
    then have "x \<in> set (ly_fat_sectors l)" unfolding window_def by (meson in_set_dropD in_set_takeD)
    then show "x \<le> MAXREGSECT" using l bound by simp
  qed
  have "take 127 ?part = ?part" by (simp add: window_def)
  then have fil: "filter (\<lambda>x. x \<le> MAXREGSECT) (butlast (difat_sector l i)) = ?part"
    using filter_regular[OF part, of "127 - length ?part"] by (simp add: difat_sector_def fit_def butlast_append)
  have last: "last (difat_sector l i) = (if Suc i < d then s + Suc i else ENDOFCHAIN)"
    using l by (simp add: difat_sector_def nth_append)
  have "difat_loop raw 512 (s + i) (rev [s..<s + i]) out
      = difat_loop raw 512 (if Suc i < d then s + Suc i else ENDOFCHAIN) (rev [s..<s + Suc i]) (out @ ?part)"
    using i bound sec vals fil last by (subst difat_loop.simps) simp
  also have "\<dots> = Some (Inr ((out @ ?part) @ concat (map (\<lambda>j. window (j * 127) 127 (drop HEADER_DIFAT (ly_fat_sectors l))) [Suc i..<d])))"
    using Suc i by (intro Suc.hyps) auto
  finally show ?case using i by (simp add: upt_conv_Cons)
qed

lemma read_fat_back:
  assumes l: "ly_fat_sectors l = [D..<D + f]" "ly_difat_sectors l = [D + f..<D + f + d]"
    and bound: "D + f + d \<le> MAXREGSECT" and fits: "f \<le> HEADER_DIFAT + 127 * d"
    and fat: "length (ly_fat l) = 128 * f" "\<forall>x\<in>set (ly_fat l). x < 2 ^ 32"
    and raw: "block_at raw D (concat (map (le_bytes 4) (ly_fat l))) f" "block_at raw (D + f) (difat_block l) d"
    and head: "u32 raw 68 = (if ly_difat_sectors l = [] then ENDOFCHAIN else hd (ly_difat_sectors l))"
      "u32s (window 76 436 raw) = take 109 (ly_fat_sectors l) @ replicate (109 - min 109 (length (ly_fat_sectors l))) FREESECT"
  shows "read_fat raw 512 = Some (Inr (ly_fat l))"
proof -
  have reg: "\<forall>x\<in>set (take 109 (ly_fat_sectors l)). x \<le> MAXREGSECT"
    using l bound by (auto dest!: in_set_takeD)
  have hd: "header_difat raw = take 109 (ly_fat_sectors l)"
    using head(2) filter_regular[OF reg] by (simp add: header_difat_def HEADER_DIFAT_def)
  have start: "u32 raw 68 = (if 0 < d then D + f + 0 else ENDOFCHAIN)" using head(1) l by auto
  have "length (drop HEADER_DIFAT (ly_fat_sectors l)) \<le> 127 * d" using fits l by simp
  then have rest: "concat (map (\<lambda>j. window (j * 127) 127 (drop HEADER_DIFAT (ly_fat_sectors l))) [0..<d]) = drop HEADER_DIFAT (ly_fat_sectors l)"
    by (rule concat_windows_rest)
  have "difat_loop raw 512 (u32 raw 68) [] (header_difat raw) =
      Some (Inr (header_difat raw @ drop HEADER_DIFAT (ly_fat_sectors l)))"
    using difat_loop_reads[OF l(1,2) _ _ raw(2), of 0 "header_difat raw"] bound unfolding start rest by simp
  moreover have "header_difat raw @ drop HEADER_DIFAT (ly_fat_sectors l) = [D..<D + f]"
    unfolding hd HEADER_DIFAT_def l(1) by (rule append_take_drop_id)
  moreover have "emap (sector_bytes raw 512) [D..<D + f] = Inr (map (\<lambda>i. window (512 * i) 512 (concat (map (le_bytes 4) (ly_fat l)))) [0..<f])"
    by (rule sectors_of_block[OF raw(1)])
  moreover have "concat (map u32s (map (\<lambda>i. window (512 * i) 512 (concat (map (le_bytes 4) (ly_fat l)))) [0..<f])) = ly_fat l"
    using concat_u32s_windows[of "concat (map (le_bytes 4) (ly_fat l))" f] u32s_packed[OF fat(2)] fat(1) by simp
  ultimately show ?thesis by (simp add: read_fat_def)
qed


section \<open>The table of the mini stream\<close>

definition minifat_block :: "placing \<Rightarrow> bytes" where
  "minifat_block p = concat (map (le_bytes 4) (pl_minifat p @
     replicate (sectors_for (length (pl_minifat p) * 4) * 128 - length (pl_minifat p)) FREESECT))"

lemma sectors_for_enough: "n \<le> sectors_for n * 512"
  using round_up[of 512 n] by (simp add: sectors_for_def SECTOR_def)

lemma minifat_ok:
  assumes "\<forall>x\<in>set (pl_minifat p). x < 2 ^ 32"
  shows "minifat_bytes p = Inr (minifat_block p)"
    "length (minifat_block p) = 512 * sectors_for (length (pl_minifat p) * 4)"
    "\<exists>k. u32s (minifat_block p) = pl_minifat p @ replicate k FREESECT"
proof -
  show "minifat_bytes p = Inr (minifat_block p)"
    by (simp add: minifat_bytes_def packs_ok[OF assms] minifat_block_def map_replicate_const)
  show "length (minifat_block p) = 512 * sectors_for (length (pl_minifat p) * 4)"
    using sectors_for_enough[of "length (pl_minifat p) * 4"] by (simp add: minifat_block_def del: map_append concat_append)
  have "\<forall>x\<in>set (pl_minifat p @ replicate k FREESECT). x < 2 ^ 32" for k
    using assms by (auto simp: FREESECT_def)
  from u32s_packed[OF this] show "\<exists>k. u32s (minifat_block p) = pl_minifat p @ replicate k FREESECT"
    unfolding minifat_block_def by blast
qed

section \<open>Records of the directory\<close>

lemma take_le_bytes: "take k (le_bytes (k + m) n) = le_bytes k n"
  by (induction k arbitrary: n) simp_all

lemma window_one: "k < length xs \<Longrightarrow> window k 1 xs = [xs ! k]"
  by (simp add: window_def take_Suc_conv_app_nth)

lemma window_whole: "length a = n \<Longrightarrow> window 0 n a = a"
  by (simp add: window_def)

text \<open>What a record says.\<close>

definition record_says :: "bytes \<Rightarrow> cf_entry \<Rightarrow> link \<Rightarrow> nat \<times> nat \<Rightarrow> bool" where
  "record_says r e k ss \<longleftrightarrow> record_name r = cf_name e \<and> record_kind r = cf_kind e \<and>
     u32 r 68 = lk_left k \<and> u32 r 72 = lk_right k \<and> u32 r 76 = lk_child k \<and>
     window 80 16 r = fit 16 0 (cf_clsid e) \<and> u32 r 96 = cf_state e \<and>
     window 100 8 r = fit 8 0 (fst (times_of e)) \<and> window 108 8 r = fit 8 0 (snd (times_of e)) \<and>
     u32 r 116 = fst ss \<and> u32 r 120 = snd ss"

definition record_fits :: "cf_entry \<Rightarrow> link \<Rightarrow> nat \<times> nat \<Rightarrow> bool" where
  "record_fits e k ss \<longleftrightarrow> (\<exists>b. utf16_encode (cf_name e) = Some b \<and> length b \<le> 62) \<and> cf_kind e < 256 \<and>
     lk_color k < 256 \<and> lk_left k < 2 ^ 32 \<and> lk_right k < 2 ^ 32 \<and> lk_child k < 2 ^ 32 \<and> cf_state e < 2 ^ 32 \<and>
     fst ss < 2 ^ 32 \<and> snd ss < 2 ^ 32"

lemma record_ok:
  assumes "record_fits e k (start_and_size p l sid e)"
  obtains r where "record_bytes p l k sid e = Inr r" "length r = 128" "record_says r e k (start_and_size p l sid e)"
proof -
  obtain enc where enc: "utf16_encode (cf_name e) = Some enc" "length enc \<le> 62"
    using assms by (auto simp: record_fits_def)
  define start where "start = fst (start_and_size p l sid e)"
  define sz where "sz = snd (start_and_size p l sid e)"
  have fits: "cf_kind e < 256" "lk_color k < 256" "lk_left k < 2 ^ 32" "lk_right k < 2 ^ 32" "lk_child k < 2 ^ 32"
    "cf_state e < 2 ^ 32" "start < 2 ^ 32" "sz < 2 ^ 32"
    using assms by (auto simp: record_fits_def start_def sz_def)
  define b3 where "b3 = concat (map (le_bytes 4) [lk_left k, lk_right k, lk_child k])"
  define b2 where "b2 = le_bytes 2 (length enc + 2) @ le_bytes 1 (cf_kind e) @ le_bytes 1 (lk_color k)"
  define b6 where "b6 = le_bytes 4 start @ le_bytes 8 sz"
  define r0 where "r0 = put 0 enc (replicate 128 (0 :: 8 word))"
  define r1 where "r1 = put 64 b2 r0"
  define r2 where "r2 = put 68 b3 r1"
  define r3 where "r3 = put 80 (fit 16 0 (cf_clsid e)) r2"
  define r4 where "r4 = put 96 (le_bytes 4 (cf_state e)) r3"
  define r5 where "r5 = put 100 (fit 8 0 (fst (times_of e))) r4"
  define r6 where "r6 = put 108 (fit 8 0 (snd (times_of e))) r5"
  define r where "r = put 116 b6 r6"
  have lens: "length b2 = 4" "length b3 = 12" "length b6 = 12" by (simp_all add: b2_def b3_def b6_def)
  have len0: "length r0 = 128" using enc(2) by (simp add: r0_def length_put)
  have len1: "length r1 = 128" by (simp add: r1_def length_put len0 lens)
  have len2: "length r2 = 128" by (simp add: r2_def length_put len1 lens)
  have len3: "length r3 = 128" by (simp add: r3_def length_put len2)
  have len4: "length r4 = 128" by (simp add: r4_def length_put len3)
  have len5: "length r5 = 128" by (simp add: r5_def length_put len4)
  have len6: "length r6 = 128" by (simp add: r6_def length_put len5)
  have len: "length r = 128" by (simp add: r_def length_put len6 lens)
  note lens = lens len0 len1 len2 len3 len4 len5 len6
  have "sz < 256 ^ 8" "length enc + 2 < 256 ^ 2" using fits(8) enc(2) by simp_all
  then have ok: "record_bytes p l k sid e = Inr r"
    using enc fits packs_ok[of "[lk_left k, lk_right k, lk_child k]"]
    by (simp add: record_bytes_def pack_def start_def[symmetric] sz_def[symmetric] Let_def r_def r6_def r5_def r4_def r3_def
        r2_def r1_def r0_def b2_def b3_def b6_def del: le_bytes.simps)
  have s6: "window i n r = window i n r6" if "i + n \<le> 116" for i n using that by (simp add: r_def window_put_below lens)
  have s5: "window i n r = window i n r5" if "i + n \<le> 108" for i n using that by (simp add: s6 r6_def window_put_below lens)
  have s4: "window i n r = window i n r4" if "i + n \<le> 100" for i n using that by (simp add: s5 r5_def window_put_below lens)
  have s3: "window i n r = window i n r3" if "i + n \<le> 96" for i n using that by (simp add: s4 r4_def window_put_below lens)
  have s2: "window i n r = window i n r2" if "i + n \<le> 80" for i n using that by (simp add: s3 r3_def window_put_below lens)
  have s1: "window i n r = window i n r1" if "i + n \<le> 68" for i n using that by (simp add: s2 r2_def window_put_below lens)
  have s0: "window i n r = window i n r0" if "i + n \<le> 64" for i n using that by (simp add: s1 r1_def window_put_below lens)
  have nm: "window 0 (length enc) r = enc" using enc(2) by (simp add: s0 r0_def window_put_same)
  have f64: "window 64 2 r = le_bytes 2 (length enc + 2)"
    using window_put_inside[of 64 64 2 b2 r0] by (simp add: s1 r1_def lens b2_def window_append_left window_whole del: le_bytes.simps)
  have n64: "u16 r 64 = length enc + 2"
    using enc(2) by (simp only: u16_def f64 le_val_bytes) simp
  have "record_name r = utf16_decode (window 0 (length enc) r)"
    using enc(2) by (simp add: record_name_def n64 window_def min_def)
  then have name: "record_name r = cf_name e" using nm utf16_roundtrip[OF enc(1)] by simp
  have "window 2 1 b2 = [of_nat (cf_kind e)]" by (simp add: b2_def window_append_right) (simp add: window_def)
  then have "window 66 1 r = [of_nat (cf_kind e)]"
    using window_put_inside[of 64 66 1 b2 r0] by (simp add: s1 r1_def lens)
  then have "r ! 66 = of_nat (cf_kind e)" using window_one[of 66 r] len by simp
  then have kind: "record_kind r = cf_kind e" using fits(1) by (simp add: record_kind_def unat_of_nat)
  have lk: "u32 r (68 + 4 * i) = [lk_left k, lk_right k, lk_child k] ! i" if "i < 3" for i
  proof -
    have "window (68 + 4 * i) 4 r = window (4 * i) 4 b3"
      using that window_put_inside[of 68 "68 + 4 * i" 4 b3 r1] by (simp add: s2 r2_def lens)
    then show ?thesis using u32_packed[of i "[lk_left k, lk_right k, lk_child k]"] that fits by (simp add: u32_def b3_def)
  qed
  have "window 80 16 r = fit 16 0 (cf_clsid e)" by (simp add: s3 r3_def window_put_same lens)
  moreover have "window 96 4 r = le_bytes 4 (cf_state e)" by (simp add: s4 r4_def window_put_same lens del: le_bytes.simps)
  moreover have "window 100 8 r = fit 8 0 (fst (times_of e))" by (simp add: s5 r5_def window_put_same lens)
  moreover have "window 108 8 r = fit 8 0 (snd (times_of e))" by (simp add: s6 r6_def window_put_same lens)
  moreover have "window 116 4 r = le_bytes 4 start"
    using window_put_inside[of 116 116 4 b6 r6] by (simp add: r_def lens b6_def window_append_left window_whole del: le_bytes.simps)
  moreover have "window 120 4 r = le_bytes 4 sz"
    using window_put_inside[of 116 120 4 b6 r6] take_le_bytes[of 4 4 sz]
    by (simp add: r_def lens b6_def window_append_right del: le_bytes.simps) (simp add: window_def)
  ultimately have "record_says r e k (start, sz)"
    using name kind lk[of 0] lk[of 1] lk[of 2] fits by (simp add: record_says_def u32_def[of _ 96] u32_def[of _ 116] u32_def[of _ 120] del: le_bytes.simps)
  then show ?thesis using that[OF ok len] by (simp add: start_def sz_def)
qed

definition directory_block :: "placing \<Rightarrow> layout \<Rightarrow> link list \<Rightarrow> cf_entry list \<Rightarrow> bytes" where
  "directory_block p l links es = projr (directory_bytes p l links es)"

lemma directory_ok:
  assumes "\<forall>i<length es. record_fits (es ! i) (links ! i) (start_and_size p l i (es ! i))"
  shows "directory_bytes p l links es = Inr (directory_block p l links es)"
    "length (directory_block p l links es) = 512 * sectors_for (length es * 128)"
    "length es \<le> length (chunks 128 (directory_block p l links es))"
    "\<And>sid. sid < length es \<Longrightarrow> record_says (chunks 128 (directory_block p l links es) ! sid) (es ! sid) (links ! sid)
       (start_and_size p l sid (es ! sid))"
proof -
  let ?g = "\<lambda>sid. projr (record_bytes p l (links ! sid) sid (es ! sid))"
  have rec: "record_bytes p l (links ! sid) sid (es ! sid) = Inr (?g sid) \<and> length (?g sid) = 128 \<and>
      record_says (?g sid) (es ! sid) (links ! sid) (start_and_size p l sid (es ! sid))" if "sid < length es" for sid
    using record_ok[OF assms[rule_format, OF that]] by (metis sum.sel(2))
  let ?rs = "map ?g [0..<length es]" and ?n = "sectors_for (length es * 128) * 4 - length es"
  have e: "emap (\<lambda>sid. record_bytes p l (links ! sid) sid (es ! sid)) [0..<length es] = Inr ?rs"
    by (rule emap_Inr) (use rec in simp)
  have len: "\<forall>x\<in>set (?rs @ replicate ?n empty_record). length x = 128"
    using rec by (auto simp: empty_record_def length_put)
  have d: "directory_bytes p l links es = Inr (concat (?rs @ replicate ?n empty_record))"
    by (simp add: directory_bytes_def e)
  then have blk: "directory_block p l links es = concat (?rs @ replicate ?n empty_record)"
    by (simp add: directory_block_def)
  then show "directory_bytes p l links es = Inr (directory_block p l links es)" using d by simp
  have ch: "chunks 128 (directory_block p l links es) = ?rs @ replicate ?n empty_record"
    unfolding blk by (rule chunks_concat[OF len]) simp
  have "length es * 128 \<le> sectors_for (length es * 128) * 512" by (rule sectors_for_enough)
  then show "length (directory_block p l links es) = 512 * sectors_for (length es * 128)"
    unfolding blk length_concat_same[OF len] by simp
  show "length es \<le> length (chunks 128 (directory_block p l links es))" by (simp add: ch)
  show "record_says (chunks 128 (directory_block p l links es) ! sid) (es ! sid) (links ! sid)
       (start_and_size p l sid (es ! sid))" if "sid < length es" for sid
    using rec[OF that] that by (simp add: ch nth_append)
qed

end
