(* ===== verification/CompoundLinks.thy ===== *)
theory CompoundLinks
  imports CompoundFile "HOL-Library.Multiset"
begin

text \<open>
  The directory that \<open>write\<close> of \<open>src/xgen_sdk/control_policy/_cfb.py\<close> makes of an entry and what \<open>read\<close> follows in
  it: the numbers of the nodes, the links between the records, and the order in which the loop
  over siblings meets them.
\<close>

section \<open>Numbers\<close>

abbreviation all_count :: "cf_entry list \<Rightarrow> nat" where
  "all_count cs \<equiv> sum_list (map entry_count cs)"

lemma length_number:
  "length (number n e) = entry_count e" "length (number_all n cs) = all_count cs" "length (child_sids n cs) = length cs"
  by (induction n e and n cs and n cs rule: number_number_all_child_sids.induct) auto

lemma sids_of_numbers:
  "distinct (concat (map snd (number n e))) \<and> set (concat (map snd (number n e))) = {n + 1..<n + entry_count e}"
  "distinct (concat (map snd (number_all n cs)) @ child_sids n cs) \<and>
   set (concat (map snd (number_all n cs)) @ child_sids n cs) = {n..<n + all_count cs}"
  "True"
proof (induction n e and n cs and n cs rule: number_number_all_child_sids.induct)
  case (3 n c cs)
  have pos: "0 < entry_count c" by (cases c) simp
  have "set (concat (map snd (number_all n (c # cs))) @ child_sids n (c # cs)) =
      {n + 1..<n + entry_count c} \<union> {n} \<union> {n + entry_count c..<n + entry_count c + all_count cs}"
    using 3 by auto
  also have "\<dots> = {n..<n + all_count (c # cs)}" using pos by auto
  finally have s: "set (concat (map snd (number_all n (c # cs))) @ child_sids n (c # cs)) = {n..<n + all_count (c # cs)}" .
  have "distinct (concat (map snd (number n c)))" "set (concat (map snd (number n c))) = {n + 1..<n + entry_count c}"
    "distinct (concat (map snd (number_all (n + entry_count c) cs)) @ child_sids (n + entry_count c) cs)"
    "set (concat (map snd (number_all (n + entry_count c) cs)) @ child_sids (n + entry_count c) cs)
      = {n + entry_count c..<n + entry_count c + all_count cs}"
    using 3 by blast+
  note IH = this
  have "set (concat (map snd (number_all (n + entry_count c) cs))) \<subseteq> {n + entry_count c..}"
    "set (child_sids (n + entry_count c) cs) \<subseteq> {n + entry_count c..}"
    using IH(4) by auto
  then have "distinct (concat (map snd (number_all n (c # cs))) @ child_sids n (c # cs))"
    using IH(1-3) pos unfolding number_all.simps child_sids.simps map_append concat_append distinct_append
    by (simp add: IH(2) del: set_concat set_map) fastforce
  then show ?case using s by blast
qed auto

definition numbered_at :: "(cf_entry \<times> nat list) list \<Rightarrow> nat \<Rightarrow> cf_entry \<Rightarrow> bool" where
  "numbered_at nodes sid e \<longleftrightarrow> sid + entry_count e \<le> length nodes \<and> window sid (entry_count e) nodes = number sid e"

lemma numbered_top: "numbered_at (number 0 e) 0 e"
  by (simp add: numbered_at_def length_number window_whole)

lemma window_cons: "k < length xs \<Longrightarrow> window k (Suc n) xs = xs ! k # window (Suc k) n xs"
  by (simp add: window_def Cons_nth_drop_Suc[symmetric])

lemma window_add: "window k (m + n) xs = window k m xs @ window (k + m) n xs"
  by (simp add: window_def take_add add.commute)

lemma numbered_all:
  assumes "n + all_count cs \<le> length nodes" "window n (all_count cs) nodes = number_all n cs"
    "(c, s) \<in> set (zip cs (child_sids n cs))"
  shows "numbered_at nodes s c"
  using assms
proof (induction cs arbitrary: n)
  case (Cons d cs)
  have "window n (entry_count d) nodes @ window (n + entry_count d) (all_count cs) nodes = number n d @ number_all (n + entry_count d) cs"
    using Cons.prems(2) by (simp add: window_add)
  then have split: "window n (entry_count d) nodes = number n d" "window (n + entry_count d) (all_count cs) nodes = number_all (n + entry_count d) cs"
    using Cons.prems(1) by (simp_all add: length_window length_number append_eq_append_conv)
  show ?case
  proof (cases "(c, s) = (d, n)")
    case True
    then show ?thesis using split Cons.prems(1) by (simp add: numbered_at_def)
  next
    case False
    then have "(c, s) \<in> set (zip cs (child_sids (n + entry_count d) cs))" using Cons.prems(3) by auto
    then show ?thesis using split(2) Cons.prems(1) Cons.IH[of "n + entry_count d"] by (simp add: add.assoc)
  qed
qed simp

lemma numbered_node:
  assumes "numbered_at nodes sid e"
  shows "sid < length nodes" "nodes ! sid = (e, child_sids (sid + 1) (cf_children e))"
    "\<And>c s. (c, s) \<in> set (zip (cf_children e) (child_sids (sid + 1) (cf_children e))) \<Longrightarrow> numbered_at nodes s c"
proof -
  obtain nm k d ci st cr mo cs where e: "e = Entry nm k d ci st cr mo cs" by (cases e)
  show lt: "sid < length nodes" using assms by (simp add: numbered_at_def e)
  have sl: "nodes ! sid # window (Suc sid) (all_count cs) nodes = (e, child_sids (sid + 1) cs) # number_all (sid + 1) cs"
    using assms window_cons[OF lt] by (simp add: numbered_at_def e)
  then show "nodes ! sid = (e, child_sids (sid + 1) (cf_children e))" by (simp add: e)
  show "\<And>c s. (c, s) \<in> set (zip (cf_children e) (child_sids (sid + 1) (cf_children e))) \<Longrightarrow> numbered_at nodes s c"
    using numbered_all[of "sid + 1" cs nodes] sl assms by (simp add: e numbered_at_def)
qed

section \<open>Order of siblings\<close>

definition name_key :: "(ustr \<Rightarrow> ustr) \<Rightarrow> cf_entry \<Rightarrow> nat \<times> ustr" where
  "name_key upper e = (case utf16_encode (cf_name e) of None \<Rightarrow> 0 | Some b \<Rightarrow> length b, upper (cf_name e))"

lemma sort_key_map: "sort_key f (map h xs) = map h (sort_key (\<lambda>x. f (h x)) xs)"
proof -
  have "insort_key f (h x) (map h xs) = map h (insort_key (\<lambda>x. f (h x)) x xs)" for x xs
    by (induction xs) auto
  then show ?thesis by (induction xs) simp_all
qed

lemma sort_key_cong:
  assumes "\<And>x. x \<in> set xs \<Longrightarrow> f x = g x"
  shows "sort_key f xs = sort_key g xs"
proof -
  have ins: "(\<And>y. y \<in> insert x (set ys) \<Longrightarrow> f y = g y) \<Longrightarrow> insort_key f x ys = insort_key g x ys" for x ys
    by (induction ys) auto
  show ?thesis using assms
  proof (induction xs)
    case (Cons x xs)
    then show ?case using ins[of x "sort_key g xs"] by simp
  qed simp
qed

lemma ordered_ok:
  fixes ss :: "nat list"
  assumes "\<forall>c\<in>set cs. utf16_encode (cf_name c) \<noteq> None" "length ss = length cs"
  shows "ordered upper (zip cs ss) = Inr (map snd (sort_key (\<lambda>(c, s). name_key upper c) (zip cs ss)))"
proof -
  have k: "emap (\<lambda>(c, s). cfb_key upper (cf_name c)) (zip cs ss) = Inr (map (\<lambda>(c, s). name_key upper c) (zip cs ss))"
    using assms(1) by (intro emap_Inr) (auto simp: cfb_key_def name_key_def dest!: set_zip_leftD)
  have z: "zip (map (\<lambda>(c, s). name_key upper c) zs) (map snd zs) = map (\<lambda>(c, s). (name_key upper c, s)) zs" for zs :: "(cf_entry \<times> nat) list"
    by (induction zs) auto
  have "sort_key fst (map (\<lambda>(c, s). (name_key upper c, s)) zs) = map (\<lambda>(c, s). (name_key upper c, s)) (sort_key (\<lambda>(c, s). name_key upper c) zs)"
    for zs :: "(cf_entry \<times> nat) list"
    by (subst sort_key_map) (simp add: case_prod_unfold)
  moreover have "map snd (map (\<lambda>(c, s). (name_key upper c, s)) zs) = map snd zs" for zs :: "(cf_entry \<times> nat) list"
    by (induction zs) auto
  ultimately show ?thesis unfolding ordered_def k ebind_simps z by simp
qed

lemma ordered_set:
  fixes ss :: "nat list"
  assumes "ordered upper (zip cs ss) = Inr os" "\<forall>c\<in>set cs. utf16_encode (cf_name c) \<noteq> None" "length ss = length cs" "distinct ss"
  shows "set os = set ss" "distinct os" "length os = length ss"
proof -
  let ?z = "sort_key (\<lambda>(c, s). name_key upper c) (zip cs ss)"
  have os: "os = map snd ?z" using ordered_ok[OF assms(2,3), of upper] assms(1) by simp
  have "mset os = image_mset snd (mset (zip cs ss))" unfolding os by (simp add: mset_map)
  also have "\<dots> = mset ss" using assms(3) by (metis map_snd_zip mset_map)
  finally have m: "mset os = mset ss" .
  then show "set os = set ss" "length os = length ss" by (metis set_mset_mset, metis size_mset)
  show "distinct os" using m assms(4) by (metis mset_eq_imp_distinct_iff)
qed


section \<open>Links\<close>

abbreviation sids_of :: "(cf_entry \<times> nat list) list \<Rightarrow> nat list" where
  "sids_of nodes \<equiv> concat (map snd nodes)"

definition node_ok :: "cf_entry \<times> nat list \<Rightarrow> bool" where
  "node_ok x \<longleftrightarrow> length (snd x) = length (cf_children (fst x)) \<and> (cf_children (fst x) \<noteq> [] \<longrightarrow> has_children (fst x)) \<and>
     (\<forall>c\<in>set (cf_children (fst x)). utf16_encode (cf_name c) \<noteq> None)"

definition tied :: "(ustr \<Rightarrow> ustr) \<Rightarrow> link list \<Rightarrow> cf_entry \<times> nat list \<Rightarrow> nat \<Rightarrow> bool" where
  "tied upper links x ch \<longleftrightarrow> (if snd x = [] then ch = NOSTREAM
     else \<exists>os. ordered upper (zip (cf_children (fst x)) (snd x)) = Inr os \<and> linked links (lay os) ch)"

lemma tied_cong:
  assumes "tied upper links x ch" "node_ok x" "distinct (snd x)"
    "\<And>s. s \<in> set (snd x) \<Longrightarrow> lk_left (links' ! s) = lk_left (links ! s) \<and> lk_right (links' ! s) = lk_right (links ! s)"
  shows "tied upper links' x ch"
proof (cases "snd x = []")
  case False
  then obtain os where os: "ordered upper (zip (cf_children (fst x)) (snd x)) = Inr os" "linked links (lay os) ch"
    using assms(1) by (auto simp: tied_def)
  then have "set os = set (snd x)" using assms(2,3) by (intro ordered_set(1)[OF os(1)]) (auto simp: node_ok_def)
  then have "linked links' (lay os) ch" using os(2) assms(4) by (subst linked_cong[where links = links]) auto
  then show ?thesis using False os by (simp add: tied_def)
qed (use assms in \<open>simp add: tied_def\<close>)

definition link_in_range :: "nat \<Rightarrow> link \<Rightarrow> bool" where
  "link_in_range n k \<longleftrightarrow> (lk_left k = NOSTREAM \<or> lk_left k < n) \<and> (lk_right k = NOSTREAM \<or> lk_right k < n) \<and>
     (lk_child k = NOSTREAM \<or> lk_child k < n) \<and> lk_color k \<in> {RED, BLACK}"

lemma linked_in_set: "linked links t s \<Longrightarrow> s = NOSTREAM \<or> s \<in> set_tree t"
  by (cases t) auto

lemma linked_fields: "linked links t s \<Longrightarrow> x \<in> set_tree t \<Longrightarrow>
    (lk_left (links ! x) = NOSTREAM \<or> lk_left (links ! x) \<in> set_tree t) \<and>
    (lk_right (links ! x) = NOSTREAM \<or> lk_right (links ! x) \<in> set_tree t)"
  by (induction t arbitrary: s) (auto dest: linked_in_set)

lemma tree_in_range:
  assumes "distinct sids" "sids \<noteq> []" "\<forall>s\<in>set sids. s < length links" "tree sids links = (r, links')"
    "\<forall>k\<in>set links. link_in_range (length links) k"
  shows "r < length links" "\<forall>k\<in>set links'. link_in_range (length links) k"
proof -
  note t = tree_lays[OF assms(1-4)]
  have "lay sids \<noteq> Leaf" using assms(2) by (simp add: lay_nonempty)
  then have "r \<in> set sids" using t(1) by (cases "lay sids") (auto simp flip: set_lay)
  then show "r < length links" using assms(3) by simp
  have "link_in_range (length links) (links' ! i)" if i: "i < length links" for i
  proof (cases "i \<in> set sids")
    case True
    have "lk_child (links' ! i) = lk_child (links ! i)" using t(2) by (simp add: same_rest_def)
    moreover have "link_in_range (length links) (links ! i)" using assms(5) i by simp
    ultimately show ?thesis using linked_fields[OF t(1), of i] t(6) True assms(3) by (auto simp: link_in_range_def)
  next
    case False
    then show ?thesis using t(2) assms(5) i by (simp add: same_rest_def)
  qed
  then show "\<forall>k\<in>set links'. link_in_range (length links) k"
    using t(2) by (simp add: all_set_conv_all_nth same_rest_def)
qed

lemma upd_child_in_range:
  assumes "\<forall>k\<in>set links. link_in_range n k" "r < n"
  shows "\<forall>k\<in>set (upd i (\<lambda>k. k\<lparr>lk_child := r\<rparr>) links). link_in_range n k"
proof (cases "i < length links")
  case True
  then have "link_in_range n (links ! i)" using assms by simp
  then have "link_in_range n ((links ! i)\<lparr>lk_child := r\<rparr>)" using assms(2) by (simp add: link_in_range_def)
  then show ?thesis using assms set_update_subset_insert[of links i] by (auto simp: upd_def dest!: subsetD)
qed (use assms in \<open>simp add: upd_def list_update_beyond\<close>)

lemma link_nodes_ok:
  assumes "distinct (sids_of nodes)" "\<forall>s\<in>set (sids_of nodes). s < length links" "sid + length nodes \<le> length links"
    "\<forall>x\<in>set nodes. node_ok x" "\<forall>k\<in>set links. link_in_range (length links) k"
    "\<forall>i<length nodes. lk_child (links ! (sid + i)) = NOSTREAM"
  shows "\<exists>links'. link_nodes upper sid nodes links = Inr links' \<and> length links' = length links \<and>
    (\<forall>s. s \<notin> set (sids_of nodes) \<longrightarrow> lk_left (links' ! s) = lk_left (links ! s) \<and> lk_right (links' ! s) = lk_right (links ! s)) \<and>
    (\<forall>s < sid. lk_child (links' ! s) = lk_child (links ! s)) \<and>
    (\<forall>k\<in>set links'. link_in_range (length links) k) \<and>
    (\<forall>i<length nodes. tied upper links' (nodes ! i) (lk_child (links' ! (sid + i))))"
  using assms
proof (induction nodes arbitrary: sid links)
  case (Cons x nodes)
  obtain e cs where x: "x = (e, cs)" by (cases x)
  have ok: "node_ok (e, cs)" using Cons.prems(4) x by simp
  have dis: "distinct (sids_of nodes)" "distinct cs" "set cs \<inter> set (sids_of nodes) = {}" using Cons.prems(1) x by auto
  show ?case
  proof (cases "has_children e")
    case False
    then have "cs = []" using ok by (auto simp: node_ok_def)
    have "\<exists>links'. link_nodes upper (sid + 1) nodes links = Inr links' \<and> length links' = length links \<and>
        (\<forall>s. s \<notin> set (sids_of nodes) \<longrightarrow> lk_left (links' ! s) = lk_left (links ! s) \<and> lk_right (links' ! s) = lk_right (links ! s)) \<and>
        (\<forall>s < sid + 1. lk_child (links' ! s) = lk_child (links ! s)) \<and>
        (\<forall>k\<in>set links'. link_in_range (length links) k) \<and>
        (\<forall>i<length nodes. tied upper links' (nodes ! i) (lk_child (links' ! (sid + 1 + i))))"
    proof (rule Cons.IH)
      show "\<forall>i<length nodes. lk_child (links ! (sid + 1 + i)) = NOSTREAM"
        using Cons.prems(6) by (metis Suc_eq_plus1 add.assoc add.commute length_Cons not_less_eq)
    qed (use dis Cons.prems in auto)
    then obtain links' where l: "link_nodes upper (sid + 1) nodes links = Inr links'" "length links' = length links"
        "\<And>s. s \<notin> set (sids_of nodes) \<Longrightarrow> lk_left (links' ! s) = lk_left (links ! s) \<and> lk_right (links' ! s) = lk_right (links ! s)"
        "\<And>s. s < sid + 1 \<Longrightarrow> lk_child (links' ! s) = lk_child (links ! s)" "\<forall>k\<in>set links'. link_in_range (length links) k"
        "\<And>i. i < length nodes \<Longrightarrow> tied upper links' (nodes ! i) (lk_child (links' ! (sid + 1 + i)))"
      by auto
    have "lk_child (links ! sid) = NOSTREAM" using Cons.prems(6) by (metis add.right_neutral length_greater_0_conv list.distinct(1))
    then have here: "tied upper links' x (lk_child (links' ! sid))"
      using l(4)[of sid] x \<open>cs = []\<close> by (simp add: tied_def)
    have "tied upper links' ((x # nodes) ! i) (lk_child (links' ! (sid + i)))" if "i < length (x # nodes)" for i
      using that here l(6)[of "i - 1"] by (cases i) auto
    moreover have "link_nodes upper sid (x # nodes) links = Inr links'" using False x l(1) by simp
    moreover have "sids_of (x # nodes) = sids_of nodes" using x \<open>cs = []\<close> by simp
    moreover have "\<forall>s < sid. lk_child (links' ! s) = lk_child (links ! s)" using l(4) by simp
    ultimately show ?thesis using l(2,3,5) by metis
  next
    case True
    then have ne: "cf_children e \<noteq> []" "cs \<noteq> []" using ok by (auto simp: has_children_def node_ok_def)
    obtain os where os: "ordered upper (zip (cf_children e) cs) = Inr os"
      using ordered_ok[of "cf_children e" cs upper] ok by (auto simp: node_ok_def)
    have oset: "set os = set cs" "distinct os" "length os = length cs"
      using ordered_set[OF os] ok dis(2) by (auto simp: node_ok_def)
    obtain r links1 where t: "tree os links = (r, links1)" by (cases "tree os links")
    have osl: "os \<noteq> []" "\<forall>s\<in>set os. s < length links" using oset ne Cons.prems(2) x by auto
    note tr = tree_lays[OF oset(2) osl t] and rng = tree_in_range[OF oset(2) osl t Cons.prems(5)]
    let ?l2 = "upd sid (\<lambda>k. k\<lparr>lk_child := r\<rparr>) links1"
    have len: "length links1 = length links" using tr(2) by (simp add: same_rest_def)
    have l2: "?l2 ! s = (if s = sid then (links1 ! sid)\<lparr>lk_child := r\<rparr> else links1 ! s)" for s
      using Cons.prems(3) len by (simp add: nth_upd)
    have "\<exists>links'. link_nodes upper (sid + 1) nodes ?l2 = Inr links' \<and> length links' = length ?l2 \<and>
        (\<forall>s. s \<notin> set (sids_of nodes) \<longrightarrow> lk_left (links' ! s) = lk_left (?l2 ! s) \<and> lk_right (links' ! s) = lk_right (?l2 ! s)) \<and>
        (\<forall>s < sid + 1. lk_child (links' ! s) = lk_child (?l2 ! s)) \<and>
        (\<forall>k\<in>set links'. link_in_range (length ?l2) k) \<and>
        (\<forall>i<length nodes. tied upper links' (nodes ! i) (lk_child (links' ! (sid + 1 + i))))"
    proof (rule Cons.IH)
      show "\<forall>s\<in>set (sids_of nodes). s < length ?l2" using Cons.prems(2) x len by auto
      show "sid + 1 + length nodes \<le> length ?l2" using Cons.prems(3) len by simp
      show "\<forall>k\<in>set ?l2. link_in_range (length ?l2) k" using upd_child_in_range[OF rng(2,1)] len by simp
      show "\<forall>i<length nodes. lk_child (?l2 ! (sid + 1 + i)) = NOSTREAM"
        using Cons.prems(6) tr(2) by (auto simp: l2 same_rest_def)
    qed (use dis Cons.prems(4) in auto)
    then obtain links' where l: "link_nodes upper (sid + 1) nodes ?l2 = Inr links'" "length links' = length links"
        "\<And>s. s \<notin> set (sids_of nodes) \<Longrightarrow> lk_left (links' ! s) = lk_left (?l2 ! s) \<and> lk_right (links' ! s) = lk_right (?l2 ! s)"
        "\<And>s. s < sid + 1 \<Longrightarrow> lk_child (links' ! s) = lk_child (?l2 ! s)" "\<forall>k\<in>set links'. link_in_range (length links) k"
        "\<And>i. i < length nodes \<Longrightarrow> tied upper links' (nodes ! i) (lk_child (links' ! (sid + 1 + i)))"
      using len by auto
    have res: "link_nodes upper sid (x # nodes) links = Inr links'" using True x os t l(1) by simp
    have "tied upper links1 x r" using os tr(1) ne x by (simp add: tied_def)
    then have "tied upper links' x r"
    proof (rule tied_cong)
      fix s assume "s \<in> set (snd x)"
      then have "s \<notin> set (sids_of nodes)" using dis(3) x by auto
      then show "lk_left (links' ! s) = lk_left (links1 ! s) \<and> lk_right (links' ! s) = lk_right (links1 ! s)"
        using l(3)[of s] by (simp add: l2)
    qed (use ok dis(2) x in auto)
    moreover have "lk_child (links' ! sid) = r" using l(4)[of sid] by (simp add: l2)
    ultimately have here: "tied upper links' x (lk_child (links' ! sid))" by simp
    have fields: "lk_left (links' ! s) = lk_left (links ! s) \<and> lk_right (links' ! s) = lk_right (links ! s)"
      if "s \<notin> set (sids_of (x # nodes))" for s
    proof -
      have "s \<notin> set os" using that oset x by auto
      then have "links1 ! s = links ! s" using tr(2) by (simp add: same_rest_def)
      then show ?thesis using l(3)[of s] that by (auto simp: l2)
    qed
    have childs: "lk_child (links' ! s) = lk_child (links ! s)" if "s < sid" for s
      using l(4)[of s] that tr(2) by (simp add: l2 same_rest_def)
    have "tied upper links' ((x # nodes) ! i) (lk_child (links' ! (sid + i)))" if "i < length (x # nodes)" for i
      using that here l(6)[of "i - 1"] by (cases i) auto
    then show ?thesis using res l(2,5) fields childs by blast
  qed
qed simp

end
