(* ===== verification/CompoundRoundtrip.thy ===== *)
theory CompoundRoundtrip
  imports CompoundLinks
begin

text \<open>
  What \<open>write\<close> of \<open>src/xgen_sdk/control_policy/_cfb.py\<close> writes, \<open>read\<close> reads: the same entries with the same
  names, marks and data, siblings in the order in which the reader walks the tree of the writer,
  streams without their times, which the writer leaves out.
\<close>

section \<open>What is written and read\<close>

fun visit :: "'a Tree.tree \<Rightarrow> 'a list" where
  "visit Leaf = []"
| "visit (Node l x r) = x # visit r @ visit l"

fun relayout :: "(ustr \<Rightarrow> ustr) \<Rightarrow> cf_entry \<Rightarrow> cf_entry" where
  "relayout upper (Entry nm k d ci st cr mo cs) =
     Entry nm k d ci st (if k = KIND_STREAM then replicate 8 0 else cr) (if k = KIND_STREAM then replicate 8 0 else mo)
       (visit (lay (sort_key (name_key upper) (map (relayout upper) cs))))"

text \<open>An entry that fits the records of the format, with storages on at most \<open>n\<close> levels.\<close>

fun fits_format :: "nat \<Rightarrow> cf_entry \<Rightarrow> bool" where
  "fits_format n (Entry nm k d ci st cr mo cs) =
     ((case utf16_encode nm of None \<Rightarrow> False | Some b \<Rightarrow> length b \<le> 62) \<and>
      length ci = 16 \<and> st < 2 ^ 32 \<and> length cr = 8 \<and> length mo = 8 \<and>
      (if k = KIND_STREAM then cs = []
       else k \<in> {KIND_STORAGE, KIND_ROOT} \<and> d = [] \<and> 0 < n \<and> list_all (fits_format (n - 1)) cs))"

definition file_sectors :: "cf_entry \<Rightarrow> nat" where
  "file_sectors e = data_count (place_streams 0 (map fst (number 0 e)) no_placing) (entry_count e)"

lemma set_visit [simp]: "set (visit t) = set_tree t"
  by (induction t) auto

lemma visit_map: "visit (map_tree f t) = map f (visit t)"
  by (induction t) auto

lemma cf_name_relayout [simp]: "cf_name (relayout upper e) = cf_name e"
  by (cases e) simp

lemma name_key_relayout [simp]: "name_key upper (relayout upper e) = name_key upper e"
  by (simp add: name_key_def)

section \<open>Walking the siblings\<close>

lemma sibling_loop_visits:
  assumes "linked links t s" "distinct (inorder t)" "set_tree t \<inter> set visited = {}"
    "\<forall>x\<in>set_tree t. x < length records \<and> x \<noteq> NOSTREAM \<and> u32 (records ! x) 68 = lk_left (links ! x) \<and>
       u32 (records ! x) 72 = lk_right (links ! x)"
  shows "sibling_loop records (s # stack) visited out = sibling_loop records stack (rev (visit t) @ visited) (out @ visit t)"
  using assms
proof (induction t arbitrary: s stack visited out)
  case (Node l x r)
  have s: "s = x" "linked links l (lk_left (links ! x))" "linked links r (lk_right (links ! x))"
    using Node.prems(1) by auto
  have dis: "distinct (inorder l)" "distinct (inorder r)" "x \<notin> set_tree l" "x \<notin> set_tree r" "set_tree l \<inter> set_tree r = {}"
    using Node.prems(2) by auto
  have x: "x < length records" "x \<noteq> NOSTREAM" "u32 (records ! x) 68 = lk_left (links ! x)" "u32 (records ! x) 72 = lk_right (links ! x)"
    using Node.prems(4) by auto
  have nv: "x \<notin> set visited" using Node.prems(3) by auto
  have "sibling_loop records (s # stack) visited out
      = sibling_loop records (lk_right (links ! x) # lk_left (links ! x) # stack) (x # visited) (out @ [x])"
    using sibling_loop_new[OF x(2) nv x(1)] s(1) x(3,4) by simp
  also have "\<dots> = sibling_loop records (lk_left (links ! x) # stack) (rev (visit r) @ x # visited) ((out @ [x]) @ visit r)"
    by (rule Node.IH(2)[OF s(3) dis(2)]) (use dis Node.prems(3,4) in auto)
  also have "\<dots> = sibling_loop records stack (rev (visit l) @ rev (visit r) @ x # visited) (((out @ [x]) @ visit r) @ visit l)"
    by (rule Node.IH(1)[OF s(2) dis(1)]) (use dis Node.prems(3,4) in auto)
  finally show ?case by simp
qed simp

lemma rmap_map:
  assumes "\<And>x. x \<in> set xs \<Longrightarrow> f x = Some (Inr (g x))"
  shows "rmap f xs = Some (Inr (map g xs))"
  using assms by (rule rmap_Inr)

lemma sorted_children:
  assumes "length ss = length cs" "distinct ss" "\<And>c s. (c, s) \<in> set (zip cs ss) \<Longrightarrow> g s = relayout upper c"
  shows "map g (map snd (sort_key (\<lambda>(c, s). name_key upper c) (zip cs ss))) =
    sort_key (name_key upper) (map (relayout upper) cs)"
proof -
  have "map (relayout upper) cs = map (\<lambda>(c, s). g s) (zip cs ss)"
  proof (rule nth_equalityI)
    fix i assume "i < length (map (relayout upper) cs)"
    then have "(cs ! i, ss ! i) \<in> set (zip cs ss)" "i < length (zip cs ss)" using assms(1) by (auto simp: set_zip)
    then show "map (relayout upper) cs ! i = map (\<lambda>(c, s). g s) (zip cs ss) ! i" using assms(1,3) by simp
  qed (use assms(1) in simp)
  then have "sort_key (name_key upper) (map (relayout upper) cs) =
      map (\<lambda>(c, s). g s) (sort_key (\<lambda>x. name_key upper ((\<lambda>(c, s). g s) x)) (zip cs ss))"
    by (simp add: sort_key_map)
  also have "sort_key (\<lambda>x. name_key upper ((\<lambda>(c, s). g s) x)) (zip cs ss) = sort_key (\<lambda>(c, s). name_key upper c) (zip cs ss)"
    using assms(3) by (intro sort_key_cong) auto
  finally show ?thesis by (simp add: case_prod_unfold comp_def)
qed

text \<open>An image that says for every node what was written.\<close>

definition image_of :: "(ustr \<Rightarrow> ustr) \<Rightarrow> (cf_entry \<times> nat list) list \<Rightarrow> link list \<Rightarrow> image \<Rightarrow> bool" where
  "image_of upper nodes links im \<longleftrightarrow> length nodes \<le> length (im_records im) \<and> length nodes \<le> NOSTREAM \<and>
     distinct (sids_of nodes) \<and> (\<forall>s\<in>set (sids_of nodes). s < length nodes) \<and> (\<forall>x\<in>set nodes. node_ok x) \<and>
     (\<forall>sid<length nodes. (\<exists>ss. record_says (im_records im ! sid) (fst (nodes ! sid)) (links ! sid) ss) \<and>
        tied upper links (nodes ! sid) (lk_child (links ! sid)) \<and>
        (is_stream (fst (nodes ! sid)) \<longrightarrow> stream_data im (im_records im ! sid) = Some (Inr (cf_data (fst (nodes ! sid))))))"

lemma siblings_back:
  assumes im: "image_of upper nodes links im" and sid: "sid < length nodes" "nodes ! sid = (e, ss)" and depth: "depth \<le> 64"
  obtains os where "siblings (im_records im) (lk_child (links ! sid)) depth = Some (Inr (visit (lay os)))"
    "set os = set ss" "os = map snd (sort_key (\<lambda>(c, s). name_key upper c) (zip (cf_children e) ss))"
proof -
  have ok: "node_ok (e, ss)" using im sid by (auto simp: image_of_def dest!: nth_mem)
  have t: "tied upper links (e, ss) (lk_child (links ! sid))" using im sid unfolding image_of_def by metis
  have nds: "(e, ss) \<in> set nodes" using sid nth_mem by metis
  then have ssin: "set ss \<subseteq> set (sids_of nodes)" by force
  have dss: "distinct ss"
    using im nds unfolding image_of_def by (metis distinct_concat_iff in_set_conv_decomp list.set_map map_append map_eq_Cons_conv snd_conv image_eqI)
  show ?thesis
  proof (cases "ss = []")
    case True
    then have "siblings (im_records im) (lk_child (links ! sid)) depth = Some (Inr [])"
      using t depth siblings_none by (simp add: tied_def)
    then show ?thesis using that[of "[]"] True by simp
  next
    case False
    then obtain os where os: "ordered upper (zip (cf_children e) ss) = Inr os" "linked links (lay os) (lk_child (links ! sid))"
      using t by (auto simp: tied_def)
    have okc: "\<forall>c\<in>set (cf_children e). utf16_encode (cf_name c) \<noteq> None" "length ss = length (cf_children e)"
      using ok by (auto simp: node_ok_def)
    note set_os = ordered_set[OF os(1) okc dss]
    have rec: "\<forall>x\<in>set_tree (lay os). x < length (im_records im) \<and> x \<noteq> NOSTREAM \<and>
        u32 (im_records im ! x) 68 = lk_left (links ! x) \<and> u32 (im_records im ! x) 72 = lk_right (links ! x)"
    proof
      fix x assume "x \<in> set_tree (lay os)"
      then have x: "x < length nodes" using set_os ssin im by (auto simp: image_of_def)
      then obtain ss' where "record_says (im_records im ! x) (fst (nodes ! x)) (links ! x) ss'"
        using im unfolding image_of_def by metis
      then show "x < length (im_records im) \<and> x \<noteq> NOSTREAM \<and> u32 (im_records im ! x) 68 = lk_left (links ! x) \<and>
          u32 (im_records im ! x) 72 = lk_right (links ! x)"
        using x im by (auto simp: record_says_def image_of_def)
    qed
    have "sibling_loop (im_records im) [lk_child (links ! sid)] [] [] = Some (Inr (visit (lay os)))"
      using sibling_loop_visits[OF os(2) _ _ rec, of "[]" "[]" "[]"] set_os by simp
    then show ?thesis using that[of os] depth set_os ordered_ok[OF okc, of upper] os(1) by (simp add: siblings_def)
  qed
qed

lemma entry_back:
  assumes im: "image_of upper nodes links im"
  shows "numbered_at nodes sid e \<Longrightarrow> fits_format n e \<Longrightarrow> n + depth = 65 \<Longrightarrow> read_entry im sid depth = Some (Inr (relayout upper e))"
proof (induction n e arbitrary: sid depth rule: fits_format.induct)
  case (1 n nm k d ci st cr mo cs)
  let ?e = "Entry nm k d ci st cr mo cs"
  let ?r = "im_records im ! sid"
  note nd = numbered_node[OF "1.prems"(1)]
  let ?ss = "child_sids (sid + 1) cs"
  obtain w where rs: "record_says ?r ?e (links ! sid) w" using im nd(1,2) unfolding image_of_def by (metis fst_conv)
  then have fields: "record_name ?r = nm" "record_kind ?r = k" "u32 ?r 76 = lk_child (links ! sid)"
      "window 80 16 ?r = ci" "u32 ?r 96 = st" "window 100 8 ?r = (if k = KIND_STREAM then replicate 8 0 else cr)"
      "window 108 8 ?r = (if k = KIND_STREAM then replicate 8 0 else mo)"
    using "1.prems"(2) by (auto simp: record_says_def times_of_def fit_exact)
  show ?case
  proof (cases "k = KIND_STREAM")
    case True
    then have "cs = []" using "1.prems"(2) by simp
    moreover have "stream_data im ?r = Some (Inr d)"
      using im nd(1,2) True unfolding image_of_def is_stream_def by fastforce
    ultimately show ?thesis using True fields
      by (subst read_entry.simps) (simp add: Let_def KIND_STREAM_def KIND_STORAGE_def KIND_ROOT_def)
  next
    case False
    then have g: "k = KIND_STORAGE \<or> k = KIND_ROOT" "d = []" "0 < n" "list_all (fits_format (n - 1)) cs" using "1.prems"(2) by auto
    then have depth: "depth \<le> 64" "n - 1 + (depth + 1) = 65" using "1.prems"(3) by auto
    have node: "nodes ! sid = (?e, ?ss)" using nd(2) by simp
    obtain os where os: "siblings (im_records im) (lk_child (links ! sid)) depth = Some (Inr (visit (lay os)))"
        "set os = set ?ss" "os = map snd (sort_key (\<lambda>(c, s). name_key upper c) (zip cs ?ss))"
      using siblings_back[OF im nd(1) node depth(1)] by auto
    have len: "length ?ss = length cs" by (simp add: length_number)
    define g' where "g' s = relayout upper (fst (nodes ! s))" for s
    have sub: "read_entry im s (depth + 1) = Some (Inr (relayout upper c)) \<and> g' s = relayout upper c"
      if "(c, s) \<in> set (zip cs ?ss)" for c s
    proof -
      have at: "numbered_at nodes s c" using nd(3) that by simp
      have c: "c \<in> set cs" using that by (rule set_zip_leftD)
      have "read_entry im s (depth + 1) = Some (Inr (relayout upper c))"
        using c g False at depth(2) by (intro "1.IH") (auto simp: list_all_iff)
      moreover have "fst (nodes ! s) = c" using numbered_node(2)[OF at] by simp
      ultimately show ?thesis by (simp add: g'_def)
    qed
    have subs: "read_entry im s (depth + 1) = Some (Inr (g' s))" if "s \<in> set (visit (lay os))" for s
    proof -
      have "s \<in> set ?ss" using that os(2) by simp
      then obtain c where "(c, s) \<in> set (zip cs ?ss)" using len by (metis in_set_impl_in_set_zip2)
      then show ?thesis using sub by fastforce
    qed
    have dss: "distinct ?ss"
      using sids_of_numbers(2)[of "sid + 1" cs] by simp
    have "map g' (visit (lay os)) = visit (lay (map g' os))" by (simp add: lay_map visit_map)
    also have "map g' os = sort_key (name_key upper) (map (relayout upper) cs)"
      unfolding os(3) using sub by (intro sorted_children[OF len dss]) blast
    finally have "rmap (\<lambda>c. read_entry im c (depth + 1)) (visit (lay os))
        = Some (Inr (visit (lay (sort_key (name_key upper) (map (relayout upper) cs)))))"
      using rmap_Inr[of "visit (lay os)" "\<lambda>c. read_entry im c (depth + 1)" g'] subs by simp
    then show ?thesis using False g fields os(1)
      by (subst read_entry.simps) (simp add: Let_def)
  qed
qed


section \<open>The nodes of a good entry\<close>

lemma good_nodes:
  "fits_format m e \<Longrightarrow> \<forall>x\<in>set (number n e). node_ok x \<and> (\<exists>k. fits_format k (fst x))"
  "list_all (fits_format m) cs \<Longrightarrow> \<forall>x\<in>set (number_all n cs). node_ok x \<and> (\<exists>k. fits_format k (fst x))"
  "True"
proof (induction n e and n cs and n cs arbitrary: m and m rule: number_number_all_child_sids.induct)
  case (1 n nm k d ci st cr mo cs)
  have "list_all (fits_format (m - 1)) cs" using "1.prems" by (cases "k = KIND_STREAM") auto
  moreover have "utf16_encode (cf_name c) \<noteq> None" if "fits_format j c" for j c
    using that by (cases c) (auto split: option.splits)
  moreover have "cs \<noteq> [] \<Longrightarrow> k \<in> {KIND_STORAGE, KIND_ROOT}" using "1.prems" by (auto split: if_splits)
  ultimately have "node_ok (Entry nm k d ci st cr mo cs, child_sids (n + 1) cs)"
    by (auto simp: node_ok_def has_children_def length_number list_all_iff)
  then show ?case using "1.IH" "1.prems" \<open>list_all (fits_format (m - 1)) cs\<close> by auto
next
  case (3 n c cs)
  then show ?case using "3.IH"(1)[of m] "3.IH"(2)[of m] by (simp add: ball_Un)
qed auto

section \<open>Streams read back\<close>

lemma concat_windows_from:
  "concat (map (\<lambda>i. window (i * k) k xs) [s..<s + m]) = window (k * s) (k * m) xs"
proof (induction m)
  case (Suc m)
  have "window (k * s) (k * Suc m) xs = window (k * s) (k * m) xs @ window (k * s + k * m) k xs"
    using window_add[of "k * s" "k * m" k xs] by (simp add: add.commute)
  then show ?case using Suc by (simp add: algebra_simps)
qed (simp add: window_def)

lemma chained_run: "0 < n \<Longrightarrow> run fat s n \<Longrightarrow> chained fat s s n"
  by (simp add: chained_def)

lemma stream_read_back:
  assumes im: "im_major im = 3" "im_cutoff im = MINI_CUTOFF" "im_sector im = 512"
      "im_minifat im = pl_minifat p @ rest" "im_mini_stream im = pl_mini p"
    and p: "shape k p" "stream_placed p sid d" "length (pl_minifat p) \<le> MAXREGSECT"
    and start: "sid \<notin> fst ` set (pl_big p) \<Longrightarrow> u32 r 116 = the (map_of (pl_start p) sid)"
      "\<And>pre post. pl_big p = pre @ (sid, d) # post \<Longrightarrow>
         regular (im_raw im) 512 (im_fat im) (u32 r 116) = Some (Inr (fill_up SECTOR d))"
    and sz: "u32 r 120 = length d"
  shows "stream_data im r = Some (Inr d)"
proof -
  have notbig: "sid \<notin> fst ` set (pl_big p)" if "map_of (pl_start p) sid \<noteq> None"
    using that p(1) unfolding shape_def by (metis disjoint_iff map_of_eq_None_iff)
  consider (empty) "d = []" | (small) "d \<noteq> []" "length d < MINI_CUTOFF" | (big) "MINI_CUTOFF \<le> length d" by fastforce
  then show ?thesis
  proof cases
    case empty
    then show ?thesis using sz im(1) by (simp add: stream_data_def size_of_def)
  next
    case small
    then obtain s where s: "map_of (pl_start p) sid = Some s" "run (pl_minifat p) s (mini_sectors d)"
        "window (64 * s) (64 * mini_sectors d) (pl_mini p) = fill_up MINI_SECTOR d"
      using p(2) by (auto simp: stream_placed_def)
    have st: "u32 r 116 = s" using start(1) notbig s(1) by simp
    have "s + mini_sectors d \<le> MAXREGSECT" using s(2) p(3) by (simp add: run_def)
    then have ch: "chain s (pl_minifat p @ rest) = Some (Inr [s..<s + mini_sectors d])"
      using s(2) mini_sectors_pos[OF small(1)] by (intro chain_run run_append)
    have "concat (map (\<lambda>i. window (i * MINI_SECTOR) MINI_SECTOR (pl_mini p)) [s..<s + mini_sectors d]) = fill_up MINI_SECTOR d"
      using s(3) concat_windows_from[of MINI_SECTOR "pl_mini p" s "mini_sectors d"] by (simp add: MINI_SECTOR_def)
    then show ?thesis using small sz st ch im
      by (simp add: stream_data_def size_of_def Let_def) (simp add: fill_up_def)
  next
    case big
    then have "(sid, d) \<in> set (pl_big p)" using p(2) by (auto simp: stream_placed_def MINI_CUTOFF_def split: if_splits)
    then obtain pre post where "pl_big p = pre @ (sid, d) # post" by (metis split_list)
    then have "regular (im_raw im) 512 (im_fat im) (u32 r 116) = Some (Inr (fill_up SECTOR d))" by (rule start(2))
    moreover have "d \<noteq> []" using big by (auto simp: MINI_CUTOFF_def)
    ultimately show ?thesis using big sz im
      by (simp add: stream_data_def size_of_def Let_def) (simp add: fill_up_def)
  qed
qed

section \<open>The file\<close>

definition big_block :: "(nat \<times> bytes) list \<Rightarrow> bytes" where
  "big_block big = concat (map (\<lambda>(sid, d). fill_up SECTOR d) big)"

lemma length_big_block: "length (big_block big) = 512 * sectors_of big"
  by (induction big) (auto simp: big_block_def length_fill_up_sector)

lemma big_block_split: "big_block (pre @ (sid, d) # post) = big_block pre @ fill_up SECTOR d @ big_block post"
  by (simp add: big_block_def)

lemma sectors_of_ge: "(sid, d) \<in> set big \<Longrightarrow> sectors_for (length d) \<le> sectors_of big"
  by (induction big) auto

lemma blocks_of_file:
  assumes "length h = 512" "length B = 512 * b" "length M = 512 * m" "length F = 512 * n" "length R = 512 * r"
    "length T = 512 * f" "length X = 512 * d"
  defines "raw \<equiv> h @ B @ M @ F @ R @ T @ X"
  shows "block_at raw b M m" "block_at raw (b + m) F n" "block_at raw (b + m + n) R r"
    "block_at raw (b + m + n + r) T f" "block_at raw (b + m + n + r + f) X d"
    "\<And>B1 B2 B3 i j. B = B1 @ B2 @ B3 \<Longrightarrow> length B1 = 512 * i \<Longrightarrow> length B2 = 512 * j \<Longrightarrow> block_at raw i B2 j"
proof -
  have at: "block_at raw s Y k" if "raw = pre @ Y @ post" "length pre = 512 * (s + 1)" "length Y = 512 * k" for s Y k pre post
    using that by (auto simp: block_at_def)
  show "block_at raw b M m" by (rule at[of "h @ B" M]) (simp_all add: raw_def assms(1-7))
  show "block_at raw (b + m) F n" by (rule at[of "h @ B @ M" F]) (simp_all add: raw_def assms(1-7))
  show "block_at raw (b + m + n) R r" by (rule at[of "h @ B @ M @ F" R]) (simp_all add: raw_def assms(1-7))
  show "block_at raw (b + m + n + r) T f" by (rule at[of "h @ B @ M @ F @ R" T]) (simp_all add: raw_def assms(1-7))
  show "block_at raw (b + m + n + r + f) X d" by (rule at[of "h @ B @ M @ F @ R @ T" X]) (simp_all add: raw_def assms(1-7))
  show "block_at raw i B2 j" if "B = B1 @ B2 @ B3" "length B1 = 512 * i" "length B2 = 512 * j" for B1 B2 B3 i j
    by (rule at[of "h @ B1" B2 "B3 @ M @ F @ R @ T @ X"]) (simp_all add: raw_def assms(1) that)
qed

text \<open>What a written file gives the reader.\<close>

definition image_from :: "placing \<Rightarrow> layout \<Rightarrow> link list \<Rightarrow> cf_entry list \<Rightarrow> image \<Rightarrow> bool" where
  "image_from p l links es im \<longleftrightarrow> im_major im = 3 \<and> im_cutoff im = MINI_CUTOFF \<and> im_sector im = 512 \<and>
     (\<exists>rest. im_minifat im = pl_minifat p @ rest) \<and> im_mini_stream im = pl_mini p \<and> length es \<le> length (im_records im) \<and>
     (\<forall>sid<length es. record_says (im_records im ! sid) (es ! sid) (links ! sid) (start_and_size p l sid (es ! sid))) \<and>
     (\<forall>pre sid d post. pl_big p = pre @ (sid, d) # post \<longrightarrow>
        regular (im_raw im) 512 (im_fat im) (sectors_of pre) = Some (Inr (fill_up SECTOR d)) \<and> map_of (ly_start l) sid = Some (sectors_of pre))"

lemma chained_start: "chained fat start s n \<Longrightarrow> start = (if n = 0 then ENDOFCHAIN else s)"
  by (simp add: chained_def)

lemma file_reads:
  assumes p: "shape k p" and D: "data_count p (length es) < 2 ^ 22"
    and size: "data_count p (length es) + f + d \<le> 128 * f" "f \<le> HEADER_DIFAT + 127 * d" "f + d \<le> data_count p (length es) + 3"
    and nodes: "\<forall>i<length es. record_fits (es ! i) (links ! i) (start_and_size p (lay_out p (length es) f d) i (es ! i))"
    and top: "es \<noteq> []" "cf_kind (es ! 0) = KIND_ROOT"
  shows "\<exists>raw im. file_bytes p (lay_out p (length es) f d) links es = Inr raw \<and> cfb_read raw = read_entry im 0 0 \<and>
    image_from p (lay_out p (length es) f d) links es im"
proof -
  define l where "l = lay_out p (length es) f d"
  define s where "s = spots_of p (length es)"
  define D where "D = data_count p (length es)"
  let ?b = "sp_big s" and ?m = "sp_mini s" and ?n = "sp_minifat s" and ?r = "sp_dir s"
  have Ds: "D = ?b + ?m + ?n + ?r" by (simp add: D_def s_def data_count_spots)
  have D22: "D < 4194304" using assms(2) by (simp add: D_def)
  have fd: "D + f + d \<le> 128 * f" "f + d \<le> D + 3" using size by (simp_all add: D_def)
  have small: "D + f + d < 2 ^ 24" "128 * f \<le> 2 ^ 32" using fd D22 by simp_all
  have maxreg: "D + f + d \<le> MAXREGSECT" using small by (simp add: MAXREGSECT_def)
  note lay = lay_out_spots[OF p size(1) small(2), folded l_def s_def D_def]
  have sp: "sectors_for (length (pl_mini p)) = ?m" "sectors_for (length (pl_minifat p) * 4) = ?n"
      "sectors_for (length es * 128) = ?r" "sectors_of (pl_big p) = ?b"
    by (simp_all add: s_def spots_of_def)
  have starts: "ly_dir_start l < 2 ^ 32" "ly_minifat_start l < 2 ^ 32" "ly_mini_start l < 2 ^ 32"
    using chained_start[OF lay(3)] chained_start[OF lay(4)] chained_start[OF lay(5)] small(1) Ds by (simp_all add: ENDOFCHAIN_def)
  have secs: "\<forall>x\<in>set (ly_fat_sectors l). x < 2 ^ 32" "\<forall>x\<in>set (ly_difat_sectors l). x < 2 ^ 32"
      "length (ly_fat_sectors l) < 2 ^ 32" "length (ly_difat_sectors l) < 2 ^ 32" "?n < 2 ^ 32"
    using lay(6,7) small(1) Ds by auto
  obtain h where h: "header_bytes p l = Inr h" "length h = 512" "take 8 h = SIGNATURE"
    "u16 h 26 = 3" "u16 h 28 = 65534" "u16 h 30 = 9" "u16 h 32 = 6" "u32 h 48 = ly_dir_start l" "u32 h 56 = MINI_CUTOFF"
    "u32 h 60 = (if ?n = 0 then ENDOFCHAIN else ly_minifat_start l)" "u32 h 64 = ?n"
    "u32 h 68 = (if ly_difat_sectors l = [] then ENDOFCHAIN else hd (ly_difat_sectors l))"
    "u32s (window 76 436 h) = take 109 (ly_fat_sectors l) @ replicate (109 - min 109 (length (ly_fat_sectors l))) FREESECT"
    using header_ok[OF secs(1-4) starts(1,2), of p] secs(5) unfolding sp by blast
  have "length (pl_minifat p) * 4 \<le> ?n * 512" using sectors_for_enough[of "length (pl_minifat p) * 4"] sp(2) by simp
  then have mfl: "length (pl_minifat p) < 2 ^ 32" using Ds D22 by simp
  then have mfb: "\<forall>x\<in>set (pl_minifat p). x < 2 ^ 32"
    using p unfolding shape_def ENDOFCHAIN_def by fastforce
  note mf = minifat_ok[OF mfb, unfolded sp(2)]
  note dir = directory_ok[OF nodes, folded l_def, unfolded sp(3)]
  have lds: "length (ly_difat_sectors l) = d" using lay(7) by simp
  note dif = difat_bytes_ok[OF secs(1,2), unfolded lds]
  let ?B = "big_block (pl_big p)" and ?M = "fill_up SECTOR (pl_mini p)" and ?F = "minifat_block p"
    and ?R = "directory_block p l links es" and ?T = "concat (map (le_bytes 4) (ly_fat l))" and ?X = "difat_block l"
  define raw where "raw = h @ ?B @ ?M @ ?F @ ?R @ ?T @ ?X"
  have written: "file_bytes p l links es = Inr raw"
    using h(1) mf(1) dir(1) packs_ok[OF lay(2)] dif(1) by (simp add: file_bytes_def raw_def big_block_def)
  have lens: "length ?B = 512 * ?b" "length ?M = 512 * ?m" "length ?T = 512 * f"
    using lay(1) by (simp_all add: length_big_block length_fill_up_sector sp)
  note at = blocks_of_file[OF h(2) lens(1,2) mf(2) dir(2) lens(3) dif(2), folded raw_def Ds]
  have head: "u16 raw i = u16 h i" if "i + 2 \<le> 512" for i using that h(2) by (simp add: raw_def u16_append_left)
  have head4: "u32 raw i = u32 h i" if "i + 4 \<le> 512" for i using that h(2) by (simp add: raw_def u32_append_left)
  have head_difat: "window 76 436 raw = window 76 436 h" using h(2) by (simp add: raw_def window_append_left)
  have fat: "read_fat raw 512 = Some (Inr (ly_fat l))"
    using maxreg size(2) head4[of 68] head_difat h(12,13) Ds at(4,5)
    by (intro read_fat_back[OF lay(6,7) _ _ lay(1,2)]) simp_all
  have dirs: "regular raw 512 (ly_fat l) (u32 raw 48) = Some (Inr ?R)"
    using regular_block[OF at(3) lay(5)] head4[of 48] h(8) maxreg Ds by simp
  have says: "record_says (chunks 128 ?R ! sid) (es ! sid) (links ! sid) (start_and_size p l sid (es ! sid))"
    if "sid < length es" for sid using dir(4)[OF that] .
  have nonempty: "chunks 128 ?R \<noteq> []" using dir(3) top(1) by (metis le_zero_eq length_0_conv)
  then have first: "hd (chunks 128 ?R) = chunks 128 ?R ! 0" by (rule hd_conv_nth)
  have root: "record_kind (hd (chunks 128 ?R)) = KIND_ROOT" "u32 (hd (chunks 128 ?R)) 120 = length (pl_mini p)"
      "u32 (hd (chunks 128 ?R)) 116 = (if ?m = 0 then ENDOFCHAIN else ly_mini_start l)"
    using says[of 0] top by (simp_all add: first record_says_def start_and_size_def sp KIND_ROOT_def KIND_STREAM_def)
  have mini: "read_mini_stream raw 3 512 (ly_fat l) (hd (chunks 128 ?R)) = Some (Inr (pl_mini p))"
  proof (cases "pl_mini p = []")
    case True
    then show ?thesis using root by (simp add: read_mini_stream_def size_of_def)
  next
    case False
    then have m: "0 < ?m" using sectors_for_pos[of "length (pl_mini p)"] sp(1) by simp
    have "regular raw 512 (ly_fat l) (ly_mini_start l) = Some (Inr ?M)"
      using regular_block[OF at(1) lay(3)] maxreg Ds by simp
    then show ?thesis using root False m by (simp add: read_mini_stream_def size_of_def)
  qed
  obtain rest where minifat: "read_minifat raw 512 (ly_fat l) = Some (Inr (pl_minifat p @ rest))"
  proof (cases "?n = 0")
    case True
    then have "pl_minifat p = []" using sectors_for_pos[of "length (pl_minifat p) * 4"] sp(2) by fastforce
    then show ?thesis using that[of "[]"] True head4[of 64] h(11) by (simp add: read_minifat_def)
  next
    case False
    have "regular raw 512 (ly_fat l) (ly_minifat_start l) = Some (Inr ?F)"
      using regular_block[OF at(2) lay(4)] maxreg Ds by simp
    moreover obtain k where "u32s ?F = pl_minifat p @ replicate k FREESECT" using mf(3) by blast
    ultimately show ?thesis using that False head4[of 64] head4[of 60] h(10,11) by (simp add: read_minifat_def)
  qed
  define im where "im = \<lparr>im_raw = raw, im_major = 3, im_sector = 512, im_fat = ly_fat l, im_records = chunks 128 ?R,
      im_cutoff = MINI_CUTOFF, im_mini_stream = pl_mini p, im_minifat = pl_minifat p @ rest\<rparr>"
  have "512 \<le> length raw" "take 8 raw = SIGNATURE" using h(2,3) by (simp_all add: raw_def)
  then have "cfb_read raw = read_entry im 0 0"
    using fat dirs nonempty mini minifat root head[of 26] head[of 28] head[of 30] head[of 32] head4[of 56] h
    by (simp add: cfb_read_def Let_def im_def)
  moreover have "image_from p l links es im"
  proof -
    have "regular raw 512 (ly_fat l) (sectors_of pre) = Some (Inr (fill_up SECTOR e)) \<and> map_of (ly_start l) sid = Some (sectors_of pre)"
      if big: "pl_big p = pre @ (sid, e) # post" for pre sid e post
    proof -
      have blk: "block_at raw (sectors_of pre) (fill_up SECTOR e) (sectors_for (length e))"
        using at(6)[OF big_block_split[of pre sid e post, folded big]] by (simp add: length_big_block length_fill_up_sector)
      have ne: "0 < sectors_for (length e)"
        using p big by (intro sectors_for_pos) (auto simp: shape_def MINI_CUTOFF_def)
      have "sectors_of pre + sectors_for (length e) \<le> ?b" using big sp(4) by auto
      then show ?thesis using regular_block[OF blk chained_run[OF ne]] lay(9)[OF big] maxreg Ds by simp
    qed
    then show ?thesis using says dir(3) by (simp add: image_from_def im_def)
  qed
  ultimately show ?thesis using written by (auto simp: l_def)
qed

lemma stream_fits:
  assumes "shape k p" "sectors_of (pl_big p) < 2 ^ 22" "sectors_for (length (pl_minifat p) * 4) < 2 ^ 22" "stream_placed p sid d"
    and starts: "\<And>sid. sid \<notin> fst ` set (pl_big p) \<Longrightarrow> map_of (ly_start l) sid = map_of (pl_start p) sid"
      "\<And>pre sid e post. pl_big p = pre @ (sid, e) # post \<Longrightarrow> map_of (ly_start l) sid = Some (sectors_of pre)"
  shows "length d < 2 ^ 32" "\<exists>s. map_of (ly_start l) sid = Some s \<and> s < 2 ^ 32"
    "sid \<notin> fst ` set (pl_big p) \<Longrightarrow> map_of (ly_start l) sid = map_of (pl_start p) sid"
proof -
  have notbig: "sid \<notin> fst ` set (pl_big p)" if "map_of (pl_start p) sid \<noteq> None"
    using that assms(1) unfolding shape_def by (metis disjoint_iff map_of_eq_None_iff)
  consider (empty) "d = []" | (small) "d \<noteq> []" "length d < MINI_CUTOFF" | (big) "MINI_CUTOFF \<le> length d" by fastforce
  then have "length d < 2 ^ 32 \<and> (\<exists>s. map_of (ly_start l) sid = Some s \<and> s < 2 ^ 32)"
  proof cases
    case empty
    then show ?thesis using assms(4) notbig starts(1)[of sid] by (simp add: stream_placed_def ENDOFCHAIN_def)
  next
    case small
    then obtain s where s: "map_of (pl_start p) sid = Some s" "run (pl_minifat p) s (mini_sectors d)"
      using assms(4) by (auto simp: stream_placed_def)
    have "length (pl_minifat p) * 4 \<le> sectors_for (length (pl_minifat p) * 4) * 512" by (rule sectors_for_enough)
    then have "s < 2 ^ 32" using s(2) assms(3) by (simp add: run_def)
    then show ?thesis using small s(1) notbig starts(1)[of sid] by (simp add: MINI_CUTOFF_def)
  next
    case big
    then have mem: "(sid, d) \<in> set (pl_big p)" using assms(4) by (auto simp: stream_placed_def MINI_CUTOFF_def split: if_splits)
    then obtain pre post where sp: "pl_big p = pre @ (sid, d) # post" by (metis split_list)
    have "length d \<le> sectors_for (length d) * 512" by (rule sectors_for_enough)
    then have "length d < 2 ^ 32" using sectors_of_ge[OF mem] assms(2) by simp
    moreover have "sectors_of pre < 2 ^ 32" using sp assms(2) by simp
    ultimately show ?thesis using starts(2)[OF sp] by auto
  qed
  then show "length d < 2 ^ 32" "\<exists>s. map_of (ly_start l) sid = Some s \<and> s < 2 ^ 32" by auto
qed (use starts in blast)

lemma good_fields: "fits_format m e \<Longrightarrow> (\<exists>b. utf16_encode (cf_name e) = Some b \<and> length b \<le> 62) \<and> cf_kind e < 256 \<and> cf_state e < 2 ^ 32"
  by (cases e) (auto simp: KIND_STREAM_def KIND_STORAGE_def KIND_ROOT_def split: option.splits if_splits)

lemma written_file:
  assumes "fits_format 65 e" "cf_kind e = KIND_ROOT" "file_sectors e < 2 ^ 22"
  obtains raw where "cfb_write upper e = Some (Inr raw)" "cfb_read raw = Some (Inr (relayout upper e))"
proof -
  define nodes where "nodes = number 0 e"
  define es where "es = map fst nodes"
  define p where "p = place_streams 0 es no_placing"
  have len: "length nodes = entry_count e" "length es = length nodes" by (simp_all add: nodes_def es_def length_number)
  have ne: "0 < length nodes" using len by (cases e) simp
  have top: "nodes ! 0 = (e, child_sids 1 (cf_children e))" using numbered_node(2)[OF numbered_top[of e]] by (simp add: nodes_def)
  have D: "data_count p (length es) < 2 ^ 22" using assms(3) by (simp add: file_sectors_def p_def es_def nodes_def length_number)
  have placed: "shape (length es) p" "\<And>sid. sid < length es \<Longrightarrow> is_stream (es ! sid) \<Longrightarrow> stream_placed p sid (cf_data (es ! sid))"
    using placed_streams[of es] by (auto simp: placed_def p_def)
  obtain f d where size: "size_loop (data_count p (length es)) 0 0 = Some (f, d)" "data_count p (length es) + f + d \<le> 128 * f"
      "f \<le> HEADER_DIFAT + 127 * d" "f + d \<le> data_count p (length es) + 3"
    by (rule size_loop_fits)
  define l where "l = lay_out p (length es) f d"
  have "length nodes * 128 \<le> sectors_for (length es * 128) * 512" using sectors_for_enough[of "length es * 128"] len by simp
  moreover have "sectors_for (length es * 128) \<le> data_count p (length es)" by (simp add: data_count_def)
  ultimately have N: "length nodes < 2 ^ 24" using D by simp
  have fits_format: "\<And>x. x \<in> set nodes \<Longrightarrow> node_ok x \<and> (\<exists>k. fits_format k (fst x))" using good_nodes(1)[OF assms(1), of 0] by (auto simp: nodes_def)
  have sids: "distinct (sids_of nodes)" "\<forall>s\<in>set (sids_of nodes). s < length nodes"
    using sids_of_numbers(1)[of 0 e] by (auto simp: nodes_def length_number)
  obtain links where links: "link_nodes upper 0 nodes (replicate (length nodes) new_link) = Inr links" "length links = length nodes"
      "\<forall>k\<in>set links. link_in_range (length nodes) k" "\<And>i. i < length nodes \<Longrightarrow> tied upper links (nodes ! i) (lk_child (links ! i))"
    using link_nodes_ok[of nodes "replicate (length nodes) new_link" 0 upper] sids fits_format
    by (auto simp: new_link_def link_in_range_def)
  have mini: "length (pl_mini p) < 2 ^ 32"
    using sectors_for_enough[of "length (pl_mini p)"] D by (simp add: data_count_def)
  have D': "sectors_of (pl_big p) < 2 ^ 22" "sectors_for (length (pl_minifat p) * 4) < 2 ^ 22"
    using D by (simp_all add: data_count_def sectors_of_def)
  have f32: "128 * f \<le> 2 ^ 32" using size(4) D by simp
  note lay = lay_out_spots[OF placed(1) size(2) f32, folded l_def]
  have mini_start: "ly_mini_start l < 2 ^ 32"
    using chained_start[OF lay(3)] D'(1) by (simp add: spots_of_def ENDOFCHAIN_def)
  have fits: "record_fits (es ! i) (links ! i) (start_and_size p l i (es ! i))" if i: "i < length es" for i
  proof -
    have "nodes ! i \<in> set nodes" "links ! i \<in> set links" using i len links(2) by auto
    moreover have "es ! i = fst (nodes ! i)" using i len by (simp add: es_def)
    ultimately obtain k where k: "fits_format k (es ! i)" "link_in_range (length nodes) (links ! i)"
      using fits_format links(3) by metis
    have "lk_color (links ! i) < 256 \<and> lk_left (links ! i) < 2 ^ 32 \<and> lk_right (links ! i) < 2 ^ 32 \<and> lk_child (links ! i) < 2 ^ 32"
      using k(2) N by (auto simp: link_in_range_def NOSTREAM_def RED_def BLACK_def)
    moreover have "fst (start_and_size p l i (es ! i)) < 2 ^ 32 \<and> snd (start_and_size p l i (es ! i)) < 2 ^ 32"
    proof (cases "is_stream (es ! i)")
      case True
      note sf = stream_fits[OF placed(1) D' placed(2)[OF i True] lay(8)]
      have "length (cf_data (es ! i)) < 2 ^ 32" "\<exists>s. map_of (ly_start l) i = Some s \<and> s < 2 ^ 32"
        using sf lay(9) by blast+
      then show ?thesis using True by (auto simp: start_and_size_def is_stream_def)
    next
      case False
      then show ?thesis using mini mini_start by (simp add: start_and_size_def is_stream_def ENDOFCHAIN_def)
    qed
    ultimately show ?thesis using good_fields[OF k(1)] by (simp add: record_fits_def)
  qed
  have "es \<noteq> []" "cf_kind (es ! 0) = KIND_ROOT" using ne len top assms(2) by (auto simp: es_def)
  with file_reads[OF placed(1) D size(2-4), of links] fits obtain raw im where
    rw: "file_bytes p l links es = Inr raw" "cfb_read raw = read_entry im 0 0" "image_from p l links es im"
    unfolding l_def by blast
  have "length (pl_minifat p) * 4 \<le> sectors_for (length (pl_minifat p) * 4) * 512" by (rule sectors_for_enough)
  then have mfl: "length (pl_minifat p) \<le> MAXREGSECT" using D'(2) by (simp add: MAXREGSECT_def)
  have "image_of upper nodes links im"
  proof -
    have says: "record_says (im_records im ! i) (es ! i) (links ! i) (start_and_size p l i (es ! i))" if "i < length nodes" for i
      using rw(3) that len by (simp add: image_from_def)
    have "stream_data im (im_records im ! i) = Some (Inr (cf_data (es ! i)))" if i: "i < length es" "is_stream (es ! i)" for i
    proof -
      note sf = stream_fits[OF placed(1) D' placed(2)[OF i] lay(8)]
      obtain s where s: "map_of (ly_start l) i = Some s" using sf(2) lay(9) by blast
      have u: "u32 (im_records im ! i) 116 = s" "u32 (im_records im ! i) 120 = length (cf_data (es ! i))"
        using says[of i] i len s by (simp_all add: record_says_def start_and_size_def is_stream_def)
      obtain rest where "im_minifat im = pl_minifat p @ rest" using rw(3) by (auto simp: image_from_def)
      moreover have "regular (im_raw im) 512 (im_fat im) (u32 (im_records im ! i) 116) = Some (Inr (fill_up SECTOR (cf_data (es ! i))))"
        if "pl_big p = pre @ (i, cf_data (es ! i)) # post" for pre post
      proof -
        have "regular (im_raw im) 512 (im_fat im) (sectors_of pre) = Some (Inr (fill_up SECTOR (cf_data (es ! i))))"
          "map_of (ly_start l) i = Some (sectors_of pre)"
          using rw(3) that unfolding image_from_def by blast+
        then show ?thesis using s u(1) by simp
      qed
      moreover have "u32 (im_records im ! i) 116 = the (map_of (pl_start p) i)" if "i \<notin> fst ` set (pl_big p)"
        using lay(8)[OF that] s u(1) by (metis option.sel)
      ultimately show ?thesis
        using rw(3) u(2) by (intro stream_read_back[OF _ _ _ _ _ placed(1) placed(2)[OF i] mfl]) (auto simp: image_from_def)
    qed
    moreover have "es ! i = fst (nodes ! i)" if "i < length nodes" for i using that by (simp add: es_def)
    moreover have "length nodes \<le> length (im_records im)" "length nodes \<le> NOSTREAM"
      using rw(3) len N by (simp_all add: image_from_def NOSTREAM_def)
    ultimately show ?thesis
      using sids fits_format says links(4) len(2) unfolding image_of_def by metis
  qed
  then have "cfb_read raw = Some (Inr (relayout upper e))"
    using rw(2) entry_back[OF _ numbered_top[of e, folded nodes_def] assms(1), of upper links im 0] by simp
  moreover have "cfb_write upper e = Some (Inr raw)"
    using links(1) size(1) rw(1) len by (simp add: cfb_write_def nodes_def[symmetric] es_def[symmetric] p_def[symmetric] Let_def l_def)
  ultimately show ?thesis using that by blast
qed

section \<open>No stream is lost\<close>

definition stream_contents :: "cf_entry \<Rightarrow> (ustr \<times> bytes) list" where
  "stream_contents e = map (\<lambda>(path, c). (path, cf_data c)) (streams [] e)"

lemma mset_visit: "mset (visit t) = mset (inorder t)"
  by (induction t) auto

lemma mset_children: "mset (visit (lay (sort_key f xs))) = mset xs"
  by (simp add: mset_visit)

lemma relayout_parts [simp]: "cf_kind (relayout upper e) = cf_kind e" "cf_data (relayout upper e) = cf_data e"
  by (cases e, simp)+

lemma streams_kept:
  "fits_format n e \<Longrightarrow>
     mset (map (\<lambda>(path, c). (path, cf_data c)) (streams pre (relayout upper e))) =
     mset (map (\<lambda>(path, c). (path, cf_data c)) (streams pre e))"
proof (induction n e arbitrary: pre rule: fits_format.induct)
  case (1 n nm k d ci st cr mo cs)
  let ?data = "map (\<lambda>(path, c). (path, cf_data c))"
  define f where "f c = (if is_stream c then [(pre @ cf_name c, c)] else streams (pre @ cf_name c @ [47]) c)" for c
  have each: "mset (?data (f (relayout upper c))) = mset (?data (f c))" if "c \<in> set cs" for c
  proof (cases "is_stream c")
    case False
    have "k \<noteq> KIND_STREAM" using "1.prems" that by auto
    then have "mset (?data (streams (pre @ cf_name c @ [47]) (relayout upper c))) = mset (?data (streams (pre @ cf_name c @ [47]) c))"
      using "1.prems" that by (intro "1.IH") (auto simp: list_all_iff)
    then show ?thesis using False by (simp add: f_def is_stream_def)
  qed (simp add: f_def is_stream_def)
  have cat: "mset (?data (concat (map f xs))) = sum_mset (image_mset (\<lambda>c. mset (?data (f c))) (mset xs))" for xs
    by (induction xs) auto
  have "mset (?data (concat (map f (visit (lay (sort_key (name_key upper) (map (relayout upper) cs)))))))
      = sum_mset (image_mset (\<lambda>c. mset (?data (f c))) (mset (map (relayout upper) cs)))"
    unfolding cat mset_children ..
  also have "\<dots> = sum_mset (image_mset (\<lambda>c. mset (?data (f (relayout upper c)))) (mset cs))"
    by (simp add: mset_map image_mset.compositionality comp_def)
  also have "\<dots> = sum_mset (image_mset (\<lambda>c. mset (?data (f c))) (mset cs))"
    using each by (intro arg_cong[where f = sum_mset] image_mset_cong) simp
  also have "\<dots> = mset (?data (concat (map f cs)))" unfolding cat ..
  finally show ?case unfolding relayout.simps streams.simps f_def .
qed

text \<open>The same tree up to what a written file does not keep: the creation and modification times of
  streams, which become zero, and the order of siblings. Said of the entries alone, not of how they
  are laid out.\<close>

inductive rearranged :: "cf_entry \<Rightarrow> cf_entry \<Rightarrow> bool" where
  "list_all2 rearranged cs ds \<Longrightarrow> mset ds' = mset ds \<Longrightarrow>
    cr' = (if k = KIND_STREAM then replicate 8 0 else cr) \<Longrightarrow> mo' = (if k = KIND_STREAM then replicate 8 0 else mo) \<Longrightarrow>
    rearranged (Entry nm k d ci st cr mo cs) (Entry nm k d ci st cr' mo' ds')"

lemma relayout_rearranged: "rearranged e (relayout upper e)"
proof (induction e)
  case (Entry nm k d ci st cr mo cs)
  have "list_all2 rearranged cs (map (relayout upper) cs)" using Entry.IH by (simp add: list_all2_conv_all_nth)
  moreover have "mset (visit (lay (sort_key (name_key upper) (map (relayout upper) cs)))) = mset (map (relayout upper) cs)"
    by (rule mset_children)
  ultimately show ?case unfolding relayout.simps by (rule rearranged.intros) simp_all
qed

text \<open>C37. What is written is read back: every tree of entries that fits the records of the format, in a
  file below the size where sector numbers end, is written, and reading it gives an entry for each
  entry, with the same name, kind, class id, state bits and data and with the entries under it again
  under it. Two things are not kept: the creation and modification times of streams are written as
  zero, and siblings come back in the order in which the reader walks the written tree. No stream is
  lost: under each path there
  are the same data.\<close>

theorem written_files_read_back:
  assumes "fits_format 65 e" "cf_kind e = KIND_ROOT" "file_sectors e < 2 ^ 22"
  shows "\<exists>raw. cfb_write upper e = Some (Inr raw) \<and> cfb_read raw = Some (Inr (relayout upper e)) \<and>
    rearranged e (relayout upper e) \<and> mset (stream_contents (relayout upper e)) = mset (stream_contents e)"
  using written_file[OF assms, of upper] streams_kept[OF assms(1), of "[]" upper] relayout_rearranged
  unfolding stream_contents_def by blast

definition example_file :: cf_entry where
  "example_file = Entry [82] KIND_ROOT [] (replicate 16 1) 3 (replicate 8 2) (replicate 8 4)
     [Entry [67] KIND_STORAGE [] (replicate 16 0) 0 (replicate 8 0) (replicate 8 0)
        [Entry [65536] KIND_STREAM [1, 2, 3] (replicate 16 0) 7 (replicate 8 5) (replicate 8 6) []],
      Entry [65, 66] KIND_STREAM [9] (replicate 16 0) 0 (replicate 8 0) (replicate 8 0) []]"

theorem written_files_read_back_witness:
  "\<exists>raw. cfb_write id example_file = Some (Inr raw) \<and> cfb_read raw = Some (Inr (relayout id example_file)) \<and>
     rearranged example_file (relayout id example_file) \<and> mset (stream_contents (relayout id example_file)) = mset (stream_contents example_file)"
proof (rule written_files_read_back)
  show "fits_format 65 example_file"
    by (simp add: example_file_def utf16_encode_def utf16_units_def code_point_def surrogate_def KIND_ROOT_def
        KIND_STORAGE_def KIND_STREAM_def)
  show "cf_kind example_file = KIND_ROOT" by (simp add: example_file_def)
  show "file_sectors example_file < 2 ^ 22"
    by (simp add: file_sectors_def example_file_def data_count_def place_stream_def no_placing_def sectors_for_def SECTOR_def
        MINI_SECTOR_def MINI_CUTOFF_def fill_up_def KIND_ROOT_def KIND_STORAGE_def KIND_STREAM_def Let_def)
qed

end
