(* ===== verification/Spec2Isabelle.thy ===== *)
theory Spec2Isabelle
  imports AuthDelegation DocumentCapability DeployStage QuotaCalendar Quota ApprovalRace ApprovalFollowup
    ApprovalPolicy AgentShare ControlSpans ControlLoader StorageFiles CompoundRoundtrip
begin

text \<open>
  A verification library of xgen-sdk, the Python package that the services of one product share:
  who a request comes from and what it may do, approvals of risky actions, deployment of workflows,
  quotas of tokens, sharing of agents, masking of confidential text in documents, and encrypted object
  storage. Paths below are relative to
  \<open>src/src/xgen_sdk\<close>.

  \<^bold>\<open>How the parts interact.\<close> A request reaches a service with identity headers that the middleware of
  \<open>auth/principal.py\<close> believes only with a signed assertion; \<open>auth/gateway.py\<close> makes a session of them
  and \<open>auth/permission_registry.py\<close> checks the permissions of an endpoint, which
  \<open>auth/permission_resolver.py\<close> reads from the tables of roles. A service asks \<open>approval/policy.py\<close> whether an action needs an approval
  and with which line of approvers, and submits the request to \<open>approval/store.py\<close>. The store keeps
  the ledger of requests, steps and form fields in a database; every decision is judged by the pure
  rules of \<open>approval/engine.py\<close> and \<open>approval/blocks.py\<close> and written by conditional statements, so
  that the calls of several processes may interleave. A document whose line has a follow-up is
  decided by \<open>approval/followup.py\<close> instead, under a lock. When a request is decided the hooks that the
  owner of the action registered (\<open>approval/registry.py\<close>) apply or clear it; one of these actions is the
  deployment of a workflow (\<open>deploy_state_machine.py\<close>), another the widening of a share
  (\<open>agent_share.py\<close>). Files pass through \<open>control_policy\<close> (masking) and \<open>storage\<close> (encryption) on
  their way to the object store.

  \<^bold>\<open>Shared theories.\<close>
  \<^item> \<open>Prelude\<close>: values of decoded JSON (\<open>pyval\<close>), the conversions \<open>bool\<close>, \<open>int\<close>, \<open>str\<close>, dictionaries that
    keep insertion order, results that carry an exception (\<open>ebind\<close>, \<open>emap\<close>), operations on a store that
    keep what was written before they raised (\<open>act\<close>, \<open>keeps\<close>).
  \<^item> \<open>Bytes\<close>: bytes as words of eight bits, little-endian integers, writes into a \<open>bytearray\<close>, UTF-16.
  \<^item> \<open>Lifecycle\<close>: the contracts of state machines as locales: an invariant every operation keeps
    (\<open>guarded\<close>), states that refuse everything (\<open>final_states\<close>), a state that only one kind of event
    opens (\<open>gate\<close>), and their combination (\<open>audited\<close>). The approval engine, the documents and the
    deployment stages interpret them, and the histories below are theirs.

  \<^bold>\<open>Who may do what.\<close>
  \<^item> \<open>Permissions\<close> (\<open>auth/permission_resolver.py\<close>, the registry of \<open>permission_registry.py\<close>): the
    snapshot of roles, grants and denials over the tables, and matching with wildcards; a user has a
    permission exactly when the tables give one that covers it.
  \<^item> \<open>AuthTokens\<close>: base64url, JSON segments, key ids, keyrings, percent-decoding, the seal of a token;
    shared by the next two. Encoding and decoding are inverse.
  \<^item> \<open>Principal\<close> (\<open>auth/principal.py\<close>): identity headers, keys of the gateway and of trusted services,
    verifying and signing, the middleware. \<open>AuthSession\<close> (\<open>auth/gateway.py\<close>, the dependencies of
    \<open>permission_registry.py\<close>): sessions and checks; \<open>vouches\<close> says what an accepted assertion is, and every
    session is shown to have one; it names the key by the settings themselves, so that the theorem does
    not rest on how the code selects keys. \<open>AuthDelegation\<close>: what one service signs the next one reads.
  \<^item> \<open>DocumentCapability\<close> (\<open>auth/document_capability.py\<close>, \<open>deployment_policy.py\<close>): capabilities for
    documents, read back and bound to their claims, and the digest of a deployment they name.

  \<^bold>\<open>Approvals.\<close>
  \<^item> \<open>ApprovalBlocks\<close> (\<open>approval/blocks.py\<close>): kinds of fields, when a field is filled, what a value
    must respect. The locale \<open>required_fields\<close> states what the rules need of the check of required fields.
  \<^item> \<open>ApprovalEngine\<close> (\<open>approval/engine.py\<close>): \<open>decide\<close>, \<open>cancel\<close>, \<open>advance\<close>, the building of lines. A
    request and its steps are the records \<open>request\<close> and \<open>step\<close>; \<open>ledger_ok\<close> says which status each step
    has in each state of the request. Its properties are about histories of events on such a ledger.
  \<^item> \<open>ApprovalRegistry\<close> (\<open>approval/registry.py\<close>, \<open>catalog.py\<close>): registered actions and their hooks.
  \<^item> \<open>ApprovalLedger\<close> (\<open>approval/store.py\<close>): a decision statement by statement on the stored rows, the
    claim and the stamp of the hooks, withdrawal (a decision on a document with a follow-up is left to
    \<open>ApprovalFollowup\<close>). The written rows refine the rules, and the hooks of a
    decision run once.
  \<^item> \<open>ApprovalRace\<close>: the same statements of several calls in any order (\<open>run_schedule\<close>). What the
    conditional writes guarantee, and two ways in which they do not suffice.
  \<^item> \<open>ApprovalForms\<close>, \<open>ApprovalEvaluation\<close>, \<open>ApprovalDocument\<close> (\<open>store.py\<close>, \<open>evaluation.py\<close>): forms and
    lines, the options of evaluation forms, submission with a snapshot of both, filling of fields, and
    the whole life of a document (\<open>doc_step\<close>, \<open>doc_ok\<close>).
  \<^item> \<open>FollowupLines\<close>, \<open>ApprovalFollowup\<close> (\<open>approval/followup.py\<close>): candidates of a line, and a document
    that goes on to a second line. A call holds the locks of its rows, so it is one step of
    \<open>followup_step\<close>; a connection is shown to leave a document on which everything above still holds.
  \<^item> \<open>ApprovalPolicy\<close> (\<open>approval/policy.py\<close>): policies per action along histories of settings.

  \<^bold>\<open>Deployment, quotas, shares.\<close>
  \<^item> \<open>DeployStage\<close> (\<open>deploy_state_machine.py\<close>): stages, transitions, the old boolean columns.
  \<^item> \<open>Quota\<close>, \<open>QuotaCalendar\<close> (\<open>quota/\<close>): combination of policies, decision on the usage, and the
    bounds of a period on calendar dates.
  \<^item> \<open>AgentShare\<close> (\<open>agent_share.py\<close>): grants, effective permission, the parts of a change that widen
    and narrow, and the condition of the SQL list.

  \<^bold>\<open>Control policy.\<close>
  \<^item> \<open>ControlRules\<close>, \<open>ControlSpans\<close> (\<open>control_policy/rules.py\<close>): compiling rows to rules, masking a text
    rule after rule, and the spans of the original text with their replacements. A piece of text is a
    slice of the original or a unit that covers an interval of it; the loops that cut and merge pieces
    are shown to end and to put back the masked text.
  \<^item> \<open>ControlLoader\<close> (\<open>control_policy/settings.py\<close>, \<open>loader.py\<close>, \<open>outcome.py\<close>, \<open>errors.py\<close>): the switches
    of the policies and the reading of their rules, open by default and strict. The strict reader never
    takes a failure for an empty policy, said of the answers of the clients themselves, and where it succeeds both readers agree on rows
    with the column types of the schema.
  \<^item> \<open>CompoundRead\<close>, \<open>CompoundWrite\<close>, \<open>CompoundTree\<close>, \<open>CompoundLayout\<close>, \<open>CompoundFile\<close>, \<open>CompoundLinks\<close>,
    \<open>CompoundRoundtrip\<close> (\<open>control_policy/_cfb.py\<close>): the container of HWP documents. Reading follows
    sector numbers that anyone may have written, so its loops are \<open>partial_function\<close>s whose results are
    shown to exist; writing numbers the nodes, ties siblings to a red-black tree and sizes tables that
    list themselves. What is written is read back.

  \<^bold>\<open>Storage.\<close>
  \<^item> \<open>StorageKeys\<close>, \<open>StorageCrypto\<close>, \<open>StorageObjects\<close>, \<open>StorageFiles\<close> (\<open>storage/crypto.py\<close>, \<open>audit.py\<close>,
    \<open>minio_client.py\<close>): keys and where they come from, envelope, cipher registry, AES-256-GCM streams,
    objects, files in place, transfers and their records. The locale \<open>file_cipher\<close> is what the
    operations need of a cipher class; both classes interpret it. Each operation on a file may fail, as a
    list of the world says (\<open>wd_faults\<close>), and the failures that the code swallows are swallowed. What
    is lost then is shown for decryption in place; the round trips say that they need no failure. Looking
    at a file's size or its first bytes is one operation that may fail too; calls of the object store fail as its client
    says.
  \<^item> \<open>UdeCipher\<close> (\<open>jeju_bank/storage/ude/ude_cipher.py\<close>): the cipher class of a vendor's agent.

  \<^bold>\<open>Parameters.\<close> What is not code of the repository is an argument: the JSON decoder and encoder
  (\<open>sv_loads\<close>, \<open>sv_dumps\<close>, \<open>codecs\<close> with HMAC and RSA), settings of the environment, hooks of services, clock readings, the regular expression engine (a compiled
  pattern is what it finds, \<open>pattern_ok\<close> says that it scans from left to right), the GCM object of the
  cryptographic package (\<open>gcm\<close>), the vendor's library, the client of the object store, the case table
  of letters (\<open>upper\<close>), digests of candidates. Where a property needs one of them to behave, the
  hypothesis is named and its witness gives a concrete function that meets it.

  \<^bold>\<open>Bounds.\<close> Characters of \<open>string\<close> are code points up to 255, on which the predicates of characters are
  exact; where other letters matter a string is a list of code points (\<open>ustr\<close>). Dates are the years 1 to
  9999 with \<open>OverflowError\<close> outside. Loops of the code that follow links or repeat until nothing changes
  have no fuel in the model: they are \<open>partial_function (option)\<close>, and \<open>CompoundLayout\<close>
  shows by measures that they return. The compound file's depth limit of 64 is the code's own; its
  writer is proved for contents below \<open>2^22\<close> sectors, where sizes stay within four bytes.

  \<^bold>\<open>Where the code falls short.\<close> Some theorems state behaviour that the code should not have:
  a withdrawal that races a signature, a decision interrupted between its writes, a submission that
  fails after its insert, a download that decrypts twice, a directory of a compound file that makes the
  reader build a tree of exponential size, a denied action that a wildcard still gives, a file lost when putting it back fails. They are theorems about the code as it is.

  \<^bold>\<open>Not modelled.\<close>
  \<^item> SQL reads that only fill screens (inbox, search, lists of lines and forms, people and departments),
    the texts of messages and their delivery, seeding of built-in forms; \<open>auth/object_guard.py\<close> and
    \<open>supervision_resolver.py\<close>, one SQL read each; \<open>validate_and_sync\<close> of the permission registry.
  \<^item> \<open>control_policy/events.py\<close>, \<open>evidence.py\<close>: shapes of requests to another service over HTTP.
  \<^item> \<open>db/\<close>, \<open>redis/\<close>, \<open>config/\<close>: connection pools, SQL text, values kept in Redis or files; what they do is
    what the libraries below them do.
  \<^item> \<open>control_policy/_hwp.py\<close>, \<open>_pdf_worker.py\<close>, \<open>files.py\<close>: XML, zip, zlib and PDF libraries do the work.
  \<^item> \<open>comfyui\<close>, \<open>llm_catalog\<close>, \<open>quality_judge\<close>, \<open>anomaly\<close>, \<open>notification\<close>, \<open>logging\<close>: HTTP clients, prompts
    and delivery of events.
  \<^item> \<open>tokens.py\<close>: sums of binary floating-point weights.
  \<^item> Inside modelled parts: names of people joined in for screens, log lines, notifications; uniqueness
    constraints of tables (a form that gives a step index twice fails in the middle of \<open>_write_steps\<close>, where
    \<open>step_rows\<close> writes both rows); failures of single SQL statements outside \<open>ApprovalRace\<close>.
\<close>

end
